(* ===== verification/Prelude.thy ===== *)
theory Prelude
  imports Main "HOL-Library.Word"
begin

text \<open>
  Shared vocabulary of the development: the C integer types of \<^verbatim>\<open>kernel/types.h\<close> as words, the
  outcome of a kernel operation (returned, panicked, or blocked), the sequencing combinator that
  every fallible operation is written with, and generic facts on lists and words that the
  components use.
\<close>

unbundle bit_operations_syntax

named_theorems kdefs \<open>definitions of straight-line kernel operations, unfolded together\<close>

section \<open>C integer types\<close>

type_synonym u8 = "8 word"
type_synonym u16 = "16 word"
type_synonym u32 = "32 word"
type_synonym u64 = "64 word"

text \<open>
  The gcc conversion of an integer to \<^verbatim>\<open>int\<close>: the low 32 bits, read in two's complement.
\<close>

definition to_int32 :: "int \<Rightarrow> int" where
  "to_int32 x = sint (word_of_int x :: u32)"

section \<open>Outcomes of kernel operations\<close>

text \<open>
  \<open>Ret x s\<close>: the C function returned \<open>x\<close> and left state \<open>s\<close>.  \<open>Panic m\<close>: it called
  \<^verbatim>\<open>panic(m)\<close>, which never returns.  \<open>Blocked s\<close>: in state \<open>s\<close> it spins on a lock that another
  hart holds.  \<open>Slept s\<close>: in state \<open>s\<close> it has switched to the scheduler.  \<open>Diverge\<close>: it recursed or
  looped past the bound its definition gives, which no theorem takes for a return.
\<close>

datatype ('s, 'a) outcome = Ret 'a 's | Panic string | Blocked 's | Slept 's | Diverge

definition andthen :: "('s, 'a) outcome \<Rightarrow> ('a \<Rightarrow> 's \<Rightarrow> ('s, 'b) outcome) \<Rightarrow> ('s, 'b) outcome" where
  "andthen r k = (case r of Ret x s \<Rightarrow> k x s | Panic m \<Rightarrow> Panic m | Blocked s \<Rightarrow> Blocked s | Slept s \<Rightarrow> Slept s | Diverge \<Rightarrow> Diverge)"

definition returns :: "('s, 'a) outcome \<Rightarrow> bool" where
  "returns r = (case r of Ret _ _ \<Rightarrow> True | _ \<Rightarrow> False)"

definition panics :: "('s, 'a) outcome \<Rightarrow> bool" where
  "panics r = (case r of Panic _ \<Rightarrow> True | _ \<Rightarrow> False)"

lemma andthen_simps [simp]:
  "andthen (Ret x s) k = k x s"
  "andthen (Panic m) k = Panic m"
  "andthen (Blocked s) k = Blocked s"
  "andthen (Slept s) k = Slept s"
  "andthen Diverge k = Diverge"
  by (simp_all add: andthen_def)

lemma andthen_Ret_iff:
  "andthen r k = Ret y t \<longleftrightarrow> (\<exists>x s. r = Ret x s \<and> k x s = Ret y t)"
  by (cases r) auto

lemma andthen_RetE [elim!]:
  assumes "andthen r k = Ret y t"
  obtains x s where "r = Ret x s" and "k x s = Ret y t"
  using assms by (auto simp: andthen_Ret_iff)

lemma andthen_assoc: "andthen (andthen r k) h = andthen r (\<lambda>x s. andthen (k x s) h)"
  by (cases r) auto

lemma andthen_cong [fundef_cong]:
  assumes "r = r'" and "\<And>x s. r' = Ret x s \<Longrightarrow> k x s = k' x s"
  shows "andthen r k = andthen r' k'"
  using assms by (cases r') auto

lemma returns_simps [simp]:
  "returns (Ret x s)" "\<not> returns (Panic m)" "\<not> returns (Blocked s)" "\<not> returns (Slept s)" "\<not> returns Diverge"
  by (simp_all add: returns_def)

lemma panics_simps [simp]:
  "\<not> panics (Ret x s)" "panics (Panic m)" "\<not> panics (Blocked s)" "\<not> panics (Slept s)" "\<not> panics Diverge"
  by (simp_all add: panics_def)

lemma returns_iff: "returns r \<longleftrightarrow> (\<exists>x s. r = Ret x s)"
  by (cases r) auto

text \<open>A loop over a list of indices whose body may fail; the first body that does not return ends it.\<close>

fun for_each :: "('i \<Rightarrow> 's \<Rightarrow> ('s, unit) outcome) \<Rightarrow> 'i list \<Rightarrow> 's \<Rightarrow> ('s, unit) outcome" where
  "for_each body [] s = Ret () s"
| "for_each body (i # is) s = andthen (body i s) (\<lambda>_ s. for_each body is s)"

lemma for_each_append: "for_each body (is @ js) s = andthen (for_each body is s) (\<lambda>_ s. for_each body js s)"
  by (induction "is" arbitrary: s) (auto simp: andthen_assoc intro: andthen_cong)

section \<open>Transition systems\<close>

text \<open>
  Interface of every state machine of the development: an initial predicate, a step relation and a
  property that holds initially and is kept by each step.  Reachable states then satisfy it.
\<close>

inductive reachable_from :: "('s \<Rightarrow> bool) \<Rightarrow> ('s \<Rightarrow> 's \<Rightarrow> bool) \<Rightarrow> 's \<Rightarrow> bool"
  for init step where
  reach_init: "init s \<Longrightarrow> reachable_from init step s"
| reach_step: "reachable_from init step s \<Longrightarrow> step s t \<Longrightarrow> reachable_from init step t"

locale inductive_invariant =
  fixes init :: "'s \<Rightarrow> bool" and step :: "'s \<Rightarrow> 's \<Rightarrow> bool" and inv :: "'s \<Rightarrow> bool"
  assumes inv_init: "init s \<Longrightarrow> inv s"
    and inv_step: "inv s \<Longrightarrow> step s t \<Longrightarrow> inv t"
begin

lemma reachable_inv: "reachable_from init step s \<Longrightarrow> inv s"
  by (induction rule: reachable_from.induct) (auto intro: inv_init inv_step)

lemma steps_inv: "step\<^sup>*\<^sup>* s t \<Longrightarrow> inv s \<Longrightarrow> inv t"
  by (induction rule: rtranclp_induct) (auto intro: inv_step)

end

lemma reachable_steps:
  "reachable_from init step s \<Longrightarrow> step\<^sup>*\<^sup>* s t \<Longrightarrow> reachable_from init step t"
  by (rotate_tac, induction rule: rtranclp_induct) (auto intro: reach_step)

section \<open>Lists\<close>

text \<open>Index of the first element that satisfies a predicate: the table scans of the kernel.\<close>

fun first_index :: "('a \<Rightarrow> bool) \<Rightarrow> 'a list \<Rightarrow> nat option" where
  "first_index P [] = None"
| "first_index P (x # xs) = (if P x then Some 0 else map_option Suc (first_index P xs))"

lemma first_index_None [simp]: "first_index P xs = None \<longleftrightarrow> (\<forall>x \<in> set xs. \<not> P x)"
  by (induction xs) auto

lemma first_index_Some:
  "first_index P xs = Some i \<longleftrightarrow> i < length xs \<and> P (xs ! i) \<and> (\<forall>j < i. \<not> P (xs ! j))"
proof (induction xs arbitrary: i)
  case Nil
  then show ?case by simp
next
  case (Cons x xs)
  show ?case
    by (cases i) (auto simp: Cons.IH nth_Cons split: nat.splits)
qed

lemma first_indexD:
  assumes "first_index P xs = Some i"
  shows "i < length xs" and "P (xs ! i)" and "\<And>j. j < i \<Longrightarrow> \<not> P (xs ! j)"
  using assms by (auto simp: first_index_Some)

end
