(* ===== verification/Spinlock.thy ===== *)
theory Spinlock
  imports Prelude
begin

text \<open>
  \<^verbatim>\<open>kernel/spinlock.c\<close> and the part of \<^verbatim>\<open>struct cpu\<close> it uses: nested interrupt disabling
  (\<^verbatim>\<open>push_off\<close>, \<^verbatim>\<open>pop_off\<close>) and spin locks.  The first half translates the functions, each as run by
  one hart \<open>c\<close> (the value \<^verbatim>\<open>cpuid()\<close> returns), and gives closed forms for uncontended use; every later
  component acquires and releases its locks through them.  The second half splits the functions at
  their atomic memory accesses and proves mutual exclusion for every interleaving of the harts.
\<close>

section \<open>Data\<close>

text \<open>One constructor per spin lock object of the kernel.\<close>

datatype lockid = LKmem | LPid | LWait | LProc nat | LBcache | LLog | LItable | LFtable | LTicks
  | LCons | LPr | LUart | LVdisk | LPipe u64 | LBufSleep nat | LInodeSleep nat

record cpu =
  cpu_proc :: "nat option"
  noff :: int
  intena :: bool

record spinlock =
  locked :: bool
  lk_name :: string
  lk_cpu :: "nat option"

text \<open>
  The machine state that locking touches: the \<^verbatim>\<open>SIE\<close> bit of each hart's \<^verbatim>\<open>sstatus\<close>, the array
  \<^verbatim>\<open>cpus\<close>, and the lock objects.
\<close>

record mach =
  sie :: "nat \<Rightarrow> bool"
  cpus :: "nat \<Rightarrow> cpu"
  locks :: "lockid \<Rightarrow> spinlock"

section \<open>Operations\<close>

definition intr_get :: "nat \<Rightarrow> mach \<Rightarrow> bool" where
  "intr_get c m = sie m c"

definition intr_on :: "nat \<Rightarrow> mach \<Rightarrow> mach" where
  "intr_on c m = m\<lparr>sie := (sie m)(c := True)\<rparr>"

definition intr_off :: "nat \<Rightarrow> mach \<Rightarrow> mach" where
  "intr_off c m = m\<lparr>sie := (sie m)(c := False)\<rparr>"

definition upd_cpu :: "nat \<Rightarrow> (cpu \<Rightarrow> cpu) \<Rightarrow> mach \<Rightarrow> mach" where
  "upd_cpu c f m = m\<lparr>cpus := (cpus m)(c := f (cpus m c))\<rparr>"

definition upd_lock :: "lockid \<Rightarrow> (spinlock \<Rightarrow> spinlock) \<Rightarrow> mach \<Rightarrow> mach" where
  "upd_lock l f m = m\<lparr>locks := (locks m)(l := f (locks m l))\<rparr>"

definition initlock :: "lockid \<Rightarrow> string \<Rightarrow> mach \<Rightarrow> mach" where
  "initlock l nm m = upd_lock l (\<lambda>k. k\<lparr>lk_name := nm, locked := False, lk_cpu := None\<rparr>) m"

definition push_off :: "nat \<Rightarrow> mach \<Rightarrow> mach" where
  "push_off c m =
     (let old = intr_get c m;
          m = intr_off c m;
          m = (if noff (cpus m c) = 0 then upd_cpu c (\<lambda>k. k\<lparr>intena := old\<rparr>) m else m)
      in upd_cpu c (\<lambda>k. k\<lparr>noff := noff k + 1\<rparr>) m)"

definition pop_off :: "nat \<Rightarrow> mach \<Rightarrow> (mach, unit) outcome" where
  "pop_off c m =
     (if intr_get c m then Panic ''pop_off - interruptible''
      else if noff (cpus m c) < 1 then Panic ''pop_off''
      else let m = upd_cpu c (\<lambda>k. k\<lparr>noff := noff k - 1\<rparr>) m
           in Ret () (if noff (cpus m c) = 0 \<and> intena (cpus m c) then intr_on c m else m))"

definition holding :: "nat \<Rightarrow> lockid \<Rightarrow> mach \<Rightarrow> bool" where
  "holding c l m = (locked (locks m l) \<and> lk_cpu (locks m l) = Some c)"

text \<open>
  The loop on \<^verbatim>\<open>__sync_lock_test_and_set\<close> ends at once when the lock is free; otherwise it spins with
  interrupts off, in the state \<open>Blocked\<close> carries.
\<close>

definition acquire :: "nat \<Rightarrow> lockid \<Rightarrow> mach \<Rightarrow> (mach, unit) outcome" where
  "acquire c l m =
     (let m = push_off c m
      in if holding c l m then Panic ''acquire''
         else if locked (locks m l) then Blocked m
         else let m = upd_lock l (\<lambda>k. k\<lparr>locked := True\<rparr>) m
              in Ret () (upd_lock l (\<lambda>k. k\<lparr>lk_cpu := Some c\<rparr>) m))"

definition release :: "nat \<Rightarrow> lockid \<Rightarrow> mach \<Rightarrow> (mach, unit) outcome" where
  "release c l m =
     (if \<not> holding c l m then Panic ''release''
      else let m = upd_lock l (\<lambda>k. k\<lparr>lk_cpu := None\<rparr>) m;
               m = upd_lock l (\<lambda>k. k\<lparr>locked := False\<rparr>) m
           in pop_off c m)"

lemmas spin_defs = intr_get_def intr_on_def intr_off_def upd_cpu_def upd_lock_def initlock_def
  push_off_def pop_off_def holding_def acquire_def release_def Let_def

section \<open>Closed forms\<close>

text \<open>
  What a hart needs to take lock \<open>l\<close> at once: it is free, the nesting depth is sane, and interrupts are
  off inside a \<^verbatim>\<open>push_off\<close> region.
\<close>

definition lock_free :: "lockid \<Rightarrow> mach \<Rightarrow> bool" where
  "lock_free l m \<longleftrightarrow> \<not> locked (locks m l) \<and> lk_cpu (locks m l) = None"

definition cpu_ok :: "nat \<Rightarrow> mach \<Rightarrow> bool" where
  "cpu_ok c m \<longleftrightarrow> 0 \<le> noff (cpus m c) \<and> (0 < noff (cpus m c) \<longrightarrow> \<not> sie m c)"

definition can_acquire :: "nat \<Rightarrow> lockid \<Rightarrow> mach \<Rightarrow> bool" where
  "can_acquire c l m \<longleftrightarrow> lock_free l m \<and> cpu_ok c m"

definition acquired :: "nat \<Rightarrow> lockid \<Rightarrow> mach \<Rightarrow> mach" where
  "acquired c l m = upd_lock l (\<lambda>k. k\<lparr>locked := True, lk_cpu := Some c\<rparr>) (push_off c m)"

text \<open>The machine after a matched \<^verbatim>\<open>acquire\<close>/\<^verbatim>\<open>release\<close>: only the saved \<^verbatim>\<open>intena\<close> can differ.\<close>

definition after_cs :: "nat \<Rightarrow> mach \<Rightarrow> mach" where
  "after_cs c m =
     (if noff (cpus m c) = 0 then upd_cpu c (\<lambda>k. k\<lparr>intena := sie m c\<rparr>) m else m)"

lemma noff_upd_id: "noff k = n \<Longrightarrow> k\<lparr>intena := b, noff := n\<rparr> = k\<lparr>intena := b\<rparr>"
  by (cases k) simp

lemma push_pop_off:
  assumes "cpu_ok c m"
  shows "pop_off c (push_off c m) = Ret () (after_cs c m)"
proof (cases "noff (cpus m c) = 0")
  case True
  then show ?thesis
    by (cases "sie m c")
       (auto simp: push_off_def pop_off_def after_cs_def upd_cpu_def intr_get_def intr_off_def
          intr_on_def Let_def fun_upd_idem fun_upd_idem_iff noff_upd_id)
next
  case False
  with assms show ?thesis
    by (auto simp: cpu_ok_def push_off_def pop_off_def after_cs_def upd_cpu_def intr_get_def
          intr_off_def Let_def fun_upd_idem_iff)
qed

lemma acquire_ok: "lock_free l m \<Longrightarrow> acquire c l m = Ret () (acquired c l m)"
  by (simp add: spin_defs lock_free_def acquired_def)

lemma upd_lock_push_off: "upd_lock l f (push_off c m) = push_off c (upd_lock l f m)"
  by (simp add: upd_lock_def push_off_def intr_get_def intr_off_def upd_cpu_def Let_def)

lemma upd_lock_upd_lock: "upd_lock l f (upd_lock l g m) = upd_lock l (f \<circ> g) m"
  by (simp add: upd_lock_def)

lemma upd_lock_id: "f (locks m l) = locks m l \<Longrightarrow> upd_lock l f m = m"
  by (simp add: upd_lock_def fun_upd_idem)

lemma release_acquired:
  assumes "can_acquire c l m"
  shows "release c l (acquired c l m) = Ret () (after_cs c m)"
proof -
  have h: "holding c l (acquired c l m)"
    by (simp add: holding_def acquired_def upd_lock_def)
  have "upd_lock l (\<lambda>k. k\<lparr>locked := False\<rparr>) (upd_lock l (\<lambda>k. k\<lparr>lk_cpu := None\<rparr>) (acquired c l m))
        = upd_lock l (\<lambda>k. k\<lparr>lk_cpu := None, locked := False\<rparr>) (push_off c m)"
    by (simp add: acquired_def upd_lock_upd_lock comp_def)
  also have "\<dots> = push_off c m"
    using assms
    by (intro upd_lock_id)
       (simp add: can_acquire_def lock_free_def push_off_def intr_get_def intr_off_def upd_cpu_def Let_def)
  finally show ?thesis
    using h assms push_pop_off by (simp add: release_def can_acquire_def)
qed

lemma locks_push_off [simp]: "locks (push_off c m) = locks m"
  by (simp add: push_off_def intr_get_def intr_off_def upd_cpu_def Let_def)

lemma locks_after_cs [simp]: "locks (after_cs c m) = locks m"
  by (simp add: after_cs_def upd_cpu_def)

lemma sie_after_cs [simp]: "sie (after_cs c m) = sie m"
  by (simp add: after_cs_def upd_cpu_def)

lemma noff_after_cs [simp]: "noff (cpus (after_cs c m) d) = noff (cpus m d)"
  by (simp add: after_cs_def upd_cpu_def)

lemma cpu_proc_after_cs [simp]: "cpu_proc (cpus (after_cs c m) d) = cpu_proc (cpus m d)"
  by (simp add: after_cs_def upd_cpu_def)

lemma after_cs_idem [simp]: "after_cs c (after_cs c m) = after_cs c m"
  by (simp add: after_cs_def upd_cpu_def)

lemma can_acquire_after_cs [simp]: "can_acquire d l (after_cs c m) = can_acquire d l m"
  by (simp add: can_acquire_def lock_free_def cpu_ok_def)

lemma noff_acquired [simp]:
  "noff (cpus (acquired c l m) d) = (if d = c then noff (cpus m c) + 1 else noff (cpus m d))"
  by (simp add: acquired_def upd_lock_def push_off_def intr_get_def intr_off_def upd_cpu_def Let_def)

lemma cpu_proc_acquired [simp]: "cpu_proc (cpus (acquired c l m) d) = cpu_proc (cpus m d)"
  by (simp add: acquired_def upd_lock_def push_off_def intr_get_def intr_off_def upd_cpu_def Let_def)

lemma sie_acquired [simp]: "sie (acquired c l m) = (sie m)(c := False)"
  by (simp add: acquired_def upd_lock_def push_off_def intr_get_def intr_off_def upd_cpu_def Let_def)

lemma locks_acquired [simp]:
  "locks (acquired c l m) = (locks m)(l := (locks m l)\<lparr>locked := True, lk_cpu := Some c\<rparr>)"
  by (simp add: acquired_def upd_lock_def)

lemma after_cs_acquired [simp]: "cpu_ok c m \<Longrightarrow> after_cs c (acquired c l m) = acquired c l m"
  by (simp add: after_cs_def cpu_ok_def)

lemma acquired_after_cs [simp]: "acquired c l (after_cs c m) = acquired c l m"
  by (simp add: acquired_def after_cs_def push_off_def intr_get_def intr_off_def upd_cpu_def upd_lock_def Let_def)

lemma can_acquire_acquired [simp]:
  "can_acquire c l m \<Longrightarrow> can_acquire c k (acquired c l m) \<longleftrightarrow> k \<noteq> l \<and> lock_free k m"
  by (auto simp: can_acquire_def lock_free_def cpu_ok_def)

section \<open>The locking interface\<close>

text \<open>
  What a client of a lock relies on: entering an available lock succeeds, leaving undoes it up to
  \<open>after\<close>, and both nest.
\<close>

locale critical_section =
  fixes enter leave :: "'l \<Rightarrow> 's \<Rightarrow> ('s, unit) outcome"
    and avail :: "'l \<Rightarrow> 's \<Rightarrow> bool" and entered :: "'l \<Rightarrow> 's \<Rightarrow> 's" and after :: "'s \<Rightarrow> 's"
  assumes enter_ok: "avail l s \<Longrightarrow> enter l s = Ret () (entered l s)"
    and leave_ok: "avail l s \<Longrightarrow> leave l (entered l s) = Ret () (after s)"
    and after_entered: "avail l s \<Longrightarrow> after (entered l s) = entered l s"
    and after_after: "after (after s) = after s"
    and avail_after: "avail l (after s) = avail l s"
    and avail_nested: "avail l s \<Longrightarrow> avail k s \<Longrightarrow> k \<noteq> l \<Longrightarrow> avail k (entered l s)"
begin

lemma bracket: "avail l s \<Longrightarrow> andthen (enter l s) (\<lambda>_ s. leave l s) = Ret () (after s)"
  by (simp add: enter_ok leave_ok)

lemma nested_bracket:
  assumes "avail l s" and "avail k s" and "k \<noteq> l"
  shows "andthen (enter l s) (\<lambda>_ s. andthen (enter k s) (\<lambda>_ s. andthen (leave k s) (\<lambda>_ s. leave l s)))
         = Ret () (after s)"
  using assms by (simp add: enter_ok leave_ok avail_nested after_entered)

fun bracket_all :: "'l list \<Rightarrow> 's \<Rightarrow> ('s, unit) outcome" where
  "bracket_all [] s = Ret () s"
| "bracket_all (l # ls) s = andthen (enter l s) (\<lambda>_ s. andthen (leave l s) (\<lambda>_ s. bracket_all ls s))"

lemma bracket_all_ok:
  "\<forall>l \<in> set ls. avail l s \<Longrightarrow> ls \<noteq> [] \<Longrightarrow> bracket_all ls s = Ret () (after s)"
proof (induction ls arbitrary: s)
  case (Cons l ls)
  show ?case
  proof (cases "ls = []")
    case True
    with Cons.prems show ?thesis by (simp add: enter_ok leave_ok)
  next
    case False
    moreover have "\<forall>k \<in> set ls. avail k (after s)"
      using Cons.prems by (simp add: avail_after)
    ultimately have "bracket_all ls (after s) = Ret () (after s)"
      using Cons.IH [of "after s"] by (simp add: after_after)
    with Cons.prems show ?thesis by (simp add: enter_ok leave_ok)
  qed
qed simp

end

interpretation spin: critical_section "acquire c" "release c" "can_acquire c" "acquired c" "after_cs c"
  for c
  by unfold_locales
     (auto simp: acquire_ok release_acquired can_acquire_def lock_free_def cpu_ok_def)

section \<open>Locks inside the kernel state\<close>

text \<open>
  The state of the kernel is a chain of extensible records that starts with the machine; each component
  adds the fields of its own globals.  \<open>on_mach\<close> runs a locking operation inside such a state.
\<close>

record kst =
  kmach :: mach

definition on_mach :: "(mach \<Rightarrow> (mach, 'a) outcome) \<Rightarrow> 'z kst_scheme \<Rightarrow> ('z kst_scheme, 'a) outcome" where
  "on_mach f s = (case f (kmach s) of Ret x m \<Rightarrow> Ret x (s\<lparr>kmach := m\<rparr>)
                  | Panic e \<Rightarrow> Panic e | Blocked m \<Rightarrow> Blocked (s\<lparr>kmach := m\<rparr>) | Slept m \<Rightarrow> Slept (s\<lparr>kmach := m\<rparr>) | Diverge \<Rightarrow> Diverge)"

definition k_acquire :: "nat \<Rightarrow> lockid \<Rightarrow> 'z kst_scheme \<Rightarrow> ('z kst_scheme, unit) outcome" where
  "k_acquire c l s = on_mach (acquire c l) s"

definition k_release :: "nat \<Rightarrow> lockid \<Rightarrow> 'z kst_scheme \<Rightarrow> ('z kst_scheme, unit) outcome" where
  "k_release c l s = on_mach (release c l) s"

abbreviation k_can :: "nat \<Rightarrow> lockid \<Rightarrow> 'z kst_scheme \<Rightarrow> bool" where
  "k_can c l s \<equiv> can_acquire c l (kmach s)"

lemma k_acquire_ok [simp]:
  "k_can c l s \<Longrightarrow> k_acquire c l s = Ret () (s\<lparr>kmach := acquired c l (kmach s)\<rparr>)"
  by (simp add: k_acquire_def on_mach_def acquire_ok can_acquire_def)

lemma k_release_ok [simp]:
  "kmach s = acquired c l m \<Longrightarrow> can_acquire c l m \<Longrightarrow>
   k_release c l s = Ret () (s\<lparr>kmach := after_cs c m\<rparr>)"
  by (simp add: k_release_def on_mach_def release_acquired)

lemma k_acquire_Ret:
  "k_acquire c l s = Ret () t \<Longrightarrow> t = s\<lparr>kmach := kmach t\<rparr>"
  by (auto simp: k_acquire_def on_mach_def split: outcome.splits)

lemma k_release_Ret:
  "k_release c l s = Ret () t \<Longrightarrow> t = s\<lparr>kmach := kmach t\<rparr>"
  by (auto simp: k_release_def on_mach_def split: outcome.splits)

section \<open>Interleaved execution\<close>

text \<open>
  The harts run \<^verbatim>\<open>acquire\<close>, \<^verbatim>\<open>release\<close>, \<^verbatim>\<open>push_off\<close> and \<^verbatim>\<open>pop_off\<close> in any interleaving of their atomic
  actions.  \<open>Spinning l\<close>: inside \<^verbatim>\<open>acquire(l)\<close>, before the swap succeeds; \<open>Swapped l\<close>: the swap returned 0
  and \<^verbatim>\<open>lk->cpu\<close> is not yet written; \<open>Unmarked l\<close>: inside \<^verbatim>\<open>release(l)\<close>, after \<^verbatim>\<open>lk->cpu = 0\<close>; \<open>Stored\<close>: after
  the store of 0, before \<^verbatim>\<open>pop_off\<close>.  \<open>ss_plain\<close> counts a hart's open \<^verbatim>\<open>push_off\<close> calls that are not part
  of a lock operation.
\<close>

datatype lock_pc = Idle | Spinning lockid | Swapped lockid | Unmarked lockid | Stored

record spin_sys =
  ss_mach :: mach
  ss_pc :: "nat \<Rightarrow> lock_pc"
  ss_plain :: "nat \<Rightarrow> nat"

inductive spin_step :: "spin_sys \<Rightarrow> spin_sys \<Rightarrow> bool" where
  acq_start: "ss_pc s c = Idle \<Longrightarrow> \<not> holding c l (push_off c (ss_mach s)) \<Longrightarrow>
    spin_step s (s\<lparr>ss_mach := push_off c (ss_mach s), ss_pc := (ss_pc s)(c := Spinning l)\<rparr>)"
| acq_busy: "ss_pc s c = Spinning l \<Longrightarrow> locked (locks (ss_mach s) l) \<Longrightarrow> spin_step s s"
| acq_swap: "ss_pc s c = Spinning l \<Longrightarrow> \<not> locked (locks (ss_mach s) l) \<Longrightarrow>
    spin_step s (s\<lparr>ss_mach := upd_lock l (\<lambda>k. k\<lparr>locked := True\<rparr>) (ss_mach s),
                   ss_pc := (ss_pc s)(c := Swapped l)\<rparr>)"
| acq_mark: "ss_pc s c = Swapped l \<Longrightarrow>
    spin_step s (s\<lparr>ss_mach := upd_lock l (\<lambda>k. k\<lparr>lk_cpu := Some c\<rparr>) (ss_mach s),
                   ss_pc := (ss_pc s)(c := Idle)\<rparr>)"
| rel_unmark: "ss_pc s c = Idle \<Longrightarrow> holding c l (ss_mach s) \<Longrightarrow>
    spin_step s (s\<lparr>ss_mach := upd_lock l (\<lambda>k. k\<lparr>lk_cpu := None\<rparr>) (ss_mach s),
                   ss_pc := (ss_pc s)(c := Unmarked l)\<rparr>)"
| rel_store: "ss_pc s c = Unmarked l \<Longrightarrow>
    spin_step s (s\<lparr>ss_mach := upd_lock l (\<lambda>k. k\<lparr>locked := False\<rparr>) (ss_mach s),
                   ss_pc := (ss_pc s)(c := Stored)\<rparr>)"
| rel_pop: "ss_pc s c = Stored \<Longrightarrow> pop_off c (ss_mach s) = Ret () m \<Longrightarrow>
    spin_step s (s\<lparr>ss_mach := m, ss_pc := (ss_pc s)(c := Idle)\<rparr>)"
| plain_push: "ss_pc s c = Idle \<Longrightarrow>
    spin_step s (s\<lparr>ss_mach := push_off c (ss_mach s), ss_plain := (ss_plain s)(c := ss_plain s c + 1)\<rparr>)"
| plain_pop: "ss_pc s c = Idle \<Longrightarrow> 0 < ss_plain s c \<Longrightarrow> pop_off c (ss_mach s) = Ret () m \<Longrightarrow>
    spin_step s (s\<lparr>ss_mach := m, ss_plain := (ss_plain s)(c := ss_plain s c - 1)\<rparr>)"
| enable: "ss_pc s c = Idle \<Longrightarrow> noff (cpus (ss_mach s) c) = 0 \<Longrightarrow>
    spin_step s (s\<lparr>ss_mach := intr_on c (ss_mach s)\<rparr>)"
| disable: "ss_pc s c = Idle \<Longrightarrow> spin_step s (s\<lparr>ss_mach := intr_off c (ss_mach s)\<rparr>)"

definition spin_init :: "spin_sys \<Rightarrow> bool" where
  "spin_init s \<longleftrightarrow> (\<forall>l. lock_free l (ss_mach s)) \<and> (\<forall>c. noff (cpus (ss_mach s) c) = 0)
     \<and> (\<forall>c. ss_pc s c = Idle) \<and> (\<forall>c. ss_plain s c = 0)"

text \<open>
  Hart \<open>c\<close> is between the successful swap on \<open>l\<close> and the store that releases it.
\<close>

definition in_cs :: "nat \<Rightarrow> lockid \<Rightarrow> spin_sys \<Rightarrow> bool" where
  "in_cs c l s \<longleftrightarrow> lk_cpu (locks (ss_mach s) l) = Some c \<or> ss_pc s c = Swapped l \<or> ss_pc s c = Unmarked l"

definition held_set :: "nat \<Rightarrow> spin_sys \<Rightarrow> lockid set" where
  "held_set c s = {l. lk_cpu (locks (ss_mach s) l) = Some c}"

definition in_flight :: "nat \<Rightarrow> lockid \<Rightarrow> spin_sys \<Rightarrow> bool" where
  "in_flight c l s \<longleftrightarrow> ss_pc s c = Swapped l \<or> ss_pc s c = Unmarked l"

text \<open>A lock is free, or marked by one hart, or taken and unmarked with exactly one hart in flight.\<close>

definition lock_ok :: "lockid \<Rightarrow> spin_sys \<Rightarrow> bool" where
  "lock_ok l s \<longleftrightarrow>
     (\<not> locked (locks (ss_mach s) l) \<and> lk_cpu (locks (ss_mach s) l) = None \<and> (\<forall>d. \<not> in_flight d l s)) \<or>
     (locked (locks (ss_mach s) l) \<and> lk_cpu (locks (ss_mach s) l) \<noteq> None \<and> (\<forall>d. \<not> in_flight d l s)) \<or>
     (locked (locks (ss_mach s) l) \<and> lk_cpu (locks (ss_mach s) l) = None \<and> (\<exists>!c. in_flight c l s))"

definition lock_inv :: "spin_sys \<Rightarrow> bool" where
  "lock_inv s \<longleftrightarrow> (\<forall>l. lock_ok l s)"

definition depth_inv :: "spin_sys \<Rightarrow> bool" where
  "depth_inv s \<longleftrightarrow> (\<forall>c. finite (held_set c s) \<and>
     noff (cpus (ss_mach s) c) =
       int (card (held_set c s) + ss_plain s c + (if ss_pc s c = Idle then 0 else 1)) \<and>
     (0 < noff (cpus (ss_mach s) c) \<longrightarrow> \<not> sie (ss_mach s) c))"

lemma push_off_fields [simp]:
  "noff (cpus (push_off c m) d) = noff (cpus m d) + (if d = c then 1 else 0)"
  "sie (push_off c m) = (sie m)(c := False)"
  by (simp_all add: push_off_def intr_get_def intr_off_def upd_cpu_def Let_def)

lemma pop_off_Ret:
  assumes "pop_off c m = Ret () m'"
  shows "locks m' = locks m" and "1 \<le> noff (cpus m c)" and "\<not> sie m c"
    and "noff (cpus m' d) = noff (cpus m d) - (if d = c then 1 else 0)"
    and "sie m' d = (if d = c then noff (cpus m c) = 1 \<and> intena (cpus m c) else sie m d)"
  using assms
  by (auto simp: pop_off_def intr_get_def intr_on_def upd_cpu_def Let_def split: if_splits)

lemma upd_lock_fields [simp]:
  "cpus (upd_lock l f m) = cpus m" "sie (upd_lock l f m) = sie m"
  "locks (upd_lock l f m) = (locks m)(l := f (locks m l))"
  by (simp_all add: upd_lock_def)

lemma intr_fields [simp]:
  "locks (intr_on c m) = locks m" "cpus (intr_on c m) = cpus m" "sie (intr_on c m) = (sie m)(c := True)"
  "locks (intr_off c m) = locks m" "cpus (intr_off c m) = cpus m" "sie (intr_off c m) = (sie m)(c := False)"
  by (simp_all add: intr_on_def intr_off_def)

lemma spin_init_inv: "spin_init s \<Longrightarrow> lock_inv s \<and> depth_inv s"
  by (simp add: spin_init_def lock_inv_def lock_ok_def in_flight_def depth_inv_def held_set_def lock_free_def)

lemma lock_ok_frame:
  assumes "lock_ok l s" and "locks (ss_mach t) l = locks (ss_mach s) l"
    and "\<And>d. in_flight d l t = in_flight d l s"
  shows "lock_ok l t"
  using assms by (simp add: lock_ok_def)

lemma spin_step_lock_ok:
  assumes "spin_step s t" and "lock_ok l s"
  shows "lock_ok l t"
  using assms
proof (induction rule: spin_step.induct)
  case (acq_swap s c k)
  show ?case
  proof (cases "k = l")
    case True
    with acq_swap show ?thesis by (auto simp: lock_ok_def in_flight_def)
  next
    case False
    with acq_swap show ?thesis by (auto simp: in_flight_def elim!: lock_ok_frame split: if_splits)
  qed
next
  case (acq_mark s c k)
  show ?case
  proof (cases "k = l")
    case True
    with acq_mark show ?thesis by (auto simp: lock_ok_def in_flight_def)
  next
    case False
    with acq_mark show ?thesis by (auto simp: in_flight_def elim!: lock_ok_frame split: if_splits)
  qed
next
  case (rel_unmark s c k)
  show ?case
  proof (cases "k = l")
    case True
    with rel_unmark show ?thesis by (auto simp: lock_ok_def in_flight_def holding_def)
  next
    case False
    with rel_unmark show ?thesis by (auto simp: in_flight_def elim!: lock_ok_frame split: if_splits)
  qed
next
  case (rel_store s c k)
  show ?case
  proof (cases "k = l")
    case True
    with rel_store show ?thesis by (auto simp: lock_ok_def in_flight_def)
  next
    case False
    with rel_store show ?thesis by (auto simp: in_flight_def elim!: lock_ok_frame split: if_splits)
  qed
next
  case (acq_start s c k)
  show ?case by (rule lock_ok_frame [OF \<open>lock_ok l s\<close>]) (use acq_start in \<open>auto simp: in_flight_def\<close>)
next
  case (rel_pop s c m)
  show ?case
    by (rule lock_ok_frame [OF \<open>lock_ok l s\<close>])
       (use rel_pop in \<open>auto simp: in_flight_def pop_off_Ret(1)\<close>)
next
  case (plain_pop s c m)
  show ?case
    by (rule lock_ok_frame [OF \<open>lock_ok l s\<close>])
       (use plain_pop in \<open>auto simp: in_flight_def pop_off_Ret(1)\<close>)
qed (simp_all add: lock_ok_def in_flight_def)

lemma held_set_locked [simp]:
  "held_set d (s\<lparr>ss_mach := upd_lock l (\<lambda>k. k\<lparr>locked := b\<rparr>) (ss_mach s), ss_pc := p\<rparr>) = held_set d s"
  by (auto simp: held_set_def)

lemma held_set_locks: "locks (ss_mach t) = locks (ss_mach s) \<Longrightarrow> held_set d t = held_set d s"
  by (simp add: held_set_def)

lemma spin_step_depth_inv:
  assumes "spin_step s t" and "lock_inv s" and "depth_inv s"
  shows "depth_inv t"
  using assms
proof (induction rule: spin_step.induct)
  case (acq_mark s c l)
  have none: "lk_cpu (locks (ss_mach s) l) = None"
    using acq_mark by (auto simp: lock_inv_def lock_ok_def in_flight_def dest: spec [of _ l])
  let ?t = "s\<lparr>ss_mach := upd_lock l (\<lambda>k. k\<lparr>lk_cpu := Some c\<rparr>) (ss_mach s), ss_pc := (ss_pc s)(c := Idle)\<rparr>"
  have "held_set d ?t = (if d = c then insert l (held_set d s) else held_set d s)" for d
    using none by (auto simp: held_set_def)
  moreover have "l \<notin> held_set c s"
    using none by (simp add: held_set_def)
  ultimately show ?case
    using acq_mark by (auto simp: depth_inv_def)
next
  case (rel_unmark s c l)
  let ?t = "s\<lparr>ss_mach := upd_lock l (\<lambda>k. k\<lparr>lk_cpu := None\<rparr>) (ss_mach s), ss_pc := (ss_pc s)(c := Unmarked l)\<rparr>"
  have "held_set d ?t = (if d = c then held_set d s - {l} else held_set d s)" for d
    using rel_unmark by (auto simp: held_set_def holding_def)
  moreover have "l \<in> held_set c s"
    using rel_unmark by (simp add: held_set_def holding_def)
  moreover have "0 < card (held_set c s)"
    using rel_unmark \<open>l \<in> held_set c s\<close> by (auto simp: depth_inv_def card_gt_0_iff)
  ultimately show ?case
    using rel_unmark by (auto simp: depth_inv_def of_nat_diff)
next
  case (rel_pop s c m)
  have "held_set d (s\<lparr>ss_mach := m, ss_pc := (ss_pc s)(c := Idle)\<rparr>) = held_set d s" for d
    using rel_pop by (simp add: held_set_def pop_off_Ret)
  with rel_pop show ?case
    by (auto simp: depth_inv_def pop_off_Ret)
next
  case (plain_pop s c m)
  have "held_set d (s\<lparr>ss_mach := m, ss_plain := (ss_plain s)(c := ss_plain s c - 1)\<rparr>) = held_set d s" for d
    using plain_pop by (simp add: held_set_def pop_off_Ret)
  with plain_pop show ?case
    by (auto simp: depth_inv_def pop_off_Ret of_nat_diff)
next
  case (acq_swap s c l)
  then show ?case by (auto simp: depth_inv_def)
next
  case (rel_store s c l)
  then show ?case by (auto simp: depth_inv_def)
qed (auto simp: depth_inv_def held_set_def)

lemma spin_step_inv: "lock_inv s \<and> depth_inv s \<Longrightarrow> spin_step s t \<Longrightarrow> lock_inv t \<and> depth_inv t"
  by (meson lock_inv_def spin_step_lock_ok spin_step_depth_inv)

interpretation spin_inv: inductive_invariant spin_init spin_step "\<lambda>s. lock_inv s \<and> depth_inv s"
  by unfold_locales (fact spin_init_inv, fact spin_step_inv)

lemma lock_inv_unique: "lock_inv s \<Longrightarrow> in_cs c l s \<Longrightarrow> in_cs d l s \<Longrightarrow> c = d"
  unfolding lock_inv_def lock_ok_def in_cs_def in_flight_def
  by (drule spec [of _ l]) auto

lemma depth_inv_in_cs: "depth_inv s \<Longrightarrow> in_cs c l s \<Longrightarrow> 0 < noff (cpus (ss_mach s) c)"
proof -
  assume d: "depth_inv s" and c: "in_cs c l s"
  show ?thesis
  proof (cases "ss_pc s c = Idle")
    case True
    with c have "l \<in> held_set c s" by (simp add: in_cs_def held_set_def)
    with d have "0 < card (held_set c s)" by (auto simp: depth_inv_def card_gt_0_iff)
    with d show ?thesis by (simp add: depth_inv_def)
  next
    case False
    with d show ?thesis by (simp add: depth_inv_def)
  qed
qed

lemma depth_inv_cpu_ok: "depth_inv s \<Longrightarrow> cpu_ok c (ss_mach s)"
  by (auto simp: depth_inv_def cpu_ok_def)

lemma pop_off_returns: "cpu_ok c m \<Longrightarrow> 0 < noff (cpus m c) \<Longrightarrow> returns (pop_off c m)"
  by (simp add: cpu_ok_def pop_off_def intr_get_def Let_def)

text \<open>An uninterrupted call of \<^verbatim>\<open>acquire\<close> or \<^verbatim>\<open>release\<close> is a run of the interleaved system.\<close>

lemma acquire_steps:
  assumes "acquire c l (ss_mach s) = Ret () m" and "ss_pc s c = Idle"
  shows "spin_step\<^sup>*\<^sup>* s (s\<lparr>ss_mach := m\<rparr>)"
proof -
  let ?p = "push_off c (ss_mach s)"
  let ?w = "upd_lock l (\<lambda>k. k\<lparr>locked := True\<rparr>) ?p"
  from assms have nh: "\<not> holding c l ?p" and fr: "\<not> locked (locks ?p l)"
    and m: "m = upd_lock l (\<lambda>k. k\<lparr>lk_cpu := Some c\<rparr>) ?w"
    by (auto simp: acquire_def Let_def split: if_splits)
  define s1 where "s1 = s\<lparr>ss_mach := ?p, ss_pc := (ss_pc s)(c := Spinning l)\<rparr>"
  define s2 where "s2 = s\<lparr>ss_mach := ?w, ss_pc := (ss_pc s)(c := Swapped l)\<rparr>"
  have a: "spin_step s s1"
    unfolding s1_def using assms(2) nh by (rule acq_start)
  have b: "spin_step s1 s2"
    using acq_swap [of s1 c l] fr by (simp add: s1_def s2_def)
  have "spin_step s2 (s\<lparr>ss_mach := m, ss_pc := (ss_pc s)(c := Idle)\<rparr>)"
    using acq_mark [of s2 c l] by (simp add: s2_def m)
  then have c: "spin_step s2 (s\<lparr>ss_mach := m\<rparr>)"
    using assms(2) by (simp add: fun_upd_idem)
  from a b c show ?thesis
    by (meson converse_rtranclp_into_rtranclp rtranclp.rtrancl_refl)
qed

lemma release_steps:
  assumes "release c l (ss_mach s) = Ret () m" and "ss_pc s c = Idle"
  shows "spin_step\<^sup>*\<^sup>* s (s\<lparr>ss_mach := m\<rparr>)"
proof -
  let ?u = "upd_lock l (\<lambda>k. k\<lparr>lk_cpu := None\<rparr>) (ss_mach s)"
  let ?w = "upd_lock l (\<lambda>k. k\<lparr>locked := False\<rparr>) ?u"
  from assms have h: "holding c l (ss_mach s)" and m: "pop_off c ?w = Ret () m"
    by (auto simp: release_def Let_def split: if_splits)
  define s1 where "s1 = s\<lparr>ss_mach := ?u, ss_pc := (ss_pc s)(c := Unmarked l)\<rparr>"
  define s2 where "s2 = s\<lparr>ss_mach := ?w, ss_pc := (ss_pc s)(c := Stored)\<rparr>"
  have a: "spin_step s s1"
    unfolding s1_def using assms(2) h by (rule rel_unmark)
  have b: "spin_step s1 s2"
    using rel_store [of s1 c l] by (simp add: s1_def s2_def)
  have "spin_step s2 (s\<lparr>ss_mach := m, ss_pc := (ss_pc s)(c := Idle)\<rparr>)"
    using rel_pop [of s2 c m] m by (simp add: s2_def)
  then have c: "spin_step s2 (s\<lparr>ss_mach := m\<rparr>)"
    using assms(2) by (simp add: fun_upd_idem)
  from a b c show ?thesis
    by (meson converse_rtranclp_into_rtranclp rtranclp.rtrancl_refl)
qed

section \<open>Properties\<close>

text \<open>
  C2. Mutual exclusion: however the harts' \<^verbatim>\<open>acquire\<close>, \<^verbatim>\<open>release\<close>, \<^verbatim>\<open>push_off\<close> and \<^verbatim>\<open>pop_off\<close> interleave from a
  state with free locks, two harts are never both between taking and releasing the same spin lock, and
  the hart that is has interrupts disabled.
\<close>

theorem spin_mutual_exclusion:
  assumes "reachable_from spin_init spin_step s" and "in_cs c l s"
  shows "(in_cs d l s \<longrightarrow> d = c) \<and> \<not> sie (ss_mach s) c"
proof -
  from assms(1) have "lock_inv s" and "depth_inv s"
    using spin_inv.reachable_inv by auto
  have "\<not> sie (ss_mach s) c"
    using depth_inv_in_cs [OF \<open>depth_inv s\<close> assms(2)] \<open>depth_inv s\<close> by (simp add: depth_inv_def)
  moreover have "in_cs d l s \<longrightarrow> d = c"
    using lock_inv_unique [OF \<open>lock_inv s\<close> assms(2)] by blast
  ultimately show ?thesis by simp
qed

definition spin_boot :: spin_sys where
  "spin_boot = \<lparr>ss_mach = \<lparr>sie = (\<lambda>_. True), cpus = (\<lambda>_. \<lparr>cpu_proc = None, noff = 0, intena = False\<rparr>),
     locks = (\<lambda>_. \<lparr>locked = False, lk_name = [], lk_cpu = None\<rparr>)\<rparr>,
     ss_pc = (\<lambda>_. Idle), ss_plain = (\<lambda>_. 0)\<rparr>"

lemma spin_boot_acquired:
  "reachable_from spin_init spin_step (spin_boot\<lparr>ss_mach := acquired 0 LKmem (ss_mach spin_boot)\<rparr>)"
proof -
  have "reachable_from spin_init spin_step spin_boot"
    by (rule reach_init) (simp add: spin_init_def spin_boot_def lock_free_def)
  moreover have "acquire 0 LKmem (ss_mach spin_boot) = Ret () (acquired 0 LKmem (ss_mach spin_boot))"
    by (rule acquire_ok) (simp add: spin_boot_def lock_free_def)
  then have "spin_step\<^sup>*\<^sup>* spin_boot (spin_boot\<lparr>ss_mach := acquired 0 LKmem (ss_mach spin_boot)\<rparr>)"
    by (rule acquire_steps) (simp add: spin_boot_def)
  ultimately show ?thesis by (rule reachable_steps)
qed

theorem spin_mutual_exclusion_witness:
  "in_cs 0 LKmem (spin_boot\<lparr>ss_mach := acquired 0 LKmem (ss_mach spin_boot)\<rparr>) \<and>
   \<not> in_cs 1 LKmem (spin_boot\<lparr>ss_mach := acquired 0 LKmem (ss_mach spin_boot)\<rparr>) \<and>
   \<not> sie (acquired 0 LKmem (ss_mach spin_boot)) 0"
proof -
  let ?s = "spin_boot\<lparr>ss_mach := acquired 0 LKmem (ss_mach spin_boot)\<rparr>"
  have h: "in_cs 0 LKmem ?s" by (simp add: in_cs_def)
  from spin_mutual_exclusion [OF spin_boot_acquired h, of 1] h show ?thesis by simp
qed

text \<open>
  C3. An acquire followed by the matching release returns, never panics, and leaves lock, nesting
  depth and interrupt-enable bit as they were; and taking a lock twice on one hart panics instead of
  spinning for ever.
\<close>

theorem acquire_release_restores:
  assumes "can_acquire c l m"
  shows "\<exists>m'. andthen (acquire c l m) (\<lambda>_ m. release c l m) = Ret () m' \<and> locks m' = locks m \<and>
           sie m' = sie m \<and> (\<forall>d. noff (cpus m' d) = noff (cpus m d)) \<and>
           andthen (acquire c l m) (\<lambda>_ m. acquire c l m) = Panic ''acquire''"
proof -
  have "andthen (acquire c l m) (\<lambda>_ m. release c l m) = Ret () (after_cs c m)"
    by (rule spin.bracket [OF assms])
  moreover have "acquire c l (acquired c l m) = Panic ''acquire''"
    by (simp add: acquire_def holding_def Let_def)
  moreover have "acquire c l m = Ret () (acquired c l m)"
    using assms by (simp add: acquire_ok can_acquire_def)
  ultimately show ?thesis by simp
qed

theorem acquire_release_restores_witness:
  "can_acquire 0 LLog (ss_mach spin_boot) \<and>
   (\<exists>m'. andthen (acquire 0 LLog (ss_mach spin_boot)) (\<lambda>_ m. release 0 LLog m) = Ret () m' \<and> sie m' 0)"
proof -
  have h: "can_acquire 0 LLog (ss_mach spin_boot)"
    by (simp add: can_acquire_def lock_free_def cpu_ok_def spin_boot_def)
  from acquire_release_restores [OF h] h show ?thesis
    by (auto simp: spin_boot_def)
qed

end
