(* ===== verification/Memory.thy ===== *)
theory Memory
  imports Prelude
begin

text \<open>
  Byte-addressed memory, as the C code sees it: reading and writing byte ranges, little-endian 32- and
  64-bit words, filling and copying.  The lemmas say which writes a read can see; the string routines,
  the page allocator, the page tables and the user programs all run on this memory.
\<close>

type_synonym mem = "u64 \<Rightarrow> u8"

named_theorems mem_simps \<open>what a memory read sees after a write\<close>

section \<open>Byte ranges\<close>

definition in_range :: "u64 \<Rightarrow> nat \<Rightarrow> u64 \<Rightarrow> bool" where
  "in_range a n x \<longleftrightarrow> unat (x - a) < n"

definition mem_read :: "mem \<Rightarrow> u64 \<Rightarrow> nat \<Rightarrow> u8 list" where
  "mem_read m a n = map (\<lambda>i. m (a + of_nat i)) [0..<n]"

definition mem_write :: "u64 \<Rightarrow> u8 list \<Rightarrow> mem \<Rightarrow> mem" where
  "mem_write a bs m = (\<lambda>x. if in_range a (length bs) x then bs ! unat (x - a) else m x)"

definition mem_fill :: "u64 \<Rightarrow> u8 \<Rightarrow> nat \<Rightarrow> mem \<Rightarrow> mem" where
  "mem_fill a v n m = (\<lambda>x. if in_range a n x then v else m x)"

definition mem_copy :: "u64 \<Rightarrow> u64 \<Rightarrow> nat \<Rightarrow> mem \<Rightarrow> mem" where
  "mem_copy dst src n m = (\<lambda>x. if in_range dst n x then m (src + (x - dst)) else m x)"

lemma unat_of_nat_64: "i < 2 ^ 64 \<Longrightarrow> unat (of_nat i :: u64) = i"
  by (simp add: unat_of_nat)

lemma unat_less_64: "unat (a :: u64) < 2 ^ 64"
proof -
  have "unat a < 2 ^ LENGTH(64)" by (rule unsigned_less)
  then show ?thesis by simp
qed

lemma in_range_offset: "i < n \<Longrightarrow> n \<le> 2 ^ 64 \<Longrightarrow> in_range a n (a + of_nat i)"
  by (simp add: in_range_def unat_of_nat_64)

lemma in_range_offset_iff: "i < 2 ^ 64 \<Longrightarrow> in_range a n (a + of_nat i) \<longleftrightarrow> i < n"
  by (simp add: in_range_def unat_of_nat_64)

lemma in_rangeE:
  assumes "in_range a n x"
  obtains i where "i < n" and "i < 2 ^ 64" and "x = a + of_nat i"
proof
  show "unat (x - a) < n" using assms by (simp add: in_range_def)
  show "unat (x - a) < 2 ^ 64" using unsigned_less [of "x - a"] by simp
  show "x = a + of_nat (unat (x - a))" by simp
qed

lemma length_mem_read [simp]: "length (mem_read m a n) = n"
  by (simp add: mem_read_def)

lemma nth_mem_read [simp]: "i < n \<Longrightarrow> mem_read m a n ! i = m (a + of_nat i)"
  by (simp add: mem_read_def)

lemma mem_read_0 [simp]: "mem_read m a 0 = []"
  by (simp add: mem_read_def)

lemma mem_read_Suc: "mem_read m a (Suc n) = m a # mem_read m (a + 1) n"
proof -
  have "mem_read m a (Suc n) = map (\<lambda>i. m (a + of_nat i)) (0 # map Suc [0..<n])"
    by (simp add: mem_read_def upt_conv_Cons map_Suc_upt del: upt_Suc)
  then show ?thesis
    by (simp add: mem_read_def comp_def add.assoc [symmetric])
qed

lemma mem_read_append: "mem_read m a (j + k) = mem_read m a j @ mem_read m (a + of_nat j) k"
proof -
  have "[0..<j + k] = [0..<j] @ map (\<lambda>i. i + j) [0..<k]"
    by (simp only: map_add_upt upt_add_eq_append [of 0 j k]) (simp add: add.commute)
  moreover have "m (a + of_nat (i + j)) = m (a + of_nat j + of_nat i)" for i
    by (simp only: of_nat_add add.assoc add.commute [of "of_nat i"])
  ultimately show ?thesis
    by (simp only: mem_read_def map_append map_map comp_def)
qed

lemma mem_read_cong:
  "(\<And>i. i < n \<Longrightarrow> m (a + of_nat i) = m' (b + of_nat i)) \<Longrightarrow> mem_read m a n = mem_read m' b n"
  by (simp add: mem_read_def)

lemma mem_write_Nil [simp]: "mem_write a [] m = m"
  by (simp add: mem_write_def in_range_def)

lemma mem_write_same [mem_simps]:
  "length bs \<le> 2 ^ 64 \<Longrightarrow> mem_read (mem_write a bs m) a (length bs) = bs"
  by (rule nth_equalityI) (auto simp: mem_write_def in_range_offset unat_of_nat_64)

lemma mem_write_in:
  "i < length bs \<Longrightarrow> length bs \<le> 2 ^ 64 \<Longrightarrow> mem_write a bs m (a + of_nat i) = bs ! i"
  by (simp add: mem_write_def in_range_offset unat_of_nat_64)

lemma mem_write_out: "\<not> in_range a (length bs) x \<Longrightarrow> mem_write a bs m x = m x"
  by (simp add: mem_write_def)

lemma mem_write_single: "mem_write a [v] m = m(a := v)"
  by (auto simp: mem_write_def in_range_def fun_eq_iff unat_eq_0)

lemma mem_copy_eq_write:
  "n \<le> 2 ^ 64 \<Longrightarrow> mem_copy dst src n m = mem_write dst (mem_read m src n) m"
  by (auto simp: mem_copy_def mem_write_def fun_eq_iff in_range_def)

lemma mem_fill_eq_write: "mem_fill a v n m = mem_write a (replicate n v) m"
  by (auto simp: mem_fill_def mem_write_def fun_eq_iff in_range_def)

text \<open>Two ranges that do not wrap and do not meet.\<close>

definition apart :: "u64 \<Rightarrow> nat \<Rightarrow> u64 \<Rightarrow> nat \<Rightarrow> bool" where
  "apart a n b k \<longleftrightarrow> unat a + n \<le> 2 ^ 64 \<and> unat b + k \<le> 2 ^ 64 \<and>
     (unat a + n \<le> unat b \<or> unat b + k \<le> unat a)"

lemma unat_plus_offset: "unat a + n \<le> 2 ^ 64 \<Longrightarrow> i < n \<Longrightarrow> unat (a + of_nat i :: u64) = unat a + i"
  by (subst unat_add_lem [THEN iffD1]) (auto simp: unat_of_nat_64)

lemma in_range_nowrap:
  assumes "unat a + n \<le> 2 ^ 64"
  shows "in_range a n x \<longleftrightarrow> unat a \<le> unat x \<and> unat x < unat a + n"
proof
  assume "in_range a n x"
  then obtain i where "i < n" and "x = a + of_nat i" by (rule in_rangeE)
  with assms show "unat a \<le> unat x \<and> unat x < unat a + n"
    by (simp add: unat_plus_offset)
next
  assume h: "unat a \<le> unat x \<and> unat x < unat a + n"
  then have "unat (x - a) = unat x - unat a"
    by (simp add: unat_sub word_le_nat_alt)
  with h show "in_range a n x" unfolding in_range_def by linarith
qed

lemma apart_sym: "apart a n b k \<Longrightarrow> apart b k a n"
  by (auto simp: apart_def)

lemma mem_write_apart [mem_simps]:
  assumes "apart a (length bs) b k"
  shows "mem_read (mem_write a bs m) b k = mem_read m b k"
proof (rule mem_read_cong)
  fix i assume "i < k"
  then have "unat (b + of_nat i) = unat b + i"
    using assms by (intro unat_plus_offset) (auto simp: apart_def)
  then have "\<not> in_range a (length bs) (b + of_nat i)"
    using assms \<open>i < k\<close> by (auto simp: apart_def in_range_nowrap)
  then show "mem_write a bs m (b + of_nat i) = m (b + of_nat i)"
    by (rule mem_write_out)
qed

section \<open>Little-endian words\<close>

definition le_word :: "u8 list \<Rightarrow> 'a::len word" where
  "le_word bs = word_of_int (horner_sum uint 256 bs)"

definition le_bytes :: "nat \<Rightarrow> 'a::len word \<Rightarrow> u8 list" where
  "le_bytes n w = map (\<lambda>i. ucast (drop_bit (8 * i) w)) [0..<n]"

lemma length_le_bytes [simp]: "length (le_bytes n w) = n"
  by (simp add: le_bytes_def)

lemma le_bytes_0 [simp]: "le_bytes 0 w = []"
  by (simp add: le_bytes_def)

lemma le_bytes_Suc: "le_bytes (Suc n) w = ucast w # le_bytes n (drop_bit 8 w)"
proof -
  have "le_bytes (Suc n) w = map (\<lambda>i. ucast (drop_bit (8 * i) w)) (0 # map Suc [0..<n])"
    by (simp add: le_bytes_def upt_conv_Cons map_Suc_upt del: upt_Suc)
  then show ?thesis
    by (simp add: le_bytes_def comp_def add.commute)
qed

lemma horner_le_bytes: "horner_sum uint 256 (le_bytes n w) = take_bit (8 * n) (uint w)"
proof (induction n arbitrary: w)
  case 0
  then show ?case by simp
next
  case (Suc n)
  have "uint (drop_bit 8 w) = drop_bit 8 (uint w)"
    by (rule bit_eqI) (auto simp: bit_simps dest: bit_imp_le_length)
  then have "horner_sum uint 256 (le_bytes (Suc n) w)
        = take_bit 8 (uint w) + 256 * take_bit (8 * n) (drop_bit 8 (uint w))"
    by (simp add: le_bytes_Suc Suc.IH unsigned_ucast_eq)
  also have "256 * take_bit (8 * n) (drop_bit 8 (uint w)) = push_bit 8 (take_bit (8 * n) (drop_bit 8 (uint w)))"
    by (simp add: push_bit_eq_mult)
  also have "take_bit 8 (uint w) + push_bit 8 (take_bit (8 * n) (drop_bit 8 (uint w)))
             = take_bit (8 * Suc n) (uint w)"
    by (subst disjunctive_add) (auto simp: bit_simps intro!: bit_eqI)
  finally show ?case .
qed

lemma le_word_bytes:
  assumes "LENGTH('a) \<le> 8 * n"
  shows "le_word (le_bytes n (w :: 'a::len word)) = w"
proof -
  have "take_bit (8 * n) (uint w) = uint w"
    using assms by (intro take_bit_int_eq_self)
      (auto intro: order_less_le_trans [OF unsigned_less] power_increasing)
  then show ?thesis by (simp add: le_word_def horner_le_bytes)
qed

lemma le_word_bytes_32 [simp]: "le_word (le_bytes 4 (w :: u32)) = w"
  by (rule le_word_bytes) simp

lemma le_word_bytes_64 [simp]: "le_word (le_bytes 8 (w :: u64)) = w"
  by (rule le_word_bytes) simp

lemma le_word_bytes_16 [simp]: "le_word (le_bytes 2 (w :: u16)) = w"
  by (rule le_word_bytes) simp

lemma horner_bytes_bounds: "0 \<le> horner_sum uint 256 (bs :: u8 list) \<and> horner_sum uint 256 bs < 256 ^ length bs"
proof (induction bs)
  case Nil
  then show ?case by simp
next
  case (Cons b bs)
  have "uint b < 256" using unsigned_less [of b] by simp
  moreover have "0 \<le> uint b" by simp
  ultimately show ?case using Cons.IH by (simp del: uint_ge_0)
qed

lemma bytes_pow_le: "8 * Suc n \<le> l \<Longrightarrow> (256 :: int) ^ Suc n \<le> 2 ^ l"
proof -
  assume h: "8 * Suc n \<le> l"
  have "(256 :: int) ^ Suc n = 2 ^ (8 * Suc n)"
    by (simp only: power_mult) simp
  then show ?thesis using h by (simp only:) (rule power_increasing, auto)
qed

lemma uint_le_word_Cons:
  assumes "8 * Suc (length bs) \<le> LENGTH('a::len)"
  shows "uint (le_word (b # bs) :: 'a word) = uint b + 256 * horner_sum uint 256 bs"
proof -
  have "horner_sum uint 256 (b # bs) < (2::int) ^ LENGTH('a)"
    using horner_bytes_bounds [of "b # bs"] bytes_pow_le [OF assms] by simp
  moreover have "0 \<le> (horner_sum uint 256 (b # bs) :: int)"
    using horner_bytes_bounds [of "b # bs"] by blast
  ultimately have "uint (le_word (b # bs) :: 'a word) = horner_sum uint 256 (b # bs)"
    by (simp only: le_word_def uint_word_of_int_eq take_bit_int_eq_self)
  then show ?thesis by simp
qed

lemma le_word_Cons:
  assumes "8 * Suc (length bs) \<le> LENGTH('a::len)"
  shows "(ucast (le_word (b # bs) :: 'a word) :: u8) = b"
    and "drop_bit 8 (le_word (b # bs) :: 'a word) = le_word bs"
proof -
  have b: "0 \<le> uint b" "uint b < 256"
    using unsigned_less [of b] by simp_all
  have "uint (ucast (le_word (b # bs) :: 'a word) :: u8) = uint b"
    using b by (simp add: uint_le_word_Cons [OF assms] unsigned_ucast_eq take_bit_eq_mod)
  then show "(ucast (le_word (b # bs) :: 'a word) :: u8) = b"
    by (simp add: word_uint_eq_iff)
  have "uint (drop_bit 8 (le_word (b # bs) :: 'a word)) = drop_bit 8 (uint (le_word (b # bs) :: 'a word))"
    by (rule bit_eqI) (auto simp: bit_simps dest: bit_imp_le_length)
  also have "\<dots> = horner_sum uint 256 bs"
    using b by (simp add: uint_le_word_Cons [OF assms] drop_bit_eq_div)
  finally show "drop_bit 8 (le_word (b # bs) :: 'a word) = le_word bs"
    by (metis le_word_def word_of_int_uint)
qed

lemma le_bytes_word:
  "8 * length bs \<le> LENGTH('a::len) \<Longrightarrow> le_bytes (length bs) (le_word bs :: 'a word) = bs"
  by (induction bs) (simp_all add: le_bytes_Suc le_word_Cons)

section \<open>Loads and stores\<close>

definition load64 :: "mem \<Rightarrow> u64 \<Rightarrow> u64" where
  "load64 m a = le_word (mem_read m a 8)"

definition store64 :: "u64 \<Rightarrow> u64 \<Rightarrow> mem \<Rightarrow> mem" where
  "store64 a v m = mem_write a (le_bytes 8 v) m"

definition aligned :: "nat \<Rightarrow> u64 \<Rightarrow> bool" where
  "aligned n a \<longleftrightarrow> n dvd unat a"

lemma load_store_same [mem_simps]: "load64 (store64 a v m) a = v"
  using mem_write_same [of "le_bytes 8 v" a m] by (simp add: load64_def store64_def)

lemma load_store_apart [mem_simps]: "apart a 8 b 8 \<Longrightarrow> load64 (store64 a v m) b = load64 m b"
  by (simp add: load64_def store64_def mem_write_apart)

lemma aligned_nowrap:
  assumes "aligned n a" and "n dvd 2 ^ 64"
  shows "unat a + n \<le> 2 ^ 64"
proof -
  obtain k where k: "unat a = n * k" using assms(1) by (auto simp: aligned_def)
  obtain j where j: "2 ^ 64 = n * j" using assms(2) by (rule dvdE)
  have "n * k < n * j" using unat_less_64 [of a] k j by simp
  then have "Suc k \<le> j" by simp
  then have "n * Suc k \<le> n * j" by (rule mult_le_mono2)
  then show ?thesis by (simp only: k j mult_Suc_right add.commute)
qed

lemma aligned_apart:
  assumes "aligned n a" and "aligned n b" and "n dvd 2 ^ 64" and "a \<noteq> b"
  shows "apart a n b n"
proof -
  obtain k where k: "unat a = n * k" using assms(1) by (auto simp: aligned_def)
  obtain j where j: "unat b = n * j" using assms(2) by (auto simp: aligned_def)
  have "k \<noteq> j" using assms(4) k j by (metis word_unat_eq_iff)
  then have "Suc k \<le> j \<or> Suc j \<le> k" by linarith
  then have "n * Suc k \<le> n * j \<or> n * Suc j \<le> n * k" by (meson mult_le_mono2)
  then have "unat a + n \<le> unat b \<or> unat b + n \<le> unat a" by (simp add: k j add.commute)
  with aligned_nowrap [OF assms(1,3)] aligned_nowrap [OF assms(2,3)] show ?thesis
    by (simp add: apart_def)
qed

lemma load_store_aligned [mem_simps]:
  "aligned 8 a \<Longrightarrow> aligned 8 b \<Longrightarrow> load64 (store64 a v m) b = (if a = b then v else load64 m b)"
  by (simp add: load_store_same load_store_apart aligned_apart)

lemma load64_mem_eq: "(\<And>i. i < 8 \<Longrightarrow> m (a + of_nat i) = m' (a + of_nat i)) \<Longrightarrow> load64 m a = load64 m' a"
  by (simp add: load64_def mem_read_cong [of 8 m a m' a])

lemma store64_out: "\<not> in_range a 8 x \<Longrightarrow> store64 a v m x = m x"
  by (simp add: store64_def mem_write_out)

lemma load64_zero: "(\<And>i. i < 8 \<Longrightarrow> m (a + of_nat i) = 0) \<Longrightarrow> load64 m a = 0"
proof -
  assume h: "\<And>i. i < 8 \<Longrightarrow> m (a + of_nat i) = 0"
  have "mem_read m a 8 = replicate 8 0"
    by (rule nth_equalityI) (simp_all add: h)
  then show ?thesis by (simp add: load64_def le_word_def numeral_eq_Suc)
qed

end
