(* ===== verification/KString.thy ===== *)
theory KString
  imports Memory
begin

text \<open>
  \<^verbatim>\<open>kernel/string.c\<close>.  Each routine is the C loop over byte memory; the lemmas give its closed form
  (\<^verbatim>\<open>memset\<close> fills, \<^verbatim>\<open>memmove\<close> copies even when the ranges overlap) and, for the string routines, what is
  left in the destination array.
\<close>

section \<open>Block operations\<close>

function memset_loop :: "u64 \<Rightarrow> u8 \<Rightarrow> nat \<Rightarrow> nat \<Rightarrow> mem \<Rightarrow> mem" where
  "memset_loop dst c n i m =
     (if i < n then memset_loop dst c n (Suc i) (m(dst + of_nat i := c)) else m)"
  by pat_completeness auto
termination
  by (relation "measure (\<lambda>(dst, c, n, i, m). n - i)") auto

declare memset_loop.simps [simp del]

definition memset :: "u64 \<Rightarrow> u32 \<Rightarrow> u32 \<Rightarrow> mem \<Rightarrow> mem" where
  "memset dst c n m = memset_loop dst (ucast c) (unat n) 0 m"

fun memcmp_loop :: "mem \<Rightarrow> u64 \<Rightarrow> u64 \<Rightarrow> nat \<Rightarrow> int" where
  "memcmp_loop m s1 s2 0 = 0"
| "memcmp_loop m s1 s2 (Suc n) =
     (if m s1 \<noteq> m s2 then uint (m s1) - uint (m s2) else memcmp_loop m (s1 + 1) (s2 + 1) n)"

definition memcmp :: "mem \<Rightarrow> u64 \<Rightarrow> u64 \<Rightarrow> u32 \<Rightarrow> int" where
  "memcmp m v1 v2 n = memcmp_loop m v1 v2 (unat n)"

fun move_up :: "u64 \<Rightarrow> u64 \<Rightarrow> nat \<Rightarrow> mem \<Rightarrow> mem" where
  "move_up d s 0 m = m"
| "move_up d s (Suc n) m = move_up (d + 1) (s + 1) n (m(d := m s))"

fun move_down :: "u64 \<Rightarrow> u64 \<Rightarrow> nat \<Rightarrow> mem \<Rightarrow> mem" where
  "move_down d s 0 m = m"
| "move_down d s (Suc n) m = move_down (d - 1) (s - 1) n (m(d - 1 := m (s - 1)))"

definition memmove :: "u64 \<Rightarrow> u64 \<Rightarrow> u32 \<Rightarrow> mem \<Rightarrow> mem" where
  "memmove dst src n m =
     (if n = 0 then m
      else if src < dst \<and> src + ucast n > dst
      then move_down (dst + ucast n) (src + ucast n) (unat n) m
      else move_up dst src (unat n) m)"

definition memcpy :: "u64 \<Rightarrow> u64 \<Rightarrow> u32 \<Rightarrow> mem \<Rightarrow> mem" where
  "memcpy dst src n m = memmove dst src n m"

section \<open>Strings\<close>

text \<open>\<^verbatim>\<open>strncmp\<close> over two readers, so that it also applies to arrays that are not in the modelled memory.\<close>

fun strncmp_rd :: "(nat \<Rightarrow> u8) \<Rightarrow> (nat \<Rightarrow> u8) \<Rightarrow> nat \<Rightarrow> int" where
  "strncmp_rd p q 0 = 0"
| "strncmp_rd p q (Suc n) =
     (if p 0 \<noteq> 0 \<and> p 0 = q 0 then strncmp_rd (p \<circ> Suc) (q \<circ> Suc) n else uint (p 0) - uint (q 0))"

definition strncmp :: "mem \<Rightarrow> u64 \<Rightarrow> u64 \<Rightarrow> u32 \<Rightarrow> int" where
  "strncmp m p q n = strncmp_rd (\<lambda>i. m (p + of_nat i)) (\<lambda>i. m (q + of_nat i)) (unat n)"

fun strncpy_pad :: "u64 \<Rightarrow> nat \<Rightarrow> mem \<Rightarrow> mem" where
  "strncpy_pad s 0 m = m"
| "strncpy_pad s (Suc n) m = strncpy_pad (s + 1) n (m(s := 0))"

fun strncpy_copy :: "u64 \<Rightarrow> u64 \<Rightarrow> nat \<Rightarrow> mem \<Rightarrow> mem" where
  "strncpy_copy s t 0 m = m"
| "strncpy_copy s t (Suc n) m =
     (if m t \<noteq> 0 then strncpy_copy (s + 1) (t + 1) n (m(s := m t))
      else strncpy_pad (s + 1) n (m(s := m t)))"

definition strncpy :: "u64 \<Rightarrow> u64 \<Rightarrow> int \<Rightarrow> mem \<Rightarrow> mem" where
  "strncpy s t n m = strncpy_copy s t (nat n) m"

fun safestrcpy_loop :: "u64 \<Rightarrow> u64 \<Rightarrow> nat \<Rightarrow> mem \<Rightarrow> mem" where
  "safestrcpy_loop s t 0 m = m(s := 0)"
| "safestrcpy_loop s t (Suc n) m =
     (if m t \<noteq> 0 then safestrcpy_loop (s + 1) (t + 1) n (m(s := m t))
      else m(s := m t, s + 1 := 0))"

definition safestrcpy :: "u64 \<Rightarrow> u64 \<Rightarrow> int \<Rightarrow> mem \<Rightarrow> mem" where
  "safestrcpy s t n m = (if n \<le> 0 then m else safestrcpy_loop s t (nat (n - 1)) m)"

partial_function (option) strlen_from :: "mem \<Rightarrow> u64 \<Rightarrow> int \<Rightarrow> int option" where
  "strlen_from m s n = (if m (s + of_int n) = 0 then Some n else strlen_from m s (n + 1))"

definition strlen :: "mem \<Rightarrow> u64 \<Rightarrow> int option" where
  "strlen m s = strlen_from m s 0"

section \<open>memset and memmove as fill and copy\<close>

lemma in_range_Suc: "n < 2 ^ 64 \<Longrightarrow> in_range a (Suc n) x \<longleftrightarrow> x = a \<or> in_range (a + 1) n x"
proof -
  assume n: "n < 2 ^ 64"
  show ?thesis
  proof (cases "x = a")
    case True
    then show ?thesis by (simp add: in_range_def)
  next
    case False
    then have "unat (x - a) \<noteq> 0" by (simp add: unat_eq_0)
    moreover have "unat (x - (a + 1)) = unat (x - a) - 1"
    proof -
      have "x - (a + 1) = (x - a) - 1" by simp
      also have "unat \<dots> = unat (x - a) - unat (1 :: u64)"
        using \<open>unat (x - a) \<noteq> 0\<close> by (intro unat_sub) (simp add: word_le_nat_alt)
      finally show ?thesis by simp
    qed
    ultimately show ?thesis using False by (auto simp: in_range_def)
  qed
qed

lemma memset_loop_eq:
  assumes "n \<le> 2 ^ 64" and "i \<le> n"
  shows "memset_loop dst c n i m = mem_fill (dst + of_nat i) c (n - i) m"
  using assms(2)
proof (induction "n - i" arbitrary: i m)
  case 0
  then show ?case by (subst memset_loop.simps) (simp add: mem_fill_def in_range_def)
next
  case (Suc k)
  then have i: "i < n" and k: "k = n - Suc i" by linarith+
  have "memset_loop dst c n i m = memset_loop dst c n (Suc i) (m(dst + of_nat i := c))"
    using i by (simp add: memset_loop.simps [of dst c n i])
  also have "\<dots> = mem_fill (dst + of_nat (Suc i)) c (n - Suc i) (m(dst + of_nat i := c))"
    using Suc.hyps(1) [OF k] i by simp
  also have "\<dots> = mem_fill (dst + of_nat i) c (n - i) m"
  proof
    fix x
    have "in_range (dst + of_nat i) (Suc (n - Suc i)) x
          \<longleftrightarrow> x = dst + of_nat i \<or> in_range (dst + of_nat i + 1) (n - Suc i) x"
      using assms(1) i by (intro in_range_Suc) linarith
    moreover have "Suc (n - Suc i) = n - i" using i by simp
    moreover have "dst + of_nat (Suc i) = dst + of_nat i + 1" by (simp add: add.assoc add.commute)
    ultimately show "mem_fill (dst + of_nat (Suc i)) c (n - Suc i) (m(dst + of_nat i := c)) x
                     = mem_fill (dst + of_nat i) c (n - i) m x"
      unfolding mem_fill_def fun_upd_apply by metis
  qed
  finally show ?case .
qed

lemma unat_u32_bound: "unat (n :: u32) < 2 ^ 32"
proof -
  have "unat n < 2 ^ LENGTH(32)" by (rule unsigned_less)
  then show ?thesis by simp
qed

lemma memset_eq: "memset dst c n m = mem_fill dst (ucast c) (unat n) m"
  using memset_loop_eq [of "unat n" 0 dst "ucast c" m] unat_u32_bound [of n]
  by (simp add: memset_def)

lemma move_up_eq:
  assumes "n < 2 ^ 64" and "\<And>i j. i < j \<Longrightarrow> j < n \<Longrightarrow> d + of_nat i \<noteq> s + of_nat j"
  shows "move_up d s n m = mem_copy d s n m"
  using assms
proof (induction n arbitrary: d s m)
  case 0
  then show ?case by (simp add: mem_copy_def in_range_def)
next
  case (Suc n)
  have IH: "move_up (d + 1) (s + 1) n (m(d := m s)) = mem_copy (d + 1) (s + 1) n (m(d := m s))"
  proof (rule Suc.IH)
    show "n < 2 ^ 64" using Suc.prems(1) by simp
    show "d + 1 + of_nat i \<noteq> s + 1 + of_nat j" if "i < j" "j < n" for i j
      using Suc.prems(2) [of "Suc i" "Suc j"] that by (simp add: add.assoc)
  qed
  have "mem_copy (d + 1) (s + 1) n (m(d := m s)) x = mem_copy d s (Suc n) m x" for x
  proof (cases "in_range (d + 1) n x")
    case True
    then obtain i where i: "i < n" "x = d + 1 + of_nat i" by (rule in_rangeE)
    have "x - (d + 1) = of_nat i" using i by simp
    moreover have "s + 1 + of_nat i \<noteq> d"
      using Suc.prems(2) [of 0 "Suc i"] i by (auto simp: add.assoc)
    moreover have "s + (x - d) = s + 1 + of_nat i" using i by simp
    ultimately show ?thesis
      using True Suc.prems(1) in_range_Suc [of n d x] by (simp add: mem_copy_def add.assoc)
  next
    case False
    then show ?thesis
      using Suc.prems(1) in_range_Suc [of n d x] by (auto simp: mem_copy_def)
  qed
  with IH show ?case by (simp add: fun_eq_iff)
qed

text \<open>The downward loop writes the range that ends at \<open>d\<close>, last byte first.\<close>

lemma in_range_Suc_end:
  assumes "n < 2 ^ 64"
  shows "in_range (d - of_nat (Suc n)) (Suc n) x
         \<longleftrightarrow> x = d - 1 \<or> in_range (d - 1 - of_nat n) n x"
proof -
  have e: "d - of_nat (Suc n) = d - 1 - of_nat n" by (simp add: algebra_simps)
  have "in_range (d - 1 - of_nat n) (Suc n) x \<longleftrightarrow> x = d - 1 \<or> in_range (d - 1 - of_nat n) n x"
    (is "?L \<longleftrightarrow> ?R")
  proof
    assume ?L
    then obtain i where i: "i < Suc n" "x = d - 1 - of_nat n + of_nat i" by (rule in_rangeE)
    show ?R
    proof (cases "i = n")
      case True
      then show ?thesis using i by simp
    next
      case False
      then have "i < n" using i by simp
      then show ?thesis using i assms by (simp add: in_range_offset)
    qed
  next
    assume ?R
    then show ?L
    proof
      assume "x = d - 1"
      then have "x = d - 1 - of_nat n + of_nat n" by simp
      then show ?L using assms in_range_offset [of n "Suc n" "d - 1 - of_nat n"] by simp
    next
      assume "in_range (d - 1 - of_nat n) n x"
      then show ?L by (simp add: in_range_def)
    qed
  qed
  then show ?thesis unfolding e .
qed

lemma move_down_eq:
  assumes "n < 2 ^ 64" and "\<And>i j. i < j \<Longrightarrow> j < n \<Longrightarrow> d - 1 - of_nat i \<noteq> s - 1 - of_nat j"
  shows "move_down d s n m = mem_copy (d - of_nat n) (s - of_nat n) n m"
  using assms
proof (induction n arbitrary: d s m)
  case 0
  then show ?case by (simp add: mem_copy_def in_range_def)
next
  case (Suc n)
  let ?m = "m(d - 1 := m (s - 1))"
  have IH: "move_down (d - 1) (s - 1) n ?m = mem_copy (d - 1 - of_nat n) (s - 1 - of_nat n) n ?m"
  proof (rule Suc.IH)
    show "n < 2 ^ 64" using Suc.prems(1) by simp
    show "d - 1 - 1 - of_nat i \<noteq> s - 1 - 1 - of_nat j" if "i < j" "j < n" for i j
      using Suc.prems(2) [of "Suc i" "Suc j"] that by (simp add: algebra_simps)
  qed
  have r: "in_range (d - of_nat (Suc n)) (Suc n) x \<longleftrightarrow> x = d - 1 \<or> in_range (d - 1 - of_nat n) n x" for x
    using Suc.prems(1) by (intro in_range_Suc_end) simp
  have off: "s - of_nat (Suc n) + (x - (d - of_nat (Suc n))) = s - 1 - of_nat n + (x - (d - 1 - of_nat n))" for x
    by (simp add: algebra_simps)
  have "mem_copy (d - 1 - of_nat n) (s - 1 - of_nat n) n ?m x
        = mem_copy (d - of_nat (Suc n)) (s - of_nat (Suc n)) (Suc n) m x" for x
  proof (cases "in_range (d - 1 - of_nat n) n x")
    case True
    then obtain i where i: "i < n" "x = d - 1 - of_nat n + of_nat i" by (rule in_rangeE)
    have "s - 1 - of_nat n + of_nat i = s - 1 - of_nat (n - i)" using i by (simp add: of_nat_diff algebra_simps)
    moreover have "s - 1 - of_nat (n - i) \<noteq> d - 1"
    proof -
      have "d - 1 - of_nat 0 \<noteq> s - 1 - of_nat (n - i)"
        using i by (intro Suc.prems(2)) linarith+
      then show ?thesis by simp
    qed
    ultimately have "?m (s - 1 - of_nat n + of_nat i) = m (s - 1 - of_nat n + of_nat i)" by simp
    moreover have "x - (d - 1 - of_nat n) = of_nat i" using i by simp
    ultimately show ?thesis
      unfolding mem_copy_def r off using True by (simp only: if_True simp_thms)
  next
    case False
    have "s - 1 - of_nat n + (d - 1 - (d - 1 - of_nat n)) = s - 1" by simp
    with False show ?thesis
      unfolding mem_copy_def r off by (cases "x = d - 1") simp_all
  qed
  with IH show ?case by (simp add: fun_eq_iff del: of_nat_Suc)
qed

lemma memmove_eq:
  assumes "unat src + unat n < 2 ^ 64" and "unat dst + unat n \<le> 2 ^ 64"
  shows "memmove dst src n m = mem_copy dst src (unat n) m"
proof (cases "n = 0")
  case True
  then show ?thesis by (simp add: memmove_def mem_copy_def in_range_def)
next
  case nz: False
  have n64: "unat n < 2 ^ 64" using unat_u32_bound [of n] by simp
  have cast: "(ucast n :: u64) = of_nat (unat n)" by simp
  show ?thesis
  proof (cases "src < dst \<and> src + ucast n > dst")
    case True
    have "move_down (dst + of_nat (unat n)) (src + of_nat (unat n)) (unat n) m
          = mem_copy (dst + of_nat (unat n) - of_nat (unat n)) (src + of_nat (unat n) - of_nat (unat n)) (unat n) m"
    proof (rule move_down_eq [OF n64])
      fix i j assume ij: "i < j" "j < unat n"
      let ?k = "unat n"
      have "dst + of_nat ?k - 1 - of_nat i = dst + of_nat (?k - 1 - i)"
        and "src + of_nat ?k - 1 - of_nat j = src + of_nat (?k - 1 - j)"
        using ij by (simp_all add: of_nat_diff algebra_simps)
      moreover have "unat (dst + of_nat (?k - 1 - i)) = unat dst + (?k - 1 - i)"
        using assms(2) ij by (intro unat_plus_offset [of dst ?k]) auto
      moreover have "unat (src + of_nat (?k - 1 - j)) = unat src + (?k - 1 - j)"
        using assms(1) ij by (intro unat_plus_offset [of src ?k]) linarith+
      moreover have "unat src < unat dst" using True by (simp add: word_less_nat_alt)
      moreover have "?k - 1 - j < ?k - 1 - i" using ij by linarith
      ultimately show "dst + of_nat ?k - 1 - of_nat i \<noteq> src + of_nat ?k - 1 - of_nat j"
        by (metis add_less_mono nat_neq_iff)
    qed
    with True nz show ?thesis by (simp add: memmove_def)
  next
    case False
    have "move_up dst src (unat n) m = mem_copy dst src (unat n) m"
    proof (rule move_up_eq [OF n64])
      fix i j assume ij: "i < j" "j < unat n"
      have a: "unat (dst + of_nat i) = unat dst + i" and b: "unat (src + of_nat j) = unat src + j"
        using assms ij by (auto intro!: unat_plus_offset [of _ "unat n"])
      have "\<not> (unat src < unat dst \<and> unat dst < unat src + unat n)"
      proof
        assume h: "unat src < unat dst \<and> unat dst < unat src + unat n"
        have "unat (src + of_nat (unat n)) = unat src + unat n"
          using assms(1) by (intro unat_plus_offset [of src "unat n + 1"]) auto
        with h False show False by (simp add: word_less_nat_alt)
      qed
      with a b ij have "unat (dst + of_nat i) \<noteq> unat (src + of_nat j)" by linarith
      then show "dst + of_nat i \<noteq> src + of_nat j" by metis
    qed
    with False nz show ?thesis by (auto simp: memmove_def)
  qed
qed

section \<open>String routines\<close>

definition upto_nul :: "u8 list \<Rightarrow> u8 list" where
  "upto_nul bs = takeWhile (\<lambda>b. b \<noteq> 0) bs"

definition cstr :: "mem \<Rightarrow> u64 \<Rightarrow> u8 list \<Rightarrow> bool" where
  "cstr m p bs \<longleftrightarrow> 0 \<notin> set bs \<and> mem_read m p (Suc (length bs)) = bs @ [0]"

lemma upto_nul_Cons [simp]: "upto_nul (b # bs) = (if b = 0 then [] else b # upto_nul bs)"
  by (simp add: upto_nul_def)

lemma upto_nul_Nil [simp]: "upto_nul [] = []"
  by (simp add: upto_nul_def)

lemma length_upto_nul: "length (upto_nul bs) \<le> length bs"
  by (simp add: upto_nul_def length_takeWhile_le)

lemma memcmp_loop_eq_0: "memcmp_loop m p q n = 0 \<longleftrightarrow> mem_read m p n = mem_read m q n"
  by (induction n arbitrary: p q) (auto simp: mem_read_Suc word_uint_eq_iff)

lemma strncmp_rd_eq_0:
  "strncmp_rd p q n = 0 \<longleftrightarrow> upto_nul (map p [0..<n]) = upto_nul (map q [0..<n])"
proof (induction n arbitrary: p q)
  case 0
  then show ?case by simp
next
  case (Suc n)
  have e: "map r [0..<Suc n] = r 0 # map (r \<circ> Suc) [0..<n]" for r :: "nat \<Rightarrow> u8"
    by (simp add: upt_conv_Cons map_Suc_upt [symmetric] del: upt_Suc)
  show ?case
    unfolding e using Suc.IH [of "p \<circ> Suc" "q \<circ> Suc"]
    by (auto simp: word_uint_eq_iff comp_def)
qed

lemma strncmp_eq_0:
  "strncmp m p q n = 0 \<longleftrightarrow> upto_nul (mem_read m p (unat n)) = upto_nul (mem_read m q (unat n))"
  by (simp add: strncmp_def strncmp_rd_eq_0 mem_read_def)

lemma strncpy_pad_eq: "n < 2 ^ 64 \<Longrightarrow> strncpy_pad s n m = mem_fill s 0 n m"
proof (induction n arbitrary: s m)
  case 0
  then show ?case by (simp add: mem_fill_def in_range_def)
next
  case (Suc n)
  then have "strncpy_pad s (Suc n) m = mem_fill (s + 1) 0 n (m(s := 0))" by simp
  also have "\<dots> = mem_fill s 0 (Suc n) m"
    using Suc.prems in_range_Suc [of n s] by (auto simp: mem_fill_def fun_eq_iff)
  finally show ?case .
qed

text \<open>
  \<^verbatim>\<open>strncpy\<close> leaves the source string, cut at \<open>n\<close> bytes and padded with zeros, and nothing else.
\<close>

definition pad_nul :: "nat \<Rightarrow> u8 list \<Rightarrow> u8 list" where
  "pad_nul n bs = bs @ replicate (n - length bs) 0"

lemma length_pad_nul: "length bs \<le> n \<Longrightarrow> length (pad_nul n bs) = n"
  by (simp add: pad_nul_def)

lemma mem_write_Cons:
  assumes "length bs < 2 ^ 64"
  shows "mem_write a (b # bs) m = mem_write (a + 1) bs (m(a := b))"
proof
  fix x
  have r: "in_range a (Suc (length bs)) x \<longleftrightarrow> x = a \<or> in_range (a + 1) (length bs) x"
    using assms by (rule in_range_Suc)
  show "mem_write a (b # bs) m x = mem_write (a + 1) bs (m(a := b)) x"
  proof (cases "in_range (a + 1) (length bs) x")
    case True
    then obtain i where i: "i < length bs" "i < 2 ^ 64" "x = a + 1 + of_nat i" by (rule in_rangeE)
    have "x - a = of_nat (Suc i)" and "x - (a + 1) = of_nat i" using i by simp_all
    moreover have "unat (of_nat (Suc i) :: u64) = Suc i"
      using i assms by (intro unat_of_nat_64) linarith
    ultimately show ?thesis
      using True i r by (simp add: mem_write_def unat_of_nat_64 del: of_nat_Suc)
  next
    case False
    with r show ?thesis by (auto simp: mem_write_def)
  qed
qed

lemma strncpy_copy_eq:
  assumes "apart s n t n" and "n < 2 ^ 64"
  shows "strncpy_copy s t n m = mem_write s (pad_nul n (upto_nul (mem_read m t n))) m"
  using assms
proof (induction n arbitrary: s t m)
  case 0
  then show ?case by (simp add: pad_nul_def)
next
  case (Suc n)
  show ?case
  proof (cases "m t = 0")
    case True
    have "strncpy_copy s t (Suc n) m = mem_fill (s + 1) 0 n (m(s := 0))"
      using True Suc.prems(2) by (simp add: strncpy_pad_eq)
    also have "\<dots> = mem_write s (0 # replicate n 0) m"
      using Suc.prems(2) by (simp add: mem_fill_eq_write mem_write_Cons)
    finally show ?thesis
      using True by (simp add: pad_nul_def mem_read_Suc)
  next
    case nz: False
    show ?thesis
    proof (cases "n = 0")
      case True
      with nz show ?thesis by (simp add: mem_read_Suc pad_nul_def mem_write_single)
    next
      case False
      then have "1 < Suc n" by simp
      then have us: "unat (s + 1) = unat s + 1" and ut: "unat (t + 1) = unat t + 1"
        using Suc.prems(1) unat_plus_offset [of s "Suc n" 1] unat_plus_offset [of t "Suc n" 1]
        by (auto simp: apart_def)
      have ap: "apart (s + 1) n (t + 1) n"
        using Suc.prems(1) by (auto simp: apart_def us ut)
      have rd: "mem_read (m(s := m t)) (t + 1) n = mem_read m (t + 1) n"
        using mem_write_apart [of s "[m t]" "t + 1" n m] Suc.prems(1)
        by (auto simp: mem_write_single apart_def ut)
      have len: "length (pad_nul n (upto_nul (mem_read m (t + 1) n))) = n"
        by (rule length_pad_nul) (use length_upto_nul [of "mem_read m (t + 1) n"] in simp)
      have "strncpy_copy s t (Suc n) m
            = mem_write (s + 1) (pad_nul n (upto_nul (mem_read m (t + 1) n))) (m(s := m t))"
        using Suc.IH [OF ap Suc_lessD [OF Suc.prems(2)], of "m(s := m t)", unfolded rd]
        by (simp only: strncpy_copy.simps nz not_False_eq_True if_True)
      also have "\<dots> = mem_write s (m t # pad_nul n (upto_nul (mem_read m (t + 1) n))) m"
        using Suc.prems(2) by (simp add: mem_write_Cons len)
      finally show ?thesis
        using nz by (simp add: mem_read_Suc pad_nul_def)
    qed
  qed
qed

lemma strlen_from_cstr:
  assumes "cstr m p bs" and "i \<le> length bs"
  shows "strlen_from m p (int i) = Some (int (length bs))"
  using assms(2)
proof (induction "length bs - i" arbitrary: i)
  case 0
  have "mem_read m p (Suc (length bs)) ! length bs = 0"
    using assms(1) by (simp add: cstr_def)
  with 0 show ?case by (subst strlen_from.simps) simp
next
  case (Suc k)
  then have i: "i < length bs" by simp
  have "mem_read m p (Suc (length bs)) ! i = bs ! i"
    using assms(1) i by (simp add: cstr_def nth_append)
  moreover have "bs ! i \<noteq> 0"
    using assms(1) i by (metis cstr_def nth_mem)
  ultimately have "m (p + of_nat i) \<noteq> 0" using i by simp
  then have "strlen_from m p (int i) = strlen_from m p (int (Suc i))"
    by (subst strlen_from.simps) (simp add: add.commute)
  also have "\<dots> = Some (int (length bs))"
    using Suc i by (intro Suc.hyps(1)) simp_all
  finally show ?case .
qed

lemma safestrcpy_loop_eq:
  assumes "apart s (Suc n) t n" and "Suc n < 2 ^ 64"
  shows "safestrcpy_loop s t n m =
    (let bs = upto_nul (mem_read m t n)
     in mem_write s (bs @ (if length bs < n then [0, 0] else [0])) m)"
  using assms
proof (induction n arbitrary: s t m)
  case 0
  then show ?case by (simp add: mem_write_single)
next
  case (Suc n)
  show ?case
  proof (cases "m t = 0")
    case True
    then show ?thesis by (simp add: mem_read_Suc mem_write_Cons)
  next
    case nz: False
    have us: "unat (s + 1) = unat s + 1"
      using Suc.prems(1) unat_plus_offset [of s "Suc (Suc n)" 1] by (simp add: apart_def)
    have rd: "mem_read (m(s := m t)) (t + 1) n = mem_read m (t + 1) n"
    proof (cases "n = 0")
      case False
      then have "unat (t + 1) = unat t + 1"
        using Suc.prems(1) unat_plus_offset [of t "Suc n" 1] by (simp add: apart_def)
      then show ?thesis
        using mem_write_apart [of s "[m t]" "t + 1" n m] Suc.prems(1)
        by (auto simp: mem_write_single apart_def)
    qed simp
    have ap: "n \<noteq> 0 \<Longrightarrow> apart (s + 1) (Suc n) (t + 1) n"
      using Suc.prems(1) us unat_plus_offset [of t "Suc n" 1] by (auto simp: apart_def)
    let ?bs = "upto_nul (mem_read m (t + 1) n)"
    let ?z = "if length ?bs < n then [0, 0] else [0 :: u8]"
    have "safestrcpy_loop (s + 1) (t + 1) n (m(s := m t)) = mem_write (s + 1) (?bs @ ?z) (m(s := m t))"
    proof (cases "n = 0")
      case True
      then show ?thesis by (simp add: mem_write_single)
    next
      case False
      then show ?thesis
        using Suc.IH [OF ap [OF False] Suc_lessD [OF Suc.prems(2)], of "m(s := m t)", unfolded rd]
        by (simp only: Let_def)
    qed
    also have "\<dots> = mem_write s (m t # ?bs @ ?z) m"
      using Suc.prems(2) length_upto_nul [of "mem_read m (t + 1) n"]
      by (subst mem_write_Cons) auto
    finally show ?thesis
      using nz by (simp add: mem_read_Suc Let_def)
  qed
qed

lemma mem_read_write_prefix:
  "k \<le> length bs \<Longrightarrow> length bs \<le> 2 ^ 64 \<Longrightarrow> mem_read (mem_write a bs m) a k = take k bs"
  by (rule nth_equalityI) (auto simp: mem_write_in)

section \<open>Properties\<close>

text \<open>
  C4. The kernel's \<^verbatim>\<open>memmove\<close> copies correctly even when source and destination overlap: each destination
  byte receives the byte the source held before the call, and no other byte changes.  The ranges may not
  reach past the end of the address space.
\<close>

theorem memmove_correct:
  assumes "unat src + unat n < 2 ^ 64" and "unat dst + unat n < 2 ^ 64"
  shows "mem_read (memmove dst src n m) dst (unat n) = mem_read m src (unat n) \<and>
         (\<forall>x. \<not> in_range dst (unat n) x \<longrightarrow> memmove dst src n m x = m x)"
proof -
  have "unat n \<le> 2 ^ 64" using unat_u32_bound [of n] by simp
  moreover have "memmove dst src n m = mem_write dst (mem_read m src (unat n)) m"
    using assms by (simp add: memmove_eq mem_copy_eq_write calculation)
  ultimately show ?thesis
    using mem_write_same [of "mem_read m src (unat n)" dst m] by (simp add: mem_write_out)
qed

lemma unat_numeral_small: "unat (4 :: u32) = 4"
  by simp

theorem memmove_correct_witness:
  "unat (100 :: u64) + unat (4 :: u32) < 2 ^ 64 \<and> unat (102 :: u64) + unat (4 :: u32) < 2 ^ 64 \<and>
   mem_read (memmove 102 100 4 (\<lambda>x. ucast x)) 102 4 = [100, 101, 102, 103]"
proof -
  have a: "unat (100 :: u64) + unat (4 :: u32) < 2 ^ 64" and b: "unat (102 :: u64) + unat (4 :: u32) < 2 ^ 64"
    by simp_all
  have n: "(4 :: nat) = Suc (Suc (Suc (Suc 0)))" by simp
  have "mem_read (memmove 102 100 4 (\<lambda>x. ucast x)) 102 4 = mem_read (\<lambda>x. ucast x) 100 4"
    using conjunct1 [OF memmove_correct [OF a b, of "\<lambda>x. ucast x"]] by (simp only: unat_numeral_small)
  also have "\<dots> = [100, 101, 102, 103]"
    unfolding n mem_read_Suc by simp
  finally show ?thesis using a b by (rule conjI [OF _ conjI, rotated 2])
qed

text \<open>
  C5. \<^verbatim>\<open>safestrcpy(s, t, n)\<close> with \<open>n > 0\<close> always leaves a NUL-terminated string at \<open>s\<close>: the longest prefix of
  the source string that fits in \<open>n - 1\<close> bytes.  It writes no byte outside the \<open>n\<close> bytes at \<open>s\<close>.
\<close>

theorem safestrcpy_terminates_string:
  assumes "0 < n" and "n < 2 ^ 31" and "apart s (nat n) t (nat n - 1)"
  shows "cstr (safestrcpy s t n m) s (upto_nul (mem_read m t (nat n - 1))) \<and>
         (\<forall>x. \<not> in_range s (nat n) x \<longrightarrow> safestrcpy s t n m x = m x)"
proof -
  obtain k where k: "nat n = Suc k" using assms(1) by (cases "nat n") auto
  let ?bs = "upto_nul (mem_read m t k)"
  let ?w = "?bs @ (if length ?bs < k then [0, 0] else [0])"
  have n1: "nat (n - 1) = k" using k by simp
  have kb: "Suc k < 2 ^ 64" using k assms(2) by simp
  have len: "length ?bs \<le> k" using length_upto_nul [of "mem_read m t k"] by simp
  then have lw: "length ?w \<le> Suc k" and lw': "Suc (length ?bs) \<le> length ?w" by auto
  have w: "safestrcpy s t n m = mem_write s ?w m"
    using assms(1,3) kb by (simp add: safestrcpy_def n1 k safestrcpy_loop_eq Let_def)
  have "mem_read (mem_write s ?w m) s (Suc (length ?bs)) = take (Suc (length ?bs)) ?w"
    using lw lw' kb by (intro mem_read_write_prefix) linarith+
  also have "\<dots> = ?bs @ [0]" by simp
  finally have "cstr (safestrcpy s t n m) s ?bs"
    by (auto simp: cstr_def w upto_nul_def dest: set_takeWhileD)
  moreover have "safestrcpy s t n m x = m x" if "\<not> in_range s (Suc k) x" for x
    unfolding w using that lw by (intro mem_write_out) (auto simp: in_range_def)
  ultimately show ?thesis by (simp add: k)
qed

theorem safestrcpy_terminates_string_witness:
  "cstr (safestrcpy 100 200 3 (\<lambda>x. if x < 205 then 65 else 0)) 100 [65, 65]"
proof -
  have a: "apart 100 (nat 3) 200 (nat 3 - 1)" by (simp add: apart_def)
  have n: "(2 :: nat) = Suc (Suc 0)" by simp
  have "mem_read (\<lambda>x. if x < 205 then 65 else 0) 200 2 = [65, 65 :: u8]"
    unfolding n mem_read_Suc by simp
  then have "upto_nul (mem_read (\<lambda>x. if x < 205 then 65 else 0) 200 2) = [65, 65 :: u8]"
    by (simp add: upto_nul_def)
  with conjunct1 [OF safestrcpy_terminates_string [OF _ _ a, of "\<lambda>x. if x < 205 then 65 else 0"]]
  show ?thesis by simp
qed

end
