(* ===== verification/Kalloc.thy ===== *)
theory Kalloc
  imports Spinlock KString
begin

text \<open>
  \<^verbatim>\<open>kernel/kalloc.c\<close>: the physical page allocator.  Physical memory is the flat byte memory of theory
  \<open>Memory\<close>; the free list is threaded through the first eight bytes of the free pages, as in the code.
  The address \<open>kend\<close> is the linker symbol \<^verbatim>\<open>end\<close>, the first byte after the kernel image.
\<close>

section \<open>Layout constants\<close>

definition PGSIZE :: u64 where
  "PGSIZE = 4096"

definition KERNBASE :: u64 where
  "KERNBASE = 0x80000000"

definition PHYSTOP :: u64 where
  "PHYSTOP = KERNBASE + 128 * 1024 * 1024"

definition PGROUNDUP :: "u64 \<Rightarrow> u64" where
  "PGROUNDUP sz = (sz + PGSIZE - 1) AND NOT (PGSIZE - 1)"

definition PGROUNDDOWN :: "u64 \<Rightarrow> u64" where
  "PGROUNDDOWN a = a AND NOT (PGSIZE - 1)"

section \<open>State and operations\<close>

record kmem_st = kst +
  mem :: mem
  freelist :: u64

definition kfree :: "u64 \<Rightarrow> nat \<Rightarrow> u64 \<Rightarrow> 'z kmem_st_scheme \<Rightarrow> ('z kmem_st_scheme, unit) outcome" where
  "kfree kend c pa s =
     (if pa mod PGSIZE \<noteq> 0 \<or> pa < kend \<or> pa \<ge> PHYSTOP then Panic ''kfree''
      else let s = s\<lparr>mem := memset pa 1 (ucast PGSIZE) (mem s)\<rparr>
           in andthen (k_acquire c LKmem s) (\<lambda>_ s.
              let s = s\<lparr>mem := store64 pa (freelist s) (mem s)\<rparr>;
                  s = s\<lparr>freelist := pa\<rparr>
              in k_release c LKmem s))"

definition kalloc :: "nat \<Rightarrow> 'z kmem_st_scheme \<Rightarrow> ('z kmem_st_scheme, u64) outcome" where
  "kalloc c s =
     andthen (k_acquire c LKmem s) (\<lambda>_ s.
     let r = freelist s;
         s = (if r \<noteq> 0 then s\<lparr>freelist := load64 (mem s) r\<rparr> else s)
     in andthen (k_release c LKmem s) (\<lambda>_ s.
        Ret r (if r \<noteq> 0 then s\<lparr>mem := memset r 5 (ucast PGSIZE) (mem s)\<rparr> else s)))"

lemma kfree_Ret_below: "kfree kend c pa s = Ret x t \<Longrightarrow> pa < PHYSTOP"
  by (auto simp: kfree_def split: if_splits)

text \<open>The loop of \<^verbatim>\<open>freerange\<close> ends because \<^verbatim>\<open>kfree\<close> panics at \<^verbatim>\<open>PHYSTOP\<close>.\<close>

function freerange_loop ::
    "u64 \<Rightarrow> nat \<Rightarrow> u64 \<Rightarrow> u64 \<Rightarrow> 'z kmem_st_scheme \<Rightarrow> ('z kmem_st_scheme, unit) outcome" where
  "freerange_loop kend c p pa_end s =
     (if p + PGSIZE \<le> pa_end
      then andthen (kfree kend c p s) (\<lambda>_ s. freerange_loop kend c (p + PGSIZE) pa_end s)
      else Ret () s)"
  by pat_completeness auto
termination
proof (relation "measure (\<lambda>(_, _, p, _, _). unat (PHYSTOP + PGSIZE) - unat p)", goal_cases)
  case (2 kend c p pa_end s x s')
  then have "p < PHYSTOP" by (simp add: kfree_Ret_below)
  then have "unat (p + PGSIZE) = unat p + 4096"
    by (subst unat_add_lem [THEN iffD1])
       (auto simp: PHYSTOP_def KERNBASE_def PGSIZE_def word_less_nat_alt)
  with \<open>p < PHYSTOP\<close> show ?case
    by (auto simp: PHYSTOP_def KERNBASE_def PGSIZE_def word_less_nat_alt)
qed simp

definition freerange :: "u64 \<Rightarrow> nat \<Rightarrow> u64 \<Rightarrow> u64 \<Rightarrow> 'z kmem_st_scheme \<Rightarrow> ('z kmem_st_scheme, unit) outcome" where
  "freerange kend c pa_start pa_end s = freerange_loop kend c (PGROUNDUP pa_start) pa_end s"

definition kinit :: "u64 \<Rightarrow> nat \<Rightarrow> 'z kmem_st_scheme \<Rightarrow> ('z kmem_st_scheme, unit) outcome" where
  "kinit kend c s =
     freerange kend c kend PHYSTOP (s\<lparr>kmach := initlock LKmem ''kmem'' (kmach s)\<rparr>)"

section \<open>Pages\<close>

lemma page_consts [simp]: "unat PGSIZE = 4096" "unat KERNBASE = 0x80000000" "unat PHYSTOP = 0x88000000"
  by (simp_all add: PGSIZE_def KERNBASE_def PHYSTOP_def)

lemma and_not_diff: "(x :: u64) AND NOT y = x - (x AND y)"
proof -
  have "(x AND NOT y) + (x AND y) = (x AND NOT y) OR (x AND y)"
    by (rule disjunctive_add) (auto simp: bit_simps)
  also have "\<dots> = x" by (auto simp: bit_eq_iff bit_simps)
  finally show ?thesis by (simp add: algebra_simps)
qed

lemma unat_PGROUNDDOWN: "unat (PGROUNDDOWN x) = unat x - unat x mod 4096"
proof -
  have m: "PGSIZE - 1 = mask 12" by (simp add: PGSIZE_def mask_eq_exp_minus_1)
  have "x AND mask 12 = take_bit 12 x" by (simp add: take_bit_eq_mask)
  moreover have u: "unat (take_bit 12 x) = unat x mod 4096"
    by (simp add: take_bit_eq_mod unat_mod)
  moreover have "PGROUNDDOWN x = x - (x AND mask 12)"
    unfolding PGROUNDDOWN_def m by (rule and_not_diff)
  moreover have "take_bit 12 x \<le> x" by (simp add: word_le_nat_alt u)
  ultimately show ?thesis by (simp add: unat_sub)
qed

lemma aligned_PGROUNDDOWN [simp]: "aligned 4096 (PGROUNDDOWN x)"
  by (simp add: aligned_def unat_PGROUNDDOWN)

lemma PGROUNDDOWN_iff:
  assumes "aligned 4096 pa"
  shows "PGROUNDDOWN x = pa \<longleftrightarrow> unat pa \<le> unat x \<and> unat x < unat pa + 4096"
proof -
  obtain k where k: "unat pa = 4096 * k" using assms by (auto simp: aligned_def)
  have "PGROUNDDOWN x = pa \<longleftrightarrow> unat x - unat x mod 4096 = 4096 * k"
    by (simp add: word_unat_eq_iff unat_PGROUNDDOWN k)
  also have "\<dots> \<longleftrightarrow> unat x div 4096 = k"
    by (simp add: minus_mod_eq_mult_div)
  also have "\<dots> \<longleftrightarrow> 4096 * k \<le> unat x \<and> unat x < 4096 * k + 4096"
    using times_div_less_eq_dividend [of 4096 "unat x"] dividend_less_times_div [of 4096 "unat x"]
    by (auto intro!: div_nat_eqI)
  finally show ?thesis by (simp add: k)
qed

lemma page_nowrap: "aligned 4096 pa \<Longrightarrow> unat pa + 4096 \<le> 2 ^ 64"
  by (rule aligned_nowrap) simp_all

lemma in_range_page: "aligned 4096 pa \<Longrightarrow> in_range pa 4096 x \<longleftrightarrow> PGROUNDDOWN x = pa"
  by (simp only: PGROUNDDOWN_iff in_range_nowrap page_nowrap)

lemma PGROUNDDOWN_aligned [simp]: "aligned 4096 pa \<Longrightarrow> PGROUNDDOWN pa = pa"
  by (simp add: PGROUNDDOWN_iff)

lemma PGROUNDDOWN_offset: "aligned 4096 pa \<Longrightarrow> i < 4096 \<Longrightarrow> PGROUNDDOWN (pa + of_nat i) = pa"
  using unat_plus_offset [of pa 4096 i] page_nowrap [of pa] by (simp add: PGROUNDDOWN_iff)

lemma PGROUNDDOWN_word: "aligned 8 a \<Longrightarrow> i < 8 \<Longrightarrow> PGROUNDDOWN (a + of_nat i) = PGROUNDDOWN a"
proof -
  assume a: "aligned 8 a" and i: "i < 8"
  obtain k where k: "unat a = 8 * k" using a by (auto simp: aligned_def)
  have "unat a + 8 \<le> 2 ^ 64" using a by (rule aligned_nowrap) simp
  then have "unat (a + of_nat i) = 8 * k + i" using unat_plus_offset [of a 8 i] i k by simp
  moreover have "(8 * k + i) div 4096 = k div 512"
    using i div_mult2_eq [of "8 * k + i" 8 512] by simp
  moreover have "8 * k div 4096 = k div 512"
    using div_mult2_eq [of "8 * k" 8 512] by simp
  ultimately have "unat (PGROUNDDOWN (a + of_nat i)) = unat (PGROUNDDOWN a)"
    by (simp add: unat_PGROUNDDOWN minus_mod_eq_mult_div k)
  then show ?thesis by (simp add: word_unat_eq_iff)
qed

lemma aligned_8_page: "aligned 4096 pa \<Longrightarrow> aligned 8 pa"
  unfolding aligned_def by (rule dvd_trans [of 8 4096]) simp_all

text \<open>\<open>agree P m m'\<close>: the two memories agree on every byte whose page satisfies \<open>P\<close>.\<close>

definition agree :: "(u64 \<Rightarrow> bool) \<Rightarrow> mem \<Rightarrow> mem \<Rightarrow> bool" where
  "agree P m m' \<longleftrightarrow> (\<forall>x. P (PGROUNDDOWN x) \<longrightarrow> m' x = m x)"

lemma agree_refl [simp]: "agree P m m"
  by (simp add: agree_def)

lemma agree_trans: "agree P m m' \<Longrightarrow> agree P m' m'' \<Longrightarrow> agree P m m''"
  by (simp add: agree_def)

lemma agree_mono: "agree P m m' \<Longrightarrow> (\<And>p. Q p \<Longrightarrow> P p) \<Longrightarrow> agree Q m m'"
  by (simp add: agree_def)

lemma agree_load64: "agree P m m' \<Longrightarrow> P (PGROUNDDOWN a) \<Longrightarrow> aligned 8 a \<Longrightarrow> load64 m' a = load64 m a"
  by (rule load64_mem_eq) (simp add: agree_def PGROUNDDOWN_word)

lemma agree_fill: "aligned 4096 pa \<Longrightarrow> agree (\<lambda>p. p \<noteq> pa) m (mem_fill pa v 4096 m)"
  by (simp add: agree_def mem_fill_def in_range_page)

lemma agree_store:
  assumes "aligned 8 a"
  shows "agree (\<lambda>p. p \<noteq> PGROUNDDOWN a) m (store64 a v m)"
  unfolding agree_def
proof (intro allI impI)
  fix x assume x: "PGROUNDDOWN x \<noteq> PGROUNDDOWN a"
  have "\<not> in_range a 8 x"
  proof
    assume "in_range a 8 x"
    then obtain i where "i < 8" "x = a + of_nat i" by (rule in_rangeE)
    with x show False using PGROUNDDOWN_word [OF assms] by simp
  qed
  then show "store64 a v m x = m x" by (rule store64_out)
qed

section \<open>The free list\<close>

definition is_page :: "u64 \<Rightarrow> u64 \<Rightarrow> bool" where
  "is_page kend pa \<longleftrightarrow> pa \<noteq> 0 \<and> pa mod PGSIZE = 0 \<and> kend \<le> pa \<and> pa < PHYSTOP"

fun chain :: "mem \<Rightarrow> u64 \<Rightarrow> u64 list \<Rightarrow> bool" where
  "chain m p [] = (p = 0)"
| "chain m p (x # xs) = (p = x \<and> p \<noteq> 0 \<and> chain m (load64 m p) xs)"

text \<open>
  \<open>free_pages\<close>: the free list of the state is exactly \<open>ps\<close>, made of distinct pages of allocatable memory.
\<close>

definition free_pages :: "u64 \<Rightarrow> 'z kmem_st_scheme \<Rightarrow> u64 list \<Rightarrow> bool" where
  "free_pages kend s ps \<longleftrightarrow> chain (mem s) (freelist s) ps \<and> distinct ps \<and> (\<forall>p \<in> set ps. is_page kend p)"

text \<open>What \<^verbatim>\<open>kernel.ld\<close> promises of the symbol \<^verbatim>\<open>end\<close>: the image starts at \<^verbatim>\<open>KERNBASE\<close> and fits in memory.\<close>

definition kend_ok :: "u64 \<Rightarrow> bool" where
  "kend_ok kend \<longleftrightarrow> KERNBASE \<le> kend \<and> kend \<le> PHYSTOP"

lemma is_page_aligned: "is_page kend p \<Longrightarrow> aligned 4096 p"
  by (simp add: is_page_def aligned_def word_unat_eq_iff unat_mod dvd_eq_mod_eq_0)

lemma is_page_nonzero: "is_page kend p \<Longrightarrow> p \<noteq> 0"
  by (simp add: is_page_def)

lemma chain_agree:
  assumes "chain m p ps" and "agree (\<lambda>q. q \<in> set ps) m m'" and "\<forall>q \<in> set ps. aligned 4096 q"
  shows "chain m' p ps"
  using assms
proof (induction ps arbitrary: p)
  case (Cons x xs)
  have "load64 m' x = load64 m x"
    using Cons.prems by (intro agree_load64 [OF Cons.prems(2)]) (auto simp: aligned_8_page)
  moreover have "agree (\<lambda>q. q \<in> set xs) m m'"
    using Cons.prems(2) by (rule agree_mono) simp
  ultimately show ?case using Cons by auto
qed simp

lemma chain_nonempty: "chain m p ps \<Longrightarrow> p \<noteq> 0 \<Longrightarrow> \<exists>qs. ps = p # qs"
  by (cases ps) auto

lemma unat_PGSIZE32 [simp]: "unat (ucast PGSIZE :: u32) = 4096"
  by (simp add: PGSIZE_def)

lemma kfree_ok:
  assumes "k_can c LKmem s" and "is_page kend pa"
  shows "kfree kend c pa s = Ret () (s\<lparr>kmach := after_cs c (kmach s),
           mem := store64 pa (freelist s) (mem_fill pa 1 4096 (mem s)), freelist := pa\<rparr>)"
  using assms by (simp add: kfree_def is_page_def memset_eq Let_def not_less not_le)

lemma kalloc_ok:
  assumes "k_can c LKmem s"
  shows "kalloc c s = (if freelist s = 0 then Ret 0 (s\<lparr>kmach := after_cs c (kmach s)\<rparr>)
     else Ret (freelist s) (s\<lparr>kmach := after_cs c (kmach s), freelist := load64 (mem s) (freelist s),
            mem := mem_fill (freelist s) 5 4096 (mem s)\<rparr>))"
  using assms by (simp add: kalloc_def memset_eq Let_def)

lemma free_pages_aligned: "free_pages kend s ps \<Longrightarrow> \<forall>q \<in> set ps. aligned 4096 q"
  by (auto simp: free_pages_def is_page_aligned)

lemma free_pages_agree:
  assumes "free_pages kend s ps" and "agree (\<lambda>q. q \<in> set ps) (mem s) (mem t)" and "freelist t = freelist s"
  shows "free_pages kend t ps"
  using assms free_pages_aligned [OF assms(1)] by (auto simp: free_pages_def intro: chain_agree)

lemma kfree_free_pages:
  assumes "k_can c LKmem s" and "is_page kend pa" and "free_pages kend s ps" and "pa \<notin> set ps"
  obtains t where "kfree kend c pa s = Ret () t" and "free_pages kend t (pa # ps)"
    and "agree (\<lambda>q. q \<noteq> pa) (mem s) (mem t)"
    and "t = s\<lparr>kmach := after_cs c (kmach s), mem := mem t, freelist := pa\<rparr>"
proof
  let ?m = "store64 pa (freelist s) (mem_fill pa 1 4096 (mem s))"
  let ?t = "s\<lparr>kmach := after_cs c (kmach s), mem := ?m, freelist := pa\<rparr>"
  show "kfree kend c pa s = Ret () ?t" using assms(1,2) by (rule kfree_ok)
  have al: "aligned 4096 pa" using assms(2) by (rule is_page_aligned)
  show ag: "agree (\<lambda>q. q \<noteq> pa) (mem s) (mem ?t)"
    using agree_trans [OF agree_fill [OF al] agree_store [OF aligned_8_page [OF al], unfolded PGROUNDDOWN_aligned [OF al]]]
    by simp
  have "chain ?m (freelist s) ps"
    by (rule chain_agree [of "mem s"])
       (use assms(3,4) ag in \<open>auto simp: free_pages_def intro: is_page_aligned elim!: agree_mono\<close>)
  then show "free_pages kend ?t (pa # ps)"
    using assms is_page_nonzero by (auto simp: free_pages_def load_store_same)
qed simp

lemma kalloc_free_pages:
  assumes "k_can c LKmem s" and "free_pages kend s (p # ps)"
  obtains t where "kalloc c s = Ret p t" and "free_pages kend t ps" and "p \<noteq> 0"
    and "agree (\<lambda>q. q \<noteq> p) (mem s) (mem t)" and "\<forall>x. PGROUNDDOWN x = p \<longrightarrow> mem t x = 5"
    and "t = s\<lparr>kmach := after_cs c (kmach s), mem := mem t, freelist := freelist t\<rparr>"
proof
  let ?t = "s\<lparr>kmach := after_cs c (kmach s), freelist := load64 (mem s) p, mem := mem_fill p 5 4096 (mem s)\<rparr>"
  from assms(2) have f: "freelist s = p" "p \<noteq> 0" by (auto simp: free_pages_def)
  then show "kalloc c s = Ret p ?t" "p \<noteq> 0" using assms(1) by (simp_all add: kalloc_ok)
  have al: "aligned 4096 p" using free_pages_aligned [OF assms(2)] by simp
  show ag: "agree (\<lambda>q. q \<noteq> p) (mem s) (mem ?t)" using agree_fill [OF al] by simp
  show "\<forall>x. PGROUNDDOWN x = p \<longrightarrow> mem ?t x = 5" by (simp add: mem_fill_def in_range_page al)
  have "chain (mem ?t) (load64 (mem s) p) ps"
    by (rule chain_agree [of "mem s"])
       (use assms(2) ag in \<open>auto simp: free_pages_def intro: is_page_aligned elim!: agree_mono\<close>)
  then show "free_pages kend ?t ps" using assms(2) by (auto simp: free_pages_def)
qed simp

lemma kalloc_empty:
  assumes "k_can c LKmem s" and "free_pages kend s []"
  shows "kalloc c s = Ret 0 (s\<lparr>kmach := after_cs c (kmach s)\<rparr>)"
  using assms by (simp add: kalloc_ok free_pages_def)

section \<open>The allocator interface\<close>

text \<open>
  What the rest of the kernel relies on: pages come from a list of distinct free pages, freeing puts a
  page back, and neither touches the contents of any other page.
\<close>

locale page_allocator =
  fixes alloc :: "'s \<Rightarrow> ('s, u64) outcome" and free :: "u64 \<Rightarrow> 's \<Rightarrow> ('s, unit) outcome"
    and ready :: "'s \<Rightarrow> bool" and free_list :: "'s \<Rightarrow> u64 list \<Rightarrow> bool"
    and page :: "u64 \<Rightarrow> bool" and bytes :: "'s \<Rightarrow> mem"
  assumes alloc_take: "ready s \<Longrightarrow> free_list s (p # ps) \<Longrightarrow>
      \<exists>t. alloc s = Ret p t \<and> ready t \<and> free_list t ps \<and> agree (\<lambda>q. q \<noteq> p) (bytes s) (bytes t)"
    and alloc_none: "ready s \<Longrightarrow> free_list s [] \<Longrightarrow>
      \<exists>t. alloc s = Ret 0 t \<and> ready t \<and> free_list t [] \<and> bytes t = bytes s"
    and free_put: "ready s \<Longrightarrow> free_list s ps \<Longrightarrow> page p \<Longrightarrow> p \<notin> set ps \<Longrightarrow>
      \<exists>t. free p s = Ret () t \<and> ready t \<and> free_list t (p # ps) \<and> agree (\<lambda>q. q \<noteq> p) (bytes s) (bytes t)"
    and free_list_ok: "free_list s ps \<Longrightarrow> distinct ps \<and> (\<forall>p \<in> set ps. page p \<and> p \<noteq> 0)"
begin

lemma alloc_cases:
  assumes "ready s" and "free_list s ps"
  obtains (none) t where "ps = []" and "alloc s = Ret 0 t" and "ready t" and "free_list t []"
      and "bytes t = bytes s"
  | (page) p qs t where "ps = p # qs" and "p \<noteq> 0" and "page p" and "p \<notin> set qs" and "alloc s = Ret p t"
      and "ready t" and "free_list t qs" and "agree (\<lambda>q. q \<noteq> p) (bytes s) (bytes t)"
proof (cases ps)
  case Nil
  then show ?thesis using none alloc_none assms by blast
next
  case (Cons p qs)
  then show ?thesis using page [OF Cons] alloc_take [of s p qs] free_list_ok [OF assms(2)] assms by auto
qed

text \<open>The allocator partitions the pages into the free ones and the allocated set \<open>A\<close>.\<close>

definition partitioned :: "'s \<Rightarrow> u64 set \<Rightarrow> bool" where
  "partitioned s A \<longleftrightarrow> ready s \<and> (\<exists>ps. free_list s ps \<and> set ps \<inter> A = {} \<and> set ps \<union> A = {p. page p})"

lemma partitioned_alloc:
  assumes "partitioned s A" and "alloc s = Ret p t"
  shows "if p = 0 then A = {q. page q} \<and> partitioned t A
         else page p \<and> p \<notin> A \<and> partitioned t (insert p A)"
proof -
  from assms(1) obtain ps where ps: "ready s" "free_list s ps" "set ps \<inter> A = {}" "set ps \<union> A = {p. page p}"
    by (auto simp: partitioned_def)
  from ps(1,2) show ?thesis
  proof (cases rule: alloc_cases)
    case (none t')
    with assms(2) ps show ?thesis by (auto simp: partitioned_def intro: exI [of _ "[]"])
  next
    case (page p' qs t')
    then have "set qs \<inter> insert p' A = {}" and "set qs \<union> insert p' A = {p. page p}" using ps by auto
    with page assms(2) ps show ?thesis by (auto simp: partitioned_def intro: exI [of _ qs])
  qed
qed

lemma partitioned_free:
  assumes "partitioned s A" and "free p s = Ret () t" and "p \<in> A"
  shows "partitioned t (A - {p})"
proof -
  from assms(1) obtain ps where ps: "ready s" "free_list s ps" "set ps \<inter> A = {}" "set ps \<union> A = {p. page p}"
    by (auto simp: partitioned_def)
  with assms(3) have "page p" "p \<notin> set ps" by auto
  then have t: "ready t \<and> free_list t (p # ps)" using free_put [OF ps(1,2), of p] assms(2) by auto
  have "set (p # ps) \<inter> (A - {p}) = {}" and "set (p # ps) \<union> (A - {p}) = {p. page p}"
    using ps(3,4) assms(3) by auto
  with t show ?thesis unfolding partitioned_def by blast
qed

end

abbreviation kmem_ready :: "'z kmem_st_scheme \<Rightarrow> bool" where
  "kmem_ready s \<equiv> (\<forall>c. k_can c LKmem s)"

interpretation kpages: page_allocator "kalloc c" "kfree kend c" kmem_ready
  "free_pages kend" "is_page kend" mem
  for c kend
proof unfold_locales
  fix s :: "'z kmem_st_scheme" and p ps
  assume r: "kmem_ready s" and f: "free_pages kend s (p # ps)"
  from r have "k_can c LKmem s" by simp
  from this f obtain t where t: "kalloc c s = Ret p t" "free_pages kend t ps"
    "agree (\<lambda>q. q \<noteq> p) (mem s) (mem t)"
    "t = s\<lparr>kmach := after_cs c (kmach s), mem := mem t, freelist := freelist t\<rparr>"
    by (rule kalloc_free_pages)
  have "kmach t = after_cs c (kmach s)" by (subst t(4)) simp
  with t r show "\<exists>t. kalloc c s = Ret p t \<and> kmem_ready t \<and> free_pages kend t ps
      \<and> agree (\<lambda>q. q \<noteq> p) (mem s) (mem t)" by auto
next
  fix s :: "'z kmem_st_scheme"
  assume "kmem_ready s" and "free_pages kend s []"
  then show "\<exists>t. kalloc c s = Ret 0 t \<and> kmem_ready t \<and> free_pages kend t [] \<and> mem t = mem s"
    by (simp add: kalloc_empty [of c s kend] free_pages_def)
next
  fix s :: "'z kmem_st_scheme" and p ps
  assume r: "kmem_ready s" and f: "free_pages kend s ps" "is_page kend p" "p \<notin> set ps"
  from r have "k_can c LKmem s" by simp
  from this f(2,1,3) obtain t where t: "kfree kend c p s = Ret () t"
    "free_pages kend t (p # ps)" "agree (\<lambda>q. q \<noteq> p) (mem s) (mem t)"
    "t = s\<lparr>kmach := after_cs c (kmach s), mem := mem t, freelist := p\<rparr>"
    by (rule kfree_free_pages)
  have "kmach t = after_cs c (kmach s)" by (subst t(4)) simp
  with t r show "\<exists>t. kfree kend c p s = Ret () t \<and> kmem_ready t \<and>
      free_pages kend t (p # ps) \<and> agree (\<lambda>q. q \<noteq> p) (mem s) (mem t)" by auto
next
  fix s :: "'z kmem_st_scheme" and ps
  assume "free_pages kend s ps"
  then show "distinct ps \<and> (\<forall>p \<in> set ps. is_page kend p \<and> p \<noteq> 0)"
    by (auto simp: free_pages_def dest: is_page_nonzero)
qed

section \<open>Boot\<close>

lemma aligned_le_next:
  assumes "aligned 4096 p" and "aligned 4096 q" and "unat p < unat q"
  shows "unat p + 4096 \<le> unat q"
proof -
  obtain i j where i: "unat p = 4096 * i" and j: "unat q = 4096 * j" using assms(1,2) by (auto simp: aligned_def elim!: dvdE)
  then have "i < j" using assms(3) by simp
  then show ?thesis using i j by simp
qed

lemma next_page:
  assumes "aligned 4096 p" and "p < PHYSTOP"
  shows "unat (p + PGSIZE) = unat p + 4096" and "aligned 4096 (p + PGSIZE)" and "p + PGSIZE \<le> PHYSTOP"
proof -
  show u: "unat (p + PGSIZE) = unat p + 4096"
    using assms by (subst unat_add_lem [THEN iffD1]) (auto simp: word_less_nat_alt)
  then show a: "aligned 4096 (p + PGSIZE)" using assms(1) by (simp add: aligned_def)
  have "aligned 4096 PHYSTOP" by (simp add: aligned_def)
  then show "p + PGSIZE \<le> PHYSTOP"
    using aligned_le_next [OF assms(1), of PHYSTOP] assms(2) u by (simp add: word_le_nat_alt word_less_nat_alt)
qed

lemma is_page_iff: "is_page kend q \<longleftrightarrow> q \<noteq> 0 \<and> aligned 4096 q \<and> kend \<le> q \<and> q < PHYSTOP"
  by (auto simp: is_page_def aligned_def word_unat_eq_iff unat_mod dvd_eq_mod_eq_0)

lemma pages_from_split:
  assumes "aligned 4096 p" and "p < PHYSTOP" and "kend \<le> p" and "p \<noteq> 0"
  shows "{q. is_page kend q \<and> p \<le> q} = insert p {q. is_page kend q \<and> p + PGSIZE \<le> q}"
proof -
  have "p \<le> q \<longleftrightarrow> q = p \<or> p + PGSIZE \<le> q" if "is_page kend q" for q
    using that aligned_le_next [OF assms(1), of q] next_page(1) [OF assms(1,2)]
    by (cases "unat p < unat q") (auto simp: is_page_iff word_le_nat_alt word_unat_eq_iff)
  moreover have "is_page kend p" using assms by (simp add: is_page_iff)
  ultimately show ?thesis by auto
qed

lemma freerange_loop_ok:
  assumes "aligned 4096 p" and "kend \<le> p" and "p \<le> PHYSTOP" and "p \<noteq> 0"
    and "kmem_ready s" and "free_pages kend s ps" and "\<forall>q \<in> set ps. q < p"
  shows "\<exists>t qs. freerange_loop kend c p PHYSTOP s = Ret () t \<and> kmem_ready t \<and> free_pages kend t qs \<and>
           set qs = set ps \<union> {q. is_page kend q \<and> p \<le> q}"
  using assms
proof (induction "unat PHYSTOP - unat p" arbitrary: p s ps rule: less_induct)
  case less
  show ?case
  proof (cases "p = PHYSTOP")
    case True
    then have "\<not> p + PGSIZE \<le> PHYSTOP" by (simp add: PHYSTOP_def KERNBASE_def PGSIZE_def)
    moreover have "{q. is_page kend q \<and> p \<le> q} = {}" using True by (auto simp: is_page_iff)
    ultimately show ?thesis using less.prems by (subst freerange_loop.simps) auto
  next
    case False
    with less.prems(3) have lt: "p < PHYSTOP" by simp
    note np = next_page [OF less.prems(1) lt]
    have "is_page kend p" using less.prems lt by (simp add: is_page_iff)
    moreover have "p \<notin> set ps" using less.prems(7) by blast
    ultimately obtain s' where s': "kfree kend c p s = Ret () s'" "kmem_ready s'" "free_pages kend s' (p # ps)"
      using kpages.free_put [OF less.prems(5,6), of p c] by blast
    have "\<forall>q \<in> set (p # ps). q < p + PGSIZE"
      using less.prems(7) np(1) by (auto simp: word_less_nat_alt)
    then have "\<exists>t qs. freerange_loop kend c (p + PGSIZE) PHYSTOP s' = Ret () t \<and> kmem_ready t \<and>
        free_pages kend t qs \<and> set qs = set (p # ps) \<union> {q. is_page kend q \<and> p + PGSIZE \<le> q}"
      using np less.prems(2) lt s' by (intro less.hyps) (auto simp: word_less_nat_alt word_le_nat_alt)
    moreover have "set (p # ps) \<union> {q. is_page kend q \<and> p + PGSIZE \<le> q} = set ps \<union> {q. is_page kend q \<and> p \<le> q}"
      using pages_from_split [OF less.prems(1) lt less.prems(2,4)] by auto
    ultimately show ?thesis using np(3) s'(1) by (subst freerange_loop.simps) auto
  qed
qed

lemma PGROUNDUP_kend:
  assumes "kend_ok kend"
  shows "aligned 4096 (PGROUNDUP kend)" and "kend \<le> PGROUNDUP kend" and "PGROUNDUP kend \<le> PHYSTOP"
    and "PGROUNDUP kend \<noteq> 0" and "is_page kend q \<Longrightarrow> PGROUNDUP kend \<le> q"
proof -
  let ?k = "unat kend"
  have k: "0x80000000 \<le> ?k" "?k \<le> 0x88000000" using assms by (auto simp: kend_ok_def word_le_nat_alt)
  have e: "PGROUNDUP kend = PGROUNDDOWN (kend + of_nat 4095)"
    by (simp add: PGROUNDUP_def PGROUNDDOWN_def PGSIZE_def add.commute)
  have "unat (kend + of_nat 4095) = ?k + 4095" using k by (intro unat_plus_offset [of _ 4096]) auto
  then have u: "unat (PGROUNDUP kend) = 4096 * ((?k + 4095) div 4096)"
    by (simp only: e unat_PGROUNDDOWN minus_mod_eq_mult_div)
  have b: "4096 * ((?k + 4095) div 4096) \<le> ?k + 4095" "?k + 4095 < 4096 * ((?k + 4095) div 4096) + 4096"
    using times_div_less_eq_dividend [of 4096 "?k + 4095"] dividend_less_times_div [of 4096 "?k + 4095"] by auto
  show al: "aligned 4096 (PGROUNDUP kend)" by (simp add: e)
  show "kend \<le> PGROUNDUP kend" unfolding word_le_nat_alt u using b by linarith
  have P: "aligned 4096 PHYSTOP" by (simp add: aligned_def)
  have least: "unat (PGROUNDUP kend) \<le> unat q" if "aligned 4096 q" "?k \<le> unat q" for q
  proof (rule ccontr)
    assume "\<not> ?thesis"
    then have "unat q + 4096 \<le> unat (PGROUNDUP kend)" using aligned_le_next [OF that(1) al] by simp
    with b that(2) u show False by linarith
  qed
  show "PGROUNDUP kend \<le> PHYSTOP" using least [OF P] k(2) by (simp add: word_le_nat_alt)
  show "PGROUNDUP kend \<noteq> 0"
  proof
    assume "PGROUNDUP kend = 0"
    with u b k show False by (simp add: div_eq_0_iff)
  qed
  show "PGROUNDUP kend \<le> q" if "is_page kend q"
    using that least [of q] by (simp add: is_page_iff word_le_nat_alt)
qed

definition cpus_ok :: "mach \<Rightarrow> bool" where
  "cpus_ok m \<longleftrightarrow> (\<forall>c. cpu_ok c m)"

lemma kinit_ok:
  assumes "kend_ok kend" and "cpus_ok (kmach s)" and "freelist s = 0"
  shows "\<exists>t ps. kinit kend c s = Ret () t \<and> kmem_ready t \<and> free_pages kend t ps \<and> set ps = {p. is_page kend p}"
proof -
  let ?s = "s\<lparr>kmach := initlock LKmem ''kmem'' (kmach s)\<rparr>"
  have "kmem_ready ?s"
    using assms(2) by (simp add: can_acquire_def lock_free_def cpu_ok_def cpus_ok_def initlock_def upd_lock_def)
  moreover have "free_pages kend ?s []" using assms(3) by (simp add: free_pages_def)
  ultimately obtain t qs where "freerange_loop kend c (PGROUNDUP kend) PHYSTOP ?s = Ret () t" "kmem_ready t"
    "free_pages kend t qs" "set qs = {q. is_page kend q \<and> PGROUNDUP kend \<le> q}"
    using freerange_loop_ok [OF PGROUNDUP_kend(1-4) [OF assms(1)], of ?s "[]" c] assms(1)
    by (auto simp del: freerange_loop.simps)
  then show ?thesis
    using PGROUNDUP_kend(5) [OF assms(1)] unfolding kinit_def freerange_def by blast
qed

section \<open>Histories of allocations\<close>

text \<open>
  Any sequence of allocations, frees of allocated pages, and stores of their owners into allocated
  pages, by any hart.  The second component is the set of pages handed out and not yet freed.
\<close>

inductive kmem_step :: "u64 \<Rightarrow> kmem_st \<times> u64 set \<Rightarrow> kmem_st \<times> u64 set \<Rightarrow> bool" for kend where
  ks_alloc: "kalloc c s = Ret p t \<Longrightarrow> kmem_step kend (s, A) (t, if p = 0 then A else insert p A)"
| ks_free: "p \<in> A \<Longrightarrow> kfree kend c p s = Ret () t \<Longrightarrow> kmem_step kend (s, A) (t, A - {p})"
| ks_store: "PGROUNDDOWN x \<in> A \<Longrightarrow> kmem_step kend (s, A) (s\<lparr>mem := (mem s)(x := v)\<rparr>, A)"

definition kmem_boot :: "u64 \<Rightarrow> kmem_st \<times> u64 set \<Rightarrow> bool" where
  "kmem_boot kend z \<longleftrightarrow> snd z = {} \<and>
     (\<exists>c s. cpus_ok (kmach s) \<and> freelist s = 0 \<and> kinit kend c s = Ret () (fst z))"

definition kmem_inv :: "u64 \<Rightarrow> kmem_st \<times> u64 set \<Rightarrow> bool" where
  "kmem_inv kend z \<longleftrightarrow> kmem_ready (fst z) \<and>
     (\<exists>ps. free_pages kend (fst z) ps \<and> set ps \<inter> snd z = {} \<and> set ps \<union> snd z = {p. is_page kend p})"

lemma kmem_inv_partitioned: "kmem_inv kend (s, A) \<longleftrightarrow> kpages.partitioned kend s A"
  by (simp add: kmem_inv_def kpages.partitioned_def)

lemma kmem_inv_boot: "kend_ok kend \<Longrightarrow> kmem_boot kend z \<Longrightarrow> kmem_inv kend z"
  using kinit_ok [of kend] unfolding kmem_boot_def kmem_inv_def by (metis Int_empty_right Un_empty_right outcome.inject(1))

lemma kmem_inv_step:
  assumes "kmem_step kend z y" and "kmem_inv kend z"
  shows "kmem_inv kend y"
  using assms
proof (induction rule: kmem_step.induct)
  case (ks_alloc c s p t A)
  then show ?case
    using kpages.partitioned_alloc [of kend s A c p t] by (auto simp: kmem_inv_partitioned split: if_splits)
next
  case (ks_free p A c s t)
  then show ?case
    using kpages.partitioned_free [of kend s A c p t] by (simp add: kmem_inv_partitioned)
next
  case (ks_store x A s v)
  then obtain ps where ps: "free_pages kend s ps" "set ps \<inter> A = {}" "set ps \<union> A = {p. is_page kend p}"
    by (auto simp: kmem_inv_def)
  have "agree (\<lambda>q. q \<in> set ps) (mem s) ((mem s)(x := v))"
    using ks_store ps(2) by (auto simp: agree_def)
  with ps(1) have "free_pages kend (s\<lparr>mem := (mem s)(x := v)\<rparr>) ps"
    by (rule_tac free_pages_agree) auto
  with ks_store ps show ?case by (auto simp: kmem_inv_def)
qed

text \<open>Boot of an image that fits in memory.\<close>

definition kmem_start :: "u64 \<Rightarrow> kmem_st \<times> u64 set \<Rightarrow> bool" where
  "kmem_start kend z \<longleftrightarrow> kend_ok kend \<and> kmem_boot kend z"

interpretation kmem_hist: inductive_invariant "kmem_start kend" "kmem_step kend" "kmem_inv kend" for kend
  by unfold_locales (auto simp: kmem_start_def kmem_inv_boot kmem_inv_step)

section \<open>Properties\<close>

text \<open>
  C6. Boot: \<^verbatim>\<open>kinit\<close> returns, and puts every page-aligned frame between \<^verbatim>\<open>end\<close> and \<^verbatim>\<open>PHYSTOP\<close> on the free
  list exactly once, and nothing else.
\<close>

theorem kinit_frees_all_pages:
  assumes "kend_ok kend" and "cpus_ok (kmach s)" and "freelist s = 0"
  shows "\<exists>t ps. kinit kend c s = Ret () t \<and> chain (mem t) (freelist t) ps \<and> distinct ps \<and>
           set ps = {p. p mod PGSIZE = 0 \<and> kend \<le> p \<and> p < PHYSTOP}"
proof -
  obtain t ps where t: "kinit kend c s = Ret () t" "free_pages kend t ps" "set ps = {p. is_page kend p}"
    using kinit_ok [OF assms, of c] by blast
  have "is_page kend p \<longleftrightarrow> p mod PGSIZE = 0 \<and> kend \<le> p \<and> p < PHYSTOP" for p
  proof -
    have "kend \<le> p \<Longrightarrow> p \<noteq> 0" using assms(1) by (auto simp: kend_ok_def word_le_nat_alt)
    then show ?thesis unfolding is_page_def by blast
  qed
  with t(2,3) have "chain (mem t) (freelist t) ps" "distinct ps"
    "set ps = {p. p mod PGSIZE = 0 \<and> kend \<le> p \<and> p < PHYSTOP}"
    by (auto simp: free_pages_def)
  with t(1) show ?thesis by blast
qed

definition boot_kmem :: kmem_st where
  "boot_kmem = \<lparr>kmach = \<lparr>sie = (\<lambda>_. False), cpus = (\<lambda>_. \<lparr>cpu_proc = None, noff = 0, intena = False\<rparr>),
     locks = (\<lambda>_. \<lparr>locked = False, lk_name = [], lk_cpu = None\<rparr>)\<rparr>, mem = (\<lambda>_. 0), freelist = 0\<rparr>"

lemma boot_kmem_ok: "kend_ok 0x80021000" "cpus_ok (kmach boot_kmem)" "freelist boot_kmem = 0"
  by (simp_all add: kend_ok_def word_le_nat_alt cpus_ok_def cpu_ok_def boot_kmem_def)

theorem kinit_frees_all_pages_witness:
  "\<exists>t ps. kinit 0x80021000 0 boot_kmem = Ret () t \<and> chain (mem t) (freelist t) ps \<and> 0x80021000 \<in> set ps"
proof -
  obtain t ps where "kinit 0x80021000 0 boot_kmem = Ret () t" "chain (mem t) (freelist t) ps"
    "set ps = {p. p mod PGSIZE = 0 \<and> 0x80021000 \<le> p \<and> p < PHYSTOP}"
    using kinit_frees_all_pages [OF boot_kmem_ok, of 0] by blast
  then show ?thesis by (intro exI [of _ t] exI [of _ ps]) (simp add: PGSIZE_def PHYSTOP_def KERNBASE_def)
qed

text \<open>
  C7. No page is ever handed out twice and none is lost: in every history of \<^verbatim>\<open>kalloc\<close>, \<^verbatim>\<open>kfree\<close> of allocated
  pages and stores into allocated pages after \<^verbatim>\<open>kinit\<close>, a further \<^verbatim>\<open>kalloc\<close> returns, with a page that is
  not allocated at the moment, filled with the byte 5; it returns 0 only when all pages are allocated.
\<close>

theorem kalloc_never_reuses:
  assumes "reachable_from (kmem_start kend) (kmem_step kend) (s, A)"
  shows "\<exists>p t. kalloc c s = Ret p t \<and>
           (if p = 0 then A = {q. is_page kend q}
            else is_page kend p \<and> p \<notin> A \<and> (\<forall>x. PGROUNDDOWN x = p \<longrightarrow> mem t x = 5))"
proof -
  from assms have inv: "kpages.partitioned kend s A"
    using kmem_hist.reachable_inv [of kend "(s, A)"] by (simp add: kmem_inv_partitioned)
  then obtain ps where r: "kmem_ready s" and ps: "free_pages kend s ps"
    by (auto simp: kpages.partitioned_def)
  show ?thesis
  proof (cases ps)
    case Nil
    with r ps have "kalloc c s = Ret 0 (s\<lparr>kmach := after_cs c (kmach s)\<rparr>)" by (simp add: kalloc_empty)
    then show ?thesis using kpages.partitioned_alloc [OF inv] by fastforce
  next
    case (Cons p qs)
    from r have "k_can c LKmem s" by simp
    then obtain t where t: "kalloc c s = Ret p t" "p \<noteq> 0" "\<forall>x. PGROUNDDOWN x = p \<longrightarrow> mem t x = 5"
      using ps [unfolded Cons] by (rule kalloc_free_pages)
    with kpages.partitioned_alloc [OF inv t(1)] show ?thesis by auto
  qed
qed

theorem kalloc_never_reuses_witness:
  "\<exists>s p t. reachable_from (kmem_start 0x80021000) (kmem_step 0x80021000) (s, {}) \<and> kalloc 0 s = Ret p t \<and>
     is_page 0x80021000 p"
proof -
  obtain s where s: "kinit 0x80021000 0 boot_kmem = Ret () s"
    using kinit_ok [OF boot_kmem_ok, of 0] by blast
  have "kmem_start 0x80021000 (s, {})"
    using s boot_kmem_ok by (auto simp: kmem_start_def kmem_boot_def)
  then have r: "reachable_from (kmem_start 0x80021000) (kmem_step 0x80021000) (s, {})"
    by (rule reach_init)
  have "is_page 0x80021000 0x80021000" by (simp add: is_page_def PGSIZE_def PHYSTOP_def KERNBASE_def)
  with kalloc_never_reuses [OF r, of 0] r show ?thesis by (auto split: if_splits)
qed

end
