(* ===== verification/Vm.thy ===== *)
theory Vm
  imports Kalloc
begin

text \<open>
  \<^verbatim>\<open>kernel/vm.c\<close>: Sv39 page tables held in the flat physical memory, the operations on them, and the
  copies between user and kernel space.  Kernel buffers on the far side of \<^verbatim>\<open>copyout\<close>, \<^verbatim>\<open>copyin\<close> and
  \<^verbatim>\<open>copyinstr\<close> are byte lists: the bytes at \<^verbatim>\<open>src\<close>, or the bytes written to \<^verbatim>\<open>dst\<close>.
\<close>

section \<open>Address and PTE arithmetic\<close>

definition MAXVA :: u64 where
  "MAXVA = push_bit (9 + 9 + 9 + 12 - 1) 1"

definition PTE_V :: u64 where "PTE_V = 1"
definition PTE_R :: u64 where "PTE_R = 2"
definition PTE_W :: u64 where "PTE_W = 4"
definition PTE_X :: u64 where "PTE_X = 8"
definition PTE_U :: u64 where "PTE_U = 16"

definition PA2PTE :: "u64 \<Rightarrow> u64" where
  "PA2PTE pa = push_bit 10 (drop_bit 12 pa)"

definition PTE2PA :: "u64 \<Rightarrow> u64" where
  "PTE2PA pte = push_bit 12 (drop_bit 10 pte)"

definition PTE_FLAGS :: "u64 \<Rightarrow> u64" where
  "PTE_FLAGS pte = pte AND 0x3FF"

definition PX :: "nat \<Rightarrow> u64 \<Rightarrow> u64" where
  "PX level va = drop_bit (12 + 9 * level) va AND 0x1FF"

definition MAKE_SATP :: "u64 \<Rightarrow> u64" where
  "MAKE_SATP pagetable = push_bit 60 8 OR drop_bit 12 pagetable"

definition UART0 :: u64 where "UART0 = 0x10000000"
definition VIRTIO0 :: u64 where "VIRTIO0 = 0x10001000"
definition PLIC :: u64 where "PLIC = 0x0c000000"

definition TRAMPOLINE :: u64 where
  "TRAMPOLINE = MAXVA - PGSIZE"

definition TRAPFRAME :: u64 where
  "TRAPFRAME = TRAMPOLINE - PGSIZE"

definition KSTACK :: "nat \<Rightarrow> u64" where
  "KSTACK p = TRAMPOLINE - of_nat (p + 1) * 2 * PGSIZE"

definition NPROC :: nat where
  "NPROC = 64"

record vm_st = kmem_st +
  kernel_pagetable :: u64
  satp :: "nat \<Rightarrow> u64"

section \<open>Walking and mapping\<close>

text \<open>
  The loop of \<^verbatim>\<open>walk\<close> by levels: \<open>walk_levels c l\<close> is the walk from a table of level \<open>l\<close> down.
\<close>

fun walk_levels ::
    "nat \<Rightarrow> nat \<Rightarrow> u64 \<Rightarrow> u64 \<Rightarrow> bool \<Rightarrow> 'z kmem_st_scheme \<Rightarrow> ('z kmem_st_scheme, u64) outcome" where
  "walk_levels c 0 pagetable va alloc s = Ret (pagetable + 8 * PX 0 va) s"
| "walk_levels c (Suc l) pagetable va alloc s =
     (let pte = pagetable + 8 * PX (Suc l) va
      in if load64 (mem s) pte AND PTE_V \<noteq> 0
         then walk_levels c l (PTE2PA (load64 (mem s) pte)) va alloc s
         else if \<not> alloc then Ret 0 s
         else andthen (kalloc c s) (\<lambda>pg s.
              if pg = 0 then Ret 0 s
              else let s = s\<lparr>mem := memset pg 0 (ucast PGSIZE) (mem s)\<rparr>;
                       s = s\<lparr>mem := store64 pte (PA2PTE pg OR PTE_V) (mem s)\<rparr>
                   in walk_levels c l pg va alloc s))"

definition walk :: "nat \<Rightarrow> u64 \<Rightarrow> u64 \<Rightarrow> bool \<Rightarrow> 'z kmem_st_scheme \<Rightarrow> ('z kmem_st_scheme, u64) outcome" where
  "walk c pagetable va alloc s =
     (if va \<ge> MAXVA then Panic ''walk'' else walk_levels c 2 pagetable va alloc s)"

definition walkaddr :: "nat \<Rightarrow> u64 \<Rightarrow> u64 \<Rightarrow> 'z kmem_st_scheme \<Rightarrow> ('z kmem_st_scheme, u64) outcome" where
  "walkaddr c pagetable va s =
     (if va \<ge> MAXVA then Ret 0 s
      else andthen (walk c pagetable va False s) (\<lambda>pte s.
           if pte = 0 then Ret 0 s
           else if load64 (mem s) pte AND PTE_V = 0 then Ret 0 s
           else if load64 (mem s) pte AND PTE_U = 0 then Ret 0 s
           else Ret (PTE2PA (load64 (mem s) pte)) s))"

lemma walk_Ret_below: "walk c pt va al s = Ret x t \<Longrightarrow> va < MAXVA"
  by (auto simp: walk_def split: if_splits)

lemma unat_MAXVA [simp]: "unat MAXVA = 2 ^ 38"
  by (simp add: MAXVA_def)

lemma next_va_measure:
  assumes "va < MAXVA"
  shows "unat (MAXVA + PGSIZE) - unat (va + PGSIZE) < unat (MAXVA + PGSIZE) - unat va"
proof -
  have "unat (va + PGSIZE) = unat va + 4096"
    using assms by (subst unat_add_lem [THEN iffD1]) (auto simp: word_less_nat_alt)
  moreover have "unat (MAXVA + PGSIZE) = 2 ^ 38 + 4096"
    by (simp add: MAXVA_def PGSIZE_def)
  ultimately show ?thesis using assms by (simp add: word_less_nat_alt)
qed

text \<open>The loops over addresses end because \<^verbatim>\<open>walk\<close> panics at \<^verbatim>\<open>MAXVA\<close>.\<close>

function mappages_loop ::
    "nat \<Rightarrow> u64 \<Rightarrow> u64 \<Rightarrow> u64 \<Rightarrow> u64 \<Rightarrow> u64 \<Rightarrow> 'z kmem_st_scheme \<Rightarrow> ('z kmem_st_scheme, int) outcome" where
  "mappages_loop c pagetable a lst pa perm s =
     andthen (walk c pagetable a True s) (\<lambda>pte s.
     if pte = 0 then Ret (-1) s
     else if load64 (mem s) pte AND PTE_V \<noteq> 0 then Panic ''mappages: remap''
     else let s = s\<lparr>mem := store64 pte (PA2PTE pa OR perm OR PTE_V) (mem s)\<rparr>
          in if a = lst then Ret 0 s
             else mappages_loop c pagetable (a + PGSIZE) lst (pa + PGSIZE) perm s)"
  by pat_completeness auto
termination
  by (relation "measure (\<lambda>(_, _, a, _, _, _, _). unat (MAXVA + PGSIZE) - unat a)")
     (auto dest!: walk_Ret_below intro: next_va_measure)

definition mappages ::
    "nat \<Rightarrow> u64 \<Rightarrow> u64 \<Rightarrow> u64 \<Rightarrow> u64 \<Rightarrow> u64 \<Rightarrow> 'z kmem_st_scheme \<Rightarrow> ('z kmem_st_scheme, int) outcome" where
  "mappages c pagetable va sz pa perm s =
     (if va mod PGSIZE \<noteq> 0 then Panic ''mappages: va not aligned''
      else if sz mod PGSIZE \<noteq> 0 then Panic ''mappages: size not aligned''
      else if sz = 0 then Panic ''mappages: size''
      else mappages_loop c pagetable va (va + sz - PGSIZE) pa perm s)"

definition kvmmap ::
    "nat \<Rightarrow> u64 \<Rightarrow> u64 \<Rightarrow> u64 \<Rightarrow> u64 \<Rightarrow> u64 \<Rightarrow> 'z kmem_st_scheme \<Rightarrow> ('z kmem_st_scheme, unit) outcome" where
  "kvmmap c kpgtbl va pa sz perm s =
     andthen (mappages c kpgtbl va sz pa perm s) (\<lambda>r s. if r \<noteq> 0 then Panic ''kvmmap'' else Ret () s)"

fun proc_mapstacks_loop :: "nat \<Rightarrow> u64 \<Rightarrow> nat list \<Rightarrow> 'z kmem_st_scheme \<Rightarrow> ('z kmem_st_scheme, unit) outcome" where
  "proc_mapstacks_loop c kpgtbl [] s = Ret () s"
| "proc_mapstacks_loop c kpgtbl (p # ps) s =
     andthen (kalloc c s) (\<lambda>pa s.
     if pa = 0 then Panic ''kalloc''
     else andthen (kvmmap c kpgtbl (KSTACK p) pa PGSIZE (PTE_R OR PTE_W) s) (\<lambda>_ s.
          proc_mapstacks_loop c kpgtbl ps s))"

definition proc_mapstacks :: "nat \<Rightarrow> u64 \<Rightarrow> 'z kmem_st_scheme \<Rightarrow> ('z kmem_st_scheme, unit) outcome" where
  "proc_mapstacks c kpgtbl s = proc_mapstacks_loop c kpgtbl [0..<NPROC] s"

definition kvmmake :: "u64 \<Rightarrow> u64 \<Rightarrow> nat \<Rightarrow> 'z kmem_st_scheme \<Rightarrow> ('z kmem_st_scheme, u64) outcome" where
  "kvmmake etext trampoline c s =
     andthen (kalloc c s) (\<lambda>kpgtbl s.
     let s = s\<lparr>mem := memset kpgtbl 0 (ucast PGSIZE) (mem s)\<rparr> in
     andthen (kvmmap c kpgtbl UART0 UART0 PGSIZE (PTE_R OR PTE_W) s) (\<lambda>_ s.
     andthen (kvmmap c kpgtbl VIRTIO0 VIRTIO0 PGSIZE (PTE_R OR PTE_W) s) (\<lambda>_ s.
     andthen (kvmmap c kpgtbl PLIC PLIC 0x4000000 (PTE_R OR PTE_W) s) (\<lambda>_ s.
     andthen (kvmmap c kpgtbl KERNBASE KERNBASE (etext - KERNBASE) (PTE_R OR PTE_X) s) (\<lambda>_ s.
     andthen (kvmmap c kpgtbl etext etext (PHYSTOP - etext) (PTE_R OR PTE_W) s) (\<lambda>_ s.
     andthen (kvmmap c kpgtbl TRAMPOLINE trampoline PGSIZE (PTE_R OR PTE_X) s) (\<lambda>_ s.
     andthen (proc_mapstacks c kpgtbl s) (\<lambda>_ s. Ret kpgtbl s))))))))"

definition kvminit :: "u64 \<Rightarrow> u64 \<Rightarrow> nat \<Rightarrow> 'z vm_st_scheme \<Rightarrow> ('z vm_st_scheme, unit) outcome" where
  "kvminit etext trampoline c s =
     andthen (kvmmake etext trampoline c s) (\<lambda>kpgtbl s. Ret () (s\<lparr>kernel_pagetable := kpgtbl\<rparr>))"

definition kvminithart :: "nat \<Rightarrow> 'z vm_st_scheme \<Rightarrow> 'z vm_st_scheme" where
  "kvminithart c s = s\<lparr>satp := (satp s)(c := MAKE_SATP (kernel_pagetable s))\<rparr>"

section \<open>User address spaces\<close>

function uvmunmap_loop ::
    "u64 \<Rightarrow> nat \<Rightarrow> u64 \<Rightarrow> u64 \<Rightarrow> u64 \<Rightarrow> bool \<Rightarrow> 'z kmem_st_scheme \<Rightarrow> ('z kmem_st_scheme, unit) outcome" where
  "uvmunmap_loop kend c pagetable a stop do_free s =
     (if a < stop then
        andthen (walk c pagetable a False s) (\<lambda>pte s.
        if pte = 0 then Panic ''uvmunmap: walk''
        else if load64 (mem s) pte AND PTE_V = 0 then Panic ''uvmunmap: not mapped''
        else if PTE_FLAGS (load64 (mem s) pte) = PTE_V then Panic ''uvmunmap: not a leaf''
        else andthen (if do_free then kfree kend c (PTE2PA (load64 (mem s) pte)) s else Ret () s) (\<lambda>_ s.
             let s = s\<lparr>mem := store64 pte 0 (mem s)\<rparr>
             in uvmunmap_loop kend c pagetable (a + PGSIZE) stop do_free s))
      else Ret () s)"
  by pat_completeness auto
termination
  by (relation "measure (\<lambda>(_, _, _, a, _, _, _). unat (MAXVA + PGSIZE) - unat a)")
     (auto dest!: walk_Ret_below intro: next_va_measure)

definition uvmunmap ::
    "u64 \<Rightarrow> nat \<Rightarrow> u64 \<Rightarrow> u64 \<Rightarrow> u64 \<Rightarrow> bool \<Rightarrow> 'z kmem_st_scheme \<Rightarrow> ('z kmem_st_scheme, unit) outcome" where
  "uvmunmap kend c pagetable va npages do_free s =
     (if va mod PGSIZE \<noteq> 0 then Panic ''uvmunmap: not aligned''
      else uvmunmap_loop kend c pagetable va (va + npages * PGSIZE) do_free s)"

definition uvmcreate :: "nat \<Rightarrow> 'z kmem_st_scheme \<Rightarrow> ('z kmem_st_scheme, u64) outcome" where
  "uvmcreate c s =
     andthen (kalloc c s) (\<lambda>pagetable s.
     if pagetable = 0 then Ret 0 s
     else Ret pagetable (s\<lparr>mem := memset pagetable 0 (ucast PGSIZE) (mem s)\<rparr>))"

definition uvmfirst :: "nat \<Rightarrow> u64 \<Rightarrow> u8 list \<Rightarrow> 'z kmem_st_scheme \<Rightarrow> ('z kmem_st_scheme, unit) outcome" where
  "uvmfirst c pagetable src s =
     (if length src \<ge> unat PGSIZE then Panic ''uvmfirst: more than a page''
      else andthen (kalloc c s) (\<lambda>pg s.
           let s = s\<lparr>mem := memset pg 0 (ucast PGSIZE) (mem s)\<rparr> in
           andthen (mappages c pagetable 0 PGSIZE pg (PTE_W OR PTE_R OR PTE_X OR PTE_U) s) (\<lambda>_ s.
           Ret () (s\<lparr>mem := mem_write pg src (mem s)\<rparr>))))"

definition uvmdealloc ::
    "u64 \<Rightarrow> nat \<Rightarrow> u64 \<Rightarrow> u64 \<Rightarrow> u64 \<Rightarrow> 'z kmem_st_scheme \<Rightarrow> ('z kmem_st_scheme, u64) outcome" where
  "uvmdealloc kend c pagetable oldsz newsz s =
     (if newsz \<ge> oldsz then Ret oldsz s
      else andthen
        (if PGROUNDUP newsz < PGROUNDUP oldsz
         then let npages = to_int32 (uint ((PGROUNDUP oldsz - PGROUNDUP newsz) div PGSIZE))
              in uvmunmap kend c pagetable (PGROUNDUP newsz) (word_of_int npages) True s
         else Ret () s) (\<lambda>_ s. Ret newsz s))"

lemma mappages_Ret_below: "mappages c pt a sz pa perm s = Ret x t \<Longrightarrow> a < MAXVA"
  by (subst (asm) mappages_def, subst (asm) mappages_loop.simps)
     (auto split: if_splits dest: walk_Ret_below)

function uvmalloc_loop ::
    "u64 \<Rightarrow> nat \<Rightarrow> u64 \<Rightarrow> u64 \<Rightarrow> u64 \<Rightarrow> u64 \<Rightarrow> u64 \<Rightarrow> 'z kmem_st_scheme \<Rightarrow> ('z kmem_st_scheme, u64) outcome" where
  "uvmalloc_loop kend c pagetable oldsz a newsz xperm s =
     (if a < newsz then
        andthen (kalloc c s) (\<lambda>pg s.
        if pg = 0 then andthen (uvmdealloc kend c pagetable a oldsz s) (\<lambda>_ s. Ret 0 s)
        else let s = s\<lparr>mem := memset pg 0 (ucast PGSIZE) (mem s)\<rparr> in
             andthen (mappages c pagetable a PGSIZE pg (PTE_R OR PTE_U OR xperm) s) (\<lambda>r s.
             if r \<noteq> 0 then
               andthen (kfree kend c pg s) (\<lambda>_ s.
               andthen (uvmdealloc kend c pagetable a oldsz s) (\<lambda>_ s. Ret 0 s))
             else uvmalloc_loop kend c pagetable oldsz (a + PGSIZE) newsz xperm s))
      else Ret newsz s)"
  by pat_completeness auto
termination
  by (relation "measure (\<lambda>(_, _, _, _, a, _, _, _). unat (MAXVA + PGSIZE) - unat a)")
     (auto dest!: mappages_Ret_below intro: next_va_measure)

definition uvmalloc ::
    "u64 \<Rightarrow> nat \<Rightarrow> u64 \<Rightarrow> u64 \<Rightarrow> u64 \<Rightarrow> u64 \<Rightarrow> 'z kmem_st_scheme \<Rightarrow> ('z kmem_st_scheme, u64) outcome" where
  "uvmalloc kend c pagetable oldsz newsz xperm s =
     (if newsz < oldsz then Ret oldsz s
      else let oldsz = PGROUNDUP oldsz
           in uvmalloc_loop kend c pagetable oldsz oldsz newsz xperm s)"

text \<open>
  \<^verbatim>\<open>freewalk\<close> recurses as deep as the page table in memory goes; \<open>fuel\<close> bounds the depth, and a table with
  three levels needs three.  The entries still to visit are the second list argument.
\<close>

fun freewalk :: "nat \<Rightarrow> u64 \<Rightarrow> nat \<Rightarrow> u64 \<Rightarrow> 'z kmem_st_scheme \<Rightarrow> ('z kmem_st_scheme, unit) outcome"
  and freewalk_entries ::
    "nat \<Rightarrow> u64 \<Rightarrow> nat \<Rightarrow> u64 \<Rightarrow> nat list \<Rightarrow> 'z kmem_st_scheme \<Rightarrow> ('z kmem_st_scheme, unit) outcome" where
  "freewalk 0 kend c pagetable s = Diverge"
| "freewalk (Suc fuel) kend c pagetable s =
     andthen (freewalk_entries fuel kend c pagetable [0..<512] s) (\<lambda>_ s. kfree kend c pagetable s)"
| "freewalk_entries fuel kend c pagetable [] s = Ret () s"
| "freewalk_entries fuel kend c pagetable (i # is) s =
     (let pte = load64 (mem s) (pagetable + 8 * of_nat i)
      in if pte AND PTE_V \<noteq> 0 \<and> pte AND (PTE_R OR PTE_W OR PTE_X) = 0 then
           andthen (freewalk fuel kend c (PTE2PA pte) s) (\<lambda>_ s.
           let s = s\<lparr>mem := store64 (pagetable + 8 * of_nat i) 0 (mem s)\<rparr>
           in freewalk_entries fuel kend c pagetable is s)
         else if pte AND PTE_V \<noteq> 0 then Panic ''freewalk: leaf''
         else freewalk_entries fuel kend c pagetable is s)"

definition uvmfree :: "u64 \<Rightarrow> nat \<Rightarrow> u64 \<Rightarrow> u64 \<Rightarrow> 'z kmem_st_scheme \<Rightarrow> ('z kmem_st_scheme, unit) outcome" where
  "uvmfree kend c pagetable sz s =
     andthen (if sz > 0 then uvmunmap kend c pagetable 0 (PGROUNDUP sz div PGSIZE) True s else Ret () s) (\<lambda>_ s.
     freewalk 32768 kend c pagetable s)"

function uvmcopy_loop ::
    "u64 \<Rightarrow> nat \<Rightarrow> u64 \<Rightarrow> u64 \<Rightarrow> u64 \<Rightarrow> u64 \<Rightarrow> 'z kmem_st_scheme \<Rightarrow> ('z kmem_st_scheme, int) outcome" where
  "uvmcopy_loop kend c old new i sz s =
     (if i < sz then
        andthen (walk c old i False s) (\<lambda>pte s.
        if pte = 0 then Panic ''uvmcopy: pte should exist''
        else if load64 (mem s) pte AND PTE_V = 0 then Panic ''uvmcopy: page not present''
        else let pa = PTE2PA (load64 (mem s) pte); flags = PTE_FLAGS (load64 (mem s) pte) in
             andthen (kalloc c s) (\<lambda>pg s.
             if pg = 0 then andthen (uvmunmap kend c new 0 (i div PGSIZE) True s) (\<lambda>_ s. Ret (-1) s)
             else let s = s\<lparr>mem := memmove pg pa (ucast PGSIZE) (mem s)\<rparr> in
                  andthen (mappages c new i PGSIZE pg flags s) (\<lambda>r s.
                  if r \<noteq> 0 then
                    andthen (kfree kend c pg s) (\<lambda>_ s.
                    andthen (uvmunmap kend c new 0 (i div PGSIZE) True s) (\<lambda>_ s. Ret (-1) s))
                  else uvmcopy_loop kend c old new (i + PGSIZE) sz s)))
      else Ret 0 s)"
  by pat_completeness auto
termination
  by (relation "measure (\<lambda>(_, _, _, _, i, _, _). unat (MAXVA + PGSIZE) - unat i)")
     (auto dest!: walk_Ret_below intro: next_va_measure)

definition uvmcopy ::
    "u64 \<Rightarrow> nat \<Rightarrow> u64 \<Rightarrow> u64 \<Rightarrow> u64 \<Rightarrow> 'z kmem_st_scheme \<Rightarrow> ('z kmem_st_scheme, int) outcome" where
  "uvmcopy kend c old new sz s = uvmcopy_loop kend c old new 0 sz s"

definition uvmclear :: "nat \<Rightarrow> u64 \<Rightarrow> u64 \<Rightarrow> 'z kmem_st_scheme \<Rightarrow> ('z kmem_st_scheme, unit) outcome" where
  "uvmclear c pagetable va s =
     andthen (walk c pagetable va False s) (\<lambda>pte s.
     if pte = 0 then Panic ''uvmclear''
     else Ret () (s\<lparr>mem := store64 pte (load64 (mem s) pte AND NOT PTE_U) (mem s)\<rparr>))"

section \<open>Copies between user and kernel space\<close>

text \<open>The bytes from \<open>va\<close> to the end of its page, at most \<open>len\<close> of them.\<close>

definition page_chunk :: "u64 \<Rightarrow> nat \<Rightarrow> nat" where
  "page_chunk va len = (let n = unat (PGSIZE - (va - PGROUNDDOWN va)) in if n > len then len else n)"

lemma unat_page_offset: "unat (va - PGROUNDDOWN va) = unat va mod 4096"
proof -
  have "PGROUNDDOWN va \<le> va" by (simp add: word_le_nat_alt unat_PGROUNDDOWN)
  then have "unat (va - PGROUNDDOWN va) = unat va - (unat va - unat va mod 4096)"
    by (simp add: unat_sub unat_PGROUNDDOWN)
  then show ?thesis by simp
qed

lemma page_chunk_eq: "page_chunk va len = min len (4096 - unat va mod 4096)"
proof -
  have "va - PGROUNDDOWN va \<le> PGSIZE"
    by (simp add: word_le_nat_alt unat_page_offset less_imp_le)
  then have "unat (PGSIZE - (va - PGROUNDDOWN va)) = 4096 - unat va mod 4096"
    by (simp add: unat_sub unat_page_offset)
  then show ?thesis by (simp add: page_chunk_def Let_def min_def)
qed

lemma page_chunk_pos [simp]: "0 < page_chunk va len \<longleftrightarrow> 0 < len"
  by (auto simp: page_chunk_eq)

lemma page_chunk_le: "page_chunk va len \<le> len"
  by (simp add: page_chunk_eq)

function copyout ::
    "nat \<Rightarrow> u64 \<Rightarrow> u64 \<Rightarrow> u8 list \<Rightarrow> 'z kmem_st_scheme \<Rightarrow> ('z kmem_st_scheme, int) outcome" where
  "copyout c pagetable dstva src s =
     (if 0 < length src then
        let va0 = PGROUNDDOWN dstva in
        if va0 \<ge> MAXVA then Ret (-1) s
        else andthen (walk c pagetable va0 False s) (\<lambda>pte s.
             if pte = 0 \<or> load64 (mem s) pte AND PTE_V = 0 \<or> load64 (mem s) pte AND PTE_U = 0
                \<or> load64 (mem s) pte AND PTE_W = 0
             then Ret (-1) s
             else let pa0 = PTE2PA (load64 (mem s) pte);
                      n = page_chunk dstva (length src);
                      s = s\<lparr>mem := mem_write (pa0 + (dstva - va0)) (take n src) (mem s)\<rparr>
                  in copyout c pagetable (va0 + PGSIZE) (drop n src) s)
      else Ret 0 s)"
  by pat_completeness auto
termination
  by (relation "measure (\<lambda>(_, _, _, src, _). length src)") (auto simp: less_imp_diff_less)

function copyin ::
    "nat \<Rightarrow> u64 \<Rightarrow> u64 \<Rightarrow> nat \<Rightarrow> 'z kmem_st_scheme \<Rightarrow> ('z kmem_st_scheme, int \<times> u8 list) outcome" where
  "copyin c pagetable srcva len s =
     (if 0 < len then
        let va0 = PGROUNDDOWN srcva in
        andthen (walkaddr c pagetable va0 s) (\<lambda>pa0 s.
        if pa0 = 0 then Ret (-1, []) s
        else let n = page_chunk srcva len;
                 bs = mem_read (mem s) (pa0 + (srcva - va0)) n
             in andthen (copyin c pagetable (va0 + PGSIZE) (len - n) s) (\<lambda>(r, rest) s.
                Ret (r, bs @ rest) s))
      else Ret (0, []) s)"
  by pat_completeness auto
termination
  by (relation "measure (\<lambda>(_, _, _, len, _). len)") auto

text \<open>The inner loop of \<^verbatim>\<open>copyinstr\<close>: the bytes written to \<^verbatim>\<open>dst\<close>, and \<^verbatim>\<open>got_null\<close>.\<close>

fun copy_to_nul :: "u8 list \<Rightarrow> u8 list \<times> bool" where
  "copy_to_nul [] = ([], False)"
| "copy_to_nul (b # bs) = (if b = 0 then ([0], True) else let (w, got) = copy_to_nul bs in (b # w, got))"

function copyinstr ::
    "nat \<Rightarrow> u64 \<Rightarrow> u64 \<Rightarrow> nat \<Rightarrow> 'z kmem_st_scheme \<Rightarrow> ('z kmem_st_scheme, int \<times> u8 list) outcome" where
  "copyinstr c pagetable srcva mx s =
     (if 0 < mx then
        let va0 = PGROUNDDOWN srcva in
        andthen (walkaddr c pagetable va0 s) (\<lambda>pa0 s.
        if pa0 = 0 then Ret (-1, []) s
        else let n = page_chunk srcva mx;
                 (w, got_null) = copy_to_nul (mem_read (mem s) (pa0 + (srcva - va0)) n)
             in if got_null then Ret (0, w) s
                else andthen (copyinstr c pagetable (va0 + PGSIZE) (mx - n) s) (\<lambda>(r, rest) s.
                     Ret (r, w @ rest) s))
      else Ret (-1, []) s)"
  by pat_completeness auto
termination
  by (relation "measure (\<lambda>(_, _, _, mx, _). mx)") auto

declare mappages_loop.simps [simp del] uvmunmap_loop.simps [simp del] uvmalloc_loop.simps [simp del]
  uvmcopy_loop.simps [simp del] copyout.simps [simp del] copyin.simps [simp del] copyinstr.simps [simp del]

end
