(* ===== verification/PageTable.thy ===== *)
theory PageTable
  imports Vm
begin

text \<open>
  Correctness of the page-table operations of theory \<open>Vm\<close>.  A page table is a tree of distinct pages
  (\<open>pt_tree\<close>); its meaning is the function \<open>pte_of\<close> from virtual addresses to leaf entries.  Walking with
  allocation changes the tree and not its meaning; storing through the walked pointer changes the
  meaning at one page and nowhere else.
\<close>

section \<open>Entries\<close>

lemma unat_PX: "unat (PX l va) = unat va div 2 ^ (12 + 9 * l) mod 512"
proof -
  have m: "(0x1FF :: u64) = mask 9" by (simp add: mask_eq_exp_minus_1)
  have t64: "take_bit 64 (unat va) = unat va" by (rule take_bit_nat_eq_self) (rule unat_less_64)
  have "unat (PX l va) = take_bit 9 (drop_bit (12 + 9 * l) (unat va))"
    unfolding PX_def m
    by (simp add: take_bit_eq_mask [symmetric] unsigned_take_bit_eq unsigned_drop_bit_eq t64)
  then show ?thesis by (simp add: take_bit_eq_mod drop_bit_eq_div)
qed

lemma PX_less [simp]: "unat (PX l va) < 512"
  by (simp add: unat_PX)

lemma entry_addr:
  assumes "aligned 4096 pt" and "unat i < 512"
  shows "unat (pt + 8 * i) = unat pt + 8 * unat i" and "aligned 8 (pt + 8 * i)" and "PGROUNDDOWN (pt + 8 * i) = pt"
proof -
  have e: "8 * i = of_nat (8 * unat i)" by simp
  show u: "unat (pt + 8 * i) = unat pt + 8 * unat i"
    unfolding e using assms page_nowrap by (intro unat_plus_offset [of _ 4096]) auto
  show "aligned 8 (pt + 8 * i)"
    using aligned_8_page [OF assms(1)] by (simp add: aligned_def u)
  show "PGROUNDDOWN (pt + 8 * i) = pt"
    unfolding e using assms by (intro PGROUNDDOWN_offset) auto
qed

lemma entry_inj:
  assumes "aligned 4096 pt" and "unat i < 512" and "unat j < 512"
  shows "pt + 8 * i = pt + 8 * j \<longleftrightarrow> i = j"
proof
  assume "pt + 8 * i = pt + 8 * j"
  then have "unat (pt + 8 * i) = unat (pt + 8 * j)" by simp
  then show "i = j" by (simp add: entry_addr(1) assms word_unat_eq_iff)
qed simp

lemma eight_inj: "unat i < 512 \<Longrightarrow> unat j < 512 \<Longrightarrow> 8 * i = 8 * (j :: u64) \<longleftrightarrow> i = j"
  using entry_inj [of 0 i j] by (simp add: aligned_def)

lemma PTE2PA_PA2PTE:
  assumes "aligned 4096 p" and "f = take_bit 10 f"
  shows "PTE2PA (PA2PTE p OR f) = p"
proof (rule bit_word_eqI)
  fix n :: nat assume n: "n < LENGTH(64)"
  have f: "\<not> bit f k" if "10 \<le> k" for k
    using that by (subst assms(2)) (simp add: bit_simps)
  have "unat p mod 2 ^ 12 = 0" using assms(1) by (simp add: aligned_def)
  then have "take_bit 12 (unat p) = 0" by (simp add: take_bit_eq_mod)
  then have "take_bit 12 p = 0"
    by (metis unsigned_take_bit_eq unsigned_0 word_unat_eq_iff)
  then have p: "\<not> bit p k" if "k < 12" for k
    using that by (metis bit_take_bit_iff bit_0_eq bot_apply bot_bool_def)
  show "bit (PTE2PA (PA2PTE p OR f)) n = bit p n"
  proof (cases "n < 12")
    case True
    then show ?thesis using p by (simp add: PTE2PA_def bit_simps)
  next
    case False
    then obtain k where k: "n = 12 + k" using le_Suc_ex [of 12 n] by auto
    then show ?thesis using n f [of "10 + k"] by (auto simp: PTE2PA_def PA2PTE_def bit_simps)
  qed
qed

lemma PTE_V_take_bit: "f = take_bit 10 f \<Longrightarrow> f OR PTE_V = take_bit 10 (f OR PTE_V)"
  by (simp add: PTE_V_def)

lemma valid_PA2PTE [simp]: "(PA2PTE p OR f OR PTE_V) AND PTE_V = PTE_V"
  by (rule bit_word_eqI) (auto simp: PTE_V_def bit_simps)

lemma valid_PA2PTE_bare [simp]: "(PA2PTE p OR PTE_V) AND PTE_V = PTE_V"
  by (rule bit_word_eqI) (auto simp: PTE_V_def bit_simps)

lemma PTE_V_nonzero [simp]: "PTE_V \<noteq> 0"
  by (simp add: PTE_V_def)

section \<open>Trees of table pages\<close>

abbreviation entry :: "mem \<Rightarrow> u64 \<Rightarrow> u64 \<Rightarrow> u64" where
  "entry m pt i \<equiv> load64 m (pt + 8 * i)"

abbreviation valid :: "u64 \<Rightarrow> bool" where
  "valid pte \<equiv> pte AND PTE_V \<noteq> 0"

text \<open>Address of the leaf entry for \<open>va\<close> below a table of level \<open>l\<close>, if its intermediate tables exist.\<close>

fun leaf_addr :: "mem \<Rightarrow> nat \<Rightarrow> u64 \<Rightarrow> u64 \<Rightarrow> u64 option" where
  "leaf_addr m 0 pt va = Some (pt + 8 * PX 0 va)"
| "leaf_addr m (Suc l) pt va =
     (let pte = entry m pt (PX (Suc l) va) in if valid pte then leaf_addr m l (PTE2PA pte) va else None)"

text \<open>The value of the leaf entry, 0 where no table holds one.\<close>

definition leaf_val :: "mem \<Rightarrow> nat \<Rightarrow> u64 \<Rightarrow> u64 \<Rightarrow> u64" where
  "leaf_val m l pt va = (case leaf_addr m l pt va of None \<Rightarrow> 0 | Some a \<Rightarrow> load64 m a)"

lemma leaf_val_simps [simp]:
  "leaf_val m 0 pt va = entry m pt (PX 0 va)"
  "leaf_val m (Suc l) pt va = (let pte = entry m pt (PX (Suc l) va)
     in if valid pte then leaf_val m l (PTE2PA pte) va else 0)"
  by (simp_all add: leaf_val_def Let_def)

fun tables :: "mem \<Rightarrow> nat \<Rightarrow> u64 \<Rightarrow> u64 set" where
  "tables m 0 pt = {pt}"
| "tables m (Suc l) pt =
     insert pt (\<Union>i \<in> {i. unat i < 512 \<and> valid (entry m pt i)}. tables m l (PTE2PA (entry m pt i)))"

fun pt_tree :: "mem \<Rightarrow> nat \<Rightarrow> u64 \<Rightarrow> bool" where
  "pt_tree m 0 pt = (pt \<noteq> 0 \<and> aligned 4096 pt)"
| "pt_tree m (Suc l) pt = (pt \<noteq> 0 \<and> aligned 4096 pt \<and>
     (\<forall>i. unat i < 512 \<and> valid (entry m pt i) \<longrightarrow>
        pt_tree m l (PTE2PA (entry m pt i)) \<and> pt \<notin> tables m l (PTE2PA (entry m pt i))) \<and>
     (\<forall>i j. unat i < 512 \<and> unat j < 512 \<and> i \<noteq> j \<and> valid (entry m pt i) \<and> valid (entry m pt j) \<longrightarrow>
        tables m l (PTE2PA (entry m pt i)) \<inter> tables m l (PTE2PA (entry m pt j)) = {}))"

lemma pt_tree_SucI:
  assumes "pt \<noteq> 0" and "aligned 4096 pt"
    and "\<And>i. unat i < 512 \<Longrightarrow> valid (entry m pt i) \<Longrightarrow>
       pt_tree m l (PTE2PA (entry m pt i)) \<and> pt \<notin> tables m l (PTE2PA (entry m pt i))"
    and "\<And>i j. unat i < 512 \<Longrightarrow> unat j < 512 \<Longrightarrow> i \<noteq> j \<Longrightarrow> valid (entry m pt i) \<Longrightarrow> valid (entry m pt j) \<Longrightarrow>
       tables m l (PTE2PA (entry m pt i)) \<inter> tables m l (PTE2PA (entry m pt j)) = {}"
  shows "pt_tree m (Suc l) pt"
  unfolding pt_tree.simps using assms by blast

lemma pt_in_tables [simp]: "pt \<in> tables m l pt"
  by (cases l) auto

lemma pt_tree_aligned: "pt_tree m l pt \<Longrightarrow> aligned 4096 pt"
  by (cases l) auto

lemma tables_child:
  "unat i < 512 \<Longrightarrow> valid (entry m pt i) \<Longrightarrow> tables m l (PTE2PA (entry m pt i)) \<subseteq> tables m (Suc l) pt"
  by auto

lemma tables_aligned: "pt_tree m l pt \<Longrightarrow> q \<in> tables m l pt \<Longrightarrow> aligned 4096 q"
  by (induction l arbitrary: pt) auto

lemma agree_entry:
  assumes "agree P m m'" and "P pt" and "aligned 4096 pt" and "unat i < 512"
  shows "entry m' pt i = entry m pt i"
  using assms by (intro agree_load64 [OF assms(1)]) (auto simp: entry_addr)

text \<open>Nothing about a table changes when the memory is unchanged on its pages.\<close>

lemma pt_frame:
  assumes "pt_tree m l pt" and "agree (\<lambda>q. q \<in> tables m l pt) m m'"
  shows "tables m' l pt = tables m l pt" and "pt_tree m' l pt"
    and "leaf_addr m' l pt va = leaf_addr m l pt va" and "leaf_val m' l pt va = leaf_val m l pt va"
proof -
  have "tables m' l pt = tables m l pt \<and> pt_tree m' l pt \<and>
    (\<forall>va. leaf_addr m' l pt va = leaf_addr m l pt va \<and> leaf_val m' l pt va = leaf_val m l pt va)"
    using assms
  proof (induction l arbitrary: pt)
    case 0
    then show ?case
      using agree_entry [OF 0(2), of pt] by simp
  next
    case (Suc l)
    then have al: "aligned 4096 pt" by simp
    have e: "entry m' pt i = entry m pt i" if "unat i < 512" for i
      using agree_entry [OF Suc.prems(2) _ al that] by simp
    have ch: "tables m' l (PTE2PA (entry m pt i)) = tables m l (PTE2PA (entry m pt i)) \<and>
        pt_tree m' l (PTE2PA (entry m pt i)) \<and>
        (\<forall>va. leaf_addr m' l (PTE2PA (entry m pt i)) va = leaf_addr m l (PTE2PA (entry m pt i)) va \<and>
              leaf_val m' l (PTE2PA (entry m pt i)) va = leaf_val m l (PTE2PA (entry m pt i)) va)"
      if "unat i < 512" "valid (entry m pt i)" for i
    proof (rule Suc.IH)
      show "pt_tree m l (PTE2PA (entry m pt i))" using Suc.prems(1) that by simp
      show "agree (\<lambda>q. q \<in> tables m l (PTE2PA (entry m pt i))) m m'"
        using Suc.prems(2) by (rule agree_mono) (use tables_child [OF that] in blast)
    qed
    have t: "tables m' (Suc l) pt = tables m (Suc l) pt" using e ch by auto
    have la: "leaf_addr m' (Suc l) pt va = leaf_addr m (Suc l) pt va" for va
      using e [of "PX (Suc l) va"] ch [of "PX (Suc l) va"] by (simp add: Let_def)
    have lv: "leaf_val m' (Suc l) pt va = leaf_val m (Suc l) pt va" for va
      using e [of "PX (Suc l) va"] ch [of "PX (Suc l) va"] by (simp add: Let_def)
    have c1: "pt_tree m' l (PTE2PA (entry m' pt i)) \<and> pt \<notin> tables m' l (PTE2PA (entry m' pt i))"
      if "unat i < 512 \<and> valid (entry m' pt i)" for i
      using that Suc.prems(1) e [of i] ch [of i] by simp
    have c2: "tables m' l (PTE2PA (entry m' pt i)) \<inter> tables m' l (PTE2PA (entry m' pt j)) = {}"
      if "unat i < 512 \<and> unat j < 512 \<and> i \<noteq> j \<and> valid (entry m' pt i) \<and> valid (entry m' pt j)" for i j
      using that Suc.prems(1) e [of i] ch [of i] e [of j] ch [of j] by simp
    have "pt_tree m' (Suc l) pt"
      by (rule pt_tree_SucI) (use Suc.prems(1) c1 c2 in auto)
    with t la lv show ?case by blast
  qed
  then show "tables m' l pt = tables m l pt" and "pt_tree m' l pt"
    and "leaf_addr m' l pt va = leaf_addr m l pt va" and "leaf_val m' l pt va = leaf_val m l pt va"
    by blast+
qed

definition same_path :: "nat \<Rightarrow> u64 \<Rightarrow> u64 \<Rightarrow> bool" where
  "same_path l va va' \<longleftrightarrow> (\<forall>k \<le> l. PX k va = PX k va')"

lemma same_path_0 [simp]: "same_path 0 va va' \<longleftrightarrow> PX 0 va = PX 0 va'"
  by (simp add: same_path_def)

lemma same_path_Suc [simp]: "same_path (Suc l) va va' \<longleftrightarrow> PX (Suc l) va = PX (Suc l) va' \<and> same_path l va va'"
  by (auto simp: same_path_def le_Suc_eq)

lemma leaf_addr_in:
  assumes "pt_tree m l pt" and "leaf_addr m l pt va = Some a"
  shows "PGROUNDDOWN a \<in> tables m l pt" and "aligned 8 a" and "a \<noteq> 0"
proof -
  have "PGROUNDDOWN a \<in> tables m l pt \<and> aligned 8 a \<and> a \<noteq> 0"
    using assms
  proof (induction l arbitrary: pt)
    case 0
    then have a: "a = pt + 8 * PX 0 va" and al: "aligned 4096 pt" and "pt \<noteq> 0" by auto
    then have "unat a \<noteq> 0" using entry_addr(1) [OF al PX_less [of 0 va]] by (simp add: word_unat_eq_iff)
    then show ?case using entry_addr [OF al PX_less [of 0 va]] a by auto
  next
    case (Suc l)
    let ?e = "entry m pt (PX (Suc l) va)"
    from Suc.prems(2) have v: "valid ?e" and la: "leaf_addr m l (PTE2PA ?e) va = Some a"
      by (auto simp: Let_def split: if_splits)
    have "pt_tree m l (PTE2PA ?e)" using Suc.prems(1) v by simp
    then show ?case using Suc.IH [OF _ la] tables_child [OF PX_less v] by blast
  qed
  then show "PGROUNDDOWN a \<in> tables m l pt" and "aligned 8 a" and "a \<noteq> 0" by blast+
qed

text \<open>A change inside one subtree, which may take new pages \<open>N\<close>.\<close>

lemma pt_update_child:
  assumes tree: "pt_tree m (Suc l) pt" and i: "unat i < 512" "valid (entry m pt i)"
    and ag: "agree (\<lambda>q. q \<notin> tables m l (PTE2PA (entry m pt i)) \<and> q \<notin> N) m m'"
    and N: "N \<inter> tables m (Suc l) pt = {}"
    and tree': "pt_tree m' l (PTE2PA (entry m pt i))"
    and tabs: "tables m' l (PTE2PA (entry m pt i)) = tables m l (PTE2PA (entry m pt i)) \<union> N"
  shows "pt_tree m' (Suc l) pt" and "tables m' (Suc l) pt = tables m (Suc l) pt \<union> N"
    and "leaf_addr m' (Suc l) pt va = (if PX (Suc l) va = i then leaf_addr m' l (PTE2PA (entry m pt i)) va
           else leaf_addr m (Suc l) pt va)"
    and "leaf_val m' (Suc l) pt va = (if PX (Suc l) va = i then leaf_val m' l (PTE2PA (entry m pt i)) va
           else leaf_val m (Suc l) pt va)"
proof -
  let ?ch = "\<lambda>j. PTE2PA (entry m pt j)"
  have al: "aligned 4096 pt" using tree by simp
  have ptN: "pt \<notin> N" and ptc: "pt \<notin> tables m l (?ch i)" using N tree i by auto
  have e: "entry m' pt j = entry m pt j" if "unat j < 512" for j
    using agree_entry [OF ag _ al that] ptN ptc by simp
  have sib: "tables m' l (?ch j) = tables m l (?ch j) \<and> pt_tree m' l (?ch j) \<and>
      leaf_addr m' l (?ch j) va = leaf_addr m l (?ch j) va \<and> leaf_val m' l (?ch j) va = leaf_val m l (?ch j) va"
    if "unat j < 512" "valid (entry m pt j)" "j \<noteq> i" for j va
  proof -
    have t: "pt_tree m l (?ch j)" using tree that by simp
    have "tables m l (?ch j) \<inter> tables m l (?ch i) = {}" using tree that i by simp
    moreover have "tables m l (?ch j) \<inter> N = {}" using N tables_child [OF that(1,2), of l] by blast
    ultimately have "agree (\<lambda>q. q \<in> tables m l (?ch j)) m m'"
      by (intro agree_mono [OF ag]) blast
    from pt_frame [OF t this] show ?thesis by simp
  qed
  have dis: "tables m l (?ch j) \<inter> N = {}" if "unat j < 512" "valid (entry m pt j)" for j
    using N tables_child [OF that, of l] by blast
  have "tables m' l (?ch j) = tables m l (?ch j) \<union> (if j = i then N else {})"
    if "unat j < 512" "valid (entry m pt j)" for j
    using tabs sib [of j] that by auto
  then show t: "tables m' (Suc l) pt = tables m (Suc l) pt \<union> N"
    using e i by (auto split: if_splits)
  have c1: "pt_tree m' l (?ch j) \<and> pt \<notin> tables m' l (?ch j)" if "unat j < 512 \<and> valid (entry m pt j)" for j
  proof (cases "j = i")
    case True
    with tree' tabs ptN ptc show ?thesis by simp
  next
    case False
    with sib [of j] that tree show ?thesis by simp
  qed
  have c2: "tables m' l (?ch j) \<inter> tables m' l (?ch k) = {}"
    if "unat j < 512 \<and> unat k < 512 \<and> j \<noteq> k \<and> valid (entry m pt j) \<and> valid (entry m pt k)" for j k
  proof -
    have d: "tables m l (?ch j) \<inter> tables m l (?ch k) = {}" using tree that by simp
    consider "j = i" | "k = i" | "j \<noteq> i" "k \<noteq> i" by blast
    then show ?thesis
    proof cases
      case 1
      with that d sib [of k] tabs dis [of k] show ?thesis by auto
    next
      case 2
      with that d sib [of j] tabs dis [of j] show ?thesis by auto
    next
      case 3
      with that d sib [of j] sib [of k] show ?thesis by auto
    qed
  qed
  show "pt_tree m' (Suc l) pt"
  proof (rule pt_tree_SucI)
    fix j k assume "unat j < 512" "unat k < 512" "j \<noteq> k" "valid (entry m' pt j)" "valid (entry m' pt k)"
    then show "tables m' l (PTE2PA (entry m' pt j)) \<inter> tables m' l (PTE2PA (entry m' pt k)) = {}"
      using e [of j] e [of k] c2 [of j k] by simp
  qed (use tree e c1 in auto)
  show "leaf_addr m' (Suc l) pt va = (if PX (Suc l) va = i then leaf_addr m' l (?ch i) va
      else leaf_addr m (Suc l) pt va)"
    using e [of "PX (Suc l) va"] i sib [of "PX (Suc l) va" va] by (auto simp: Let_def)
  show "leaf_val m' (Suc l) pt va = (if PX (Suc l) va = i then leaf_val m' l (?ch i) va
      else leaf_val m (Suc l) pt va)"
    using e [of "PX (Suc l) va"] i sib [of "PX (Suc l) va" va] by (auto simp: Let_def)
qed

text \<open>Storing through a walked pointer changes one leaf entry.\<close>

lemma pt_store:
  assumes "pt_tree m l pt" and "leaf_addr m l pt va = Some a"
  shows "pt_tree (store64 a v m) l pt" and "tables (store64 a v m) l pt = tables m l pt"
    and "leaf_addr (store64 a v m) l pt va' = leaf_addr m l pt va'"
    and "leaf_val (store64 a v m) l pt va' = (if same_path l va va' then v else leaf_val m l pt va')"
proof -
  have "pt_tree (store64 a v m) l pt \<and> tables (store64 a v m) l pt = tables m l pt \<and>
    (\<forall>va'. leaf_addr (store64 a v m) l pt va' = leaf_addr m l pt va' \<and>
       leaf_val (store64 a v m) l pt va' = (if same_path l va va' then v else leaf_val m l pt va'))"
    using assms
  proof (induction l arbitrary: pt)
    case 0
    then have "aligned 4096 pt" and "a = pt + 8 * PX 0 va" by auto
    with 0 show ?case by (auto simp: load_store_aligned entry_addr eight_inj)
  next
    case (Suc l)
    let ?i = "PX (Suc l) va"
    let ?c = "PTE2PA (entry m pt ?i)"
    let ?m = "store64 a v m"
    from Suc.prems(2) have val: "valid (entry m pt ?i)" and la: "leaf_addr m l ?c va = Some a"
      by (auto simp: Let_def split: if_splits)
    have tc: "pt_tree m l ?c" using Suc.prems(1) val by simp
    note IH = Suc.IH [OF tc la]
    have ag: "agree (\<lambda>q. q \<notin> tables m l ?c \<and> q \<notin> {}) m ?m"
      by (rule agree_mono [OF agree_store]) (use leaf_addr_in [OF tc la] in auto)
    have "tables ?m l ?c = tables m l ?c \<union> {}" using IH by simp
    note up = pt_update_child [OF Suc.prems(1) PX_less val ag _ _ this]
    have "pt_tree ?m (Suc l) pt" using up(1) IH by simp
    moreover have "tables ?m (Suc l) pt = tables m (Suc l) pt \<union> {}" using up(2) IH by blast
    moreover have "leaf_addr ?m (Suc l) pt va' = leaf_addr m (Suc l) pt va'" for va'
      using up(3) [of va'] IH val by (auto simp: Let_def)
    moreover have "leaf_val ?m (Suc l) pt va' = (if same_path (Suc l) va va' then v else leaf_val m (Suc l) pt va')"
      for va'
      using up(4) [of va'] IH val by (auto simp: Let_def)
    ultimately show ?case by blast
  qed
  then show "pt_tree (store64 a v m) l pt" and "tables (store64 a v m) l pt = tables m l pt"
    and "leaf_addr (store64 a v m) l pt va' = leaf_addr m l pt va'"
    and "leaf_val (store64 a v m) l pt va' = (if same_path l va va' then v else leaf_val m l pt va')"
    by blast+
qed

section \<open>Fresh tables\<close>

definition zero_page :: "mem \<Rightarrow> u64 \<Rightarrow> bool" where
  "zero_page m p \<longleftrightarrow> p \<noteq> 0 \<and> aligned 4096 p \<and> (\<forall>x. PGROUNDDOWN x = p \<longrightarrow> m x = 0)"

lemma zero_page_entry: "zero_page m p \<Longrightarrow> unat i < 512 \<Longrightarrow> entry m p i = 0"
  by (rule load64_zero) (simp add: zero_page_def PGROUNDDOWN_word entry_addr)

lemma zero_page_table:
  assumes "zero_page m p"
  shows "pt_tree m l p" and "tables m l p = {p}" and "leaf_val m l p va = 0"
  using assms zero_page_entry [OF assms]
  by (cases l; auto simp: zero_page_def Let_def)+

lemma pt_new_child:
  assumes tree: "pt_tree m (Suc l) pt" and i: "unat i < 512" "\<not> valid (entry m pt i)"
    and p: "p \<notin> tables m (Suc l) pt" "zero_page m' p"
    and ag: "agree (\<lambda>q. q \<noteq> pt \<and> q \<noteq> p) m m'"
    and e: "\<And>j. unat j < 512 \<Longrightarrow> entry m' pt j = (if j = i then PA2PTE p OR PTE_V else entry m pt j)"
  shows "pt_tree m' (Suc l) pt" and "tables m' (Suc l) pt = insert p (tables m (Suc l) pt)"
    and "leaf_val m' (Suc l) pt va = leaf_val m (Suc l) pt va"
proof -
  let ?ch = "\<lambda>j. PTE2PA (entry m pt j)"
  have pa: "PTE2PA (PA2PTE p OR PTE_V) = p"
    using p(2) by (intro PTE2PA_PA2PTE) (simp_all add: zero_page_def PTE_V_def)
  have np: "p \<noteq> pt" using p(1) by auto
  have sib: "tables m' l (?ch j) = tables m l (?ch j) \<and> pt_tree m' l (?ch j) \<and>
      leaf_val m' l (?ch j) va = leaf_val m l (?ch j) va"
    if "unat j < 512" "valid (entry m pt j)" for j va
  proof -
    have t: "pt_tree m l (?ch j)" and "pt \<notin> tables m l (?ch j)" using tree that by simp_all
    moreover have "p \<notin> tables m l (?ch j)" using p(1) tables_child [OF that, of l] by blast
    ultimately have "agree (\<lambda>q. q \<in> tables m l (?ch j)) m m'" by (intro agree_mono [OF ag]) auto
    from pt_frame [OF t this] show ?thesis by simp
  qed
  have ne: "j \<noteq> i" if "valid (entry m pt j)" for j using that i(2) by auto
  have v: "valid (entry m' pt j) \<longleftrightarrow> j = i \<or> valid (entry m pt j)" if "unat j < 512" for j
    using e [OF that] by simp
  have tab: "tables m' l (PTE2PA (entry m' pt j)) = (if j = i then {p} else tables m l (?ch j))"
    if "unat j < 512" "valid (entry m' pt j)" for j
    using e [OF that(1)] v [OF that(1)] that(2) sib [OF that(1)] zero_page_table(2) [OF p(2)] pa by auto
  have I: "{j. unat j < 512 \<and> valid (entry m' pt j)} = insert i {j. unat j < 512 \<and> valid (entry m pt j)}"
    using v i(1) by blast
  have "(\<Union>j \<in> {j. unat j < 512 \<and> valid (entry m pt j)}. tables m' l (PTE2PA (entry m' pt j)))
      = (\<Union>j \<in> {j. unat j < 512 \<and> valid (entry m pt j)}. tables m l (?ch j))"
  proof (rule SUP_cong [OF refl])
    fix j assume "j \<in> {j. unat j < 512 \<and> valid (entry m pt j)}"
    then show "tables m' l (PTE2PA (entry m' pt j)) = tables m l (?ch j)" using tab [of j] v [of j] ne [of j] by simp
  qed
  moreover have "tables m' l (PTE2PA (entry m' pt i)) = {p}" using tab [of i] v [of i] i(1) by simp
  ultimately show "tables m' (Suc l) pt = insert p (tables m (Suc l) pt)"
    unfolding tables.simps I by auto
  show "pt_tree m' (Suc l) pt"
  proof (rule pt_tree_SucI)
    fix j assume j: "unat j < 512" "valid (entry m' pt j)"
    show "pt_tree m' l (PTE2PA (entry m' pt j)) \<and> pt \<notin> tables m' l (PTE2PA (entry m' pt j))"
      using tab [OF j] e [OF j(1)] v [OF j(1)] j sib [OF j(1)] zero_page_table(1) [OF p(2), of l] pa np tree
      by auto
  next
    fix j k assume j: "unat j < 512" and k: "unat k < 512" and jk: "j \<noteq> k"
      and vs: "valid (entry m' pt j)" "valid (entry m' pt k)"
    have notp: "p \<notin> tables m l (?ch q)" if "unat q < 512" "valid (entry m pt q)" for q
      using p(1) tables_child [OF that, of l] by blast
    have "tables m l (?ch j) \<inter> tables m l (?ch k) = {}" if "valid (entry m pt j)" "valid (entry m pt k)"
      using tree that j k jk by simp
    then show "tables m' l (PTE2PA (entry m' pt j)) \<inter> tables m' l (PTE2PA (entry m' pt k)) = {}"
      using tab [OF j vs(1)] tab [OF k vs(2)] v [OF j] v [OF k] vs jk notp [OF j] notp [OF k]
      by (cases "j = i"; cases "k = i") auto
  qed (use tree in auto)
  show "leaf_val m' (Suc l) pt va = leaf_val m (Suc l) pt va"
    using e [OF PX_less, of "Suc l" va] v [OF PX_less, of "Suc l" va] sib [OF PX_less, of "Suc l" va va] i pa
      zero_page_table(3) [OF p(2), of l va] by (auto simp: Let_def)
qed

section \<open>Walking with allocation\<close>

definition only_mem :: "'z kmem_st_scheme \<Rightarrow> 'z kmem_st_scheme \<Rightarrow> bool" where
  "only_mem s t \<longleftrightarrow> (\<exists>k m f. t = s\<lparr>kmach := k, mem := m, freelist := f\<rparr>)"

lemma only_memI: "t = s\<lparr>kmach := k, mem := m, freelist := f\<rparr> \<Longrightarrow> only_mem s t"
  by (auto simp: only_mem_def)

lemma only_mem_refl [simp]: "only_mem s s"
  by (rule only_memI [where k = "kmach s" and m = "mem s" and f = "freelist s"]) simp

lemma only_mem_mem [simp]: "only_mem s (s\<lparr>mem := m\<rparr>)"
  by (rule only_memI [where k = "kmach s" and m = m and f = "freelist s"]) simp

lemma only_mem_trans: "only_mem s t \<Longrightarrow> only_mem t u \<Longrightarrow> only_mem s u"
  unfolding only_mem_def by (elim exE) (simp, blast)

text \<open>
  \<open>walked l pt va s r t used\<close>: the walk for \<open>va\<close> from state \<open>s\<close> returned \<open>r\<close> in state \<open>t\<close>, took the free pages
  \<open>used\<close> for new tables, and kept the meaning of the table.
\<close>

definition walked ::
    "nat \<Rightarrow> u64 \<Rightarrow> u64 \<Rightarrow> 'z kmem_st_scheme \<Rightarrow> u64 \<Rightarrow> 'z kmem_st_scheme \<Rightarrow> u64 set \<Rightarrow> bool" where
  "walked l pt va s r t used \<longleftrightarrow>
     only_mem s t \<and> pt_tree (mem t) l pt \<and> tables (mem t) l pt = tables (mem s) l pt \<union> used \<and>
     agree (\<lambda>q. q \<notin> tables (mem s) l pt \<and> q \<notin> used) (mem s) (mem t) \<and>
     (\<forall>va'. leaf_val (mem t) l pt va' = leaf_val (mem s) l pt va') \<and>
     (r \<noteq> 0 \<longrightarrow> leaf_addr (mem t) l pt va = Some r)"

lemma walked_refl:
  assumes "pt_tree (mem s) l pt" and "leaf_addr (mem s) l pt va = Some r \<or> r = 0"
  shows "walked l pt va s r s {}"
  using assms by (auto simp: walked_def)

text \<open>A walk below an existing child extends to the parent.\<close>

lemma walked_parent:
  assumes tree: "pt_tree (mem s) (Suc l) pt" and v: "valid (entry (mem s) pt (PX (Suc l) va))"
    and w: "walked l (PTE2PA (entry (mem s) pt (PX (Suc l) va))) va s r t used"
    and N: "used \<inter> tables (mem s) (Suc l) pt = {}"
  shows "walked (Suc l) pt va s r t used"
proof -
  let ?i = "PX (Suc l) va"
  let ?c = "PTE2PA (entry (mem s) pt ?i)"
  have w': "pt_tree (mem t) l ?c" "tables (mem t) l ?c = tables (mem s) l ?c \<union> used"
    "agree (\<lambda>q. q \<notin> tables (mem s) l ?c \<and> q \<notin> used) (mem s) (mem t)"
    "\<And>va'. leaf_val (mem t) l ?c va' = leaf_val (mem s) l ?c va'"
    "r \<noteq> 0 \<Longrightarrow> leaf_addr (mem t) l ?c va = Some r" "only_mem s t"
    using w by (auto simp: walked_def)
  note up = pt_update_child [OF tree PX_less v w'(3) N w'(1,2)]
  have "agree (\<lambda>q. q \<notin> tables (mem s) (Suc l) pt \<and> q \<notin> used) (mem s) (mem t)"
    using tables_child [OF PX_less v, of l] by (intro agree_mono [OF w'(3)]) blast
  moreover have "leaf_val (mem t) (Suc l) pt va' = leaf_val (mem s) (Suc l) pt va'" for va'
    using up(4) [of va'] w'(4) v by (auto simp: Let_def)
  moreover have "r \<noteq> 0 \<longrightarrow> leaf_addr (mem t) (Suc l) pt va = Some r"
    using up(3) [of va] w'(5) by simp
  ultimately show ?thesis
    unfolding walked_def using up(1,2) w'(6) by blast
qed

lemma walked_trans:
  assumes "walked l pt va s r' u used" and "walked l pt va u r t used'"
  shows "walked l pt va s r t (used \<union> used')"
proof -
  have "agree (\<lambda>q. q \<notin> tables (mem s) l pt \<and> q \<notin> used \<union> used') (mem s) (mem u)"
    using assms(1) unfolding walked_def by (blast intro: agree_mono)
  moreover have "agree (\<lambda>q. q \<notin> tables (mem s) l pt \<and> q \<notin> used \<union> used') (mem u) (mem t)"
    by (rule agree_mono [of "\<lambda>q. q \<notin> tables (mem u) l pt \<and> q \<notin> used'"]) (use assms in \<open>auto simp: walked_def\<close>)
  ultimately have "agree (\<lambda>q. q \<notin> tables (mem s) l pt \<and> q \<notin> used \<union> used') (mem s) (mem t)"
    by (rule agree_trans)
  then show ?thesis
    using assms unfolding walked_def by (auto intro: only_mem_trans)
qed

lemma kalloc_frame:
  assumes "kmem_ready s" and "free_pages kend s (p # ps)"
  obtains t where "kalloc c s = Ret p t" and "kmem_ready t" and "free_pages kend t ps" and "p \<noteq> 0"
    and "aligned 4096 p" and "agree (\<lambda>q. q \<noteq> p) (mem s) (mem t)" and "only_mem s t"
proof -
  from assms(1) have "k_can c LKmem s" by simp
  then obtain t where t: "kalloc c s = Ret p t" "free_pages kend t ps" "p \<noteq> 0"
    "agree (\<lambda>q. q \<noteq> p) (mem s) (mem t)"
    "t = s\<lparr>kmach := after_cs c (kmach s), mem := mem t, freelist := freelist t\<rparr>"
    using assms(2) by (rule kalloc_free_pages)
  have "kmach t = after_cs c (kmach s)" by (subst t(5)) simp
  then have "kmem_ready t" using assms(1) by simp
  moreover have "only_mem s t" using t(5) by (rule only_memI)
  moreover have "aligned 4096 p" using free_pages_aligned [OF assms(2)] by simp
  ultimately show ?thesis using that t by blast
qed

lemma zero_page_fill: "p \<noteq> 0 \<Longrightarrow> aligned 4096 p \<Longrightarrow> zero_page (mem_fill p 0 4096 m) p"
  by (simp add: zero_page_def mem_fill_def in_range_page)

lemma zero_page_agree: "zero_page m p \<Longrightarrow> agree P m m' \<Longrightarrow> P p \<Longrightarrow> zero_page m' p"
  by (auto simp: zero_page_def agree_def)

lemma walk_alloc_step:
  assumes tree: "pt_tree (mem s) (Suc l) pt" and v: "\<not> valid (entry (mem s) pt (PX (Suc l) va))"
    and ag: "agree (\<lambda>q. q \<noteq> p) (mem s) (mem s1)" and om: "only_mem s s1"
    and p: "p \<notin> tables (mem s) (Suc l) pt" "p \<noteq> 0" "aligned 4096 p"
    and s2: "s2 = s1\<lparr>mem := store64 (pt + 8 * PX (Suc l) va) (PA2PTE p OR PTE_V) (mem_fill p 0 4096 (mem s1))\<rparr>"
  shows "walked (Suc l) pt va s 0 s2 {p}" and "entry (mem s2) pt (PX (Suc l) va) = PA2PTE p OR PTE_V"
    and "zero_page (mem s2) p" and "PTE2PA (PA2PTE p OR PTE_V) = p"
    and "agree (\<lambda>q. q \<noteq> pt \<and> q \<noteq> p) (mem s) (mem s2)"
proof -
  let ?i = "PX (Suc l) va"
  have al: "aligned 4096 pt" using tree by simp
  note ea = entry_addr [OF al PX_less [of "Suc l" va]]
  have np: "p \<noteq> pt" using p(1) by auto
  let ?m1 = "mem_fill p 0 4096 (mem s1)"
  have a1: "agree (\<lambda>q. q \<noteq> p) (mem s) ?m1"
    using agree_trans [OF ag agree_fill [OF p(3)]] .
  have st: "agree (\<lambda>q. q \<noteq> pt) ?m1 (mem s2)"
    using agree_store [OF ea(2), unfolded ea(3)] by (simp add: s2)
  show a2: "agree (\<lambda>q. q \<noteq> pt \<and> q \<noteq> p) (mem s) (mem s2)"
    by (rule agree_trans [OF agree_mono [OF a1] agree_mono [OF st]]) auto
  show z: "zero_page (mem s2) p"
    using zero_page_agree [OF zero_page_fill [OF p(2,3)] st] np by simp
  have e: "entry (mem s2) pt j = (if j = ?i then PA2PTE p OR PTE_V else entry (mem s) pt j)" if "unat j < 512" for j
  proof -
    have "entry (mem s2) pt j = (if pt + 8 * ?i = pt + 8 * j then PA2PTE p OR PTE_V else entry ?m1 pt j)"
      using ea(2) entry_addr(2) [OF al that] by (simp add: s2 load_store_aligned)
    moreover have "entry ?m1 pt j = entry (mem s) pt j"
      using agree_entry [OF a1 _ al that] np by simp
    ultimately show ?thesis using entry_inj [OF al PX_less that, of "Suc l" va] by auto
  qed
  then show "entry (mem s2) pt ?i = PA2PTE p OR PTE_V" by simp
  show "PTE2PA (PA2PTE p OR PTE_V) = p"
    using p(3) by (intro PTE2PA_PA2PTE) (simp_all add: PTE_V_def)
  note new = pt_new_child [OF tree PX_less v p(1) z a2 e]
  have "only_mem s s2" using om by (rule only_mem_trans) (simp add: s2)
  moreover have "agree (\<lambda>q. q \<notin> tables (mem s) (Suc l) pt \<and> q \<notin> {p}) (mem s) (mem s2)"
    by (rule agree_mono [OF a2]) auto
  moreover have "tables (mem s2) (Suc l) pt = tables (mem s) (Suc l) pt \<union> {p}"
    using new(2) by blast
  ultimately show "walked (Suc l) pt va s 0 s2 {p}"
    unfolding walked_def using new(1,3) by blast
qed

lemma walk_levels_alloc:
  assumes "pt_tree (mem s) l pt" and "kmem_ready s" and "free_pages kend s ps"
    and "set ps \<inter> tables (mem s) l pt = {}"
  shows "\<exists>r t used qs. walk_levels c l pt va True s = Ret r t \<and> ps = used @ qs \<and> kmem_ready t \<and>
           free_pages kend t qs \<and> walked l pt va s r t (set used) \<and> length used \<le> l \<and>
           (r = 0 \<longrightarrow> qs = [] \<and> length used < l)"
  using assms
proof (induction l arbitrary: pt s ps)
  case 0
  have "pt + 8 * PX 0 va \<noteq> 0" using leaf_addr_in(3) [OF 0(1), of va] by simp
  then show ?case
    using 0 walked_refl [OF 0(1), of va "pt + 8 * PX 0 va"]
    by (intro exI [of _ "pt + 8 * PX 0 va"] exI [of _ s] exI [of _ "[]"] exI [of _ ps]) simp
next
  case (Suc l)
  let ?i = "PX (Suc l) va"
  let ?e = "entry (mem s) pt ?i"
  show ?case
  proof (cases "valid ?e")
    case True
    have "set ps \<inter> tables (mem s) l (PTE2PA ?e) = {}"
      using Suc.prems(4) tables_child [OF PX_less True, of l] by blast
    then obtain r t used qs where w: "walk_levels c l (PTE2PA ?e) va True s = Ret r t" "ps = used @ qs"
        "kmem_ready t" "free_pages kend t qs" "walked l (PTE2PA ?e) va s r t (set used)" "length used \<le> l"
        "r = 0 \<longrightarrow> qs = [] \<and> length used < l"
      using Suc.IH [of s "PTE2PA ?e" ps] Suc.prems True by auto
    have "set used \<inter> tables (mem s) (Suc l) pt = {}" using Suc.prems(4) w(2) by auto
    with w(5) have "walked (Suc l) pt va s r t (set used)"
      by (rule walked_parent [OF Suc.prems(1) True])
    moreover have "walk_levels c (Suc l) pt va True s = Ret r t" using True w(1) by (simp add: Let_def)
    ultimately show ?thesis using w
      by (intro exI [of _ r] exI [of _ t] exI [of _ used] exI [of _ qs]) simp
  next
    case False
    show ?thesis
    proof (cases ps)
      case Nil
      let ?t = "s\<lparr>kmach := after_cs c (kmach s)\<rparr>"
      have k: "kalloc c s = Ret 0 ?t" using Suc.prems(2,3) Nil by (simp add: kalloc_empty)
      have om: "only_mem s ?t"
        by (rule only_memI [where k = "after_cs c (kmach s)" and m = "mem s" and f = "freelist s"]) simp
      have "walk_levels c (Suc l) pt va True s = Ret 0 ?t" using False k by (simp add: Let_def)
      moreover have "walked (Suc l) pt va s 0 ?t (set [])"
        using om Suc.prems(1) unfolding walked_def by simp
      moreover have "free_pages kend ?t []" and "kmem_ready ?t"
        using Suc.prems(2,3) Nil by (simp_all add: free_pages_def)
      ultimately show ?thesis using Nil
        by (intro exI [of _ 0] exI [of _ ?t] exI [of _ "[]"]) simp
    next
      case (Cons p ps')
      obtain s1 where s1: "kalloc c s = Ret p s1" "kmem_ready s1" "free_pages kend s1 ps'" "p \<noteq> 0"
        "aligned 4096 p" "agree (\<lambda>q. q \<noteq> p) (mem s) (mem s1)" "only_mem s s1"
        using kalloc_frame [OF Suc.prems(2) Suc.prems(3) [unfolded Cons]] by metis
      have pn: "p \<notin> tables (mem s) (Suc l) pt" and pd: "p \<notin> set ps'"
        using Suc.prems(3,4) Cons by (auto simp: free_pages_def)
      define s2 where "s2 = s1\<lparr>mem := store64 (pt + 8 * ?i) (PA2PTE p OR PTE_V) (mem_fill p 0 4096 (mem s1))\<rparr>"
      note st = walk_alloc_step [OF Suc.prems(1) False s1(6,7) pn s1(4,5) s2_def]
      have eq: "walk_levels c (Suc l) pt va True s = walk_levels c l p va True s2"
        using False s1(1,4) by (simp add: Let_def memset_eq s2_def)
      have "pt \<notin> set ps'" using Suc.prems(4) Cons by auto
      then have ag2: "agree (\<lambda>q. q \<in> set ps') (mem s1) (mem s2)"
        using st(5) s1(6) pd unfolding agree_def by metis
      have fp: "free_pages kend s2 ps'"
        by (rule free_pages_agree [OF s1(3) ag2]) (simp add: s2_def)
      have rd: "kmem_ready s2" using s1(2) by (simp add: s2_def)
      have "set ps' \<inter> tables (mem s2) l p = {}" using zero_page_table(2) [OF st(3)] pd by simp
      then obtain r t used qs where w: "walk_levels c l p va True s2 = Ret r t" "ps' = used @ qs"
        "kmem_ready t" "free_pages kend t qs" "walked l p va s2 r t (set used)" "length used \<le> l"
        "r = 0 \<longrightarrow> qs = [] \<and> length used < l"
        using Suc.IH [OF zero_page_table(1) [OF st(3)] rd fp] by blast
      have tr2: "pt_tree (mem s2) (Suc l) pt" and tb2: "tables (mem s2) (Suc l) pt = tables (mem s) (Suc l) pt \<union> {p}"
        using st(1) unfolding walked_def by blast+
      have v2: "valid (entry (mem s2) pt ?i)" by (simp add: st(2))
      have w2: "walked l (PTE2PA (entry (mem s2) pt ?i)) va s2 r t (set used)"
        using w(5) by (simp add: st(2,4))
      have "set used \<inter> tables (mem s2) (Suc l) pt = {}"
        using Suc.prems(4) Cons w(2) pd tb2 by auto
      with w2 have "walked (Suc l) pt va s2 r t (set used)"
        by (rule walked_parent [OF tr2 v2])
      with st(1) have "walked (Suc l) pt va s r t ({p} \<union> set used)" by (rule walked_trans)
      moreover have "ps = (p # used) @ qs" using Cons w(2) by simp
      ultimately show ?thesis using w eq
        by (intro exI [of _ r] exI [of _ t] exI [of _ "p # used"] exI [of _ qs]) simp
    qed
  qed
qed

section \<open>The meaning of a page table\<close>

definition pte_of :: "mem \<Rightarrow> u64 \<Rightarrow> u64 \<Rightarrow> u64" where
  "pte_of m pt va = leaf_val m 2 pt va"

lemma radix_512:
  fixes x y :: nat
  assumes "x < 512 ^ 3" and "y < 512 ^ 3"
    and "x mod 512 = y mod 512" and "x div 512 mod 512 = y div 512 mod 512"
    and "x div 512 ^ 2 mod 512 = y div 512 ^ 2 mod 512"
  shows "x = y"
proof -
  have "x div 512 ^ 2 < 512" "y div 512 ^ 2 < 512" using assms(1,2) by (simp_all add: div_less_iff_less_mult)
  then have "x div 512 ^ 2 = y div 512 ^ 2" using assms(5) by simp
  then have "x div 512 div 512 = y div 512 div 512"
    by (simp only: power2_eq_square div_mult2_eq [of _ 512 512])
  with assms(4) have "x div 512 = y div 512" by (metis div_mult_mod_eq)
  with assms(3) show ?thesis by (metis div_mult_mod_eq)
qed

lemma same_path_page:
  assumes "va < MAXVA" and "va' < MAXVA"
  shows "same_path 2 va va' \<longleftrightarrow> PGROUNDDOWN va = PGROUNDDOWN va'"
proof -
  let ?x = "unat va div 4096" and ?y = "unat va' div 4096"
  have b: "?x < 512 ^ 3" "?y < 512 ^ 3"
    using assms by (simp_all add: word_less_nat_alt div_less_iff_less_mult)
  have px: "unat (PX k v) = unat v div 4096 div 512 ^ k mod 512" for k v
    by (simp add: unat_PX power_add power_mult div_mult2_eq)
  have "same_path 2 va va' \<longleftrightarrow> (\<forall>k \<le> 2. unat (PX k va) = unat (PX k va'))"
    by (simp add: same_path_def word_unat_eq_iff)
  also have "\<dots> \<longleftrightarrow> (\<forall>k \<le> 2. ?x div 512 ^ k mod 512 = ?y div 512 ^ k mod 512)"
    by (simp only: px)
  also have "\<dots> \<longleftrightarrow> ?x = ?y"
  proof
    assume h: "\<forall>k \<le> 2. ?x div 512 ^ k mod 512 = ?y div 512 ^ k mod 512"
    show "?x = ?y" using b
    proof (rule radix_512)
      show "?x mod 512 = ?y mod 512" using h [rule_format, of 0] by simp
      show "?x div 512 mod 512 = ?y div 512 mod 512" using h [rule_format, of 1] by simp
      show "?x div 512 ^ 2 mod 512 = ?y div 512 ^ 2 mod 512" using h by blast
    qed
  qed simp
  also have "\<dots> \<longleftrightarrow> PGROUNDDOWN va = PGROUNDDOWN va'"
    by (simp add: word_unat_eq_iff unat_PGROUNDDOWN minus_mod_eq_mult_div)
  finally show ?thesis .
qed

lemma walk_alloc:
  assumes "pt_tree (mem s) 2 pt" and "kmem_ready s" and "free_pages kend s ps"
    and "set ps \<inter> tables (mem s) 2 pt = {}" and "va < MAXVA"
  obtains r t used qs where "walk c pt va True s = Ret r t" and "ps = used @ qs" and "kmem_ready t"
    and "free_pages kend t qs" and "walked 2 pt va s r t (set used)" and "length used \<le> 2"
    and "r = 0 \<longrightarrow> qs = [] \<and> length used < 2"
proof -
  have "walk c pt va True s = walk_levels c 2 pt va True s" using assms(5) by (simp add: walk_def not_le [symmetric])
  with walk_levels_alloc [OF assms(1-4), of c va] that show ?thesis by metis
qed

text \<open>Without allocation, \<^verbatim>\<open>walk\<close> only reads.\<close>

lemma walk_levels_read:
  "walk_levels c l pt va False s = Ret (case leaf_addr (mem s) l pt va of None \<Rightarrow> 0 | Some a \<Rightarrow> a) s"
  by (induction l arbitrary: pt) (simp_all add: Let_def)

lemma walk_read:
  assumes "va < MAXVA" and "pt_tree (mem s) 2 pt"
  obtains (none) "walk c pt va False s = Ret 0 s" and "pte_of (mem s) pt va = 0"
  | (leaf) a where "walk c pt va False s = Ret a s" and "a \<noteq> 0" and "load64 (mem s) a = pte_of (mem s) pt va"
      and "leaf_addr (mem s) 2 pt va = Some a"
proof (cases "leaf_addr (mem s) 2 pt va")
  case None
  then show ?thesis using assms(1) none by (simp add: walk_def walk_levels_read pte_of_def leaf_val_def not_le [symmetric])
next
  case (Some a)
  then show ?thesis using assms(1) leaf_addr_in(3) [OF assms(2) Some] leaf
    by (simp add: walk_def walk_levels_read pte_of_def leaf_val_def not_le [symmetric])
qed

text \<open>
  \<open>extended s t pt ps qs\<close>: from \<open>s\<close> to \<open>t\<close> the table at \<open>pt\<close> stayed a tree, its new pages came off the free
  list, which shrank from \<open>ps\<close> to \<open>qs\<close>, and no other page changed.
\<close>

definition extended :: "u64 \<Rightarrow> 'z kmem_st_scheme \<Rightarrow> 'z kmem_st_scheme \<Rightarrow> u64 \<Rightarrow> u64 list \<Rightarrow> u64 list \<Rightarrow> bool" where
  "extended kend s t pt ps qs \<longleftrightarrow>
     only_mem s t \<and> pt_tree (mem t) 2 pt \<and> kmem_ready t \<and> free_pages kend t qs \<and>
     (\<exists>used. ps = used @ qs \<and> tables (mem t) 2 pt = tables (mem s) 2 pt \<union> set used \<and>
        agree (\<lambda>q. q \<notin> tables (mem s) 2 pt \<and> q \<notin> set used) (mem s) (mem t))"

lemma extended_disjoint:
  assumes "extended kend s t pt ps qs" and "set ps \<inter> tables (mem s) 2 pt = {}" and "distinct ps"
  shows "set qs \<inter> tables (mem t) 2 pt = {}"
  using assms by (auto simp: extended_def)

lemma extended_trans:
  assumes "extended kend s t pt ps qs" and "extended kend t u pt qs rs"
  shows "extended kend s u pt ps rs"
proof -
  obtain a where a: "ps = a @ qs" "tables (mem t) 2 pt = tables (mem s) 2 pt \<union> set a"
    "agree (\<lambda>q. q \<notin> tables (mem s) 2 pt \<and> q \<notin> set a) (mem s) (mem t)"
    using assms(1) by (auto simp: extended_def)
  obtain b where b: "qs = b @ rs" "tables (mem u) 2 pt = tables (mem t) 2 pt \<union> set b"
    "agree (\<lambda>q. q \<notin> tables (mem t) 2 pt \<and> q \<notin> set b) (mem t) (mem u)"
    using assms(2) by (auto simp: extended_def)
  have "agree (\<lambda>q. q \<notin> tables (mem s) 2 pt \<and> q \<notin> set (a @ b)) (mem s) (mem u)"
    by (rule agree_trans [OF agree_mono [OF a(3)] agree_mono [OF b(3)]]) (auto simp: a(2))
  moreover have "tables (mem u) 2 pt = tables (mem s) 2 pt \<union> set (a @ b)" using a(2) b(2) by auto
  moreover have "ps = (a @ b) @ rs" using a(1) b(1) by simp
  ultimately show ?thesis
    using assms unfolding extended_def by (blast intro: only_mem_trans)
qed

lemma walked_store_extended:
  assumes w: "walked 2 pt va s r t (set used)" and r: "r \<noteq> 0" and "ps = used @ qs" and "kmem_ready t"
    and fp: "free_pages kend t qs" and d: "set ps \<inter> tables (mem s) 2 pt = {}" "distinct ps"
  shows "extended kend s (t\<lparr>mem := store64 r v (mem t)\<rparr>) pt ps qs"
    and "pte_of (store64 r v (mem t)) pt va' = (if same_path 2 va va' then v else pte_of (mem s) pt va')"
proof -
  have la: "leaf_addr (mem t) 2 pt va = Some r" and tr: "pt_tree (mem t) 2 pt" and om: "only_mem s t"
    and tb: "tables (mem t) 2 pt = tables (mem s) 2 pt \<union> set used"
    and ag: "agree (\<lambda>q. q \<notin> tables (mem s) 2 pt \<and> q \<notin> set used) (mem s) (mem t)"
    and lv: "leaf_val (mem t) 2 pt va' = leaf_val (mem s) 2 pt va'"
    using w r unfolding walked_def by blast+
  note st = pt_store [OF tr la, of v]
  note lin = leaf_addr_in [OF tr la]
  have as: "agree (\<lambda>q. q \<noteq> PGROUNDDOWN r) (mem t) (store64 r v (mem t))" using lin(2) by (rule agree_store)
  show "pte_of (store64 r v (mem t)) pt va' = (if same_path 2 va va' then v else pte_of (mem s) pt va')"
    using st(4) [of va'] lv by (simp add: pte_of_def)
  have "PGROUNDDOWN r \<notin> set qs" using lin(1) tb d assms(3) by auto
  then have "free_pages kend (t\<lparr>mem := store64 r v (mem t)\<rparr>) qs"
    by (intro free_pages_agree [OF fp]) (auto intro!: agree_mono [OF as])
  moreover have "agree (\<lambda>q. q \<notin> tables (mem s) 2 pt \<and> q \<notin> set used) (mem s) (store64 r v (mem t))"
    by (rule agree_trans [OF ag agree_mono [OF as]]) (use lin(1) tb in auto)
  ultimately show "extended kend s (t\<lparr>mem := store64 r v (mem t)\<rparr>) pt ps qs"
    unfolding extended_def using assms(3,4) st(1,2) tb only_mem_trans [OF om only_mem_mem] by auto
qed

section \<open>Mapping a range\<close>

lemma page_step:
  assumes "aligned 4096 a" and "unat a + 4096 < 2 ^ 64"
  shows "unat (a + PGSIZE) = unat a + 4096" and "aligned 4096 (a + PGSIZE)"
proof -
  show u: "unat (a + PGSIZE) = unat a + 4096"
    using assms(2) by (subst unat_add_lem [THEN iffD1]) auto
  show "aligned 4096 (a + PGSIZE)" using assms(1) by (simp add: aligned_def u)
qed

lemma in_range_pages_Suc:
  assumes "aligned 4096 a" and "unat a + Suc k * 4096 \<le> 2 ^ 38"
  shows "in_range a (Suc k * 4096) va \<longleftrightarrow> PGROUNDDOWN va = a \<or> in_range (a + PGSIZE) (k * 4096) va"
proof -
  have u: "unat (a + PGSIZE) = unat a + 4096" using assms by (intro page_step) auto
  have "in_range a (Suc k * 4096) va \<longleftrightarrow> unat a \<le> unat va \<and> unat va < unat a + Suc k * 4096"
    using assms(2) by (intro in_range_nowrap) auto
  moreover have "in_range (a + PGSIZE) (k * 4096) va \<longleftrightarrow> unat a + 4096 \<le> unat va \<and> unat va < unat a + 4096 + k * 4096"
    using assms(2) u by (subst in_range_nowrap) auto
  ultimately show ?thesis using PGROUNDDOWN_iff [OF assms(1), of va] by auto
qed

text \<open>One iteration of the loop: out of memory, or one more entry written.\<close>

lemma map_one:
  assumes "pt_tree (mem s) 2 pt" and "kmem_ready s" and "free_pages kend s ps"
    and "set ps \<inter> tables (mem s) 2 pt = {}" and "aligned 4096 a" and "a < MAXVA"
    and "\<not> valid (pte_of (mem s) pt a)"
  obtains (full) t where "walk c pt a True s = Ret 0 t" and "extended kend s t pt ps []" and "length ps < 2"
      and "\<And>va. pte_of (mem t) pt va = pte_of (mem s) pt va"
  | (entry) r t qs where "walk c pt a True s = Ret r t" and "r \<noteq> 0" and "\<not> valid (load64 (mem t) r)"
      and "extended kend s (t\<lparr>mem := store64 r v (mem t)\<rparr>) pt ps qs" and "length ps \<le> length qs + 2"
      and "\<And>va. va < MAXVA \<Longrightarrow> pte_of (store64 r v (mem t)) pt va =
             (if PGROUNDDOWN va = a then v else pte_of (mem s) pt va)"
proof -
  obtain r t used qs where w: "walk c pt a True s = Ret r t" "ps = used @ qs" "kmem_ready t"
    "free_pages kend t qs" "walked 2 pt a s r t (set used)" "length used \<le> 2" "r = 0 \<longrightarrow> qs = [] \<and> length used < 2"
    using walk_alloc [OF assms(1-4,6), of c] by metis
  show ?thesis
  proof (cases "r = 0")
    case True
    then have "extended kend s t pt ps []" using w unfolding extended_def walked_def by blast
    moreover have "pte_of (mem t) pt va = pte_of (mem s) pt va" for va
      using w(5) by (simp add: walked_def pte_of_def)
    ultimately show ?thesis using full w(1,2,7) True by simp
  next
    case False
    have "distinct ps" using assms(3) by (simp add: free_pages_def)
    note ws = walked_store_extended [OF w(5) False w(2,3,4) assms(4) this, of v]
    have "leaf_addr (mem t) 2 pt a = Some r" and "leaf_val (mem t) 2 pt a = leaf_val (mem s) 2 pt a"
      using w(5) False by (simp_all add: walked_def)
    then have "load64 (mem t) r = pte_of (mem s) pt a" by (simp add: pte_of_def leaf_val_def)
    then have "\<not> valid (load64 (mem t) r)" using assms(7) by simp
    moreover have "pte_of (store64 r v (mem t)) pt va = (if PGROUNDDOWN va = a then v else pte_of (mem s) pt va)"
      if "va < MAXVA" for va
      using ws(2) [of va] same_path_page [OF assms(6) that] assms(5) by auto
    moreover have "length ps \<le> length qs + 2" using w(2,6) by simp
    ultimately show ?thesis using entry w(1) False ws(1) by blast
  qed
qed

text \<open>The entries after mapping \<open>k\<close> pages from \<open>a\<close>.\<close>

definition mapped :: "u64 \<Rightarrow> nat \<Rightarrow> u64 \<Rightarrow> u64 \<Rightarrow> (u64 \<Rightarrow> u64) \<Rightarrow> u64 \<Rightarrow> u64" where
  "mapped a k pa perm f va =
     (if in_range a (k * 4096) va then PA2PTE (pa + (PGROUNDDOWN va - a)) OR perm OR PTE_V else f va)"

lemma mapped_0 [simp]: "mapped a 0 pa perm f = f"
  by (simp add: mapped_def in_range_def fun_eq_iff)

lemma mapped_Suc:
  assumes "aligned 4096 a" and "unat a + Suc k * 4096 \<le> 2 ^ 38"
  shows "mapped a (Suc k) pa perm f va = mapped (a + PGSIZE) k (pa + PGSIZE) perm
     (\<lambda>va. if PGROUNDDOWN va = a then PA2PTE pa OR perm OR PTE_V else f va) va"
  using in_range_pages_Suc [OF assms, of va] by (auto simp: mapped_def)

lemma page_offset:
  assumes "unat a + n * 4096 < 2 ^ 64" and "i \<le> n"
  shows "unat (a + of_nat i * PGSIZE) = unat a + i * 4096"
proof -
  have "of_nat i * PGSIZE = of_nat (i * 4096)" by (simp add: PGSIZE_def)
  then show ?thesis using unat_plus_offset [of a "n * 4096 + 1" "i * 4096"] assms by simp
qed

lemma mappages_loop_ok:
  assumes "pt_tree (mem s) 2 pt" and "kmem_ready s" and "free_pages kend s ps"
    and "set ps \<inter> tables (mem s) 2 pt = {}" and "aligned 4096 a" and "unat a + Suc n * 4096 \<le> 2 ^ 38"
    and "\<forall>i \<le> n. \<not> valid (pte_of (mem s) pt (a + of_nat i * PGSIZE))"
  shows "\<exists>r t qs k. mappages_loop c pt a (a + of_nat n * PGSIZE) pa perm s = Ret r t \<and>
     extended kend s t pt ps qs \<and>
     (r = 0 \<and> k = Suc n \<or> r = -1 \<and> qs = [] \<and> k \<le> n \<and> length ps < 2 * Suc n) \<and>
     (\<forall>va < MAXVA. pte_of (mem t) pt va = mapped a k pa perm (pte_of (mem s) pt) va)"
  using assms
proof (induction n arbitrary: a pa s ps)
  case (0 a pa s ps)
  have am: "a < MAXVA" using 0(6) by (simp add: word_less_nat_alt)
  have nv: "\<not> valid (pte_of (mem s) pt a)" using 0(7) by simp
  from 0(1-5) am nv show ?case
  proof (cases rule: map_one [where c = c and v = "PA2PTE pa OR perm OR PTE_V"])
    case (full t)
    then show ?thesis by (subst mappages_loop.simps) (auto intro!: exI [of _ 0])
  next
    case (entry r t qs)
    moreover have "pte_of (store64 r (PA2PTE pa OR perm OR PTE_V) (mem t)) pt va
        = mapped a (Suc 0) pa perm (pte_of (mem s) pt) va" if "va < MAXVA" for va
      using entry(6) [OF that] mapped_Suc [OF 0(5,6)] by simp
    ultimately show ?thesis by (subst mappages_loop.simps) (auto intro!: exI [of _ "Suc 0"])
  qed
next
  case (Suc n a pa s ps)
  note P = Suc.prems
  let ?v = "PA2PTE pa OR perm OR PTE_V" and ?l = "a + of_nat (Suc n) * PGSIZE"
  have am: "a < MAXVA" using P(6) by (simp add: word_less_nat_alt)
  have nv: "\<not> valid (pte_of (mem s) pt a)" using P(7) [rule_format, of 0] by simp
  have off: "unat (a + of_nat i * PGSIZE) = unat a + i * 4096" if "i \<le> Suc n" for i
    using P(6) that by (intro page_offset [of _ "Suc n"]) auto
  have st: "unat (a + PGSIZE) = unat a + 4096" "aligned 4096 (a + PGSIZE)"
    using P(5,6) by (intro page_step; simp)+
  from P(1-5) am nv show ?case
  proof (cases rule: map_one [where c = c and v = ?v])
    case (full t)
    then show ?thesis by (subst mappages_loop.simps) (auto intro!: exI [of _ 0])
  next
    case (entry r t qs)
    define t1 where "t1 = t\<lparr>mem := store64 r ?v (mem t)\<rparr>"
    have e: "extended kend s t1 pt ps qs" using entry(4) by (simp add: t1_def)
    have p1: "pte_of (mem t1) pt va = (if PGROUNDDOWN va = a then ?v else pte_of (mem s) pt va)" if "va < MAXVA" for va
      using entry(6) [OF that] by (simp add: t1_def)
    have lne: "a \<noteq> ?l"
    proof
      assume "a = ?l"
      then have "unat a = unat ?l" by simp
      then show False using off [of "Suc n"] by simp
    qed
    have nv1: "\<forall>i \<le> n. \<not> valid (pte_of (mem t1) pt (a + PGSIZE + of_nat i * PGSIZE))"
    proof (intro allI impI)
      fix i assume i: "i \<le> n"
      have va: "a + PGSIZE + of_nat i * PGSIZE = a + of_nat (Suc i) * PGSIZE" by (simp add: algebra_simps)
      have u: "unat (a + PGSIZE + of_nat i * PGSIZE) = unat a + Suc i * 4096" unfolding va using off [of "Suc i"] i by simp
      then have "a + PGSIZE + of_nat i * PGSIZE < MAXVA" using i P(6) by (simp add: word_less_nat_alt)
      then show "\<not> valid (pte_of (mem t1) pt (a + PGSIZE + of_nat i * PGSIZE))"
        using p1 u PGROUNDDOWN_iff [OF P(5)] P(7) [rule_format, of "Suc i", folded va] i by simp
    qed
    have d: "set qs \<inter> tables (mem t1) 2 pt = {}"
      using extended_disjoint [OF e P(4)] P(3) by (simp add: free_pages_def)
    have l: "?l = a + PGSIZE + of_nat n * PGSIZE" by (simp add: algebra_simps)
    have b: "unat (a + PGSIZE) + Suc n * 4096 \<le> 2 ^ 38" using P(6) st(1) by simp
    have x: "pt_tree (mem t1) 2 pt" "kmem_ready t1" "free_pages kend t1 qs" using e by (auto simp: extended_def)
    obtain r' t' rs k where m: "mappages_loop c pt (a + PGSIZE) ?l (pa + PGSIZE) perm t1 = Ret r' t'"
      "extended kend t1 t' pt qs rs" "r' = 0 \<and> k = Suc n \<or> r' = -1 \<and> rs = [] \<and> k \<le> n \<and> length qs < 2 * Suc n"
      "\<And>va. va < MAXVA \<Longrightarrow> pte_of (mem t') pt va = mapped (a + PGSIZE) k (pa + PGSIZE) perm (pte_of (mem t1) pt) va"
      using Suc.IH [OF x d st(2) b nv1, of "pa + PGSIZE"] unfolding l by blast
    have "unat a + Suc k * 4096 \<le> 2 ^ 38" using m(3) P(6) by auto
    then have "pte_of (mem t') pt va = mapped a (Suc k) pa perm (pte_of (mem s) pt) va" if "va < MAXVA" for va
      using m(4) [OF that] p1 [OF that] mapped_Suc [OF P(5), of k] by (simp add: mapped_def)
    moreover have "mappages_loop c pt a ?l pa perm s = Ret r' t'"
      using entry(1-3) lne m(1) by (subst mappages_loop.simps) (simp add: t1_def)
    moreover have "extended kend s t' pt ps rs" using e m(2) by (rule extended_trans)
    ultimately show ?thesis using m(3) entry(5)
      by (intro exI [of _ r'] exI [of _ t'] exI [of _ rs] exI [of _ "Suc k"]) auto
  qed
qed

lemma mappages_ok:
  assumes "pt_tree (mem s) 2 pt" and "kmem_ready s" and "free_pages kend s ps"
    and "set ps \<inter> tables (mem s) 2 pt = {}" and "aligned 4096 va" and "0 < n" and "unat va + n * 4096 \<le> 2 ^ 38"
    and "\<forall>i < n. \<not> valid (pte_of (mem s) pt (va + of_nat i * PGSIZE))"
  shows "\<exists>r t qs k. mappages c pt va (of_nat n * PGSIZE) pa perm s = Ret r t \<and>
     extended kend s t pt ps qs \<and> (r = 0 \<and> k = n \<or> r = -1 \<and> qs = [] \<and> k < n \<and> length ps < 2 * n) \<and>
     (\<forall>va' < MAXVA. pte_of (mem t) pt va' = mapped va k pa perm (pte_of (mem s) pt) va')"
proof -
  obtain j where j: "n = Suc j" using assms(6) by (cases n) auto
  have sz: "unat (of_nat n * PGSIZE) = n * 4096"
    using page_offset [of 0 n n] assms(7) by simp
  have "of_nat n * PGSIZE \<noteq> 0" using sz assms(6) by (auto simp: word_unat_eq_iff)
  moreover have "of_nat n * PGSIZE mod PGSIZE = 0" by (simp add: word_unat_eq_iff unat_mod sz)
  moreover have "va mod PGSIZE = 0" using assms(5) by (simp add: word_unat_eq_iff unat_mod aligned_def)
  moreover have l: "va + of_nat n * PGSIZE - PGSIZE = va + of_nat j * PGSIZE" by (simp add: j algebra_simps)
  ultimately have "mappages c pt va (of_nat n * PGSIZE) pa perm s = mappages_loop c pt va (va + of_nat j * PGSIZE) pa perm s"
    unfolding mappages_def l by simp
  moreover have "\<forall>i \<le> j. \<not> valid (pte_of (mem s) pt (va + of_nat i * PGSIZE))" using assms(8) j by auto
  ultimately show ?thesis
    using mappages_loop_ok [OF assms(1-5), of j c pa perm] assms(7) j by (auto simp: less_Suc_eq_le)
qed

section \<open>Properties\<close>

text \<open>
  C8. \<^verbatim>\<open>mappages\<close> on an unmapped, page-aligned range below \<^verbatim>\<open>MAXVA\<close> returns 0 or -1 and never panics.  On 0,
  every address of the range translates to the frame at the same offset from \<open>pa\<close>, with the requested
  permissions; -1 is returned only if fewer than two
  pages per entry were free; then the allocator is empty and a prefix of the range is mapped.  In both cases every
  other address keeps its translation, the table stays a tree of distinct pages, and memory outside its
  pages is untouched.
\<close>

theorem mappages_correct:
  assumes "pt_tree (mem s) 2 pt" and "kmem_ready s" and "free_pages kend s ps"
    and "set ps \<inter> tables (mem s) 2 pt = {}" and "aligned 4096 va" and "0 < n" and "unat va + n * 4096 \<le> 2 ^ 38"
    and "\<forall>i < n. \<not> valid (pte_of (mem s) pt (va + of_nat i * PGSIZE))"
  shows "\<exists>r t k. mappages c pt va (of_nat n * PGSIZE) pa perm s = Ret r t \<and> pt_tree (mem t) 2 pt \<and>
     (r = 0 \<and> k = n \<or> r = -1 \<and> k < n \<and> freelist t = 0 \<and> length ps < 2 * n) \<and>
     (\<forall>va' < MAXVA. pte_of (mem t) pt va' =
        (if unat va \<le> unat va' \<and> unat va' < unat va + k * 4096
         then PA2PTE (pa + (PGROUNDDOWN va' - va)) OR perm OR PTE_V else pte_of (mem s) pt va')) \<and>
     agree (\<lambda>q. q \<notin> tables (mem t) 2 pt) (mem s) (mem t)"
proof -
  obtain r t qs k where m: "mappages c pt va (of_nat n * PGSIZE) pa perm s = Ret r t" "extended kend s t pt ps qs"
    "r = 0 \<and> k = n \<or> r = -1 \<and> qs = [] \<and> k < n \<and> length ps < 2 * n"
    "\<forall>va' < MAXVA. pte_of (mem t) pt va' = mapped va k pa perm (pte_of (mem s) pt) va'"
    using mappages_ok [OF assms, of c pa perm] by blast
  have "unat va + k * 4096 \<le> 2 ^ 64" using m(3) assms(7) by auto
  note rg = in_range_nowrap [OF this]
  have e: "pt_tree (mem t) 2 pt" "agree (\<lambda>q. q \<notin> tables (mem t) 2 pt) (mem s) (mem t)" "free_pages kend t qs"
    using m(2) by (auto simp: extended_def elim: agree_mono)
  have "qs = [] \<Longrightarrow> freelist t = 0" using e(3) by (simp add: free_pages_def)
  then show ?thesis
    using m(1,3,4) e by (intro exI [of _ r] exI [of _ t] exI [of _ k]) (auto simp: mapped_def rg)
qed

text \<open>A concrete state: an empty table at \<open>0x80200000\<close> and two free pages.\<close>

definition two_page_mem :: mem where
  "two_page_mem = store64 0x80100000 0x80101000 (\<lambda>_. 0)"

definition two_page_state :: kmem_st where
  "two_page_state = \<lparr>kmach = kmach boot_kmem, mem = two_page_mem, freelist = 0x80100000\<rparr>"

lemma two_page_aligned: "aligned 4096 0x80100000" "aligned 4096 0x80101000" "aligned 4096 0x80200000" "aligned 4096 0x80300000"
  by (simp_all add: aligned_def)

lemma two_page_outside: "PGROUNDDOWN x \<noteq> 0x80100000 \<Longrightarrow> two_page_mem x = 0"
  using agree_store [OF aligned_8_page [OF two_page_aligned(1)], of "\<lambda>_. 0" "0x80101000"] two_page_aligned(1)
  by (simp add: two_page_mem_def agree_def)

lemma two_page_ok:
  "zero_page two_page_mem 0x80200000" "kmem_ready two_page_state"
  "free_pages 0x80021000 two_page_state [0x80100000, 0x80101000]"
proof -
  show "zero_page two_page_mem 0x80200000"
    using two_page_outside two_page_aligned by (simp add: zero_page_def)
  show "kmem_ready two_page_state"
    by (simp add: two_page_state_def boot_kmem_def can_acquire_def lock_free_def cpu_ok_def)
  have "load64 two_page_mem 0x80101000 = 0"
    using two_page_outside two_page_aligned PGROUNDDOWN_offset [of "0x80101000"]
    by (intro load64_zero) simp
  moreover have "load64 two_page_mem 0x80100000 = 0x80101000" by (simp add: two_page_mem_def load_store_same)
  ultimately show "free_pages 0x80021000 two_page_state [0x80100000, 0x80101000]"
    by (simp add: free_pages_def two_page_state_def is_page_def PGSIZE_def PHYSTOP_def KERNBASE_def)
qed

theorem mappages_correct_witness:
  "\<exists>t. mappages 0 0x80200000 0 (of_nat 1 * PGSIZE) 0x80300000 (PTE_R OR PTE_W OR PTE_U) two_page_state = Ret 0 t \<and>
     pte_of (mem t) 0x80200000 8 = PA2PTE 0x80300000 OR (PTE_R OR PTE_W OR PTE_U) OR PTE_V"
proof -
  note z = zero_page_table [OF two_page_ok(1)]
  have a: "pt_tree (mem two_page_state) 2 0x80200000"
    and b: "set [0x80100000, 0x80101000] \<inter> tables (mem two_page_state) 2 0x80200000 = {}"
    and c: "\<forall>i < 1. \<not> valid (pte_of (mem two_page_state) 0x80200000 (0 + of_nat i * PGSIZE))"
    using z by (simp_all add: two_page_state_def pte_of_def)
  have d: "aligned 4096 (0 :: u64)" "0 < (1 :: nat)" "unat (0 :: u64) + 1 * 4096 \<le> 2 ^ 38"
    by (simp_all add: aligned_def)
  have m: "(8 :: u64) < MAXVA" "PGROUNDDOWN 8 = 0" by (simp_all add: word_less_nat_alt PGROUNDDOWN_def PGSIZE_def)
  obtain r t k where "mappages 0 0x80200000 0 (of_nat 1 * PGSIZE) 0x80300000 (PTE_R OR PTE_W OR PTE_U) two_page_state = Ret r t"
    "r = 0 \<and> k = (1 :: nat) \<or> r = -1 \<and> k < 1 \<and> freelist t = 0 \<and> length [0x80100000, 0x80101000 :: u64] < 2 * 1"
    "\<forall>va' < MAXVA. pte_of (mem t) 0x80200000 va' = (if unat (0 :: u64) \<le> unat va' \<and> unat va' < unat (0 :: u64) + k * 4096
       then PA2PTE (0x80300000 + (PGROUNDDOWN va' - 0)) OR (PTE_R OR PTE_W OR PTE_U) OR PTE_V
       else pte_of (mem two_page_state) 0x80200000 va')"
    using mappages_correct [OF a two_page_ok(2,3) b d c, of 0 "0x80300000" "PTE_R OR PTE_W OR PTE_U"] by blast
  then show ?thesis using m by (intro exI [of _ t]) auto
qed

end
