(* ===== verification/UserCopy.thy ===== *)
theory UserCopy
  imports PageTable
begin

text \<open>
  Correctness of \<^verbatim>\<open>copyin\<close>, \<^verbatim>\<open>copyout\<close> and \<^verbatim>\<open>copyinstr\<close> against the user's view of its memory: the byte at a
  virtual address is the byte of the frame its leaf entry names.
\<close>

section \<open>The user's view\<close>

definition readable :: "mem \<Rightarrow> u64 \<Rightarrow> u64 \<Rightarrow> bool" where
  "readable m pt va \<longleftrightarrow> va < MAXVA \<and> valid (pte_of m pt va) \<and> pte_of m pt va AND PTE_U \<noteq> 0 \<and>
     PTE2PA (pte_of m pt va) \<noteq> 0"

definition writable :: "mem \<Rightarrow> u64 \<Rightarrow> u64 \<Rightarrow> bool" where
  "writable m pt va \<longleftrightarrow> readable m pt va \<and> pte_of m pt va AND PTE_W \<noteq> 0"

definition user_addr :: "mem \<Rightarrow> u64 \<Rightarrow> u64 \<Rightarrow> u64" where
  "user_addr m pt va = PTE2PA (pte_of m pt va) + (va - PGROUNDDOWN va)"

definition user_byte :: "mem \<Rightarrow> u64 \<Rightarrow> u64 \<Rightarrow> u8" where
  "user_byte m pt va = m (user_addr m pt va)"

definition user_bytes :: "mem \<Rightarrow> u64 \<Rightarrow> u64 \<Rightarrow> nat \<Rightarrow> u8 list" where
  "user_bytes m pt va n = map (\<lambda>i. user_byte m pt (va + of_nat i)) [0..<n]"

lemma aligned_PTE2PA [simp]: "aligned 4096 (PTE2PA pte)"
proof -
  have "take_bit 12 (PTE2PA pte) = 0" by (rule bit_word_eqI) (auto simp: PTE2PA_def bit_simps)
  then have "unat (take_bit 12 (PTE2PA pte)) = 0" by simp
  then have "unat (PTE2PA pte) mod 4096 = 0"
    by (simp only: unsigned_take_bit_eq take_bit_eq_mod) (simp add: unat_mod)
  then show ?thesis by (simp add: aligned_def dvd_eq_mod_eq_0)
qed

lemma leaf_val_same_path: "same_path l va va' \<Longrightarrow> leaf_val m l pt va = leaf_val m l pt va'"
  by (induction l arbitrary: pt) (auto simp: Let_def)

lemma pte_of_page:
  "va < MAXVA \<Longrightarrow> va' < MAXVA \<Longrightarrow> PGROUNDDOWN va = PGROUNDDOWN va' \<Longrightarrow> pte_of m pt va = pte_of m pt va'"
  by (simp add: pte_of_def leaf_val_same_path same_path_page)

lemma PGROUNDDOWN_below: "va < MAXVA \<longleftrightarrow> PGROUNDDOWN va < MAXVA"
proof -
  obtain k where k: "unat va = 4096 * k + unat va mod 4096" by (metis mult_div_mod_eq)
  have "unat (PGROUNDDOWN va) = 4096 * k" using k by (simp add: unat_PGROUNDDOWN)
  moreover have "4096 * k + unat va mod 4096 < 2 ^ 38 \<longleftrightarrow> 4096 * k < 2 ^ 38"
  proof
    assume "4096 * k < 2 ^ 38"
    then have "k < 2 ^ 26" by simp
    then have "k \<le> 2 ^ 26 - 1" by simp
    moreover have "unat va mod 4096 < 4096" by simp
    ultimately show "4096 * k + unat va mod 4096 < 2 ^ 38" by simp
  qed simp
  ultimately show ?thesis using k by (simp add: word_less_nat_alt)
qed

lemma PGROUNDDOWN_idem [simp]: "PGROUNDDOWN (PGROUNDDOWN va) = PGROUNDDOWN va"
  by simp

lemma pte_of_PGROUNDDOWN: "va < MAXVA \<Longrightarrow> pte_of m pt (PGROUNDDOWN va) = pte_of m pt va"
  using PGROUNDDOWN_below [of va] by (intro pte_of_page) auto

lemma readable_PGROUNDDOWN: "readable m pt (PGROUNDDOWN va) \<longleftrightarrow> readable m pt va"
  using PGROUNDDOWN_below [of va] by (auto simp: readable_def pte_of_PGROUNDDOWN)

lemma page_offset_word: "va - PGROUNDDOWN va = of_nat (unat va mod 4096)"
proof -
  have "va - PGROUNDDOWN va = of_nat (unat (va - PGROUNDDOWN va))" by simp
  then show ?thesis by (simp only: unat_page_offset)
qed

lemma page_split: "va = PGROUNDDOWN va + of_nat (unat va mod 4096)"
  unfolding page_offset_word [symmetric] by simp

lemma user_addr_unat: "unat (user_addr m pt va) = unat (PTE2PA (pte_of m pt va)) + unat va mod 4096"
proof -
  show ?thesis
    unfolding user_addr_def page_offset_word
    using unat_plus_offset [of "PTE2PA (pte_of m pt va)" 4096 "unat va mod 4096"] page_nowrap [OF aligned_PTE2PA] by simp
qed

lemma PGROUNDDOWN_user_addr: "PGROUNDDOWN (user_addr m pt va) = PTE2PA (pte_of m pt va)"
  by (simp add: PGROUNDDOWN_iff user_addr_unat)

text \<open>Offsets inside a chunk stay in the page of its first byte.\<close>

lemma chunk_offset:
  assumes "i < page_chunk va len"
  shows "PGROUNDDOWN (va + of_nat i) = PGROUNDDOWN va" and "unat (va + of_nat i) = unat va + i"
proof -
  have i: "unat va mod 4096 + i < 4096" using assms unfolding page_chunk_eq min_less_iff_conj by linarith
  have e: "unat (PGROUNDDOWN va) + unat va mod 4096 = unat va"
    by (simp add: unat_PGROUNDDOWN)
  note va = page_split [of va]
  have vi: "va + of_nat i = PGROUNDDOWN va + of_nat (unat va mod 4096 + i)"
    using arg_cong [OF va, of "\<lambda>x. x + of_nat i"] by (simp only: of_nat_add add.assoc)
  show "PGROUNDDOWN (va + of_nat i) = PGROUNDDOWN va"
    unfolding vi using i by (intro PGROUNDDOWN_offset) simp_all
  show "unat (va + of_nat i) = unat va + i"
    unfolding vi using unat_plus_offset [of "PGROUNDDOWN va" 4096 "unat va mod 4096 + i"] i e page_nowrap
    by simp
qed

lemma chunk_user_addr:
  assumes "i < page_chunk va len" and "va < MAXVA"
  shows "user_addr m pt (va + of_nat i) = user_addr m pt va + of_nat i"
proof -
  note c = chunk_offset [OF assms(1)]
  have "va + of_nat i < MAXVA" using PGROUNDDOWN_below [of "va + of_nat i"] PGROUNDDOWN_below [of va] c(1) assms(2) by simp
  then have "pte_of m pt (va + of_nat i) = pte_of m pt va" using assms(2) c(1) by (intro pte_of_page) auto
  then show ?thesis by (simp add: user_addr_def c(1))
qed

lemma next_chunk:
  assumes "page_chunk va len < len"
  shows "va + of_nat (page_chunk va len) = PGROUNDDOWN va + PGSIZE"
proof -
  have n: "page_chunk va len = 4096 - unat va mod 4096" using assms by (simp add: page_chunk_eq)
  note va = page_split [of va]
  have "va + of_nat (4096 - unat va mod 4096)
      = PGROUNDDOWN va + of_nat (unat va mod 4096 + (4096 - unat va mod 4096))"
    using arg_cong [OF va, of "\<lambda>x. x + of_nat (4096 - unat va mod 4096)"] by (simp only: of_nat_add add.assoc)
  also have "unat va mod 4096 + (4096 - unat va mod 4096) = 4096" by simp
  finally show ?thesis by (simp add: n PGSIZE_def)
qed

section \<open>copyin\<close>

lemma walkaddr_read:
  assumes "pt_tree (mem s) 2 pt"
  shows "walkaddr c pt va s = Ret (if readable (mem s) pt va then PTE2PA (pte_of (mem s) pt va) else 0) s"
proof (cases "va < MAXVA")
  case True
  from True assms show ?thesis
  proof (cases rule: walk_read [where c = c])
    case none
    then show ?thesis using True by (simp add: walkaddr_def readable_def not_le [symmetric])
  next
    case (leaf a)
    then show ?thesis using True by (auto simp: walkaddr_def readable_def not_le [symmetric])
  qed
next
  case False
  then show ?thesis by (simp add: walkaddr_def readable_def not_less)
qed

lemma user_bytes_chunk:
  assumes "va < MAXVA" and "n \<le> page_chunk va len"
  shows "mem_read m (user_addr m pt va) n = user_bytes m pt va n"
  using assms chunk_user_addr [OF _ assms(1), of _ len m pt]
  by (intro nth_equalityI) (auto simp: user_bytes_def user_byte_def)

lemma user_bytes_append: "user_bytes m pt va (n + k) = user_bytes m pt va n @ user_bytes m pt (va + of_nat n) k"
  by (rule nth_equalityI) (auto simp: user_bytes_def nth_append algebra_simps simp flip: of_nat_add)

lemma length_user_bytes [simp]: "length (user_bytes m pt va n) = n"
  by (simp add: user_bytes_def)

text \<open>
  All bytes of a range are readable iff those of its first chunk's page are and those of the rest are.
\<close>

lemma readable_chunk: "i < page_chunk va len \<Longrightarrow> readable m pt (va + of_nat i) \<longleftrightarrow> readable m pt va"
  by (metis chunk_offset(1) readable_PGROUNDDOWN)

lemma all_less_split:
  fixes n :: nat
  assumes "n \<le> len"
  shows "(\<forall>i < len. Q i) \<longleftrightarrow> (\<forall>i < n. Q i) \<and> (\<forall>i < len - n. Q (n + i))"
proof -
  have "Q i" if "\<forall>i < n. Q i" "\<forall>i < len - n. Q (n + i)" "i < len" for i
    using that(1,3) that(2) [rule_format, of "i - n"] by (cases "i < n") auto
  with assms show ?thesis by auto
qed

lemma range_split:
  assumes "0 < len" and "n = page_chunk va len"
  shows "(\<forall>i < len. P (va + of_nat i)) \<longleftrightarrow>
     (\<forall>i < n. P (va + of_nat i)) \<and> (\<forall>i < len - n. P (PGROUNDDOWN va + PGSIZE + of_nat i))"
proof -
  have "n \<le> len" using assms by (simp add: page_chunk_le)
  have nx: "PGROUNDDOWN va + PGSIZE + of_nat i = va + of_nat (n + i)" if "i < len - n" for i
    using next_chunk [of va len] that assms(2) by (simp add: algebra_simps)
  have "(\<forall>i < len. P (va + of_nat i)) \<longleftrightarrow> (\<forall>i < n. P (va + of_nat i)) \<and> (\<forall>i < len - n. P (va + of_nat (n + i)))"
    using \<open>n \<le> len\<close> by (rule all_less_split)
  also have "(\<forall>i < len - n. P (va + of_nat (n + i))) \<longleftrightarrow> (\<forall>i < len - n. P (PGROUNDDOWN va + PGSIZE + of_nat i))"
    by (simp add: nx)
  finally show ?thesis .
qed

lemma range_readable_split:
  assumes "0 < len"
  shows "(\<forall>i < len. readable m pt (va + of_nat i)) \<longleftrightarrow>
     readable m pt va \<and> (\<forall>i < len - page_chunk va len. readable m pt (PGROUNDDOWN va + PGSIZE + of_nat i))"
  using range_split [OF assms refl, of "readable m pt" va] readable_chunk [of _ va len m pt] assms
  by (metis add.right_neutral of_nat_0 page_chunk_pos)

lemma copyin_result:
  assumes "pt_tree (mem s) 2 pt"
  shows "if \<forall>i < len. readable (mem s) pt (va + of_nat i)
         then copyin c pt va len s = Ret (0, user_bytes (mem s) pt va len) s
         else \<exists>bs. copyin c pt va len s = Ret (-1, bs) s"
proof (induction len arbitrary: va rule: less_induct)
  case (less len)
  show ?case
  proof (cases "len = 0")
    case True
    then show ?thesis by (simp add: user_bytes_def copyin.simps)
  next
    case False
    let ?n = "page_chunk va len"
    have n: "0 < ?n" "?n \<le> len" using False by (simp_all add: page_chunk_le)
    have wa: "walkaddr c pt (PGROUNDDOWN va) s
        = Ret (if readable (mem s) pt va then PTE2PA (pte_of (mem s) pt (PGROUNDDOWN va)) else 0) s"
      using walkaddr_read [OF assms] by (simp add: readable_PGROUNDDOWN)
    show ?thesis
    proof (cases "readable (mem s) pt va")
      case False
      then have "copyin c pt va len s = Ret (-1, []) s" using wa \<open>len \<noteq> 0\<close> by (subst copyin.simps) simp
      moreover have "\<not> (\<forall>i < len. readable (mem s) pt (va + of_nat i))"
        using False \<open>len \<noteq> 0\<close> range_readable_split [of len] by auto
      ultimately show ?thesis by simp
    next
      case True
      then have va: "va < MAXVA" and nz: "PTE2PA (pte_of (mem s) pt (PGROUNDDOWN va)) \<noteq> 0"
        by (auto simp: readable_def pte_of_PGROUNDDOWN)
      have ua: "PTE2PA (pte_of (mem s) pt (PGROUNDDOWN va)) + (va - PGROUNDDOWN va) = user_addr (mem s) pt va"
        using va by (simp add: user_addr_def pte_of_PGROUNDDOWN)
      have eq: "copyin c pt va len s = andthen (copyin c pt (PGROUNDDOWN va + PGSIZE) (len - ?n) s)
          (\<lambda>(r, rest) t. Ret (r, user_bytes (mem s) pt va ?n @ rest) t)"
        using wa True nz \<open>len \<noteq> 0\<close> user_bytes_chunk [OF va order_refl, of "mem s" pt len]
        by (subst copyin.simps) (simp add: Let_def ua cong: andthen_cong)
      have un: "user_bytes (mem s) pt va len
          = user_bytes (mem s) pt va ?n @ user_bytes (mem s) pt (PGROUNDDOWN va + PGSIZE) (len - ?n)"
      proof (cases "?n < len")
        case True
        then show ?thesis using user_bytes_append [of "mem s" pt va ?n "len - ?n"] next_chunk [OF True] n by simp
      next
        case False
        then show ?thesis using n by (simp add: user_bytes_def)
      qed
      have "len - ?n < len" using n by simp
      from less.IH [OF this, of "PGROUNDDOWN va + PGSIZE"] show ?thesis
        unfolding eq un using range_readable_split [of len "mem s" pt va] True \<open>len \<noteq> 0\<close>
        by (auto split: if_splits)
    qed
  qed
qed

section \<open>copyout\<close>

text \<open>
  A user address space: the table is a tree, user pages are not table pages, no two virtual pages share
  a frame, and no entry names frame 0.
\<close>

definition user_space :: "mem \<Rightarrow> u64 \<Rightarrow> bool" where
  "user_space m pt \<longleftrightarrow> pt_tree m 2 pt \<and>
     (\<forall>va < MAXVA. valid (pte_of m pt va) \<longrightarrow> PTE2PA (pte_of m pt va) \<noteq> 0) \<and>
     (\<forall>va. readable m pt va \<longrightarrow> PTE2PA (pte_of m pt va) \<notin> tables m 2 pt) \<and>
     (\<forall>va va'. readable m pt va \<and> readable m pt va' \<and> PTE2PA (pte_of m pt va) = PTE2PA (pte_of m pt va') \<longrightarrow>
        PGROUNDDOWN va = PGROUNDDOWN va')"

lemma in_range_split:
  assumes "n \<le> len" and "len \<le> 2 ^ 64"
  shows "in_range va len x \<longleftrightarrow> in_range va n x \<or> in_range (va + of_nat n) (len - n) x"
    and "in_range (va + of_nat n) (len - n) x \<Longrightarrow> unat (x - va) = n + unat (x - (va + of_nat n))"
proof -
  have up: "unat (x - va) = n + i \<and> unat (x - (va + of_nat n)) = i"
    if "x = va + of_nat n + of_nat i" "i < len - n" for i
  proof -
    have "x - va = of_nat (n + i)" "x - (va + of_nat n) = of_nat i" using that by simp_all
    then show ?thesis using that assms unat_of_nat_64 [of "n + i"] unat_of_nat_64 [of i] by simp
  qed
  show "unat (x - va) = n + unat (x - (va + of_nat n))" if "in_range (va + of_nat n) (len - n) x"
    using that up by (elim in_rangeE) metis
  show "in_range va len x \<longleftrightarrow> in_range va n x \<or> in_range (va + of_nat n) (len - n) x"
  proof
    assume a: "in_range va len x"
    show "in_range va n x \<or> in_range (va + of_nat n) (len - n) x"
    proof (cases "unat (x - va) < n")
      case False
      define i where "i = unat (x - va) - n"
      have "unat (x - va) = n + i" using False by (simp add: i_def)
      then have "of_nat (unat (x - va)) = (of_nat (n + i) :: u64)" by simp
      then have "x - va = of_nat n + of_nat i" by simp
      then have "x = va + of_nat n + of_nat i" by (simp add: algebra_simps)
      moreover have "i < len - n" using a False by (simp add: in_range_def i_def)
      ultimately show ?thesis using up by (simp add: in_range_def)
    qed (simp add: in_range_def)
  next
    assume "in_range va n x \<or> in_range (va + of_nat n) (len - n) x"
    then show "in_range va len x"
    proof
      assume "in_range (va + of_nat n) (len - n) x"
      then obtain i where "i < len - n" "x = va + of_nat n + of_nat i" by (rule in_rangeE)
      then show ?thesis using up [of i] by (simp add: in_range_def)
    qed (use assms in \<open>simp add: in_range_def\<close>)
  qed
qed

lemma user_frame:
  assumes "user_space m pt" and "agree (\<lambda>q. q \<noteq> f) m m'" and "f \<notin> tables m 2 pt"
  shows "pte_of m' pt = pte_of m pt" and "user_space m' pt" and "readable m' pt = readable m pt"
    and "writable m' pt = writable m pt" and "user_addr m' pt = user_addr m pt"
    and "tables m' 2 pt = tables m 2 pt"
proof -
  have ag: "agree (\<lambda>q. q \<in> tables m 2 pt) m m'" by (rule agree_mono [OF assms(2)]) (use assms(3) in auto)
  have t: "pt_tree m 2 pt" using assms(1) by (simp add: user_space_def)
  note fr = pt_frame [OF t ag]
  show p: "pte_of m' pt = pte_of m pt" using fr(4) by (auto simp: pte_of_def)
  then show r: "readable m' pt = readable m pt" by (auto simp: readable_def)
  then show "writable m' pt = writable m pt" by (auto simp: writable_def p)
  show "user_addr m' pt = user_addr m pt" by (auto simp: user_addr_def p)
  show tb: "tables m' 2 pt = tables m 2 pt" by (rule fr(1))
  show "user_space m' pt" using assms(1) fr(2) unfolding user_space_def p r tb by blast
qed

lemma copyout_chunk:
  assumes us: "user_space m pt" and rd: "readable m pt va" and n: "length bs \<le> page_chunk va len"
    and m': "m' = mem_write (user_addr m pt va) bs m"
  shows "agree (\<lambda>q. q \<noteq> PTE2PA (pte_of m pt va)) m m'"
    and "readable m pt va' \<Longrightarrow> user_byte m' pt va' =
           (if in_range va (length bs) va' then bs ! unat (va' - va) else user_byte m pt va')"
proof -
  let ?f = "PTE2PA (pte_of m pt va)"
  have va: "va < MAXVA" using rd by (simp add: readable_def)
  have ch: "PGROUNDDOWN (user_addr m pt va + of_nat i) = ?f \<and> PGROUNDDOWN (va + of_nat i) = PGROUNDDOWN va \<and>
      user_addr m pt (va + of_nat i) = user_addr m pt va + of_nat i" if "i < length bs" for i
  proof -
    have i: "i < page_chunk va len" using that n by simp
    note a = chunk_user_addr [OF i va, of m pt]
    have "va + of_nat i < MAXVA" using PGROUNDDOWN_below chunk_offset(1) [OF i] va by metis
    then have "pte_of m pt (va + of_nat i) = pte_of m pt va" using va chunk_offset(1) [OF i] by (intro pte_of_page)
    then show ?thesis using a PGROUNDDOWN_user_addr [of m pt "va + of_nat i"] chunk_offset(1) [OF i] by simp
  qed
  show ag: "agree (\<lambda>q. q \<noteq> ?f) m m'"
    unfolding agree_def m'
  proof (intro allI impI)
    fix x assume "PGROUNDDOWN x \<noteq> ?f"
    then have "\<not> in_range (user_addr m pt va) (length bs) x" using ch by (auto elim!: in_rangeE)
    then show "mem_write (user_addr m pt va) bs m x = m x" by (rule mem_write_out)
  qed
  have fnt: "?f \<notin> tables m 2 pt" using us rd by (simp add: user_space_def)
  have ua: "user_addr m' pt va' = user_addr m pt va'" using user_frame(5) [OF us ag fnt] by simp
  have "length bs \<le> 4096" using n unfolding page_chunk_eq min.bounded_iff by linarith
  then have len: "length bs \<le> 2 ^ 64" by simp
  show "user_byte m' pt va' = (if in_range va (length bs) va' then bs ! unat (va' - va) else user_byte m pt va')"
    if r: "readable m pt va'"
  proof (cases "in_range va (length bs) va'")
    case True
    then obtain i where i: "i < length bs" "i < 2 ^ 64" "va' = va + of_nat i" by (rule in_rangeE)
    then have "user_byte m' pt va' = m' (user_addr m pt va + of_nat i)" using ua ch [of i] by (simp add: user_byte_def)
    also have "\<dots> = bs ! i" using i(1) len by (simp add: m' mem_write_in)
    finally show ?thesis using True i unat_of_nat_64 [of i] by simp
  next
    case False
    have "\<not> in_range (user_addr m pt va) (length bs) (user_addr m pt va')"
    proof
      assume "in_range (user_addr m pt va) (length bs) (user_addr m pt va')"
      then obtain i where i: "i < length bs" "i < 2 ^ 64" "user_addr m pt va' = user_addr m pt va + of_nat i"
        by (rule in_rangeE)
      then have "PTE2PA (pte_of m pt va') = ?f" using ch [of i] PGROUNDDOWN_user_addr [of m pt va'] by simp
      then have pg: "PGROUNDDOWN va' = PGROUNDDOWN va" using us r rd unfolding user_space_def by blast
      have "user_addr m pt va' - user_addr m pt va = of_nat i" using i(3) by simp
      then have "va' - va = of_nat i"
        using \<open>PTE2PA (pte_of m pt va') = ?f\<close> pg by (simp add: user_addr_def)
      then have "in_range va (length bs) va'" using i(1,2) by (simp add: in_range_def unat_of_nat_64)
      with False show False ..
    qed
    then show ?thesis using False ua by (simp add: user_byte_def m' mem_write_out)
  qed
qed

lemma writable_PGROUNDDOWN: "writable m pt (PGROUNDDOWN va) \<longleftrightarrow> writable m pt va"
  using PGROUNDDOWN_below [of va] pte_of_PGROUNDDOWN [of va m pt] by (auto simp: writable_def readable_def)

lemma range_writable_split:
  assumes "0 < len"
  shows "(\<forall>i < len. writable m pt (va + of_nat i)) \<longleftrightarrow>
     writable m pt va \<and> (\<forall>i < len - page_chunk va len. writable m pt (PGROUNDDOWN va + PGSIZE + of_nat i))"
proof -
  have "writable m pt (va + of_nat i) \<longleftrightarrow> writable m pt va" if "i < page_chunk va len" for i
    using chunk_offset(1) [OF that] writable_PGROUNDDOWN by metis
  then show ?thesis
    using range_split [OF assms refl, of "writable m pt" va] assms by (metis add.right_neutral of_nat_0 page_chunk_pos)
qed

text \<open>The test \<^verbatim>\<open>copyout\<close> makes on the page of \<open>va\<close>.\<close>

lemma copyout_page:
  assumes "user_space (mem s) pt" and "0 < length src"
  shows "copyout c pt va src s = (if writable (mem s) pt va
     then copyout c pt (PGROUNDDOWN va + PGSIZE) (drop (page_chunk va (length src)) src)
       (s\<lparr>mem := mem_write (user_addr (mem s) pt va) (take (page_chunk va (length src)) src) (mem s)\<rparr>)
     else Ret (-1) s)"
proof (cases "PGROUNDDOWN va < MAXVA")
  case True
  then have va: "va < MAXVA" by (simp add: PGROUNDDOWN_below [of va])
  have t: "pt_tree (mem s) 2 pt" using assms(1) by (simp add: user_space_def)
  have p: "pte_of (mem s) pt (PGROUNDDOWN va) = pte_of (mem s) pt va" using va by (rule pte_of_PGROUNDDOWN)
  have w: "writable (mem s) pt va \<longleftrightarrow> valid (pte_of (mem s) pt va) \<and> pte_of (mem s) pt va AND PTE_U \<noteq> 0 \<and>
      pte_of (mem s) pt va AND PTE_W \<noteq> 0"
    using assms(1) va by (auto simp: writable_def readable_def user_space_def)
  from True t show ?thesis
  proof (cases rule: walk_read [where c = c])
    case none
    then show ?thesis using True assms(2) w by (subst copyout.simps) (simp add: p Let_def not_le [symmetric])
  next
    case (leaf a)
    then show ?thesis using True assms(2) w
      by (subst copyout.simps) (auto simp: p Let_def not_le [symmetric] user_addr_def)
  qed
next
  case False
  then have "\<not> writable (mem s) pt va" using PGROUNDDOWN_below [of va] by (simp add: writable_def readable_def)
  with False show ?thesis using assms(2) by (subst copyout.simps) (simp add: not_less)
qed

lemma mem_upd: "mem (s\<lparr>mem := m\<rparr>) = m" "s\<lparr>mem := m, mem := m'\<rparr> = s\<lparr>mem := m'\<rparr>"
  by simp_all

lemma copyout_result:
  assumes "user_space (mem s) pt" and "length src \<le> 2 ^ 64"
  shows "\<exists>r m'. copyout c pt va src s = Ret r (s\<lparr>mem := m'\<rparr>) \<and> pte_of m' pt = pte_of (mem s) pt \<and>
     user_space m' pt \<and>
     (if \<forall>i < length src. writable (mem s) pt (va + of_nat i)
      then r = 0 \<and> (\<forall>va'. readable (mem s) pt va' \<longrightarrow> user_byte m' pt va' =
             (if in_range va (length src) va' then src ! unat (va' - va) else user_byte (mem s) pt va'))
      else r = -1)"
  using assms
proof (induction "length src" arbitrary: src va s rule: less_induct)
  case less
  show ?case
  proof (cases "src = []")
    case True
    then show ?thesis using less.prems by (intro exI [of _ 0] exI [of _ "mem s"]) (simp add: in_range_def copyout.simps)
  next
    case False
    let ?n = "page_chunk va (length src)"
    have n: "0 < ?n" "?n \<le> length src" using False by (simp_all add: page_chunk_le)
    show ?thesis
    proof (cases "writable (mem s) pt va")
      case nw: False
      then have "copyout c pt va src s = Ret (-1) s" using copyout_page [OF less.prems(1)] False by simp
      then show ?thesis using nw False less.prems range_writable_split [of "length src" "mem s" pt va]
        by (intro exI [of _ "-1"] exI [of _ "mem s"]) auto
    next
      case w: True
      then have rd: "readable (mem s) pt va" by (simp add: writable_def)
      define m1 where "m1 = mem_write (user_addr (mem s) pt va) (take ?n src) (mem s)"
      have lt: "length (take ?n src) = ?n" using n by simp
      have lc: "length (take ?n src) \<le> page_chunk va (length src)" using lt by simp
      note cc = copyout_chunk [OF less.prems(1) rd lc m1_def]
      have "PTE2PA (pte_of (mem s) pt va) \<notin> tables (mem s) 2 pt" using less.prems(1) rd by (simp add: user_space_def)
      note uf = user_frame [OF less.prems(1) cc(1) this]
      have eq: "copyout c pt va src s = copyout c pt (PGROUNDDOWN va + PGSIZE) (drop ?n src) (s\<lparr>mem := m1\<rparr>)"
        using copyout_page [OF less.prems(1), of src c va] False w by (simp add: m1_def)
      have d: "length src - ?n \<le> 2 ^ 64" using less.prems(2) by simp
      have le: "length src - ?n < length src" using n by simp
      obtain r m' where m: "copyout c pt (PGROUNDDOWN va + PGSIZE) (drop ?n src) (s\<lparr>mem := m1\<rparr>) = Ret r (s\<lparr>mem := m'\<rparr>)"
        "pte_of m' pt = pte_of m1 pt" "user_space m' pt"
        "if \<forall>i < length src - ?n. writable m1 pt (PGROUNDDOWN va + PGSIZE + of_nat i)
         then r = 0 \<and> (\<forall>va'. readable m1 pt va' \<longrightarrow> user_byte m' pt va' =
           (if in_range (PGROUNDDOWN va + PGSIZE) (length src - ?n) va'
            then drop ?n src ! unat (va' - (PGROUNDDOWN va + PGSIZE)) else user_byte m1 pt va')) else r = -1"
        using less.hyps [of "drop ?n src" "s\<lparr>mem := m1\<rparr>" "PGROUNDDOWN va + PGSIZE"] le uf(2) d
        unfolding length_drop mem_upd by blast
      have final: "user_byte m' pt va' = (if in_range va (length src) va' then src ! unat (va' - va) else user_byte (mem s) pt va')"
        if all: "\<forall>i < length src. writable (mem s) pt (va + of_nat i)" and rd': "readable (mem s) pt va'" for va'
      proof -
        have b1: "user_byte m1 pt va' = (if in_range va ?n va' then src ! unat (va' - va) else user_byte (mem s) pt va')"
          using cc(2) [OF rd', unfolded lt] by (simp add: in_range_def)
        have b2: "user_byte m' pt va' = (if in_range (PGROUNDDOWN va + PGSIZE) (length src - ?n) va'
            then drop ?n src ! unat (va' - (PGROUNDDOWN va + PGSIZE)) else user_byte m1 pt va')"
          using m(4) all rd' uf(3,4) range_writable_split [of "length src" "mem s" pt va] False by auto
        show ?thesis
        proof (cases "?n < length src")
          case True
          note sp = in_range_split [OF n(2) less.prems(2), of va va', unfolded next_chunk [OF True]]
          show ?thesis using b1 b2 sp n by (auto simp: nth_drop)
        next
          case False
          then have "?n = length src" using n by simp
          then show ?thesis using b1 b2 by (simp add: in_range_def)
        qed
      qed
      show ?thesis
        unfolding eq using m uf(1,4) w False final range_writable_split [of "length src" "mem s" pt va]
        by (intro exI [of _ r] exI [of _ m']) (auto split: if_splits)
    qed
  qed
qed

section \<open>Properties\<close>

text \<open>
  C9. Round trip through user memory: if every byte of the destination range is a mapped, writable user
  byte, \<^verbatim>\<open>copyout\<close> returns 0, \<^verbatim>\<open>copyin\<close> of the same range then returns exactly the bytes copied out, and
  every other user byte and every translation is unchanged.  If some byte of the range is not,
  \<^verbatim>\<open>copyout\<close> returns -1 and never panics.
\<close>

theorem copyout_copyin:
  assumes "user_space (mem s) pt" and "length src \<le> 2 ^ 64"
  shows "if \<forall>i < length src. writable (mem s) pt (va + of_nat i)
     then \<exists>t. copyout c pt va src s = Ret 0 t \<and> copyin c pt va (length src) t = Ret (0, src) t \<and>
            pte_of (mem t) pt = pte_of (mem s) pt \<and>
            (\<forall>va'. readable (mem s) pt va' \<and> \<not> in_range va (length src) va' \<longrightarrow>
               user_byte (mem t) pt va' = user_byte (mem s) pt va')
     else \<exists>t. copyout c pt va src s = Ret (-1) t \<and> pte_of (mem t) pt = pte_of (mem s) pt"
proof -
  obtain r m' where m: "copyout c pt va src s = Ret r (s\<lparr>mem := m'\<rparr>)" "pte_of m' pt = pte_of (mem s) pt"
    "user_space m' pt"
    "if \<forall>i < length src. writable (mem s) pt (va + of_nat i)
     then r = 0 \<and> (\<forall>va'. readable (mem s) pt va' \<longrightarrow> user_byte m' pt va' =
       (if in_range va (length src) va' then src ! unat (va' - va) else user_byte (mem s) pt va')) else r = -1"
    using copyout_result [OF assms, of c va] by blast
  have rd: "readable m' pt = readable (mem s) pt" using m(2) by (auto simp: readable_def)
  show ?thesis
  proof (cases "\<forall>i < length src. writable (mem s) pt (va + of_nat i)")
    case True
    then have all: "\<forall>i < length src. readable m' pt (va + of_nat i)" by (simp add: rd writable_def)
    have "user_bytes m' pt va (length src) = src"
    proof (rule nth_equalityI)
      fix i assume "i < length (user_bytes m' pt va (length src))"
      then have i: "i < length src" by simp
      then have "in_range va (length src) (va + of_nat i)" "unat (va + of_nat i - va) = i"
        using assms(2) in_range_offset [of i "length src" va] unat_of_nat_64 [of i] by auto
      then show "user_bytes m' pt va (length src) ! i = src ! i"
        using m(4) True all [rule_format, OF i] i by (simp add: user_bytes_def rd)
    qed simp
    moreover have "pt_tree (mem (s\<lparr>mem := m'\<rparr>)) 2 pt" using m(3) by (simp add: user_space_def)
    ultimately have "copyin c pt va (length src) (s\<lparr>mem := m'\<rparr>) = Ret (0, src) (s\<lparr>mem := m'\<rparr>)"
      using copyin_result [of "s\<lparr>mem := m'\<rparr>" pt "length src" va c] all by simp
    moreover have "r = 0" and "\<And>va'. readable (mem s) pt va' \<Longrightarrow> \<not> in_range va (length src) va' \<Longrightarrow>
        user_byte m' pt va' = user_byte (mem s) pt va'"
      using m(4) True by auto
    ultimately show ?thesis unfolding if_P [OF True] using m(1,2) by (intro exI [of _ "s\<lparr>mem := m'\<rparr>"]) simp
  next
    case False
    then show ?thesis using m by auto
  qed
qed

text \<open>One user page at address 0, mapped into the empty table of the two-page state.\<close>

lemma one_user_page:
  obtains t :: kmem_st where "user_space (mem t) 0x80200000"
    and "\<And>va. unat va < 4096 \<Longrightarrow> writable (mem t) 0x80200000 va"
proof -
  let ?p = "0x80200000 :: u64" and ?f = "0x80300000 :: u64" and ?perm = "PTE_R OR PTE_W OR PTE_U"
  note z = zero_page_table [OF two_page_ok(1)]
  have a: "pt_tree (mem two_page_state) 2 ?p"
    and b: "set [0x80100000, 0x80101000] \<inter> tables (mem two_page_state) 2 ?p = {}"
    and nv: "\<forall>i < 1. \<not> valid (pte_of (mem two_page_state) ?p (0 + of_nat i * PGSIZE))"
    and p0: "\<And>va. pte_of (mem two_page_state) ?p va = 0"
    and tb: "tables (mem two_page_state) 2 ?p = {?p}"
    using z by (simp_all add: two_page_state_def pte_of_def)
  have d: "aligned 4096 (0 :: u64)" "0 < (1 :: nat)" "unat (0 :: u64) + 1 * 4096 \<le> 2 ^ 38"
    by (simp_all add: aligned_def)
  obtain r t qs k where "extended 0x80021000 two_page_state t ?p [0x80100000, 0x80101000] qs"
    "r = 0 \<and> k = 1 \<or> r = -1 \<and> qs = [] \<and> k < 1 \<and> length [0x80100000, 0x80101000 :: u64] < 2 * 1"
    "\<forall>va < MAXVA. pte_of (mem t) ?p va = mapped 0 k ?f ?perm (pte_of (mem two_page_state) ?p) va"
    using mappages_ok [OF a two_page_ok(2,3) b d nv, of 0 ?f ?perm] by blast
  then have ex: "extended 0x80021000 two_page_state t ?p [0x80100000, 0x80101000] qs"
    and pt: "\<And>va. va < MAXVA \<Longrightarrow> pte_of (mem t) ?p va = (if PGROUNDDOWN va = 0 then PA2PTE ?f OR (?perm OR PTE_V) else 0)"
    using in_range_page [OF d(1)] p0 by (auto simp: mapped_def or.assoc)
  have tree: "pt_tree (mem t) 2 ?p" and ft: "?f \<notin> tables (mem t) 2 ?p"
    using ex tb by (auto simp: extended_def Cons_eq_append_conv)
  have pa: "PTE2PA (PA2PTE ?f OR (?perm OR PTE_V)) = ?f"
    by (rule PTE2PA_PA2PTE) (simp_all add: two_page_aligned PTE_R_def PTE_W_def PTE_U_def PTE_V_def)
  have bits: "PA2PTE ?f OR (?perm OR PTE_V) = 0x200C0017"
    by (simp add: PA2PTE_def PTE_R_def PTE_W_def PTE_U_def PTE_V_def)
  have "user_space (mem t) ?p"
    unfolding user_space_def readable_def using tree ft pt pa by (auto simp: PTE_V_def split: if_splits)
  moreover have "writable (mem t) ?p va" if "unat va < 4096" for va
  proof -
    have "va < MAXVA" using that by (simp add: word_less_nat_alt)
    moreover have "PGROUNDDOWN va = 0" using that PGROUNDDOWN_iff [OF d(1), of va] by simp
    ultimately have "va < MAXVA" and "pte_of (mem t) ?p va = 0x200C0017" using pt [of va, unfolded bits] by auto
    then show ?thesis using pa [unfolded bits]
      by (simp add: writable_def readable_def PTE_V_def PTE_U_def PTE_W_def)
  qed
  ultimately show ?thesis using that by blast
qed

theorem copyout_copyin_witness:
  "\<exists>s t :: kmem_st. user_space (mem s) 0x80200000 \<and> copyout 0 0x80200000 100 [1, 2, 3] s = Ret 0 t \<and>
     copyin 0 0x80200000 100 3 t = Ret (0, [1, 2, 3]) t"
proof -
  obtain s :: kmem_st where s: "user_space (mem s) 0x80200000"
    "\<And>va. unat va < 4096 \<Longrightarrow> writable (mem s) 0x80200000 va"
    by (rule one_user_page) blast
  have w: "\<forall>i < length [1, 2, 3 :: u8]. writable (mem s) 0x80200000 (100 + of_nat i)"
  proof (intro allI impI)
    fix i assume "i < length [1, 2, 3 :: u8]"
    then have "unat (100 + of_nat i :: u64) = 100 + i" using unat_plus_offset [of 100 10 i] by simp
    with \<open>i < length [1, 2, 3 :: u8]\<close> show "writable (mem s) 0x80200000 (100 + of_nat i)" by (intro s(2)) simp
  qed
  have l: "length [1, 2, 3 :: u8] \<le> 2 ^ 64" by simp
  obtain t where "copyout 0 0x80200000 100 [1, 2, 3] s = Ret 0 t"
    "copyin 0 0x80200000 100 (length [1, 2, 3 :: u8]) t = Ret (0, [1, 2, 3]) t"
    using copyout_copyin [OF s(1) l, of 100 0] unfolding if_P [OF w] by blast
  moreover have "length [1, 2, 3 :: u8] = 3" by simp
  ultimately show ?thesis using s(1) by metis
qed

end
