(* ===== verification/Proc.thy ===== *)
theory Proc
  imports Vm
begin

text \<open>
  The process table of \<^verbatim>\<open>kernel/proc.c\<close>: its data, allocation and release of processes, address-space
  size changes, sleep and wakeup, kill and wait.  A \<^verbatim>\<open>struct proc *\<close> is an index into the table.  The
  functions of \<^verbatim>\<open>proc.c\<close> that also use the file system are in theory \<open>ProcSys\<close>.

  A call that gives up the processor (\<^verbatim>\<open>sched\<close>) ends in \<open>Slept\<close> with the state at the switch; what the
  function does after it is scheduled again is a definition of its own.
\<close>

section \<open>Data\<close>

datatype procstate = UNUSED | USED | SLEEPING | RUNNABLE | RUNNING | ZOMBIE

text \<open>The addresses the kernel sleeps on, one constructor per kind of object.\<close>

datatype chan = ChProc nat | ChTicks | ChSleeplock lockid | ChPipeRead u64 | ChPipeWrite u64 | ChLog
  | ChCons | ChUart | ChVdiskFree | ChBuf nat

record ctxt =
  ctx_ra :: u64
  ctx_sp :: u64
  ctx_s :: "u64 list"

record proc =
  p_state :: procstate
  p_chan :: "chan option"
  p_killed :: int
  p_xstate :: int
  p_pid :: int
  p_parent :: "nat option"
  p_kstack :: u64
  p_sz :: u64
  p_pagetable :: u64
  p_trapframe :: u64
  p_context :: ctxt
  p_ofile :: "nat option list"
  p_cwd :: "nat option"
  p_name :: "u8 list"

record proc_st = vm_st +
  procs :: "proc list"
  nextpid :: int
  initproc :: "nat option"

text \<open>Addresses fixed at link time that the code stores or compares with.\<close>

record link =
  l_end :: u64
  l_trampoline :: u64
  l_forkret :: u64
  l_usertrap :: u64
  l_uservec :: u64
  l_userret :: u64
  l_kernelvec :: u64

definition NOFILE :: nat where
  "NOFILE = 16"

text \<open>Byte offsets in \<^verbatim>\<open>struct trapframe\<close>, which lives in a page of its own.\<close>

definition TF_kernel_satp :: u64 where "TF_kernel_satp = 0"
definition TF_kernel_sp :: u64 where "TF_kernel_sp = 8"
definition TF_kernel_trap :: u64 where "TF_kernel_trap = 16"
definition TF_epc :: u64 where "TF_epc = 24"
definition TF_kernel_hartid :: u64 where "TF_kernel_hartid = 32"
definition TF_sp :: u64 where "TF_sp = 48"
definition TF_a0 :: u64 where "TF_a0 = 112"
definition TF_a1 :: u64 where "TF_a1 = 120"
definition TF_a7 :: u64 where "TF_a7 = 168"

definition tf_get :: "u64 \<Rightarrow> u64 \<Rightarrow> 'z kmem_st_scheme \<Rightarrow> u64" where
  "tf_get tf off s = load64 (mem s) (tf + off)"

definition tf_set :: "u64 \<Rightarrow> u64 \<Rightarrow> u64 \<Rightarrow> 'z kmem_st_scheme \<Rightarrow> 'z kmem_st_scheme" where
  "tf_set tf off v s = s\<lparr>mem := store64 (tf + off) v (mem s)\<rparr>"

definition upd_proc :: "nat \<Rightarrow> (proc \<Rightarrow> proc) \<Rightarrow> 'z proc_st_scheme \<Rightarrow> 'z proc_st_scheme" where
  "upd_proc i f s = s\<lparr>procs := (procs s)[i := f (procs s ! i)]\<rparr>"

definition zero_context :: ctxt where
  "zero_context = \<lparr>ctx_ra = 0, ctx_sp = 0, ctx_s = replicate 12 0\<rparr>"

section \<open>The current process\<close>

definition k_push_off :: "nat \<Rightarrow> 'z kst_scheme \<Rightarrow> 'z kst_scheme" where
  "k_push_off c s = s\<lparr>kmach := push_off c (kmach s)\<rparr>"

definition myproc :: "nat \<Rightarrow> 'z kst_scheme \<Rightarrow> ('z kst_scheme, nat option) outcome" where
  "myproc c s =
     (let s = k_push_off c s;
          p = cpu_proc (cpus (kmach s) c)
      in andthen (on_mach (pop_off c) s) (\<lambda>_ s. Ret p s))"

text \<open>
  Most callers dereference the result at once.  A null pointer there is a page fault in the kernel, on
  which \<^verbatim>\<open>kerneltrap\<close> panics.
\<close>

definition curproc :: "nat \<Rightarrow> 'z kst_scheme \<Rightarrow> ('z kst_scheme, nat) outcome" where
  "curproc c s = andthen (myproc c s) (\<lambda>p s. case p of None \<Rightarrow> Panic ''kerneltrap'' | Some i \<Rightarrow> Ret i s)"

lemma myproc_ok [simp]:
  "cpu_ok c (kmach s) \<Longrightarrow> myproc c s = Ret (cpu_proc (cpus (kmach s) c)) (s\<lparr>kmach := after_cs c (kmach s)\<rparr>)"
  by (simp add: myproc_def k_push_off_def on_mach_def push_pop_off Let_def)
     (simp add: push_off_def intr_get_def intr_off_def upd_cpu_def Let_def)

section \<open>Allocation and release\<close>

definition procinit :: "'z proc_st_scheme \<Rightarrow> 'z proc_st_scheme" where
  "procinit s =
     (let m = initlock LPid ''nextpid'' (kmach s);
          m = initlock LWait ''wait_lock'' m
      in fold (\<lambda>i s. upd_proc i (\<lambda>p. p\<lparr>p_state := UNUSED, p_kstack := KSTACK i\<rparr>)
                      (s\<lparr>kmach := initlock (LProc i) ''proc'' (kmach s)\<rparr>))
              [0..<NPROC] (s\<lparr>kmach := m\<rparr>))"

definition allocpid :: "nat \<Rightarrow> 'z proc_st_scheme \<Rightarrow> ('z proc_st_scheme, int) outcome" where
  "allocpid c s =
     andthen (k_acquire c LPid s) (\<lambda>_ s.
     let pid = nextpid s;
         s = s\<lparr>nextpid := to_int32 (nextpid s + 1)\<rparr>
     in andthen (k_release c LPid s) (\<lambda>_ s. Ret pid s))"

definition proc_pagetable :: "link \<Rightarrow> nat \<Rightarrow> nat \<Rightarrow> 'z proc_st_scheme \<Rightarrow> ('z proc_st_scheme, u64) outcome" where
  "proc_pagetable lk c p s =
     andthen (uvmcreate c s) (\<lambda>pagetable s.
     if pagetable = 0 then Ret 0 s
     else andthen (mappages c pagetable TRAMPOLINE PGSIZE (l_trampoline lk) (PTE_R OR PTE_X) s) (\<lambda>r s.
          if r < 0 then andthen (uvmfree (l_end lk) c pagetable 0 s) (\<lambda>_ s. Ret 0 s)
          else andthen (mappages c pagetable TRAPFRAME PGSIZE (p_trapframe (procs s ! p)) (PTE_R OR PTE_W) s) (\<lambda>r s.
               if r < 0 then
                 andthen (uvmunmap (l_end lk) c pagetable TRAMPOLINE 1 False s) (\<lambda>_ s.
                 andthen (uvmfree (l_end lk) c pagetable 0 s) (\<lambda>_ s. Ret 0 s))
               else Ret pagetable s)))"

definition proc_freepagetable :: "link \<Rightarrow> nat \<Rightarrow> u64 \<Rightarrow> u64 \<Rightarrow> 'z kmem_st_scheme \<Rightarrow> ('z kmem_st_scheme, unit) outcome" where
  "proc_freepagetable lk c pagetable sz s =
     andthen (uvmunmap (l_end lk) c pagetable TRAMPOLINE 1 False s) (\<lambda>_ s.
     andthen (uvmunmap (l_end lk) c pagetable TRAPFRAME 1 False s) (\<lambda>_ s.
     uvmfree (l_end lk) c pagetable sz s))"

definition freeproc :: "link \<Rightarrow> nat \<Rightarrow> nat \<Rightarrow> 'z proc_st_scheme \<Rightarrow> ('z proc_st_scheme, unit) outcome" where
  "freeproc lk c p s =
     andthen (if p_trapframe (procs s ! p) \<noteq> 0 then kfree (l_end lk) c (p_trapframe (procs s ! p)) s else Ret () s) (\<lambda>_ s.
     let s = upd_proc p (\<lambda>q. q\<lparr>p_trapframe := 0\<rparr>) s in
     andthen (if p_pagetable (procs s ! p) \<noteq> 0
              then proc_freepagetable lk c (p_pagetable (procs s ! p)) (p_sz (procs s ! p)) s else Ret () s) (\<lambda>_ s.
     Ret () (upd_proc p (\<lambda>q. q\<lparr>p_pagetable := 0, p_sz := 0, p_pid := 0, p_parent := None,
                               p_name := (p_name q)[0 := 0], p_chan := None, p_killed := 0, p_xstate := 0,
                               p_state := UNUSED\<rparr>) s)))"

text \<open>The scan of \<^verbatim>\<open>allocproc\<close>: it keeps the lock of the slot it finds.\<close>

fun allocproc_scan :: "nat \<Rightarrow> nat list \<Rightarrow> 'z proc_st_scheme \<Rightarrow> ('z proc_st_scheme, nat option) outcome" where
  "allocproc_scan c [] s = Ret None s"
| "allocproc_scan c (i # is) s =
     andthen (k_acquire c (LProc i) s) (\<lambda>_ s.
     if p_state (procs s ! i) = UNUSED then Ret (Some i) s
     else andthen (k_release c (LProc i) s) (\<lambda>_ s. allocproc_scan c is s))"

definition allocproc_found :: "link \<Rightarrow> nat \<Rightarrow> nat \<Rightarrow> 'z proc_st_scheme \<Rightarrow> ('z proc_st_scheme, nat option) outcome" where
  "allocproc_found lk c p s =
     andthen (allocpid c s) (\<lambda>pid s.
     let s = upd_proc p (\<lambda>q. q\<lparr>p_pid := pid, p_state := USED\<rparr>) s in
     andthen (kalloc c s) (\<lambda>tf s.
     let s = upd_proc p (\<lambda>q. q\<lparr>p_trapframe := tf\<rparr>) s in
     if tf = 0 then
       andthen (freeproc lk c p s) (\<lambda>_ s. andthen (k_release c (LProc p) s) (\<lambda>_ s. Ret None s))
     else
       andthen (proc_pagetable lk c p s) (\<lambda>pagetable s.
       let s = upd_proc p (\<lambda>q. q\<lparr>p_pagetable := pagetable\<rparr>) s in
       if pagetable = 0 then
         andthen (freeproc lk c p s) (\<lambda>_ s. andthen (k_release c (LProc p) s) (\<lambda>_ s. Ret None s))
       else
         Ret (Some p) (upd_proc p (\<lambda>q. q\<lparr>p_context := zero_context
           \<lparr>ctx_ra := l_forkret lk, ctx_sp := p_kstack q + PGSIZE\<rparr>\<rparr>) s))))"

definition allocproc :: "link \<Rightarrow> nat \<Rightarrow> 'z proc_st_scheme \<Rightarrow> ('z proc_st_scheme, nat option) outcome" where
  "allocproc lk c s =
     andthen (allocproc_scan c [0..<NPROC] s) (\<lambda>r s.
     case r of None \<Rightarrow> Ret None s | Some p \<Rightarrow> allocproc_found lk c p s)"

text \<open>\<open>n\<close> is added to the 64-bit size after conversion, so a negative \<open>n\<close> wraps below 0.\<close>

definition growproc :: "link \<Rightarrow> nat \<Rightarrow> int \<Rightarrow> 'z proc_st_scheme \<Rightarrow> ('z proc_st_scheme, int) outcome" where
  "growproc lk c n s =
     andthen (curproc c s) (\<lambda>p s.
     let sz = p_sz (procs s ! p); pt = p_pagetable (procs s ! p) in
     if n > 0 then
       andthen (uvmalloc (l_end lk) c pt sz (sz + word_of_int n) PTE_W s) (\<lambda>sz s.
       if sz = 0 then Ret (-1) s
       else Ret 0 (upd_proc p (\<lambda>q. q\<lparr>p_sz := sz\<rparr>) s))
     else if n < 0 then
       andthen (uvmdealloc (l_end lk) c pt sz (sz + word_of_int n) s) (\<lambda>sz s.
       Ret 0 (upd_proc p (\<lambda>q. q\<lparr>p_sz := sz\<rparr>) s))
     else Ret 0 (upd_proc p (\<lambda>q. q\<lparr>p_sz := sz\<rparr>) s))"

section \<open>Giving up the processor\<close>

text \<open>
  The checks of \<^verbatim>\<open>sched\<close> up to the switch; then the part after the switch.  Up to the switch nothing is
  returned, whatever the type of the caller's result.
\<close>

definition sched :: "nat \<Rightarrow> 'z proc_st_scheme \<Rightarrow> ('z proc_st_scheme, 'a) outcome" where
  "sched c s =
     andthen (curproc c s) (\<lambda>p s.
     if \<not> holding c (LProc p) (kmach s) then Panic ''sched p->lock''
     else if noff (cpus (kmach s) c) \<noteq> 1 then Panic ''sched locks''
     else if p_state (procs s ! p) = RUNNING then Panic ''sched running''
     else if intr_get c (kmach s) then Panic ''sched interruptible''
     else Slept s)"

definition sched_resume :: "nat \<Rightarrow> bool \<Rightarrow> 'z proc_st_scheme \<Rightarrow> 'z proc_st_scheme" where
  "sched_resume c old_intena s = s\<lparr>kmach := upd_cpu c (\<lambda>k. k\<lparr>intena := old_intena\<rparr>) (kmach s)\<rparr>"

definition yield :: "nat \<Rightarrow> 'z proc_st_scheme \<Rightarrow> ('z proc_st_scheme, 'a) outcome" where
  "yield c s =
     andthen (curproc c s) (\<lambda>p s.
     andthen (k_acquire c (LProc p) s) (\<lambda>_ s.
     sched c (upd_proc p (\<lambda>q. q\<lparr>p_state := RUNNABLE\<rparr>) s)))"

definition yield_resume :: "nat \<Rightarrow> nat \<Rightarrow> bool \<Rightarrow> 'z proc_st_scheme \<Rightarrow> ('z proc_st_scheme, unit) outcome" where
  "yield_resume c p old_intena s = k_release c (LProc p) (sched_resume c old_intena s)"

definition sleep :: "nat \<Rightarrow> chan option \<Rightarrow> lockid \<Rightarrow> 'z proc_st_scheme \<Rightarrow> ('z proc_st_scheme, 'a) outcome" where
  "sleep c ch lk s =
     andthen (curproc c s) (\<lambda>p s.
     andthen (k_acquire c (LProc p) s) (\<lambda>_ s.
     andthen (k_release c lk s) (\<lambda>_ s.
     sched c (upd_proc p (\<lambda>q. q\<lparr>p_chan := ch, p_state := SLEEPING\<rparr>) s))))"

definition sleep_resume ::
    "nat \<Rightarrow> nat \<Rightarrow> lockid \<Rightarrow> bool \<Rightarrow> 'z proc_st_scheme \<Rightarrow> ('z proc_st_scheme, unit) outcome" where
  "sleep_resume c p lk old_intena s =
     (let s = upd_proc p (\<lambda>q. q\<lparr>p_chan := None\<rparr>) (sched_resume c old_intena s)
      in andthen (k_release c (LProc p) s) (\<lambda>_ s. k_acquire c lk s))"

text \<open>
  One visit of the loop of \<^verbatim>\<open>scheduler\<close> to slot \<open>i\<close>: \<open>Ret True\<close> is the switch to the process, with its lock
  held; \<open>sched_back\<close> is the rest of the visit, when the process has switched back.
\<close>

definition scheduler_start :: "nat \<Rightarrow> 'z kst_scheme \<Rightarrow> 'z kst_scheme" where
  "scheduler_start c s = s\<lparr>kmach := upd_cpu c (\<lambda>k. k\<lparr>cpu_proc := None\<rparr>) (kmach s)\<rparr>"

definition scheduler_round :: "nat \<Rightarrow> 'z kst_scheme \<Rightarrow> 'z kst_scheme" where
  "scheduler_round c s = s\<lparr>kmach := intr_on c (kmach s)\<rparr>"

definition scheduler_visit :: "nat \<Rightarrow> nat \<Rightarrow> 'z proc_st_scheme \<Rightarrow> ('z proc_st_scheme, bool) outcome" where
  "scheduler_visit c i s =
     andthen (k_acquire c (LProc i) s) (\<lambda>_ s.
     if p_state (procs s ! i) = RUNNABLE then
       Ret True (upd_proc i (\<lambda>q. q\<lparr>p_state := RUNNING\<rparr>)
         (s\<lparr>kmach := upd_cpu c (\<lambda>k. k\<lparr>cpu_proc := Some i\<rparr>) (kmach s)\<rparr>))
     else andthen (k_release c (LProc i) s) (\<lambda>_ s. Ret False s))"

definition scheduler_back :: "nat \<Rightarrow> nat \<Rightarrow> 'z proc_st_scheme \<Rightarrow> ('z proc_st_scheme, unit) outcome" where
  "scheduler_back c i s =
     k_release c (LProc i) (s\<lparr>kmach := upd_cpu c (\<lambda>k. k\<lparr>cpu_proc := None\<rparr>) (kmach s)\<rparr>)"

section \<open>Wakeup, kill, wait\<close>

fun wakeup_scan :: "nat \<Rightarrow> chan option \<Rightarrow> nat list \<Rightarrow> 'z proc_st_scheme \<Rightarrow> ('z proc_st_scheme, unit) outcome" where
  "wakeup_scan c ch [] s = Ret () s"
| "wakeup_scan c ch (i # is) s =
     andthen (myproc c s) (\<lambda>me s.
     if me \<noteq> Some i then
       andthen (k_acquire c (LProc i) s) (\<lambda>_ s.
       let s = (if p_state (procs s ! i) = SLEEPING \<and> p_chan (procs s ! i) = ch
                then upd_proc i (\<lambda>q. q\<lparr>p_state := RUNNABLE\<rparr>) s else s)
       in andthen (k_release c (LProc i) s) (\<lambda>_ s. wakeup_scan c ch is s))
     else wakeup_scan c ch is s)"

definition wakeup :: "nat \<Rightarrow> chan option \<Rightarrow> 'z proc_st_scheme \<Rightarrow> ('z proc_st_scheme, unit) outcome" where
  "wakeup c ch s = wakeup_scan c ch [0..<NPROC] s"

fun reparent_scan :: "nat \<Rightarrow> nat \<Rightarrow> nat list \<Rightarrow> 'z proc_st_scheme \<Rightarrow> ('z proc_st_scheme, unit) outcome" where
  "reparent_scan c p [] s = Ret () s"
| "reparent_scan c p (i # is) s =
     (if p_parent (procs s ! i) = Some p then
        andthen (wakeup c (map_option ChProc (initproc s)) (upd_proc i (\<lambda>q. q\<lparr>p_parent := initproc s\<rparr>) s)) (\<lambda>_ s.
        reparent_scan c p is s)
      else reparent_scan c p is s)"

definition reparent :: "nat \<Rightarrow> nat \<Rightarrow> 'z proc_st_scheme \<Rightarrow> ('z proc_st_scheme, unit) outcome" where
  "reparent c p s = reparent_scan c p [0..<NPROC] s"

fun kill_scan :: "nat \<Rightarrow> int \<Rightarrow> nat list \<Rightarrow> 'z proc_st_scheme \<Rightarrow> ('z proc_st_scheme, int) outcome" where
  "kill_scan c pid [] s = Ret (-1) s"
| "kill_scan c pid (i # is) s =
     andthen (k_acquire c (LProc i) s) (\<lambda>_ s.
     if p_pid (procs s ! i) = pid then
       let s = upd_proc i (\<lambda>q. q\<lparr>p_killed := 1\<rparr>) s;
           s = (if p_state (procs s ! i) = SLEEPING then upd_proc i (\<lambda>q. q\<lparr>p_state := RUNNABLE\<rparr>) s else s)
       in andthen (k_release c (LProc i) s) (\<lambda>_ s. Ret 0 s)
     else andthen (k_release c (LProc i) s) (\<lambda>_ s. kill_scan c pid is s))"

definition kill :: "nat \<Rightarrow> int \<Rightarrow> 'z proc_st_scheme \<Rightarrow> ('z proc_st_scheme, int) outcome" where
  "kill c pid s = kill_scan c pid [0..<NPROC] s"

definition setkilled :: "nat \<Rightarrow> nat \<Rightarrow> 'z proc_st_scheme \<Rightarrow> ('z proc_st_scheme, unit) outcome" where
  "setkilled c p s =
     andthen (k_acquire c (LProc p) s) (\<lambda>_ s. k_release c (LProc p) (upd_proc p (\<lambda>q. q\<lparr>p_killed := 1\<rparr>) s))"

definition killed :: "nat \<Rightarrow> nat \<Rightarrow> 'z proc_st_scheme \<Rightarrow> ('z proc_st_scheme, int) outcome" where
  "killed c p s =
     andthen (k_acquire c (LProc p) s) (\<lambda>_ s.
     let k = p_killed (procs s ! p)
     in andthen (k_release c (LProc p) s) (\<lambda>_ s. Ret k s))"

text \<open>The scan of \<^verbatim>\<open>wait\<close> over the table: \<open>Inr r\<close> is a return from \<^verbatim>\<open>wait\<close>, \<open>Inl havekids\<close> the end of the loop.\<close>

fun wait_scan ::
    "link \<Rightarrow> nat \<Rightarrow> nat \<Rightarrow> u64 \<Rightarrow> nat list \<Rightarrow> bool \<Rightarrow> 'z proc_st_scheme \<Rightarrow> ('z proc_st_scheme, bool + int) outcome" where
  "wait_scan lk c p addr [] havekids s = Ret (Inl havekids) s"
| "wait_scan lk c p addr (i # is) havekids s =
     (if p_parent (procs s ! i) = Some p then
        andthen (k_acquire c (LProc i) s) (\<lambda>_ s.
        if p_state (procs s ! i) = ZOMBIE then
          let pid = p_pid (procs s ! i) in
          andthen (if addr \<noteq> 0
                   then copyout c (p_pagetable (procs s ! p)) addr
                          (le_bytes 4 (word_of_int (p_xstate (procs s ! i)) :: u32)) s
                   else Ret 0 s) (\<lambda>r s.
          if r < 0 then
            andthen (k_release c (LProc i) s) (\<lambda>_ s. andthen (k_release c LWait s) (\<lambda>_ s. Ret (Inr (-1)) s))
          else
            andthen (freeproc lk c i s) (\<lambda>_ s.
            andthen (k_release c (LProc i) s) (\<lambda>_ s. andthen (k_release c LWait s) (\<lambda>_ s. Ret (Inr pid) s))))
        else andthen (k_release c (LProc i) s) (\<lambda>_ s. wait_scan lk c p addr is True s))
      else wait_scan lk c p addr is havekids s)"

definition wait_loop :: "link \<Rightarrow> nat \<Rightarrow> nat \<Rightarrow> u64 \<Rightarrow> 'z proc_st_scheme \<Rightarrow> ('z proc_st_scheme, int) outcome" where
  "wait_loop lk c p addr s =
     andthen (wait_scan lk c p addr [0..<NPROC] False s) (\<lambda>r s.
     case r of Inr pid \<Rightarrow> Ret pid s
     | Inl havekids \<Rightarrow>
         andthen (if havekids then killed c p s else Ret 1 s) (\<lambda>k s.
         if k \<noteq> 0 then andthen (k_release c LWait s) (\<lambda>_ s. Ret (-1) s)
         else sleep c (Some (ChProc p)) LWait s))"

definition wait :: "link \<Rightarrow> nat \<Rightarrow> u64 \<Rightarrow> 'z proc_st_scheme \<Rightarrow> ('z proc_st_scheme, int) outcome" where
  "wait lk c addr s =
     andthen (curproc c s) (\<lambda>p s. andthen (k_acquire c LWait s) (\<lambda>_ s. wait_loop lk c p addr s))"

text \<open>When the sleeper in \<^verbatim>\<open>wait\<close> runs again it repeats the loop.\<close>

definition wait_resume ::
    "link \<Rightarrow> nat \<Rightarrow> nat \<Rightarrow> u64 \<Rightarrow> bool \<Rightarrow> 'z proc_st_scheme \<Rightarrow> ('z proc_st_scheme, int) outcome" where
  "wait_resume lk c p addr old_intena s =
     andthen (sleep_resume c p LWait old_intena s) (\<lambda>_ s. wait_loop lk c p addr s)"

section \<open>Copies to and from either space\<close>

text \<open>A destination or source is a user address or a kernel buffer, the latter a byte list.\<close>

definition either_copyout ::
    "nat \<Rightarrow> bool \<Rightarrow> u64 \<Rightarrow> u8 list \<Rightarrow> 'z proc_st_scheme \<Rightarrow> ('z proc_st_scheme, int) outcome" where
  "either_copyout c user_dst dst src s =
     andthen (curproc c s) (\<lambda>p s.
     if user_dst then copyout c (p_pagetable (procs s ! p)) dst src s
     else Ret 0 (s\<lparr>mem := mem_write dst src (mem s)\<rparr>))"

definition either_copyin ::
    "nat \<Rightarrow> bool \<Rightarrow> u64 \<Rightarrow> nat \<Rightarrow> 'z proc_st_scheme \<Rightarrow> ('z proc_st_scheme, int \<times> u8 list) outcome" where
  "either_copyin c user_src src len s =
     andthen (curproc c s) (\<lambda>p s.
     if user_src then copyin c (p_pagetable (procs s ! p)) src len s
     else Ret (0, mem_read (mem s) src len) s)"

text \<open>\<^verbatim>\<open>procdump\<close>: the lines it prints.\<close>

definition state_name :: "procstate \<Rightarrow> string" where
  "state_name st = (case st of UNUSED \<Rightarrow> ''unused'' | USED \<Rightarrow> ''used'' | SLEEPING \<Rightarrow> ''sleep '' | RUNNABLE \<Rightarrow> ''runble''
     | RUNNING \<Rightarrow> ''run   '' | ZOMBIE \<Rightarrow> ''zombie'')"

definition procdump :: "'z proc_st_scheme \<Rightarrow> (int \<times> string \<times> u8 list) list" where
  "procdump s = map (\<lambda>p. (p_pid p, state_name (p_state p), takeWhile (\<lambda>b. b \<noteq> 0) (p_name p)))
                    (filter (\<lambda>p. p_state p \<noteq> UNUSED) (procs s))"

section \<open>Pieces of fork and exit\<close>

text \<open>
  The last statements of \<^verbatim>\<open>fork\<close>, which make the child runnable, and of \<^verbatim>\<open>exit\<close>, which leave the
  processor for ever; the latter run with \<^verbatim>\<open>wait_lock\<close> held.
\<close>

definition fork_finish :: "nat \<Rightarrow> nat \<Rightarrow> 'z proc_st_scheme \<Rightarrow> ('z proc_st_scheme, unit) outcome" where
  "fork_finish c np s =
     andthen (k_acquire c (LProc np) s) (\<lambda>_ s.
     k_release c (LProc np) (upd_proc np (\<lambda>q. q\<lparr>p_state := RUNNABLE\<rparr>) s))"

definition exit_finish :: "nat \<Rightarrow> nat \<Rightarrow> int \<Rightarrow> 'z proc_st_scheme \<Rightarrow> ('z proc_st_scheme, 'a) outcome" where
  "exit_finish c p status s =
     andthen (k_acquire c (LProc p) s) (\<lambda>_ s.
     let s = upd_proc p (\<lambda>q. q\<lparr>p_xstate := status, p_state := ZOMBIE\<rparr>) s in
     andthen (k_release c LWait s) (\<lambda>_ s. sched c s))"

end
