(* ===== verification/Sched.thy ===== *)
theory Sched
  imports Proc
begin

text \<open>
  Scheduling as a system of interleaved steps of the harts, each step one lock-protected section of
  \<^verbatim>\<open>proc.c\<close>: visits of the scheduler loop, the switches into and out of a process, and the visits of \<^verbatim>\<open>wakeup\<close>
  and \<^verbatim>\<open>kill\<close> to one slot of the table.
\<close>

section \<open>Effects on locks and current processes\<close>

definition same_view :: "mach \<Rightarrow> mach \<Rightarrow> bool" where
  "same_view m m' \<longleftrightarrow> locks m' = locks m \<and> (\<forall>d. cpu_proc (cpus m' d) = cpu_proc (cpus m d))"

lemma same_view_refl [simp]: "same_view m m"
  by (simp add: same_view_def)

lemma same_view_trans: "same_view m m' \<Longrightarrow> same_view m' m'' \<Longrightarrow> same_view m m''"
  by (simp add: same_view_def)

lemma push_off_view: "same_view m (push_off c m)"
  by (simp add: same_view_def push_off_def intr_get_def intr_off_def upd_cpu_def Let_def)

lemma pop_off_view: "pop_off c m = Ret () m' \<Longrightarrow> same_view m m'"
  by (auto simp: same_view_def pop_off_def intr_get_def intr_on_def upd_cpu_def Let_def split: if_splits)

lemma acquire_effect:
  assumes "acquire c l m = Ret () m'"
  shows "\<not> locked (locks m l)"
    and "locks m' = (locks m)(l := (locks m l)\<lparr>locked := True, lk_cpu := Some c\<rparr>)"
    and "cpu_proc (cpus m' d) = cpu_proc (cpus m d)"
  using assms push_off_view [of m c]
  by (auto simp: acquire_def upd_lock_def same_view_def Let_def split: if_splits)

lemma release_effect:
  assumes "release c l m = Ret () m'"
  shows "holding c l m"
    and "locks m' = (locks m)(l := (locks m l)\<lparr>lk_cpu := None, locked := False\<rparr>)"
    and "cpu_proc (cpus m' d) = cpu_proc (cpus m d)"
proof -
  let ?u = "upd_lock l (\<lambda>k. k\<lparr>locked := False\<rparr>) (upd_lock l (\<lambda>k. k\<lparr>lk_cpu := None\<rparr>) m)"
  from assms have "holding c l m" and p: "pop_off c ?u = Ret () m'"
    by (simp_all add: release_def Let_def split: if_splits)
  then show "holding c l m" by simp
  have "same_view ?u m'" using p by (rule pop_off_view)
  then show "locks m' = (locks m)(l := (locks m l)\<lparr>lk_cpu := None, locked := False\<rparr>)"
    and "cpu_proc (cpus m' d) = cpu_proc (cpus m d)"
    by (simp_all add: same_view_def)
qed

lemma k_acquireE:
  assumes "k_acquire c l s = Ret x t"
  obtains m where "t = s\<lparr>kmach := m\<rparr>" and "\<not> locked (locks (kmach s) l)"
    and "locks m = (locks (kmach s))(l := (locks (kmach s) l)\<lparr>locked := True, lk_cpu := Some c\<rparr>)"
    and "\<And>d. cpu_proc (cpus m d) = cpu_proc (cpus (kmach s) d)"
proof -
  obtain m where m: "acquire c l (kmach s) = Ret () m" "t = s\<lparr>kmach := m\<rparr>"
    using assms by (auto simp: k_acquire_def on_mach_def split: outcome.splits)
  then show ?thesis using that acquire_effect [OF m(1)] by blast
qed

lemma k_releaseE:
  assumes "k_release c l s = Ret x t"
  obtains m where "t = s\<lparr>kmach := m\<rparr>" and "holding c l (kmach s)"
    and "locks m = (locks (kmach s))(l := (locks (kmach s) l)\<lparr>lk_cpu := None, locked := False\<rparr>)"
    and "\<And>d. cpu_proc (cpus m d) = cpu_proc (cpus (kmach s) d)"
proof -
  obtain m where m: "release c l (kmach s) = Ret () m" "t = s\<lparr>kmach := m\<rparr>"
    using assms by (auto simp: k_release_def on_mach_def split: outcome.splits)
  then show ?thesis using that release_effect [OF m(1)] by blast
qed

lemma myprocE:
  assumes "myproc c s = Ret p t"
  obtains m where "t = s\<lparr>kmach := m\<rparr>" and "same_view (kmach s) m" and "p = cpu_proc (cpus (kmach s) c)"
proof -
  obtain m where m: "pop_off c (push_off c (kmach s)) = Ret () m" "t = s\<lparr>kmach := m\<rparr>"
    and p: "p = cpu_proc (cpus (push_off c (kmach s)) c)"
    using assms by (auto simp: myproc_def k_push_off_def on_mach_def Let_def split: outcome.splits)
  have "same_view (kmach s) m" using same_view_trans [OF push_off_view pop_off_view [OF m(1)]] .
  moreover have "p = cpu_proc (cpus (kmach s) c)" using p push_off_view [of "kmach s" c] by (simp add: same_view_def)
  ultimately show ?thesis using that m(2) by blast
qed

lemma curprocE:
  assumes "curproc c s = Ret p t"
  obtains m where "t = s\<lparr>kmach := m\<rparr>" and "same_view (kmach s) m" and "cpu_proc (cpus (kmach s) c) = Some p"
  using assms by (auto simp: curproc_def elim!: myprocE split: option.splits)

text \<open>A lock-protected section leaves the locks as they were.\<close>

lemma section_view:
  assumes "k_acquire c l s = Ret x t" and "k_release c l u = Ret y v" and "kmach u = kmach t"
  shows "lk_cpu (locks (kmach s) l) = None \<Longrightarrow> same_view (kmach s) (kmach v)"
    and "v = u\<lparr>kmach := kmach v\<rparr>"
proof -
  obtain m where m: "t = s\<lparr>kmach := m\<rparr>" "\<not> locked (locks (kmach s) l)"
    "locks m = (locks (kmach s))(l := (locks (kmach s) l)\<lparr>locked := True, lk_cpu := Some c\<rparr>)"
    "\<And>d. cpu_proc (cpus m d) = cpu_proc (cpus (kmach s) d)"
    using assms(1) by (rule k_acquireE) blast
  obtain m' where m': "v = u\<lparr>kmach := m'\<rparr>"
    "locks m' = (locks (kmach u))(l := (locks (kmach u) l)\<lparr>lk_cpu := None, locked := False\<rparr>)"
    "\<And>d. cpu_proc (cpus m' d) = cpu_proc (cpus (kmach u) d)"
    using assms(2) by (rule k_releaseE) blast
  show "v = u\<lparr>kmach := kmach v\<rparr>" using m'(1) by simp
  assume "lk_cpu (locks (kmach s) l) = None"
  then have "(locks (kmach s) l)\<lparr>lk_cpu := None, locked := False\<rparr> = locks (kmach s) l"
    using m(2) by (cases "locks (kmach s) l") simp
  then show "same_view (kmach s) (kmach v)"
    using m m' assms(3) by (simp add: same_view_def fun_upd_idem)
qed

section \<open>Leaving the processor\<close>

lemma andthen_Slept_iff: "andthen r k = Slept t \<longleftrightarrow> r = Slept t \<or> (\<exists>x s. r = Ret x s \<and> k x s = Slept t)"
  by (cases r) auto

lemma andthen_SleptE:
  assumes "andthen r k = Slept t" and "r \<noteq> Slept t"
  obtains x s where "r = Ret x s" and "k x s = Slept t"
  using assms by (auto simp: andthen_Slept_iff)

lemma lock_ops_not_Slept [simp]:
  "k_acquire c l s \<noteq> Slept t" "k_release c l s \<noteq> Slept t" "myproc c s \<noteq> Slept t" "curproc c s \<noteq> Slept t"
proof -
  have pop: "pop_off c m \<noteq> Slept u" for m u by (simp add: pop_off_def Let_def)
  then have rel: "release c l m \<noteq> Slept u" for m u by (simp add: release_def Let_def)
  have acq: "acquire c l m \<noteq> Slept u" for m u by (simp add: acquire_def Let_def)
  show "k_acquire c l s \<noteq> Slept t" "k_release c l s \<noteq> Slept t"
    using acq rel by (auto simp: k_acquire_def k_release_def on_mach_def split: outcome.splits)
  show my: "myproc c s \<noteq> Slept t" for t
    using pop by (auto simp: myproc_def on_mach_def Let_def andthen_Slept_iff split: outcome.splits)
  show "curproc c s \<noteq> Slept t"
    using my by (auto simp: curproc_def andthen_Slept_iff split: option.splits)
qed

lemma curproc_SleptE:
  assumes "andthen (curproc c s) k = Slept t"
  obtains p m where "same_view (kmach s) m" and "cpu_proc (cpus (kmach s) c) = Some p" and "k p (s\<lparr>kmach := m\<rparr>) = Slept t"
proof -
  obtain p u where "curproc c s = Ret p u" "k p u = Slept t" using assms by (rule andthen_SleptE) simp
  then show ?thesis using that by (metis curprocE)
qed

lemma k_acquire_SleptE:
  assumes "andthen (k_acquire c l s) k = Slept t"
  obtains m where "\<not> locked (locks (kmach s) l)"
    and "locks m = (locks (kmach s))(l := (locks (kmach s) l)\<lparr>locked := True, lk_cpu := Some c\<rparr>)"
    and "\<And>d. cpu_proc (cpus m d) = cpu_proc (cpus (kmach s) d)" and "k () (s\<lparr>kmach := m\<rparr>) = Slept t"
proof -
  obtain x u where u: "k_acquire c l s = Ret x u" "k x u = Slept t" using assms by (rule andthen_SleptE) simp
  from u(1) show ?thesis by (rule k_acquireE) (use that u(2) in auto)
qed

lemma k_release_SleptE:
  assumes "andthen (k_release c l s) k = Slept t"
  obtains m where "holding c l (kmach s)"
    and "locks m = (locks (kmach s))(l := (locks (kmach s) l)\<lparr>lk_cpu := None, locked := False\<rparr>)"
    and "\<And>d. cpu_proc (cpus m d) = cpu_proc (cpus (kmach s) d)" and "k () (s\<lparr>kmach := m\<rparr>) = Slept t"
proof -
  obtain x u where u: "k_release c l s = Ret x u" "k x u = Slept t" using assms by (rule andthen_SleptE) simp
  from u(1) show ?thesis by (rule k_releaseE) (use that u(2) in auto)
qed

text \<open>
  \<open>leaves c p s t\<close>: on hart \<open>c\<close>, process \<open>p\<close> has left the processor from \<open>s\<close> to \<open>t\<close>: it took its own lock and
  is no longer \<open>RUNNING\<close>; no other process and no other process lock changed.
\<close>

definition leaves :: "nat \<Rightarrow> nat \<Rightarrow> proc_st \<Rightarrow> proc_st \<Rightarrow> bool" where
  "leaves c p s t \<longleftrightarrow>
     cpu_proc (cpus (kmach s) c) = Some p \<and> \<not> locked (locks (kmach s) (LProc p)) \<and>
     length (procs t) = length (procs s) \<and>
     (\<forall>i. i \<noteq> p \<longrightarrow> procs t ! i = procs s ! i) \<and> p_state (procs t ! p) \<noteq> RUNNING \<and>
     (\<forall>i. i \<noteq> p \<longrightarrow> locks (kmach t) (LProc i) = locks (kmach s) (LProc i) \<or>
                     lk_cpu (locks (kmach s) (LProc i)) = Some c) \<and>
     locked (locks (kmach t) (LProc p)) \<and> lk_cpu (locks (kmach t) (LProc p)) = Some c \<and>
     (\<forall>d. cpu_proc (cpus (kmach t) d) = cpu_proc (cpus (kmach s) d))"

lemma sched_Slept:
  assumes "sched c s = (Slept t :: (proc_st, unit) outcome)"
  obtains p m where "cpu_proc (cpus (kmach s) c) = Some p" and "t = s\<lparr>kmach := m\<rparr>"
    and "same_view (kmach s) m" and "holding c (LProc p) m" and "p_state (procs s ! p) \<noteq> RUNNING"
  using assms by (auto simp: sched_def andthen_Slept_iff elim!: curprocE split: if_splits)

lemma yield_leaves:
  assumes "yield c s = (Slept t :: (proc_st, unit) outcome)"
  shows "\<exists>p. leaves c p s t"
proof -
  obtain p m1 where a: "same_view (kmach s) m1" "cpu_proc (cpus (kmach s) c) = Some p"
    and b: "andthen (k_acquire c (LProc p) (s\<lparr>kmach := m1\<rparr>))
      (\<lambda>_ s. sched c (upd_proc p (\<lambda>q. q\<lparr>p_state := RUNNABLE\<rparr>) s)) = (Slept t :: (proc_st, unit) outcome)"
    using assms unfolding yield_def by (rule curproc_SleptE) blast
  obtain m2 where c: "\<not> locked (locks m1 (LProc p))"
    "locks m2 = (locks m1)(LProc p := (locks m1 (LProc p))\<lparr>locked := True, lk_cpu := Some c\<rparr>)"
    "\<And>d. cpu_proc (cpus m2 d) = cpu_proc (cpus m1 d)"
    and d: "sched c (upd_proc p (\<lambda>q. q\<lparr>p_state := RUNNABLE\<rparr>) (s\<lparr>kmach := m2\<rparr>)) = (Slept t :: (proc_st, unit) outcome)"
    using b by (rule k_acquire_SleptE) auto
  from d obtain p' m3 where e: "cpu_proc (cpus m2 c) = Some p'" "same_view m2 m3"
    "t = (upd_proc p (\<lambda>q. q\<lparr>p_state := RUNNABLE\<rparr>) (s\<lparr>kmach := m2\<rparr>))\<lparr>kmach := m3\<rparr>"
    "p_state (procs (upd_proc p (\<lambda>q. q\<lparr>p_state := RUNNABLE\<rparr>) (s\<lparr>kmach := m2\<rparr>)) ! p') \<noteq> RUNNING"
    by (rule sched_Slept) (auto simp: upd_proc_def)
  have "p' = p" using e(1) c(3) a by (simp add: same_view_def)
  then have "p_state (procs t ! p) \<noteq> RUNNING" using e(3,4) by (simp add: upd_proc_def)
  then show ?thesis
    using a c e(2,3) by (intro exI [of _ p]) (simp add: leaves_def same_view_def upd_proc_def)
qed

text \<open>\<^verbatim>\<open>sleep\<close> and the end of \<^verbatim>\<open>exit\<close> also release a lock, which must not be that of a process.\<close>

lemma release_then_sched:
  assumes s: "andthen (k_release c lk u) (\<lambda>_ s. sched c (upd_proc p f s)) = (Slept t :: (proc_st, unit) outcome)"
    and lk: "\<And>i. lk \<noteq> LProc i" and f: "p_state (f (procs u ! p)) \<noteq> RUNNING"
    and p: "cpu_proc (cpus (kmach u) c) = Some p"
  obtains m where "t = (upd_proc p f u)\<lparr>kmach := m\<rparr>"
    and "\<And>i. locks m (LProc i) = locks (kmach u) (LProc i)"
    and "\<And>d. cpu_proc (cpus m d) = cpu_proc (cpus (kmach u) d)"
    and "p_state (procs t ! p) \<noteq> RUNNING"
proof -
  obtain m1 where c: "locks m1 = (locks (kmach u))(lk := (locks (kmach u) lk)\<lparr>lk_cpu := None, locked := False\<rparr>)"
    "\<And>d. cpu_proc (cpus m1 d) = cpu_proc (cpus (kmach u) d)"
    and d: "sched c (upd_proc p f (u\<lparr>kmach := m1\<rparr>)) = (Slept t :: (proc_st, unit) outcome)"
    using s by (rule k_release_SleptE) auto
  from d obtain p' m3 where e: "cpu_proc (cpus m1 c) = Some p'" "same_view m1 m3"
    "t = (upd_proc p f (u\<lparr>kmach := m1\<rparr>))\<lparr>kmach := m3\<rparr>" "p_state (procs (upd_proc p f (u\<lparr>kmach := m1\<rparr>)) ! p') \<noteq> RUNNING"
    by (rule sched_Slept) (auto simp: upd_proc_def)
  have pp: "p' = p" using e(1) c(2) p by simp
  show ?thesis
  proof (rule that [of m3])
    show "t = (upd_proc p f u)\<lparr>kmach := m3\<rparr>" using e(3) by (simp add: upd_proc_def)
    show "p_state (procs t ! p) \<noteq> RUNNING" using e(3,4) pp by (simp add: upd_proc_def)
  qed (use c e(2) lk in \<open>auto simp: same_view_def\<close>)
qed

lemma sleep_leaves:
  assumes "sleep c ch lk s = (Slept t :: (proc_st, unit) outcome)" and "\<And>i. lk \<noteq> LProc i"
  shows "\<exists>p. leaves c p s t"
proof -
  let ?f = "\<lambda>q. q\<lparr>p_chan := ch, p_state := SLEEPING\<rparr>"
  obtain p m1 where a: "same_view (kmach s) m1" "cpu_proc (cpus (kmach s) c) = Some p"
    and b: "andthen (k_acquire c (LProc p) (s\<lparr>kmach := m1\<rparr>)) (\<lambda>_ s.
      andthen (k_release c lk s) (\<lambda>_ s. sched c (upd_proc p ?f s))) = (Slept t :: (proc_st, unit) outcome)"
    using assms(1) unfolding sleep_def by (rule curproc_SleptE) blast
  obtain m2 where c: "\<not> locked (locks m1 (LProc p))"
    "locks m2 = (locks m1)(LProc p := (locks m1 (LProc p))\<lparr>locked := True, lk_cpu := Some c\<rparr>)"
    "\<And>d. cpu_proc (cpus m2 d) = cpu_proc (cpus m1 d)"
    and d: "andthen (k_release c lk (s\<lparr>kmach := m2\<rparr>)) (\<lambda>_ s. sched c (upd_proc p ?f s)) = (Slept t :: (proc_st, unit) outcome)"
    using b by (rule k_acquire_SleptE) auto
  from d assms(2) obtain m where m: "t = (upd_proc p ?f (s\<lparr>kmach := m2\<rparr>))\<lparr>kmach := m\<rparr>"
    "\<And>i. locks m (LProc i) = locks m2 (LProc i)" "\<And>d. cpu_proc (cpus m d) = cpu_proc (cpus m2 d)"
    "p_state (procs t ! p) \<noteq> RUNNING"
    by (rule release_then_sched) (use a c in \<open>auto simp: same_view_def\<close>)
  then show ?thesis
    using a c by (intro exI [of _ p]) (simp add: leaves_def same_view_def upd_proc_def)
qed

lemma exit_leaves:
  assumes "exit_finish c p status s = (Slept t :: (proc_st, unit) outcome)" and "cpu_proc (cpus (kmach s) c) = Some p"
  shows "leaves c p s t"
proof -
  let ?f = "\<lambda>q. q\<lparr>p_xstate := status, p_state := ZOMBIE\<rparr>"
  obtain m2 where c: "\<not> locked (locks (kmach s) (LProc p))"
    "locks m2 = (locks (kmach s))(LProc p := (locks (kmach s) (LProc p))\<lparr>locked := True, lk_cpu := Some c\<rparr>)"
    "\<And>d. cpu_proc (cpus m2 d) = cpu_proc (cpus (kmach s) d)"
    and d: "andthen (k_release c LWait (upd_proc p ?f (s\<lparr>kmach := m2\<rparr>))) (\<lambda>_ s. sched c s) = (Slept t :: (proc_st, unit) outcome)"
    using assms(1) unfolding exit_finish_def Let_def by (rule k_acquire_SleptE) auto
  obtain m3 where e: "locks m3 = (locks m2)(LWait := (locks m2 LWait)\<lparr>lk_cpu := None, locked := False\<rparr>)"
    "\<And>d. cpu_proc (cpus m3 d) = cpu_proc (cpus m2 d)"
    and g: "sched c ((upd_proc p ?f s)\<lparr>kmach := m3\<rparr>) = (Slept t :: (proc_st, unit) outcome)"
    using d by (rule k_release_SleptE) (auto simp: upd_proc_def)
  from g obtain p' m4 where h: "cpu_proc (cpus m3 c) = Some p'" "same_view m3 m4"
    "t = (upd_proc p ?f s)\<lparr>kmach := m4\<rparr>" "p_state (procs (upd_proc p ?f s) ! p') \<noteq> RUNNING"
    by (rule sched_Slept) (auto simp: upd_proc_def)
  have "p' = p" using h(1) e(2) c(3) assms(2) by simp
  then show ?thesis
    using c e h assms(2) by (simp add: leaves_def same_view_def upd_proc_def)
qed

section \<open>The interleaved system\<close>

text \<open>
  What a hart is doing: looping in \<^verbatim>\<open>scheduler\<close>; just switched to \<open>p\<close>, whose lock the scheduler took; running
  \<open>p\<close>; or back in the scheduler after \<open>p\<close> called \<^verbatim>\<open>sched\<close>, with the lock of \<open>p\<close> still held.
\<close>

datatype hmode = HSched | HEnter nat | HRun nat | HLeave nat

record sched_sys =
  sy_k :: proc_st
  sy_mode :: "nat \<Rightarrow> hmode"

inductive sched_step :: "sched_sys \<Rightarrow> sched_sys \<Rightarrow> bool" where
  visit_run: "sy_mode z c = HSched \<Longrightarrow> i < NPROC \<Longrightarrow> scheduler_visit c i (sy_k z) = Ret True t \<Longrightarrow>
    sched_step z (z\<lparr>sy_k := t, sy_mode := (sy_mode z)(c := HEnter i)\<rparr>)"
| visit_skip: "sy_mode z c = HSched \<Longrightarrow> i < NPROC \<Longrightarrow> scheduler_visit c i (sy_k z) = Ret False t \<Longrightarrow>
    sched_step z (z\<lparr>sy_k := t\<rparr>)"
| resume_yield: "sy_mode z c = HEnter p \<Longrightarrow> yield_resume c p b (sy_k z) = Ret () t \<Longrightarrow>
    sched_step z (z\<lparr>sy_k := t, sy_mode := (sy_mode z)(c := HRun p)\<rparr>)"
| resume_sleep: "sy_mode z c = HEnter p \<Longrightarrow>
    k_release c (LProc p) (upd_proc p (\<lambda>q. q\<lparr>p_chan := None\<rparr>) (sched_resume c b (sy_k z))) = Ret () t \<Longrightarrow>
    sched_step z (z\<lparr>sy_k := t, sy_mode := (sy_mode z)(c := HRun p)\<rparr>)"
| resume_fork: "sy_mode z c = HEnter p \<Longrightarrow> k_release c (LProc p) (sy_k z) = Ret () t \<Longrightarrow>
    sched_step z (z\<lparr>sy_k := t, sy_mode := (sy_mode z)(c := HRun p)\<rparr>)"
| do_yield: "sy_mode z c = HRun p \<Longrightarrow> yield c (sy_k z) = (Slept t :: (proc_st, unit) outcome) \<Longrightarrow>
    sched_step z (z\<lparr>sy_k := t, sy_mode := (sy_mode z)(c := HLeave p)\<rparr>)"
| do_sleep: "sy_mode z c = HRun p \<Longrightarrow> sleep c ch l (sy_k z) = (Slept t :: (proc_st, unit) outcome) \<Longrightarrow>
    (\<And>i. l \<noteq> LProc i) \<Longrightarrow>
    sched_step z (z\<lparr>sy_k := t, sy_mode := (sy_mode z)(c := HLeave p)\<rparr>)"
| do_exit: "sy_mode z c = HRun p \<Longrightarrow> exit_finish c p status (sy_k z) = (Slept t :: (proc_st, unit) outcome) \<Longrightarrow>
    sched_step z (z\<lparr>sy_k := t, sy_mode := (sy_mode z)(c := HLeave p)\<rparr>)"
| switch_back: "sy_mode z c = HLeave p \<Longrightarrow> scheduler_back c p (sy_k z) = Ret () t \<Longrightarrow>
    sched_step z (z\<lparr>sy_k := t, sy_mode := (sy_mode z)(c := HSched)\<rparr>)"
| wake_visit: "sy_mode z c = HSched \<or> sy_mode z c = HRun p \<Longrightarrow> wakeup_scan c ch [i] (sy_k z) = Ret () t \<Longrightarrow>
    sched_step z (z\<lparr>sy_k := t\<rparr>)"
| kill_visit: "sy_mode z c = HRun p \<Longrightarrow> kill_scan c pid [i] (sy_k z) = Ret r t \<Longrightarrow>
    sched_step z (z\<lparr>sy_k := t\<rparr>)"
| fork_done: "sy_mode z c = HRun p \<Longrightarrow> p_state (procs (sy_k z) ! np) = USED \<Longrightarrow> fork_finish c np (sy_k z) = Ret () t \<Longrightarrow>
    sched_step z (z\<lparr>sy_k := t\<rparr>)"
| take_lock: "sy_mode z c = HSched \<or> sy_mode z c = HRun p \<Longrightarrow> (\<And>i. l \<noteq> LProc i) \<Longrightarrow> k_acquire c l (sy_k z) = Ret () t \<Longrightarrow>
    sched_step z (z\<lparr>sy_k := t\<rparr>)"
| drop_lock: "sy_mode z c = HSched \<or> sy_mode z c = HRun p \<Longrightarrow> (\<And>i. l \<noteq> LProc i) \<Longrightarrow> k_release c l (sy_k z) = Ret () t \<Longrightarrow>
    sched_step z (z\<lparr>sy_k := t\<rparr>)"

definition sched_init :: "sched_sys \<Rightarrow> bool" where
  "sched_init z \<longleftrightarrow> (\<forall>c. sy_mode z c = HSched) \<and> (\<forall>c. cpu_proc (cpus (kmach (sy_k z)) c) = None) \<and>
     (\<forall>i. lock_free (LProc i) (kmach (sy_k z))) \<and> (\<forall>i < NPROC. p_state (procs (sy_k z) ! i) \<noteq> RUNNING) \<and>
     length (procs (sy_k z)) = NPROC"

abbreviation plock :: "sched_sys \<Rightarrow> nat \<Rightarrow> spinlock" where
  "plock z i \<equiv> locks (kmach (sy_k z)) (LProc i)"

abbreviation pstate :: "sched_sys \<Rightarrow> nat \<Rightarrow> procstate" where
  "pstate z i \<equiv> p_state (procs (sy_k z) ! i)"

abbreviation hproc :: "sched_sys \<Rightarrow> nat \<Rightarrow> nat option" where
  "hproc z c \<equiv> cpu_proc (cpus (kmach (sy_k z)) c)"

definition runs :: "sched_sys \<Rightarrow> nat \<Rightarrow> nat \<Rightarrow> bool" where
  "runs z c p \<longleftrightarrow> sy_mode z c = HEnter p \<or> sy_mode z c = HRun p"

definition owns :: "sched_sys \<Rightarrow> nat \<Rightarrow> nat \<Rightarrow> bool" where
  "owns z c p \<longleftrightarrow> sy_mode z c = HEnter p \<or> sy_mode z c = HLeave p"

text \<open>
  The invariant: a hart's \<^verbatim>\<open>proc\<close> field agrees with what it does; process locks are held by exactly the harts
  in the middle of a switch; and \<open>RUNNING\<close> are exactly the processes some hart runs, one hart each.
\<close>

definition sched_inv :: "sched_sys \<Rightarrow> bool" where
  "sched_inv z \<longleftrightarrow> length (procs (sy_k z)) = NPROC \<and>
     (\<forall>c. hproc z c = (case sy_mode z c of HSched \<Rightarrow> None | HEnter p \<Rightarrow> Some p | HRun p \<Rightarrow> Some p | HLeave p \<Rightarrow> Some p)) \<and>
     (\<forall>c p. runs z c p \<longrightarrow> p < NPROC) \<and>
     (\<forall>c i. lk_cpu (plock z i) = Some c \<longleftrightarrow> owns z c i) \<and>
     (\<forall>i. locked (plock z i) \<longleftrightarrow> lk_cpu (plock z i) \<noteq> None) \<and>
     (\<forall>p. pstate z p = RUNNING \<and> p < NPROC \<longleftrightarrow> (\<exists>c. runs z c p)) \<and>
     (\<forall>c d p. runs z c p \<and> runs z d p \<longrightarrow> c = d) \<and>
     (\<forall>c p. sy_mode z c = HLeave p \<longrightarrow> p < NPROC \<and> pstate z p \<noteq> RUNNING)"

lemma sched_init_inv: "sched_init z \<Longrightarrow> sched_inv z"
  by (auto simp: sched_init_def sched_inv_def runs_def owns_def lock_free_def)

text \<open>Steps that change neither modes, locks nor who is \<open>RUNNING\<close>.\<close>

definition quiet :: "proc_st \<Rightarrow> proc_st \<Rightarrow> bool" where
  "quiet s t \<longleftrightarrow> (\<forall>i. locks (kmach t) (LProc i) = locks (kmach s) (LProc i)) \<and>
     (\<forall>d. cpu_proc (cpus (kmach t) d) = cpu_proc (cpus (kmach s) d)) \<and> length (procs t) = length (procs s) \<and>
     (\<forall>p < length (procs s). p_state (procs t ! p) = RUNNING \<longleftrightarrow> p_state (procs s ! p) = RUNNING)"

lemma quiet_inv: "sched_inv z \<Longrightarrow> quiet (sy_k z) t \<Longrightarrow> sched_inv (z\<lparr>sy_k := t\<rparr>)"
  unfolding sched_inv_def quiet_def runs_def owns_def by simp metis

lemma same_view_quiet: "same_view (kmach s) m \<Longrightarrow> quiet s (s\<lparr>kmach := m\<rparr>)"
  by (simp add: quiet_def same_view_def)

lemma quiet_refl [simp]: "quiet s s"
  by (simp add: quiet_def)

lemma quiet_trans: "quiet s t \<Longrightarrow> quiet t u \<Longrightarrow> quiet s u"
  by (simp add: quiet_def)

lemma quiet_upd:
  "(p_state (f (procs s ! i)) = RUNNING \<longleftrightarrow> p_state (procs s ! i) = RUNNING) \<Longrightarrow> quiet s (upd_proc i f s)"
  by (simp add: quiet_def upd_proc_def) (metis nth_list_update_eq nth_list_update_neq)

definition lock_sane :: "proc_st \<Rightarrow> nat \<Rightarrow> bool" where
  "lock_sane s i \<longleftrightarrow> (\<not> locked (locks (kmach s) (LProc i)) \<longrightarrow> lk_cpu (locks (kmach s) (LProc i)) = None)"

lemma section_quiet:
  assumes a: "k_acquire c (LProc i) s = Ret x u" and b: "k_release c (LProc i) w = Ret y t"
    and w: "kmach w = kmach u" and sane: "lock_sane s i" and q: "quiet u w"
  shows "quiet s t"
proof -
  from a have nl: "\<not> locked (locks (kmach s) (LProc i))" and u: "u = s\<lparr>kmach := kmach u\<rparr>"
    by (auto elim!: k_acquireE)
  note sv = section_view [OF a b w]
  have "same_view (kmach s) (kmach t)" using sv(1) sane nl by (simp add: lock_sane_def)
  moreover have "procs t = procs w" by (subst sv(2)) simp
  moreover have "procs u = procs s" by (subst u) simp
  ultimately show ?thesis using q by (simp add: quiet_def same_view_def)
qed

lemma visit_skip_quiet: "scheduler_visit c i s = Ret False t \<Longrightarrow> lock_sane s i \<Longrightarrow> quiet s t"
  by (auto simp: scheduler_visit_def split: if_splits intro: section_quiet [OF _ _ refl _ quiet_refl])

lemma fork_finish_quiet:
  assumes "fork_finish c np s = Ret () t" and "lock_sane s np" and "p_state (procs s ! np) = USED"
  shows "quiet s t"
proof -
  obtain u where u: "k_acquire c (LProc np) s = Ret () u"
    "k_release c (LProc np) (upd_proc np (\<lambda>q. q\<lparr>p_state := RUNNABLE\<rparr>) u) = Ret () t"
    using assms(1) by (auto simp: fork_finish_def)
  then have "procs u = procs s" by (auto elim!: k_acquireE)
  then have "quiet u (upd_proc np (\<lambda>q. q\<lparr>p_state := RUNNABLE\<rparr>) u)" using assms(3) by (intro quiet_upd) simp
  then show ?thesis using section_quiet [OF u] assms(2) by (simp add: upd_proc_def)
qed

lemma kill_visit_quiet:
  assumes "kill_scan c pid [i] s = Ret r t" and "lock_sane s i"
  shows "quiet s t"
proof -
  obtain u where u: "k_acquire c (LProc i) s = Ret () u"
    and r: "(if p_pid (procs u ! i) = pid then
       (let s = upd_proc i (\<lambda>q. q\<lparr>p_killed := 1\<rparr>) u;
           s = (if p_state (procs s ! i) = SLEEPING then upd_proc i (\<lambda>q. q\<lparr>p_state := RUNNABLE\<rparr>) s else s)
       in andthen (k_release c (LProc i) s) (\<lambda>_ s. Ret 0 s))
     else andthen (k_release c (LProc i) u) (\<lambda>_ s. kill_scan c pid [] s)) = Ret r t"
    using assms(1) by auto
  define w where "w = (if p_pid (procs u ! i) = pid then
      (let s = upd_proc i (\<lambda>q. q\<lparr>p_killed := 1\<rparr>) u in
       if p_state (procs s ! i) = SLEEPING then upd_proc i (\<lambda>q. q\<lparr>p_state := RUNNABLE\<rparr>) s else s) else u)"
  have "k_release c (LProc i) w = Ret () t" using r by (auto simp: w_def Let_def split: if_splits)
  moreover have "kmach w = kmach u" by (simp add: w_def upd_proc_def Let_def)
  moreover have "quiet u w"
    unfolding w_def Let_def
    by (auto intro!: quiet_trans [OF quiet_upd quiet_upd] quiet_upd)
  ultimately show ?thesis using section_quiet [OF u] assms(2) by blast
qed

lemma wake_visit_quiet:
  assumes "wakeup_scan c ch [i] s = Ret () t" and "lock_sane s i"
  shows "quiet s t"
proof -
  obtain me m where me: "same_view (kmach s) m"
    and r: "(if me \<noteq> Some i then
       andthen (k_acquire c (LProc i) (s\<lparr>kmach := m\<rparr>)) (\<lambda>_ s.
       let s = (if p_state (procs s ! i) = SLEEPING \<and> p_chan (procs s ! i) = ch
                then upd_proc i (\<lambda>q. q\<lparr>p_state := RUNNABLE\<rparr>) s else s)
       in andthen (k_release c (LProc i) s) (\<lambda>_ s. wakeup_scan c ch [] s))
     else wakeup_scan c ch [] (s\<lparr>kmach := m\<rparr>)) = Ret () t"
    using assms(1) by (auto elim!: myprocE)
  have q0: "quiet s (s\<lparr>kmach := m\<rparr>)" using me by (rule same_view_quiet)
  have ls: "lock_sane (s\<lparr>kmach := m\<rparr>) i" using assms(2) me by (simp add: lock_sane_def same_view_def)
  show ?thesis
  proof (cases "me = Some i")
    case True
    then show ?thesis using r q0 by auto
  next
    case False
    then obtain u where u: "k_acquire c (LProc i) (s\<lparr>kmach := m\<rparr>) = Ret () u"
      and k: "k_release c (LProc i) (if p_state (procs u ! i) = SLEEPING \<and> p_chan (procs u ! i) = ch
        then upd_proc i (\<lambda>q. q\<lparr>p_state := RUNNABLE\<rparr>) u else u) = Ret () t"
      using r by (auto simp: Let_def)
    have "quiet u (if p_state (procs u ! i) = SLEEPING \<and> p_chan (procs u ! i) = ch
        then upd_proc i (\<lambda>q. q\<lparr>p_state := RUNNABLE\<rparr>) u else u)"
      by (auto intro!: quiet_upd)
    then have "quiet (s\<lparr>kmach := m\<rparr>) t"
      by (rule section_quiet [OF u k _ ls, rotated]) (simp add: upd_proc_def)
    with q0 show ?thesis by (rule quiet_trans)
  qed
qed

section \<open>The switching steps keep the invariant\<close>

lemma sched_invD:
  assumes "sched_inv z"
  shows "length (procs (sy_k z)) = NPROC"
    and "hproc z c = (case sy_mode z c of HSched \<Rightarrow> None | HEnter p \<Rightarrow> Some p | HRun p \<Rightarrow> Some p | HLeave p \<Rightarrow> Some p)"
    and "runs z c p \<Longrightarrow> p < NPROC" and "lk_cpu (plock z i) = Some c \<longleftrightarrow> owns z c i"
    and "locked (plock z i) \<longleftrightarrow> lk_cpu (plock z i) \<noteq> None"
    and "pstate z p = RUNNING \<and> p < NPROC \<longleftrightarrow> (\<exists>c. runs z c p)"
    and "runs z c p \<Longrightarrow> runs z d p \<Longrightarrow> c = d" and "sy_mode z c = HLeave p \<Longrightarrow> p < NPROC \<and> pstate z p \<noteq> RUNNING"
  using assms unfolding sched_inv_def by blast+

lemma inv_lock_sane: "sched_inv z \<Longrightarrow> lock_sane (sy_k z) i"
  by (simp add: lock_sane_def sched_invD(5))

lemma runs_upd: "runs (z\<lparr>sy_k := t, sy_mode := (sy_mode z)(c := h)\<rparr>) d p \<longleftrightarrow>
    (if d = c then h = HEnter p \<or> h = HRun p else runs z d p)"
  by (simp add: runs_def)

lemma owns_upd: "owns (z\<lparr>sy_k := t, sy_mode := (sy_mode z)(c := h)\<rparr>) d p \<longleftrightarrow>
    (if d = c then h = HEnter p \<or> h = HLeave p else owns z d p)"
  by (simp add: owns_def)

lemma switch_in_inv:
  assumes inv: "sched_inv z" and c: "sy_mode z c = HSched" and i: "i < NPROC" "pstate z i \<noteq> RUNNING"
    and nl: "\<not> locked (plock z i)"
    and len: "length (procs t) = length (procs (sy_k z))"
    and st: "p_state (procs t ! i) = RUNNING" "\<And>p. p \<noteq> i \<Longrightarrow> p_state (procs t ! p) = pstate z p"
    and lk: "\<And>j. locks (kmach t) (LProc j) = (if j = i then (plock z i)\<lparr>locked := True, lk_cpu := Some c\<rparr> else plock z j)"
    and cp: "\<And>d. cpu_proc (cpus (kmach t) d) = (if d = c then Some i else hproc z d)"
  shows "sched_inv (z\<lparr>sy_k := t, sy_mode := (sy_mode z)(c := HEnter i)\<rparr>)"
proof -
  note I = sched_invD [OF inv]
  have none: "\<not> owns z d i" for d using I(4) [of i d] I(5) [of i] nl by auto
  have nr: "\<not> runs z d i" for d using I(6) [of i] i by blast
  have nc: "\<not> owns z c j" "\<not> runs z c j" for j using c by (simp_all add: owns_def runs_def)
  have nl': "sy_mode z d \<noteq> HLeave i" for d using none [of d] by (simp add: owns_def)
  show ?thesis
    unfolding sched_inv_def runs_upd owns_upd
  proof (intro conjI allI impI)
    fix d j
    show "lk_cpu (plock (z\<lparr>sy_k := t, sy_mode := (sy_mode z)(c := HEnter i)\<rparr>) j) = Some d \<longleftrightarrow>
        (if d = c then HEnter i = HEnter j \<or> HEnter i = HLeave j else owns z d j)"
      using I(4) [of j d] none nc by (auto simp: lk)
  next
    fix p
    show "pstate (z\<lparr>sy_k := t, sy_mode := (sy_mode z)(c := HEnter i)\<rparr>) p = RUNNING \<and> p < NPROC \<longleftrightarrow>
        (\<exists>d. if d = c then HEnter i = HEnter p \<or> HEnter i = HRun p else runs z d p)"
      using I(6) [of p] st i nr nc by (cases "p = i") (auto, metis)
  next
    fix d p assume "sy_mode (z\<lparr>sy_k := t, sy_mode := (sy_mode z)(c := HEnter i)\<rparr>) d = HLeave p"
    then show "pstate (z\<lparr>sy_k := t, sy_mode := (sy_mode z)(c := HEnter i)\<rparr>) p \<noteq> RUNNING"
      using I(8) [of d p] nl' st(2) [of p] by (cases "p = i") (auto split: if_splits)
  qed (use I len i nr nc c cp lk in \<open>auto split: if_splits\<close>)
qed

lemma switch_run_inv:
  assumes inv: "sched_inv z" and c: "sy_mode z c = HEnter p"
    and len: "length (procs t) = length (procs (sy_k z))"
    and st: "\<And>q. p_state (procs t ! q) = pstate z q"
    and lk: "\<And>j. locks (kmach t) (LProc j) = (if j = p then (plock z p)\<lparr>lk_cpu := None, locked := False\<rparr> else plock z j)"
    and cp: "\<And>d. cpu_proc (cpus (kmach t) d) = hproc z d"
  shows "sched_inv (z\<lparr>sy_k := t, sy_mode := (sy_mode z)(c := HRun p)\<rparr>)"
proof -
  note I = sched_invD [OF inv]
  have r: "runs z c q \<longleftrightarrow> q = p" "owns z c q \<longleftrightarrow> q = p" for q using c by (auto simp: runs_def owns_def)
  have own: "owns z d p \<Longrightarrow> d = c" for d using I(4) [of p d] I(4) [of p c] r by auto
  have runs: "runs (z\<lparr>sy_k := t, sy_mode := (sy_mode z)(c := HRun p)\<rparr>) d q = runs z d q" for d q
    using r by (auto simp: runs_upd)
  show ?thesis
    unfolding sched_inv_def runs owns_upd
  proof (intro conjI allI impI)
    fix d j
    show "lk_cpu (plock (z\<lparr>sy_k := t, sy_mode := (sy_mode z)(c := HRun p)\<rparr>) j) = Some d \<longleftrightarrow>
        (if d = c then HRun p = HEnter j \<or> HRun p = HLeave j else owns z d j)"
      using I(4) [of j d] own r by (auto simp: lk)
  next
    fix q
    show "pstate (z\<lparr>sy_k := t, sy_mode := (sy_mode z)(c := HRun p)\<rparr>) q = RUNNING \<and> q < NPROC \<longleftrightarrow> (\<exists>d. runs z d q)"
      using I(6) [of q] st by simp
  next
    fix d q assume "sy_mode (z\<lparr>sy_k := t, sy_mode := (sy_mode z)(c := HRun p)\<rparr>) d = HLeave q"
    then show "pstate (z\<lparr>sy_k := t, sy_mode := (sy_mode z)(c := HRun p)\<rparr>) q \<noteq> RUNNING"
      using I(8) [of d q] st by (auto split: if_splits)
  qed (use I len r c cp lk in \<open>auto split: if_splits\<close>)
qed

lemma leaves_inv:
  assumes inv: "sched_inv z" and c: "sy_mode z c = HRun p" and l: "leaves c p' (sy_k z) t"
  shows "sched_inv (z\<lparr>sy_k := t, sy_mode := (sy_mode z)(c := HLeave p)\<rparr>)"
proof -
  note I = sched_invD [OF inv]
  have pp: "p' = p" using I(2) [of c] c l by (simp add: leaves_def)
  have r: "runs z c q \<longleftrightarrow> q = p" and nc: "\<not> owns z c q" for q using c by (auto simp: runs_def owns_def)
  have pn: "p < NPROC" using I(3) r by blast
  have none: "\<not> owns z d p" for d using I(4) [of p d] I(5) [of p] l pp by (auto simp: leaves_def)
  have only: "runs z d p \<Longrightarrow> d = c" for d using I(7) r by blast
  have lk: "locks (kmach t) (LProc j) = plock z j" if "j \<noteq> p" for j
    using l that pp I(4) [of j c] nc by (auto simp: leaves_def)
  have len: "length (procs t) = length (procs (sy_k z))" and cp: "cpu_proc (cpus (kmach t) d) = hproc z d"
    and lp: "locked (locks (kmach t) (LProc p))" "lk_cpu (locks (kmach t) (LProc p)) = Some c"
    and st: "p_state (procs t ! p) \<noteq> RUNNING" and sto: "q \<noteq> p \<Longrightarrow> procs t ! q = procs (sy_k z) ! q" for d q
    using l pp by (auto simp: leaves_def)
  show ?thesis
    unfolding sched_inv_def runs_upd owns_upd
  proof (intro conjI allI impI)
    fix d j
    show "lk_cpu (plock (z\<lparr>sy_k := t, sy_mode := (sy_mode z)(c := HLeave p)\<rparr>) j) = Some d \<longleftrightarrow>
        (if d = c then HLeave p = HEnter j \<or> HLeave p = HLeave j else owns z d j)"
      using I(4) [of j d] none nc lk lp by (cases "j = p") auto
  next
    fix q
    show "pstate (z\<lparr>sy_k := t, sy_mode := (sy_mode z)(c := HLeave p)\<rparr>) q = RUNNING \<and> q < NPROC \<longleftrightarrow>
        (\<exists>d. if d = c then HLeave p = HEnter q \<or> HLeave p = HRun q else runs z d q)"
    proof (cases "q = p")
      case True
      then show ?thesis using st only by auto
    next
      case False
      then show ?thesis using I(6) [of q] sto r by (auto, metis)
    qed
  next
    fix j
    show "locked (plock (z\<lparr>sy_k := t, sy_mode := (sy_mode z)(c := HLeave p)\<rparr>) j) \<longleftrightarrow>
        lk_cpu (plock (z\<lparr>sy_k := t, sy_mode := (sy_mode z)(c := HLeave p)\<rparr>) j) \<noteq> None"
      using I(5) [of j] lk lp by (cases "j = p") auto
  next
    fix d q assume "sy_mode (z\<lparr>sy_k := t, sy_mode := (sy_mode z)(c := HLeave p)\<rparr>) d = HLeave q"
    then show "pstate (z\<lparr>sy_k := t, sy_mode := (sy_mode z)(c := HLeave p)\<rparr>) q \<noteq> RUNNING"
      using I(8) [of d q] st sto [of q] by (cases "q = p") (auto split: if_splits)
  qed (use I len r c cp pn in \<open>auto split: if_splits\<close>)
qed

lemma switch_back_inv:
  assumes inv: "sched_inv z" and c: "sy_mode z c = HLeave p"
    and procs: "procs t = procs (sy_k z)"
    and lk: "\<And>j. locks (kmach t) (LProc j) = (if j = p then (plock z p)\<lparr>lk_cpu := None, locked := False\<rparr> else plock z j)"
    and cp: "\<And>d. cpu_proc (cpus (kmach t) d) = (if d = c then None else hproc z d)"
  shows "sched_inv (z\<lparr>sy_k := t, sy_mode := (sy_mode z)(c := HSched)\<rparr>)"
proof -
  note I = sched_invD [OF inv]
  have r: "\<not> runs z c q" "owns z c q \<longleftrightarrow> q = p" for q using c by (auto simp: runs_def owns_def)
  have own: "owns z d p \<Longrightarrow> d = c" for d using I(4) [of p d] I(4) [of p c] r by auto
  have runs: "runs (z\<lparr>sy_k := t, sy_mode := (sy_mode z)(c := HSched)\<rparr>) d q = runs z d q" for d q
    using r by (auto simp: runs_upd)
  show ?thesis
    unfolding sched_inv_def runs owns_upd
  proof (intro conjI allI impI)
    fix d j
    show "lk_cpu (plock (z\<lparr>sy_k := t, sy_mode := (sy_mode z)(c := HSched)\<rparr>) j) = Some d \<longleftrightarrow>
        (if d = c then HSched = HEnter j \<or> HSched = HLeave j else owns z d j)"
      using I(4) [of j d] own r by (auto simp: lk)
  next
    fix q
    show "pstate (z\<lparr>sy_k := t, sy_mode := (sy_mode z)(c := HSched)\<rparr>) q = RUNNING \<and> q < NPROC \<longleftrightarrow> (\<exists>d. runs z d q)"
      using I(6) [of q] procs by simp
  qed (use I procs r c cp lk in \<open>auto split: if_splits\<close>)
qed

lemma visit_run_effect:
  assumes "scheduler_visit c i s = Ret True t"
  shows "\<not> locked (locks (kmach s) (LProc i))" and "p_state (procs s ! i) = RUNNABLE"
    and "procs t = (procs s)[i := (procs s ! i)\<lparr>p_state := RUNNING\<rparr>]"
    and "locks (kmach t) (LProc j) = (if j = i then (locks (kmach s) (LProc i))\<lparr>locked := True, lk_cpu := Some c\<rparr>
           else locks (kmach s) (LProc j))"
    and "cpu_proc (cpus (kmach t) d) = (if d = c then Some i else cpu_proc (cpus (kmach s) d))"
  using assms by (auto simp: scheduler_visit_def upd_proc_def upd_cpu_def elim!: k_acquireE k_releaseE split: if_splits)

lemma release_proc_effect:
  assumes "k_release c (LProc p) s = Ret x t"
  shows "procs t = procs s"
    and "locks (kmach t) (LProc j) = (if j = p then (locks (kmach s) (LProc p))\<lparr>lk_cpu := None, locked := False\<rparr>
           else locks (kmach s) (LProc j))"
    and "cpu_proc (cpus (kmach t) d) = cpu_proc (cpus (kmach s) d)"
  using assms by (auto elim!: k_releaseE)

lemma sched_resume_fields [simp]:
  "procs (sched_resume c b s) = procs s" "locks (kmach (sched_resume c b s)) = locks (kmach s)"
  "cpu_proc (cpus (kmach (sched_resume c b s)) d) = cpu_proc (cpus (kmach s) d)"
  by (simp_all add: sched_resume_def upd_cpu_def)

lemma upd_proc_fields [simp]: "kmach (upd_proc p f s) = kmach s" "procs (upd_proc p f s) = (procs s)[p := f (procs s ! p)]"
  by (simp_all add: upd_proc_def)

lemma nth_upd_chan: "p_state ((procs s)[p := (procs s ! p)\<lparr>p_chan := ch\<rparr>] ! q) = p_state (procs s ! q)"
proof (cases "p = q")
  case True
  then show ?thesis by (cases "q < length (procs s)") (simp_all add: list_update_beyond)
qed simp

lemma sched_step_inv:
  assumes "sched_step z z'" and "sched_inv z"
  shows "sched_inv z'"
  using assms
proof (induction rule: sched_step.induct)
  case (visit_run z c i t)
  note e = visit_run_effect [OF visit_run(3)]
  show ?case
    by (rule switch_in_inv [OF visit_run(4,1,2)])
       (use e visit_run(2,4) in \<open>auto simp: sched_invD(1) nth_list_update\<close>)
next
  case (visit_skip z c i t)
  then show ?case by (intro quiet_inv visit_skip_quiet inv_lock_sane)
next
  case (resume_yield z c p b t)
  note e = release_proc_effect [OF resume_yield(2) [unfolded yield_resume_def]]
  show ?case by (rule switch_run_inv [OF resume_yield(3,1)]) (use e in auto)
next
  case (resume_sleep z c p b t)
  note e = release_proc_effect [OF resume_sleep(2)]
  show ?case by (rule switch_run_inv [OF resume_sleep(3,1)]) (use e in \<open>auto simp: nth_upd_chan\<close>)
next
  case (resume_fork z c p t)
  note e = release_proc_effect [OF resume_fork(2)]
  show ?case by (rule switch_run_inv [OF resume_fork(3,1)]) (use e in auto)
next
  case (do_yield z c p t)
  then show ?case using yield_leaves leaves_inv by metis
next
  case (do_sleep z c p ch l t)
  then show ?case using sleep_leaves leaves_inv by metis
next
  case (do_exit z c p status t)
  have "hproc z c = Some p" using sched_invD(2) [OF do_exit(3), of c] do_exit(1) by simp
  then show ?case using exit_leaves [OF do_exit(2)] leaves_inv [OF do_exit(3,1)] by blast
next
  case (switch_back z c p t)
  note e = release_proc_effect [OF switch_back(2) [unfolded scheduler_back_def]]
  show ?case by (rule switch_back_inv [OF switch_back(3,1)]) (use e in \<open>auto simp: upd_cpu_def\<close>)
next
  case (wake_visit z c p ch i t)
  then show ?case by (intro quiet_inv wake_visit_quiet inv_lock_sane)
next
  case (kill_visit z c p pid i r t)
  then show ?case by (intro quiet_inv kill_visit_quiet inv_lock_sane)
next
  case (fork_done z c p np t)
  then show ?case by (intro quiet_inv fork_finish_quiet inv_lock_sane)
next
  case (take_lock z c p l t)
  have "quiet (sy_k z) t"
    using take_lock(3) by (rule k_acquireE) (simp add: quiet_def take_lock(2) [symmetric])
  then show ?case by (rule quiet_inv [OF take_lock(4)])
next
  case (drop_lock z c p l t)
  have "quiet (sy_k z) t"
    using drop_lock(3) by (rule k_releaseE) (simp add: quiet_def drop_lock(2) [symmetric])
  then show ?case by (rule quiet_inv [OF drop_lock(4)])
qed

interpretation sched: inductive_invariant sched_init sched_step sched_inv
  by unfold_locales (fact sched_init_inv, rule sched_step_inv)

section \<open>Properties\<close>

text \<open>
  C10. No process runs on two harts: in every interleaving of scheduler visits, switches, sleeps, exits,
  wakeups, kills and lock operations, two harts never have the same current process, and a hart outside
  the scheduler loop that has not called \<^verbatim>\<open>sched\<close> runs a process in state \<open>RUNNING\<close>, while every \<open>RUNNING\<close>
  process is the current process of some hart.
\<close>

theorem no_process_runs_twice:
  assumes "reachable_from sched_init sched_step z"
  shows "(hproc z c = Some p \<and> hproc z d = Some p \<longrightarrow> c = d) \<and>
         (runs z c p \<longrightarrow> pstate z p = RUNNING \<and> hproc z c = Some p) \<and>
         (p < NPROC \<and> pstate z p = RUNNING \<longrightarrow> (\<exists>c. hproc z c = Some p))"
proof -
  have inv: "sched_inv z" using assms by (rule sched.reachable_inv)
  note I = sched_invD [OF inv]
  have cp: "hproc z c = Some p \<longleftrightarrow> runs z c p \<or> sy_mode z c = HLeave p" for c p
    using I(2) [of c] by (auto simp: runs_def split: hmode.splits)
  have ex: "\<not> runs z d p" if "sy_mode z c = HLeave p" for c d p using I(8) [OF that] I(6) [of p] by blast
  have lv: "c = d" if "sy_mode z c = HLeave p" "sy_mode z d = HLeave p" for c d
    using that I(4) [of p c] I(4) [of p d] by (auto simp: owns_def)
  show ?thesis using cp ex lv I(6) [of p] I(7) by blast
qed

definition idle_proc :: proc where
  "idle_proc = \<lparr>p_state = RUNNABLE, p_chan = None, p_killed = 0, p_xstate = 0, p_pid = 1, p_parent = None, p_kstack = 0,
     p_sz = 0, p_pagetable = 0, p_trapframe = 0, p_context = zero_context, p_ofile = replicate NOFILE None,
     p_cwd = None, p_name = replicate 16 0\<rparr>"

definition sched_boot :: sched_sys where
  "sched_boot = \<lparr>sy_k = \<lparr>kmach = kmach boot_kmem, mem = (\<lambda>_. 0), freelist = 0, kernel_pagetable = 0, satp = (\<lambda>_. 0),
     procs = replicate NPROC idle_proc, nextpid = 2, initproc = None\<rparr>, sy_mode = (\<lambda>_. HSched)\<rparr>"

theorem no_process_runs_twice_witness:
  "\<exists>z. reachable_from sched_init sched_step z \<and> hproc z 0 = Some 0 \<and> hproc z 1 \<noteq> Some 0 \<and> pstate z 0 = RUNNING"
proof -
  let ?m = "upd_cpu 0 (\<lambda>k. k\<lparr>cpu_proc := Some 0\<rparr>) (acquired 0 (LProc 0) (kmach (sy_k sched_boot)))"
  let ?t = "upd_proc 0 (\<lambda>q. q\<lparr>p_state := RUNNING\<rparr>) ((sy_k sched_boot)\<lparr>kmach := ?m\<rparr>)"
  let ?z = "sched_boot\<lparr>sy_k := ?t, sy_mode := (sy_mode sched_boot)(0 := HEnter 0)\<rparr>"
  have st: "p_state (procs (sy_k sched_boot) ! i) \<noteq> RUNNING" if "i < NPROC" for i
    using that by (simp add: sched_boot_def idle_proc_def)
  then have "sched_init sched_boot"
    by (simp add: sched_init_def sched_boot_def boot_kmem_def lock_free_def)
  then have r0: "reachable_from sched_init sched_step sched_boot" by (rule reach_init)
  have "k_can 0 (LProc 0) (sy_k sched_boot)"
    by (simp add: sched_boot_def boot_kmem_def can_acquire_def lock_free_def cpu_ok_def)
  then have "scheduler_visit 0 0 (sy_k sched_boot) = Ret True ?t"
    by (simp add: scheduler_visit_def sched_boot_def idle_proc_def NPROC_def)
  then have "sched_step sched_boot ?z"
    by (intro visit_run) (simp_all add: sched_boot_def NPROC_def)
  then have r: "reachable_from sched_init sched_step ?z" using r0 by (rule reach_step [rotated])
  have h: "hproc ?z 0 = Some 0" by (simp add: upd_cpu_def)
  have "runs ?z 0 0" by (simp add: runs_def)
  with no_process_runs_twice [OF r, of 0 0 1] h have "hproc ?z 1 \<noteq> Some 0" and "pstate ?z 0 = RUNNING"
    by (metis zero_neq_one)+
  with r h show ?thesis by (intro exI [of _ ?z] conjI)
qed

end
