(* ===== verification/ProcTable.thy ===== *)
theory ProcTable
  imports Sched PageTable
begin

text \<open>
  Functional behaviour of the process-table operations of theory \<open>Proc\<close> when their locks are free: what \<^verbatim>\<open>wakeup\<close>,
  \<^verbatim>\<open>kill\<close> and \<^verbatim>\<open>allocproc\<close> do to the table, and that the memory operations they call leave it alone.
\<close>

section \<open>Memory operations change only memory\<close>

abbreviation rest :: "'z kmem_st_scheme \<Rightarrow> 'z" where
  "rest s \<equiv> kmem_st.more s"

named_theorems rest_rules \<open>a memory operation that returns changes only memory, free list and machine\<close>

lemma k_acquire_rest [rest_rules]: "k_acquire c l s = Ret x t \<Longrightarrow> rest t = rest s"
  by (auto elim!: k_acquireE)

lemma k_release_rest [rest_rules]: "k_release c l s = Ret x t \<Longrightarrow> rest t = rest s"
  by (auto elim!: k_releaseE)

lemma kalloc_rest [rest_rules]: "kalloc c s = Ret r t \<Longrightarrow> rest t = rest s"
  by (auto simp: kalloc_def Let_def dest!: rest_rules split: if_splits)

lemma kfree_rest [rest_rules]: "kfree kend c pa s = Ret r t \<Longrightarrow> rest t = rest s"
  by (auto simp: kfree_def Let_def dest!: rest_rules split: if_splits)

lemma walk_levels_rest: "walk_levels c l pt va al s = Ret r t \<Longrightarrow> rest t = rest s"
proof (induction l arbitrary: pt s al)
  case (Suc l)
  from Suc.prems show ?case
    by (auto simp: Let_def split: if_splits dest!: Suc.IH kalloc_rest)
qed simp

lemma walk_rest [rest_rules]: "walk c pt va al s = Ret r t \<Longrightarrow> rest t = rest s"
  by (auto simp: walk_def dest: walk_levels_rest split: if_splits)

lemma mappages_loop_rest: "mappages_loop c pt a lst pa perm s = Ret r t \<Longrightarrow> rest t = rest s"
proof (induction c pt a lst pa perm s rule: mappages_loop.induct)
  case (1 c pt a lst pa perm s)
  from 1(2) obtain pte u where u: "walk c pt a True s = Ret pte u" by (subst (asm) mappages_loop.simps) auto
  have "rest t = rest u"
    using 1(2) u 1(1) [OF u _ _ refl] by (subst (asm) mappages_loop.simps) (auto simp: Let_def split: if_splits)
  with walk_rest [OF u] show ?case by simp
qed

lemma mappages_rest [rest_rules]: "mappages c pt va sz pa perm s = Ret r t \<Longrightarrow> rest t = rest s"
  by (auto simp: mappages_def dest: mappages_loop_rest split: if_splits)

lemma uvmunmap_loop_rest: "uvmunmap_loop kend c pt a stop fr s = Ret r t \<Longrightarrow> rest t = rest s"
proof (induction kend c pt a stop fr s rule: uvmunmap_loop.induct)
  case (1 kend c pt a stop fr s)
  show ?case
  proof (cases "a < stop")
    case True
    with 1(2) obtain pte u where u: "walk c pt a False s = Ret pte u" by (subst (asm) uvmunmap_loop.simps) auto
    with True 1(2) obtain v where v: "(if fr then kfree kend c (PTE2PA (load64 (mem u) pte)) u else Ret () u) = Ret () v"
      and w: "uvmunmap_loop kend c pt (a + PGSIZE) stop fr (v\<lparr>mem := store64 pte 0 (mem v)\<rparr>) = Ret r t"
      and c: "pte \<noteq> 0" "\<not> load64 (mem u) pte AND PTE_V = 0" "PTE_FLAGS (load64 (mem u) pte) \<noteq> PTE_V"
      by (subst (asm) uvmunmap_loop.simps) (auto simp: Let_def split: if_splits)
    have "rest v = rest u" using v by (auto dest: kfree_rest split: if_splits)
    moreover have "rest t = rest v" using 1(1) [OF True u c v refl w] by simp
    ultimately show ?thesis using walk_rest [OF u] by simp
  next
    case False
    then show ?thesis using 1(2) by (subst (asm) uvmunmap_loop.simps) simp
  qed
qed

lemma uvmunmap_rest [rest_rules]: "uvmunmap kend c pt va n fr s = Ret r t \<Longrightarrow> rest t = rest s"
  by (auto simp: uvmunmap_def dest: uvmunmap_loop_rest split: if_splits)

lemma freewalk_rest:
  "freewalk n kend c pt s = Ret () t \<Longrightarrow> rest t = rest s"
  "freewalk_entries n kend c pt is s = Ret () t \<Longrightarrow> rest t = rest s"
proof (induction n kend c pt s and n kend c pt "is" s arbitrary: t and t rule: freewalk_freewalk_entries.induct)
  case (2 fuel kend c pt s)
  from 2(2) show ?case by (auto dest!: 2(1) kfree_rest)
next
  case (4 fuel kend c pt i "is" s)
  let ?e = "load64 (mem s) (pt + 8 * of_nat i)"
  show ?case
  proof (cases "?e AND PTE_V \<noteq> 0 \<and> ?e AND (PTE_R OR PTE_W OR PTE_X) = 0")
    case True
    with 4(4) obtain u where u: "freewalk fuel kend c (PTE2PA ?e) s = Ret () u"
      "freewalk_entries fuel kend c pt is (u\<lparr>mem := store64 (pt + 8 * of_nat i) 0 (mem u)\<rparr>) = Ret () t"
      by (auto simp: Let_def)
    have "rest u = rest s" using 4(1) [OF refl True u(1)] .
    moreover have "rest t = rest u" using 4(2) [OF refl True u(1) refl u(2)] by simp
    ultimately show ?thesis by simp
  next
    case False
    with 4(4) have nv: "\<not> ?e AND PTE_V \<noteq> 0" and e: "freewalk_entries fuel kend c pt is s = Ret () t"
      by (auto simp: Let_def split: if_splits)
    show ?thesis using 4(3) [OF refl False nv e] .
  qed
qed simp_all

lemma uvmfree_rest [rest_rules]: "uvmfree kend c pt sz s = Ret r t \<Longrightarrow> rest t = rest s"
  by (auto simp: uvmfree_def split: if_splits dest!: freewalk_rest(1) uvmunmap_rest)

lemma uvmcreate_rest [rest_rules]: "uvmcreate c s = Ret r t \<Longrightarrow> rest t = rest s"
  by (auto simp: uvmcreate_def dest!: kalloc_rest split: if_splits)

lemma proc_pagetable_rest [rest_rules]: "proc_pagetable lk c p s = Ret r t \<Longrightarrow> rest t = rest s"
  by (auto simp: proc_pagetable_def split: if_splits dest!: uvmcreate_rest mappages_rest uvmunmap_rest uvmfree_rest)

lemma rest_procs: "rest t = rest s \<Longrightarrow> procs t = procs s \<and> nextpid t = nextpid s \<and> initproc t = initproc s"
  by (cases s, cases t) simp

section \<open>Wakeup\<close>

text \<open>Updates of different fields commute; the machine comes first.\<close>

lemma kmach_procs_commute [simp]: "s\<lparr>procs := ps, kmach := m\<rparr> = s\<lparr>kmach := m, procs := ps\<rparr>"
  by (cases s) simp

definition woken :: "nat option \<Rightarrow> chan option \<Rightarrow> nat \<Rightarrow> proc \<Rightarrow> proc" where
  "woken me ch i q = (if me \<noteq> Some i \<and> p_state q = SLEEPING \<and> p_chan q = ch then q\<lparr>p_state := RUNNABLE\<rparr> else q)"

text \<open>\<open>only_table s t m\<close>: from \<open>s\<close> to \<open>t\<close> only the process table changed, and the machine to \<open>m\<close>.\<close>

definition only_table :: "'z proc_st_scheme \<Rightarrow> 'z proc_st_scheme \<Rightarrow> mach \<Rightarrow> bool" where
  "only_table s t m \<longleftrightarrow> (\<exists>ps. t = s\<lparr>kmach := m, procs := ps\<rparr> \<and> length ps = length (procs s))"

lemma only_table_kmach: "only_table s t m \<Longrightarrow> kmach t = m"
  by (auto simp: only_table_def)

lemma only_table_mach [simp]: "only_table s (s\<lparr>kmach := m\<rparr>) m"
  unfolding only_table_def by (rule exI [of _ "procs s"]) simp

lemma only_table_procs [simp]: "length ps = length (procs s) \<Longrightarrow> only_table s (s\<lparr>kmach := m, procs := ps\<rparr>) m"
  unfolding only_table_def by (rule exI [of _ ps]) simp

lemma only_table_trans: "only_table s t m \<Longrightarrow> only_table t u m' \<Longrightarrow> only_table s u m'"
  by (auto simp: only_table_def)

lemma wakeup_visit:
  assumes "k_can c (LProc i) s"
  shows "\<exists>t. wakeup_scan c ch (i # is) s = wakeup_scan c ch is t \<and> only_table s t (after_cs c (kmach s)) \<and>
     procs t = (procs s)[i := woken (cpu_proc (cpus (kmach s) c)) ch i (procs s ! i)]"
proof (cases "cpu_proc (cpus (kmach s) c) = Some i")
  case True
  then show ?thesis
    using assms by (intro exI [of _ "s\<lparr>kmach := after_cs c (kmach s)\<rparr>"])
      (simp add: can_acquire_def woken_def)
next
  case False
  let ?t = "s\<lparr>kmach := after_cs c (kmach s),
     procs := (procs s)[i := woken (cpu_proc (cpus (kmach s) c)) ch i (procs s ! i)]\<rparr>"
  have "wakeup_scan c ch (i # is) s = wakeup_scan c ch is ?t"
    using assms False by (auto simp: Let_def upd_proc_def woken_def can_acquire_def [of c "LProc i" "kmach s"])
  then show ?thesis by (intro exI [of _ ?t]) simp
qed

lemma wakeup_scan_ok:
  assumes "\<forall>i \<in> set is. k_can c (LProc i) s" and "distinct is" and "is \<noteq> []"
  shows "\<exists>t. wakeup_scan c ch is s = Ret () t \<and> only_table s t (after_cs c (kmach s)) \<and>
     (\<forall>i < length (procs s). procs t ! i = (if i \<in> set is then woken (cpu_proc (cpus (kmach s) c)) ch i (procs s ! i)
        else procs s ! i))"
  using assms
proof (induction "is" arbitrary: s)
  case (Cons i "is" s)
  obtain u where u: "wakeup_scan c ch (i # is) s = wakeup_scan c ch is u" "only_table s u (after_cs c (kmach s))"
    "procs u = (procs s)[i := woken (cpu_proc (cpus (kmach s) c)) ch i (procs s ! i)]"
    using wakeup_visit [of c i s ch "is"] Cons.prems(1) by auto
  have k: "kmach u = after_cs c (kmach s)" using u(2) by (rule only_table_kmach)
  show ?case
  proof (cases "is = []")
    case True
    then show ?thesis using u by (intro exI [of _ u]) (auto simp: nth_list_update)
  next
    case False
    have "\<forall>j \<in> set is. k_can c (LProc j) u" using Cons.prems(1) k by simp
    then obtain t where t: "wakeup_scan c ch is u = Ret () t" "only_table u t (after_cs c (kmach u))"
      "\<forall>j < length (procs u). procs t ! j = (if j \<in> set is then woken (cpu_proc (cpus (kmach u) c)) ch j (procs u ! j)
        else procs u ! j)"
      using Cons.IH [of u] Cons.prems(2) False by auto
    have "only_table s t (after_cs c (kmach s))" using only_table_trans [OF u(2) t(2)] k by simp
    moreover have "procs t ! j = (if j \<in> set (i # is) then woken (cpu_proc (cpus (kmach s) c)) ch j (procs s ! j)
        else procs s ! j)" if "j < length (procs s)" for j
      using t(3) [rule_format, of j] that Cons.prems(2) u(3) k by (cases "j = i") auto
    ultimately show ?thesis using u(1) t(1) by (intro exI [of _ t]) (simp del: wakeup_scan.simps)
  qed
qed simp

section \<open>Kill\<close>

definition marked :: "proc \<Rightarrow> proc" where
  "marked q = (let q = q\<lparr>p_killed := 1\<rparr> in if p_state q = SLEEPING then q\<lparr>p_state := RUNNABLE\<rparr> else q)"

lemma kill_visit_ok:
  assumes "k_can c (LProc i) s" and "i < length (procs s)"
  shows "kill_scan c pid (i # is) s =
    (if p_pid (procs s ! i) = pid
     then Ret 0 (s\<lparr>kmach := after_cs c (kmach s), procs := (procs s)[i := marked (procs s ! i)]\<rparr>)
     else kill_scan c pid is (s\<lparr>kmach := after_cs c (kmach s)\<rparr>))"
  using assms by (simp add: Let_def upd_proc_def marked_def)

lemma kill_scan_ok:
  assumes "\<forall>i \<in> set (xs @ ys). k_can c (LProc i) s \<and> i < length (procs s)" and "\<forall>i \<in> set xs. p_pid (procs s ! i) \<noteq> pid"
    and "xs @ ys \<noteq> []" and "ys \<noteq> [] \<Longrightarrow> p_pid (procs s ! hd ys) = pid"
  shows "kill_scan c pid (xs @ ys) s =
     (case ys of [] \<Rightarrow> Ret (-1) (s\<lparr>kmach := after_cs c (kmach s)\<rparr>)
      | i # _ \<Rightarrow> Ret 0 (s\<lparr>kmach := after_cs c (kmach s), procs := (procs s)[i := marked (procs s ! i)]\<rparr>))"
  using assms
proof (induction xs arbitrary: s)
  case Nil
  then show ?case by (cases ys) (simp_all add: kill_visit_ok del: kill_scan.simps)
next
  case (Cons x xs)
  let ?s = "s\<lparr>kmach := after_cs c (kmach s)\<rparr>"
  have e: "kill_scan c pid ((x # xs) @ ys) s = kill_scan c pid (xs @ ys) ?s"
    using Cons.prems(1,2) by (simp add: kill_visit_ok del: kill_scan.simps)
  show ?case
  proof (cases "xs @ ys = []")
    case True
    then show ?thesis unfolding e by simp
  next
    case False
    then show ?thesis unfolding e using Cons.IH [of ?s] Cons.prems by (auto split: list.split)
  qed
qed

section \<open>Allocation\<close>

lemma allocproc_scan_Some:
  "allocproc_scan c is s = Ret (Some p) t \<Longrightarrow> rest t = rest s \<and> p \<in> set is \<and> p_state (procs s ! p) = UNUSED"
proof (induction "is" arbitrary: s)
  case (Cons i "is")
  from Cons.prems obtain u where u: "k_acquire c (LProc i) s = Ret () u"
    and r: "(if p_state (procs u ! i) = UNUSED then Ret (Some i) u
        else andthen (k_release c (LProc i) u) (\<lambda>_ s. allocproc_scan c is s)) = Ret (Some p) t"
    by auto
  have ru: "rest u = rest s" using u by (rule k_acquire_rest)
  have pu: "procs u = procs s" using rest_procs [OF ru] by simp
  show ?case
  proof (cases "p_state (procs u ! i) = UNUSED")
    case True
    then show ?thesis using r ru pu by simp
  next
    case False
    then obtain v where v: "k_release c (LProc i) u = Ret () v" "allocproc_scan c is v = Ret (Some p) t"
      using r by auto
    have rv: "rest v = rest u" using v(1) by (rule k_release_rest)
    show ?thesis using Cons.IH [OF v(2)] ru rv pu rest_procs [OF rv] by simp
  qed
qed simp

lemma allocpid_effect:
  assumes "allocpid c s = Ret pid t"
  shows "pid = nextpid s" and "procs t = procs s" and "nextpid t = to_int32 (nextpid s + 1)" and "initproc t = initproc s"
  using assms by (auto simp: allocpid_def elim!: k_acquireE k_releaseE)

text \<open>What \<^verbatim>\<open>allocproc\<close> leaves in the slot it returns; every other slot is unchanged.\<close>

lemma allocproc_found_effect:
  assumes "allocproc_found lk c p s = Ret (Some r) t" and "p < length (procs s)"
  shows "r = p" and "nextpid t = to_int32 (nextpid s + 1)" and "length (procs t) = length (procs s)"
    and "\<And>i. i \<noteq> p \<Longrightarrow> procs t ! i = procs s ! i"
    and "p_state (procs t ! p) = USED" and "p_pid (procs t ! p) = nextpid s"
    and "p_killed (procs t ! p) = p_killed (procs s ! p)"
proof -
  obtain pid s1 where a: "allocpid c s = Ret pid s1"
    and b: "(let s = upd_proc p (\<lambda>q. q\<lparr>p_pid := pid, p_state := USED\<rparr>) s1 in
     andthen (kalloc c s) (\<lambda>tf s.
     let s = upd_proc p (\<lambda>q. q\<lparr>p_trapframe := tf\<rparr>) s in
     if tf = 0 then
       andthen (freeproc lk c p s) (\<lambda>_ s. andthen (k_release c (LProc p) s) (\<lambda>_ s. Ret None s))
     else
       andthen (proc_pagetable lk c p s) (\<lambda>pagetable s.
       let s = upd_proc p (\<lambda>q. q\<lparr>p_pagetable := pagetable\<rparr>) s in
       if pagetable = 0 then
         andthen (freeproc lk c p s) (\<lambda>_ s. andthen (k_release c (LProc p) s) (\<lambda>_ s. Ret None s))
       else
         Ret (Some p) (upd_proc p (\<lambda>q. q\<lparr>p_context := zero_context
           \<lparr>ctx_ra := l_forkret lk, ctx_sp := p_kstack q + PGSIZE\<rparr>\<rparr>) s)))) = Ret (Some r) t"
    using assms(1) unfolding allocproc_found_def by (elim andthen_RetE) blast
  note ap = allocpid_effect [OF a]
  obtain tf s2 where k: "kalloc c (upd_proc p (\<lambda>q. q\<lparr>p_pid := pid, p_state := USED\<rparr>) s1) = Ret tf s2"
    and c: "(let s = upd_proc p (\<lambda>q. q\<lparr>p_trapframe := tf\<rparr>) s2 in
     if tf = 0 then
       andthen (freeproc lk c p s) (\<lambda>_ s. andthen (k_release c (LProc p) s) (\<lambda>_ s. Ret None s))
     else
       andthen (proc_pagetable lk c p s) (\<lambda>pagetable s.
       let s = upd_proc p (\<lambda>q. q\<lparr>p_pagetable := pagetable\<rparr>) s in
       if pagetable = 0 then
         andthen (freeproc lk c p s) (\<lambda>_ s. andthen (k_release c (LProc p) s) (\<lambda>_ s. Ret None s))
       else
         Ret (Some p) (upd_proc p (\<lambda>q. q\<lparr>p_context := zero_context
           \<lparr>ctx_ra := l_forkret lk, ctx_sp := p_kstack q + PGSIZE\<rparr>\<rparr>) s))) = Ret (Some r) t"
    using b unfolding Let_def by (elim andthen_RetE) blast
  note kr = rest_procs [OF kalloc_rest [OF k]]
  have tf: "tf \<noteq> 0" using c by (auto simp: Let_def split: if_splits)
  then obtain pg s3 where g: "proc_pagetable lk c p (upd_proc p (\<lambda>q. q\<lparr>p_trapframe := tf\<rparr>) s2) = Ret pg s3"
    and d: "r = p" "t = upd_proc p (\<lambda>q. q\<lparr>p_context := zero_context
           \<lparr>ctx_ra := l_forkret lk, ctx_sp := p_kstack q + PGSIZE\<rparr>\<rparr>) (upd_proc p (\<lambda>q. q\<lparr>p_pagetable := pg\<rparr>) s3)"
    using c by (auto simp: Let_def split: if_splits)
  note gr = rest_procs [OF proc_pagetable_rest [OF g]]
  show "r = p" using d by simp
  show "nextpid t = to_int32 (nextpid s + 1)" "length (procs t) = length (procs s)"
    "p_state (procs t ! p) = USED" "p_pid (procs t ! p) = nextpid s" "p_killed (procs t ! p) = p_killed (procs s ! p)"
    "\<And>i. i \<noteq> p \<Longrightarrow> procs t ! i = procs s ! i"
    using ap kr gr d(2) assms(2) by (simp_all add: upd_proc_def)
qed

text \<open>Process ids: every slot in use has its own, between 1 and \<^verbatim>\<open>nextpid\<close>.\<close>

definition pids_ok :: "'z proc_st_scheme \<Rightarrow> bool" where
  "pids_ok s \<longleftrightarrow> length (procs s) = NPROC \<and> 0 < nextpid s \<and>
     (\<forall>i < NPROC. p_state (procs s ! i) \<noteq> UNUSED \<longrightarrow> 0 < p_pid (procs s ! i) \<and> p_pid (procs s ! i) < nextpid s) \<and>
     (\<forall>i < NPROC. \<forall>j < NPROC. p_state (procs s ! i) \<noteq> UNUSED \<and> p_state (procs s ! j) \<noteq> UNUSED \<and>
        p_pid (procs s ! i) = p_pid (procs s ! j) \<longrightarrow> i = j)"

lemma to_int32_small: "0 \<le> n \<Longrightarrow> n < 2 ^ 31 \<Longrightarrow> to_int32 n = n"
  by (simp add: to_int32_def sint_sbintrunc' signed_take_bit_int_eq_self)

section \<open>Properties\<close>

lemma upt_first_split: "i < n \<Longrightarrow> [0..<n] = [0..<i] @ i # [Suc i..<n]"
  by (metis less_imp_add_positive less_or_eq_imp_le upt_add_eq_append upt_conv_Cons zero_le le0)

definition table_state :: "proc list \<Rightarrow> int \<Rightarrow> proc_st" where
  "table_state ps n = \<lparr>kmach = kmach boot_kmem, mem = (\<lambda>_. 0), freelist = 0, kernel_pagetable = 0, satp = (\<lambda>_. 0),
     procs = ps, nextpid = n, initproc = Some 0\<rparr>"

lemma table_state_can [simp]: "k_can c l (table_state ps n)"
  by (simp add: table_state_def boot_kmem_def can_acquire_def lock_free_def cpu_ok_def)

lemma table_state_sel [simp]: "procs (table_state ps n) = ps" "nextpid (table_state ps n) = n"
    "cpu_proc (cpus (kmach (table_state ps n)) c) = None"
  by (simp_all add: table_state_def boot_kmem_def)

text \<open>
  C11. Wakeup on a channel, called with no process lock held, makes exactly the processes
  that sleep on that channel RUNNABLE, the calling process apart; it changes no other
  field of any process and nothing else of the kernel state but the machine's lock words.
\<close>

theorem wakeup_exact:
  assumes "\<forall>i < NPROC. k_can c (LProc i) s" and "length (procs s) = NPROC"
  shows "\<exists>t. wakeup c ch s = Ret () t \<and> only_table s t (after_cs c (kmach s)) \<and>
     (\<forall>i < NPROC. procs t ! i =
        (if cpu_proc (cpus (kmach s) c) \<noteq> Some i \<and> p_state (procs s ! i) = SLEEPING \<and> p_chan (procs s ! i) = ch
         then (procs s ! i)\<lparr>p_state := RUNNABLE\<rparr> else procs s ! i))"
proof -
  have "[0..<NPROC] \<noteq> []" by (simp add: NPROC_def)
  then show ?thesis
    using wakeup_scan_ok [of "[0..<NPROC]" c s ch] assms by (simp add: wakeup_def woken_def)
qed

theorem wakeup_exact_witness:
  "\<exists>t. wakeup 0 (Some ChTicks) (table_state ((replicate NPROC idle_proc)
          [3 := idle_proc\<lparr>p_state := SLEEPING, p_chan := Some ChTicks\<rparr>]) 4) = Ret () t \<and> p_state (procs t ! 3) = RUNNABLE"
proof -
  let ?s = "table_state ((replicate NPROC idle_proc)[3 := idle_proc\<lparr>p_state := SLEEPING, p_chan := Some ChTicks\<rparr>]) 4"
  obtain t where "wakeup 0 (Some ChTicks) ?s = Ret () t" "procs t ! 3 = (procs ?s ! 3)\<lparr>p_state := RUNNABLE\<rparr>"
    using wakeup_exact [of 0 ?s "Some ChTicks"] by (auto simp: NPROC_def)
  then show ?thesis by auto
qed

text \<open>
  C12. kill(pid) returns -1, and changes no process, exactly when no slot of the table
  has that pid; otherwise it returns 0 after setting the killed flag of the first slot that has it, and making that
  process RUNNABLE if it slept.  No other process changes.
\<close>

theorem kill_first_match:
  assumes "\<forall>i < NPROC. k_can c (LProc i) s" and "length (procs s) = NPROC"
  shows "((\<forall>i < NPROC. p_pid (procs s ! i) \<noteq> pid) \<longrightarrow> kill c pid s = Ret (-1) (s\<lparr>kmach := after_cs c (kmach s)\<rparr>)) \<and>
    (\<forall>i < NPROC. p_pid (procs s ! i) = pid \<and> (\<forall>j < i. p_pid (procs s ! j) \<noteq> pid) \<longrightarrow>
      kill c pid s = Ret 0 (s\<lparr>kmach := after_cs c (kmach s), procs := (procs s)[i := (procs s ! i)\<lparr>p_killed := 1,
         p_state := (if p_state (procs s ! i) = SLEEPING then RUNNABLE else p_state (procs s ! i))\<rparr>]\<rparr>))"
proof (intro conjI impI allI)
  assume "\<forall>i < NPROC. p_pid (procs s ! i) \<noteq> pid"
  then show "kill c pid s = Ret (-1) (s\<lparr>kmach := after_cs c (kmach s)\<rparr>)"
    using kill_scan_ok [of "[0..<NPROC]" "[]" c s pid] assms by (simp add: kill_def NPROC_def)
next
  fix i
  assume i: "i < NPROC" and "p_pid (procs s ! i) = pid \<and> (\<forall>j < i. p_pid (procs s ! j) \<noteq> pid)"
  then have "kill_scan c pid ([0..<i] @ i # [Suc i..<NPROC]) s =
      Ret 0 (s\<lparr>kmach := after_cs c (kmach s), procs := (procs s)[i := marked (procs s ! i)]\<rparr>)"
    using kill_scan_ok [of "[0..<i]" "i # [Suc i..<NPROC]" c s pid] assms i by (simp add: ball_Un)
  moreover have "marked q = q\<lparr>p_killed := 1, p_state := (if p_state q = SLEEPING then RUNNABLE else p_state q)\<rparr>" for q
    by (simp add: marked_def)
  ultimately show "kill c pid s = Ret 0 (s\<lparr>kmach := after_cs c (kmach s), procs := (procs s)[i := (procs s ! i)\<lparr>p_killed := 1,
         p_state := (if p_state (procs s ! i) = SLEEPING then RUNNABLE else p_state (procs s ! i))\<rparr>]\<rparr>)"
    by (simp add: kill_def upt_first_split [OF i] del: append.simps kill_scan.simps)
qed

theorem kill_first_match_witness:
  "\<exists>t. kill 0 7 (table_state ((replicate NPROC idle_proc)[3 := idle_proc\<lparr>p_pid := 7, p_state := SLEEPING\<rparr>]) 8) = Ret 0 t
     \<and> p_state (procs t ! 3) = RUNNABLE"
proof -
  let ?s = "table_state ((replicate NPROC idle_proc)[3 := idle_proc\<lparr>p_pid := 7, p_state := SLEEPING\<rparr>]) 8"
  have l: "length (procs ?s) = NPROC" by simp
  have "3 < NPROC" "p_pid (procs ?s ! 3) = 7" "p_state (procs ?s ! 3) = SLEEPING" by (simp_all add: NPROC_def)
  moreover have "p_pid (procs ?s ! j) \<noteq> 7" if "j < 3" for j using that by (simp add: NPROC_def idle_proc_def)
  ultimately show ?thesis using kill_first_match [of 0 ?s 7, OF _ l] l by (simp del: table_state_sel(1))
qed

text \<open>
  allocproc hands out a slot that was UNUSED, with the pid that nextpid held, and
  keeps the pids of the slots in use positive, below nextpid and pairwise different, as long as the counter has not
  reached the end of its 32 bits.
\<close>

lemma allocproc_unique_pids:
  assumes "pids_ok s" and "allocproc lk c s = Ret (Some p) t" and "nextpid s < 2 ^ 31 - 1"
  shows "pids_ok t \<and> p < NPROC \<and> p_state (procs s ! p) = UNUSED \<and> p_state (procs t ! p) = USED \<and>
    p_pid (procs t ! p) = nextpid s \<and> (\<forall>i. i \<noteq> p \<longrightarrow> procs t ! i = procs s ! i)"
proof -
  obtain q u where a: "allocproc_scan c [0..<NPROC] s = Ret (Some q) u" and f: "allocproc_found lk c q u = Ret (Some p) t"
    using assms(2) by (auto simp: allocproc_def split: option.splits)
  note A = allocproc_scan_Some [OF a]
  have pu: "procs u = procs s" "nextpid u = nextpid s" using A rest_procs [of u s] by simp_all
  have q: "q < length (procs u)" using A assms(1) pu by (simp add: pids_ok_def)
  note F = allocproc_found_effect [OF f q]
  have n: "nextpid t = nextpid s + 1" using F(2) pu assms(1,3) by (simp add: pids_ok_def to_int32_small)
  have o: "\<forall>i. i \<noteq> p \<longrightarrow> procs t ! i = procs s ! i" using F(1,4) pu by simp
  have p: "p_state (procs t ! p) = USED" "p_pid (procs t ! p) = nextpid s" "length (procs t) = length (procs s)"
    using F(1,3,5,6) pu by simp_all
  have z: "0 < nextpid s" using assms(1) by (simp add: pids_ok_def)
  have old: "0 < p_pid (procs s ! i) \<and> p_pid (procs s ! i) < nextpid s"
    if "i < NPROC" "p_state (procs s ! i) \<noteq> UNUSED" for i using assms(1) that by (simp add: pids_ok_def)
  have uniq: "i = j" if "i < NPROC" "j < NPROC" "p_state (procs s ! i) \<noteq> UNUSED" "p_state (procs s ! j) \<noteq> UNUSED"
    "p_pid (procs s ! i) = p_pid (procs s ! j)" for i j using assms(1) that unfolding pids_ok_def by blast
  have "pids_ok t" unfolding pids_ok_def
  proof (intro conjI allI impI)
    show "length (procs t) = NPROC" "0 < nextpid t" using p(3) n assms(1) by (simp_all add: pids_ok_def)
  next
    fix i assume i: "i < NPROC" "p_state (procs t ! i) \<noteq> UNUSED"
    have "0 < p_pid (procs t ! i) \<and> p_pid (procs t ! i) < nextpid t"
      using old [of i] i o p n z by (cases "i = p") simp_all
    then show "0 < p_pid (procs t ! i)" "p_pid (procs t ! i) < nextpid t" by simp_all
  next
    fix i j assume i: "i < NPROC" "j < NPROC" and "p_state (procs t ! i) \<noteq> UNUSED \<and> p_state (procs t ! j) \<noteq> UNUSED \<and>
        p_pid (procs t ! i) = p_pid (procs t ! j)"
    then show "i = j" using uniq [of i j] old [of i] old [of j] o p by (cases "i = p"; cases "j = p") simp_all
  qed
  then show ?thesis using A F(1) o p by simp
qed

end
