(* ===== verification/Sleeplock.thy ===== *)
theory Sleeplock
  imports ProcTable
begin

text \<open>
  \<^verbatim>\<open>kernel/sleeplock.c\<close>: locks a process may hold while it sleeps.  A sleep lock is named by the spin lock
  inside it.  \<^verbatim>\<open>acquiresleep\<close> on a lock that is taken ends in \<open>Slept\<close>; \<open>acquiresleep_resume\<close> is what the
  sleeper does when it runs again.
\<close>

section \<open>Data and operations\<close>

record sleeplock =
  sl_locked :: bool
  sl_name :: string
  sl_pid :: int

record sl_st = proc_st +
  slks :: "lockid \<Rightarrow> sleeplock"

definition upd_slk :: "lockid \<Rightarrow> (sleeplock \<Rightarrow> sleeplock) \<Rightarrow> 'z sl_st_scheme \<Rightarrow> 'z sl_st_scheme" where
  "upd_slk l f s = s\<lparr>slks := (slks s)(l := f (slks s l))\<rparr>"

definition initsleeplock :: "lockid \<Rightarrow> string \<Rightarrow> 'z sl_st_scheme \<Rightarrow> 'z sl_st_scheme" where
  "initsleeplock l name s =
     upd_slk l (\<lambda>k. k\<lparr>sl_name := name, sl_locked := False, sl_pid := 0\<rparr>)
       (s\<lparr>kmach := initlock l ''sleep lock'' (kmach s)\<rparr>)"

text \<open>The body of \<^verbatim>\<open>acquiresleep\<close> after the first line, with the inner spin lock held.\<close>

definition acquiresleep_loop :: "nat \<Rightarrow> lockid \<Rightarrow> 'z sl_st_scheme \<Rightarrow> ('z sl_st_scheme, unit) outcome" where
  "acquiresleep_loop c l s =
     (if sl_locked (slks s l) then sleep c (Some (ChSleeplock l)) l s
      else
        andthen (curproc c (upd_slk l (\<lambda>k. k\<lparr>sl_locked := True\<rparr>) s)) (\<lambda>p s.
        k_release c l (upd_slk l (\<lambda>k. k\<lparr>sl_pid := p_pid (procs s ! p)\<rparr>) s)))"

definition acquiresleep :: "nat \<Rightarrow> lockid \<Rightarrow> 'z sl_st_scheme \<Rightarrow> ('z sl_st_scheme, unit) outcome" where
  "acquiresleep c l s = andthen (k_acquire c l s) (\<lambda>_ s. acquiresleep_loop c l s)"

definition acquiresleep_resume ::
    "nat \<Rightarrow> nat \<Rightarrow> lockid \<Rightarrow> bool \<Rightarrow> 'z sl_st_scheme \<Rightarrow> ('z sl_st_scheme, unit) outcome" where
  "acquiresleep_resume c p l old_intena s =
     andthen (sleep_resume c p l old_intena s) (\<lambda>_ s. acquiresleep_loop c l s)"

definition releasesleep :: "nat \<Rightarrow> lockid \<Rightarrow> 'z sl_st_scheme \<Rightarrow> ('z sl_st_scheme, unit) outcome" where
  "releasesleep c l s =
     andthen (k_acquire c l s) (\<lambda>_ s.
     andthen (wakeup c (Some (ChSleeplock l)) (upd_slk l (\<lambda>k. k\<lparr>sl_locked := False, sl_pid := 0\<rparr>) s)) (\<lambda>_ s.
     k_release c l s))"

definition holdingsleep :: "nat \<Rightarrow> lockid \<Rightarrow> 'z sl_st_scheme \<Rightarrow> ('z sl_st_scheme, bool) outcome" where
  "holdingsleep c l s =
     andthen (k_acquire c l s) (\<lambda>_ s.
     andthen (if sl_locked (slks s l)
              then andthen (curproc c s) (\<lambda>p s. Ret (sl_pid (slks s l) = p_pid (procs s ! p)) s)
              else Ret False s) (\<lambda>r s.
     andthen (k_release c l s) (\<lambda>_ s. Ret r s)))"

section \<open>Runs of one process\<close>

text \<open>
  \<open>calm c s\<close>: hart \<open>c\<close> runs a process and no spin lock is held, as between two calls into the kernel's
  lower layers.  The operations of this and the following components are characterised from such states; they
  end in one.
\<close>

definition calm :: "nat \<Rightarrow> 'z proc_st_scheme \<Rightarrow> bool" where
  "calm c s \<longleftrightarrow> cpu_ok c (kmach s) \<and> (\<forall>l. lock_free l (kmach s)) \<and>
     (\<exists>p. cpu_proc (cpus (kmach s) c) = Some p \<and> p < NPROC) \<and> length (procs s) = NPROC"

abbreviation me :: "nat \<Rightarrow> 'z proc_st_scheme \<Rightarrow> nat" where
  "me c s \<equiv> the (cpu_proc (cpus (kmach s) c))"

abbreviation mypid :: "nat \<Rightarrow> 'z proc_st_scheme \<Rightarrow> int" where
  "mypid c s \<equiv> p_pid (procs s ! me c s)"

lemma calm_can: "calm c s \<Longrightarrow> k_can c l s"
  by (simp add: calm_def can_acquire_def)

lemma calm_cpu_ok: "calm c s \<Longrightarrow> cpu_ok c (kmach s)"
  by (simp add: calm_def)

lemma calm_free: "calm c s \<Longrightarrow> lock_free l (kmach s)"
  by (simp add: calm_def)

lemma calm_proc: "calm c s \<Longrightarrow> cpu_proc (cpus (kmach s) c) = Some (me c s)"
  by (auto simp: calm_def)

text \<open>\<open>above s\<close> is what the state has besides the machine, memory and the process table.\<close>

abbreviation above :: "'z proc_st_scheme \<Rightarrow> 'z" where
  "above s \<equiv> proc_st.more s"

text \<open>
  \<open>settled c s t\<close>: \<open>t\<close> differs from \<open>s\<close> below \<open>above\<close> at most in the saved interrupt flags and in processes made
  runnable; the process of hart \<open>c\<close> is the same.
\<close>

abbreviation stateless :: "proc list \<Rightarrow> proc list" where
  "stateless \<equiv> List.map (p_state_update (\<lambda>_. UNUSED))"

definition settled :: "nat \<Rightarrow> 'z proc_st_scheme \<Rightarrow> 'z proc_st_scheme \<Rightarrow> bool" where
  "settled c s t \<longleftrightarrow> calm c t \<and> me c t = me c s \<and> mem t = mem s \<and> freelist t = freelist s \<and>
     stateless (procs t) = stateless (procs s) \<and> procs t ! me c s = procs s ! me c s"

lemma settled_refl: "calm c s \<Longrightarrow> settled c s s"
  by (simp add: settled_def)

lemma settled_trans: "settled c s t \<Longrightarrow> settled c t u \<Longrightarrow> settled c s u"
  by (simp add: settled_def)

lemma settled_pid: "settled c s t \<Longrightarrow> mypid c t = mypid c s"
  by (simp add: settled_def)

lemma curproc_ok [simp]:
  "cpu_ok c (kmach s) \<Longrightarrow> cpu_proc (cpus (kmach s) c) = Some p \<Longrightarrow>
   curproc c s = Ret p (s\<lparr>kmach := after_cs c (kmach s)\<rparr>)"
  by (simp add: curproc_def)

lemma cpu_ok_acquired [simp]: "cpu_ok c m \<Longrightarrow> cpu_ok c (acquired c l m)"
  by (auto simp: cpu_ok_def)

lemma calm_after_cs [simp]: "calm c (s\<lparr>kmach := after_cs c (kmach s)\<rparr>) = calm c s"
  by (simp add: calm_def cpu_ok_def lock_free_def)

lemma calm_len: "calm c s \<Longrightarrow> length (procs s) = NPROC"
  by (simp add: calm_def)

lemma calm_me: "calm c s \<Longrightarrow> me c s < NPROC"
  by (auto simp: calm_def)

lemma calm_procs [simp]: "length ps = NPROC \<Longrightarrow> calm c s \<Longrightarrow> calm c (s\<lparr>procs := ps\<rparr>)"
  by (simp add: calm_def)

lemmas calm_simps [simp] = calm_can calm_cpu_ok calm_free

lemma settled_after_cs: "calm c s \<Longrightarrow> settled c s (s\<lparr>kmach := after_cs c (kmach s)\<rparr>)"
  by (simp add: settled_def)

section \<open>Closed forms\<close>

lemma above_kmach_procs [simp]: "above (s\<lparr>kmach := m\<rparr>) = above s" "above (s\<lparr>procs := ps\<rparr>) = above s"
  by (cases s; simp)+

lemma slks_low_commute [simp]:
  "s\<lparr>slks := f, kmach := m\<rparr> = s\<lparr>kmach := m, slks := f\<rparr>" "s\<lparr>slks := f, procs := ps\<rparr> = s\<lparr>procs := ps, slks := f\<rparr>"
  by (cases s; simp)+

lemma acquiresleep_free:
  assumes "calm c s" and "\<not> sl_locked (slks s l)"
  shows "acquiresleep c l s = Ret () (upd_slk l (\<lambda>k. k\<lparr>sl_locked := True, sl_pid := mypid c s\<rparr>)
      (s\<lparr>kmach := after_cs c (kmach s)\<rparr>))"
  using assms calm_proc [OF assms(1)] by (simp add: acquiresleep_def acquiresleep_loop_def upd_slk_def)

lemma holdingsleep_ok:
  assumes "calm c s"
  shows "holdingsleep c l s = Ret (sl_locked (slks s l) \<and> sl_pid (slks s l) = mypid c s) (s\<lparr>kmach := after_cs c (kmach s)\<rparr>)"
  using assms calm_proc [OF assms(1)] by (simp add: holdingsleep_def)

text \<open>Wakeup with one other spin lock held, as every user of \<^verbatim>\<open>sleep\<close> calls it.\<close>

lemma wakeup_locked:
  assumes "calm c s" and "kmach t = acquired c l (kmach s)" and "procs t = procs s" and "\<forall>i. l \<noteq> LProc i"
  shows "\<exists>ps. wakeup c ch t = Ret () (t\<lparr>procs := ps\<rparr>) \<and> length ps = NPROC \<and>
     (\<forall>i < NPROC. ps ! i = woken (Some (me c s)) ch i (procs s ! i))"
proof -
  have len: "length (procs s) = NPROC" using assms(1) by (rule calm_len)
  have me: "cpu_proc (cpus (kmach t) c) = Some (me c s)" using calm_proc [OF assms(1)] assms(2) by simp
  have k: "after_cs c (kmach t) = kmach t" using assms(1,2) by simp
  have "\<forall>i \<in> set [0..<NPROC]. k_can c (LProc i) t" using assms by (simp; metis)
  moreover have "[0..<NPROC] \<noteq> []" by (simp add: NPROC_def)
  ultimately obtain u where u: "wakeup c ch t = Ret () u" "only_table t u (after_cs c (kmach t))"
    "\<forall>i < NPROC. procs u ! i = woken (Some (me c s)) ch i (procs s ! i)"
    using wakeup_scan_ok [of "[0..<NPROC]" c t ch] len assms(3) me unfolding wakeup_def by auto
  obtain ps where ps: "u = t\<lparr>kmach := kmach t, procs := ps\<rparr>" "length ps = NPROC"
    using u(2) len assms(3) unfolding only_table_def k by auto
  then have "u = t\<lparr>procs := ps\<rparr>" by simp
  then show ?thesis using u ps(2) by (intro exI [of _ ps]) simp
qed

lemma stateless_woken:
  assumes "length ps = length qs" and "\<forall>i < length qs. ps ! i = woken m ch i (qs ! i)"
  shows "stateless ps = stateless qs"
  using assms by (intro nth_equalityI) (simp_all add: woken_def)

lemma settled_wake:
  assumes "calm c s" and "length ps = NPROC" and "\<forall>i < NPROC. ps ! i = woken (Some (me c s)) ch i (procs s ! i)"
  shows "settled c s (s\<lparr>kmach := after_cs c (kmach s), procs := ps\<rparr>)"
proof -
  have l: "length (procs s) = NPROC" and m: "me c s < NPROC"
    using calm_len [OF assms(1)] calm_me [OF assms(1)] by simp_all
  have "stateless ps = stateless (procs s)" using stateless_woken [of ps "procs s" "Some (me c s)" ch] assms l by simp
  moreover have "ps ! me c s = procs s ! me c s" using assms(3) m by (simp add: woken_def)
  moreover have "calm c (s\<lparr>kmach := after_cs c (kmach s), procs := ps\<rparr>)"
    using assms(1,2) calm_procs [of ps c "s\<lparr>kmach := after_cs c (kmach s)\<rparr>"] by simp
  ultimately show ?thesis by (simp add: settled_def)
qed

lemma releasesleep_ok:
  assumes "calm c s" and "\<forall>i. l \<noteq> LProc i"
  shows "\<exists>ps. releasesleep c l s = Ret () (upd_slk l (\<lambda>k. k\<lparr>sl_locked := False, sl_pid := 0\<rparr>)
       (s\<lparr>kmach := after_cs c (kmach s), procs := ps\<rparr>)) \<and> length ps = NPROC \<and>
     (\<forall>i < NPROC. ps ! i = woken (Some (me c s)) (Some (ChSleeplock l)) i (procs s ! i))"
proof -
  let ?t = "upd_slk l (\<lambda>k. k\<lparr>sl_locked := False, sl_pid := 0\<rparr>) (s\<lparr>kmach := acquired c l (kmach s)\<rparr>)"
  obtain ps where ps: "wakeup c (Some (ChSleeplock l)) ?t = Ret () (?t\<lparr>procs := ps\<rparr>)" "length ps = NPROC"
     "\<forall>i < NPROC. ps ! i = woken (Some (me c s)) (Some (ChSleeplock l)) i (procs s ! i)"
    using wakeup_locked [OF assms(1) _ _ assms(2), of ?t "Some (ChSleeplock l)"] by (auto simp: upd_slk_def)
  have "k_release c l (?t\<lparr>procs := ps\<rparr>) = Ret () (?t\<lparr>procs := ps, kmach := after_cs c (kmach s)\<rparr>)"
    using assms(1) by (intro k_release_ok) (simp_all add: upd_slk_def)
  moreover have "?t\<lparr>procs := ps, kmach := after_cs c (kmach s)\<rparr> =
      upd_slk l (\<lambda>k. k\<lparr>sl_locked := False, sl_pid := 0\<rparr>) (s\<lparr>kmach := after_cs c (kmach s), procs := ps\<rparr>)"
    by (cases s) (simp add: upd_slk_def)
  ultimately have "releasesleep c l s = Ret () (upd_slk l (\<lambda>k. k\<lparr>sl_locked := False, sl_pid := 0\<rparr>)
       (s\<lparr>kmach := after_cs c (kmach s), procs := ps\<rparr>))"
    using assms(1) ps(1) by (simp add: releasesleep_def)
  then show ?thesis using ps(2,3) by (intro exI [of _ ps]) simp
qed

text \<open>A process that finds the lock taken leaves the processor asleep on it, its spin lock free again.\<close>

lemma sleep_locked:
  assumes "calm c s" and "noff (cpus (kmach s) c) = 0" and "\<forall>i. l \<noteq> LProc i" and "kmach t = acquired c l (kmach s)"
    and "procs t = procs s"
  shows "\<exists>m. sleep c ch l t = Slept (t\<lparr>kmach := m,
      procs := (procs s)[me c s := (procs s ! me c s)\<lparr>p_chan := ch, p_state := SLEEPING\<rparr>]\<rparr>) \<and>
      lock_free l m \<and> holding c (LProc (me c s)) m \<and> noff (cpus m c) = 1"
proof -
  let ?p = "LProc (me c s)" and ?m = "acquired c l (kmach s)"
  let ?n = "acquired c ?p ?m"
  have p: "cpu_proc (cpus (kmach s) c) = Some (me c s)" using calm_proc [OF assms(1)] .
  have lp: "?p \<noteq> l" using assms(3) by metis
  then have cp: "k_can c ?p t" using assms by simp
  define m where "m = upd_cpu c (\<lambda>k. k\<lparr>noff := noff k - 1\<rparr>)
    (upd_lock l (\<lambda>k. k\<lparr>locked := False\<rparr>) (upd_lock l (\<lambda>k. k\<lparr>lk_cpu := None\<rparr>) ?n))"
  have f: "\<not> locked (locks (kmach s) l)" using assms(1) calm_free [of c s l] by (simp add: lock_free_def)
  have m: "lock_free l m" "holding c ?p m" "noff (cpus m c) = 1" "\<not> sie m c" "cpu_proc (cpus m c) = Some (me c s)"
    using assms(2) lp p by (simp_all add: m_def lock_free_def holding_def upd_cpu_def upd_lock_def)
  have r: "k_release c l (t\<lparr>kmach := ?n\<rparr>) = Ret () (t\<lparr>kmach := m\<rparr>)"
    using assms(2) lp by (simp add: k_release_def on_mach_def release_def holding_def m_def upd_lock_def
        pop_off_def intr_get_def upd_cpu_def Let_def)
  have ac: "after_cs c m = m" "cpu_ok c m" using m(3,4) by (simp_all add: after_cs_def cpu_ok_def)
  have "sleep c ch l t = sched c (upd_proc (me c s) (\<lambda>q. q\<lparr>p_chan := ch, p_state := SLEEPING\<rparr>) (t\<lparr>kmach := m\<rparr>))"
    using cp p assms(1,4) r by (simp add: sleep_def)
  also have "\<dots> = Slept (t\<lparr>kmach := m,
      procs := (procs s)[me c s := (procs s ! me c s)\<lparr>p_chan := ch, p_state := SLEEPING\<rparr>]\<rparr>)"
    using m ac calm_me [OF assms(1)] calm_len [OF assms(1)] assms(5)
    by (simp add: sched_def upd_proc_def intr_get_def)
  finally show ?thesis using m by (intro exI [of _ m]) simp
qed

section \<open>Properties\<close>

text \<open>
  C13. A process that asks for a free sleep lock holds it on return.  If the lock is
  taken it leaves the processor SLEEPING on the lock, with the lock's owner unchanged and the inner spin lock
  free.  When the lock is released, every process asleep on it becomes RUNNABLE, and no other, so that no
  wakeup is lost.
\<close>

theorem sleeplock_handover:
  assumes "calm c s" and "noff (cpus (kmach s) c) = 0" and "\<forall>i. l \<noteq> LProc i"
  shows "(\<not> sl_locked (slks s l) \<longrightarrow> (\<exists>t u. acquiresleep c l s = Ret () t \<and> holdingsleep c l t = Ret True u)) \<and>
    (sl_locked (slks s l) \<longrightarrow> (\<exists>t. acquiresleep c l s = Slept t \<and> slks t = slks s \<and> lock_free l (kmach t) \<and>
        p_state (procs t ! me c s) = SLEEPING \<and> p_chan (procs t ! me c s) = Some (ChSleeplock l))) \<and>
    (\<exists>t. releasesleep c l s = Ret () t \<and> \<not> sl_locked (slks t l) \<and> (\<forall>i < NPROC. i \<noteq> me c s \<longrightarrow>
        p_state (procs t ! i) = (if p_state (procs s ! i) = SLEEPING \<and> p_chan (procs s ! i) = Some (ChSleeplock l)
                                 then RUNNABLE else p_state (procs s ! i))))"
proof (intro conjI impI)
  assume f: "\<not> sl_locked (slks s l)"
  let ?t = "upd_slk l (\<lambda>k. k\<lparr>sl_locked := True, sl_pid := mypid c s\<rparr>) (s\<lparr>kmach := after_cs c (kmach s)\<rparr>)"
  have "calm c ?t" using assms(1) calm_after_cs [of c s] by (simp add: upd_slk_def calm_def del: calm_simps calm_after_cs)
  then have "\<exists>u. holdingsleep c l ?t = Ret True u" by (simp add: holdingsleep_ok upd_slk_def)
  then show "\<exists>t u. acquiresleep c l s = Ret () t \<and> holdingsleep c l t = Ret True u"
    using acquiresleep_free [OF assms(1) f] by blast
next
  assume "sl_locked (slks s l)"
  then show "\<exists>t. acquiresleep c l s = Slept t \<and> slks t = slks s \<and> lock_free l (kmach t) \<and>
        p_state (procs t ! me c s) = SLEEPING \<and> p_chan (procs t ! me c s) = Some (ChSleeplock l)"
    using sleep_locked [OF assms, of "s\<lparr>kmach := acquired c l (kmach s)\<rparr>" "Some (ChSleeplock l)"] assms(1)
      calm_me [OF assms(1)] calm_len [OF assms(1)]
    by (auto simp: acquiresleep_def acquiresleep_loop_def)
next
  show "\<exists>t. releasesleep c l s = Ret () t \<and> \<not> sl_locked (slks t l) \<and> (\<forall>i < NPROC. i \<noteq> me c s \<longrightarrow>
        p_state (procs t ! i) = (if p_state (procs s ! i) = SLEEPING \<and> p_chan (procs s ! i) = Some (ChSleeplock l)
                                 then RUNNABLE else p_state (procs s ! i)))"
    using releasesleep_ok [OF assms(1,3)] by (auto simp: upd_slk_def woken_def)
qed

text \<open>Hart 0 runs process 0; process 5 waits for the lock of buffer 2, which is taken.\<close>

definition waiting_state :: sl_st where
  "waiting_state = \<lparr>kmach = upd_cpu 0 (\<lambda>k. k\<lparr>cpu_proc := Some 0\<rparr>) (kmach boot_kmem), mem = (\<lambda>_. 0), freelist = 0,
     kernel_pagetable = 0, satp = (\<lambda>_. 0),
     procs = (replicate NPROC idle_proc)[5 := idle_proc\<lparr>p_state := SLEEPING, p_chan := Some (ChSleeplock (LBufSleep 2))\<rparr>],
     nextpid = 8, initproc = Some 0,
     slks = (\<lambda>_. \<lparr>sl_locked = True, sl_name = [], sl_pid = 3\<rparr>)\<rparr>"

theorem sleeplock_handover_witness:
  "(\<exists>t. acquiresleep 0 (LBufSleep 2) waiting_state = Slept t \<and> p_state (procs t ! 0) = SLEEPING) \<and>
   (\<exists>t. releasesleep 0 (LBufSleep 2) waiting_state = Ret () t \<and> p_state (procs t ! 5) = RUNNABLE)"
proof -
  have w: "calm 0 waiting_state"
    by (simp add: calm_def waiting_state_def boot_kmem_def upd_cpu_def cpu_ok_def lock_free_def NPROC_def del: calm_simps)
  have n: "noff (cpus (kmach waiting_state) 0) = 0" "me 0 waiting_state = 0" "sl_locked (slks waiting_state (LBufSleep 2))"
    "p_state (procs waiting_state ! 5) = SLEEPING" "p_chan (procs waiting_state ! 5) = Some (ChSleeplock (LBufSleep 2))"
    by (simp_all add: waiting_state_def boot_kmem_def upd_cpu_def NPROC_def)
  show ?thesis
    using sleeplock_handover [OF w n(1), of "LBufSleep 2"] n(2-) by (auto simp: NPROC_def)
qed

end
