(* ===== verification/Bio.thy ===== *)
theory Bio
  imports Sleeplock
begin

text \<open>
  \<^verbatim>\<open>kernel/bio.c\<close>: the cache of disk blocks.  A \<^verbatim>\<open>struct buf *\<close> is an index into \<open>bufs\<close>; the list head
  \<^verbatim>\<open>bcache.head\<close> has index \<^verbatim>\<open>NBUF\<close>.  The links \<^verbatim>\<open>prev\<close> and \<^verbatim>\<open>next\<close> are kept as the code keeps them, and the
  predicate \<open>lru\<close> relates them to the list of buffers, most recently used first.

  \<open>disk_rw\<close> is the effect of \<^verbatim>\<open>virtio_disk_rw\<close> as its caller sees it, once the device has served the request;
  theory \<open>Virtio\<close> models the driver itself.  \<open>dtrace\<close> records the order in which blocks reach the disk.
\<close>

section \<open>Data\<close>

definition BSIZE :: nat where
  "BSIZE = 1024"

definition NBUF :: nat where
  "NBUF = 30"

definition ROOTDEV :: u32 where
  "ROOTDEV = 1"

type_synonym block = "u8 list"

record buf =
  b_valid :: bool
  b_disk :: bool
  b_dev :: u32
  b_blockno :: u32
  b_refcnt :: u32
  b_prev :: nat
  b_next :: nat
  b_data :: block

record bio_st = sl_st +
  bufs :: "buf list"
  disk :: "u32 \<Rightarrow> block"
  dtrace :: "(u32 \<times> block) list"

definition upd_buf :: "nat \<Rightarrow> (buf \<Rightarrow> buf) \<Rightarrow> 'z bio_st_scheme \<Rightarrow> 'z bio_st_scheme" where
  "upd_buf i f s = s\<lparr>bufs := (bufs s)[i := f (bufs s ! i)]\<rparr>"

section \<open>Operations\<close>

definition binit_one :: "nat \<Rightarrow> 'z bio_st_scheme \<Rightarrow> 'z bio_st_scheme" where
  "binit_one b s =
     (let s = upd_buf b (\<lambda>x. x\<lparr>b_next := b_next (bufs s ! NBUF)\<rparr>) s;
          s = upd_buf b (\<lambda>x. x\<lparr>b_prev := NBUF\<rparr>) s;
          s = initsleeplock (LBufSleep b) ''buffer'' s;
          s = upd_buf (b_next (bufs s ! NBUF)) (\<lambda>x. x\<lparr>b_prev := b\<rparr>) s
      in upd_buf NBUF (\<lambda>x. x\<lparr>b_next := b\<rparr>) s)"

definition binit :: "'z bio_st_scheme \<Rightarrow> 'z bio_st_scheme" where
  "binit s =
     (let s = s\<lparr>kmach := initlock LBcache ''bcache'' (kmach s)\<rparr>;
          s = upd_buf NBUF (\<lambda>x. x\<lparr>b_prev := NBUF\<rparr>) s;
          s = upd_buf NBUF (\<lambda>x. x\<lparr>b_next := NBUF\<rparr>) s
      in fold binit_one [0..<NBUF] s)"

text \<open>
  The two loops of \<^verbatim>\<open>bget\<close> follow \<^verbatim>\<open>next\<close> or \<^verbatim>\<open>prev\<close> until they are back at the head.  The first argument bounds
  the number of links followed; \<open>None\<close> is a list that does not come back within it.
\<close>

fun bscan :: "nat \<Rightarrow> (buf \<Rightarrow> nat) \<Rightarrow> (buf \<Rightarrow> bool) \<Rightarrow> buf list \<Rightarrow> nat \<Rightarrow> nat option option" where
  "bscan 0 link P bs b = None"
| "bscan (Suc n) link P bs b =
     (if b = NBUF then Some None
      else if P (bs ! b) then Some (Some b)
      else bscan n link P bs (link (bs ! b)))"

definition bget :: "nat \<Rightarrow> u32 \<Rightarrow> u32 \<Rightarrow> 'z bio_st_scheme \<Rightarrow> ('z bio_st_scheme, nat) outcome" where
  "bget c dev blockno s =
     andthen (k_acquire c LBcache s) (\<lambda>_ s.
     case bscan (Suc NBUF) b_next (\<lambda>x. b_dev x = dev \<and> b_blockno x = blockno) (bufs s) (b_next (bufs s ! NBUF)) of
       None \<Rightarrow> Diverge
     | Some (Some b) \<Rightarrow>
         andthen (k_release c LBcache (upd_buf b (\<lambda>x. x\<lparr>b_refcnt := b_refcnt x + 1\<rparr>) s)) (\<lambda>_ s.
         andthen (acquiresleep c (LBufSleep b) s) (\<lambda>_ s. Ret b s))
     | Some None \<Rightarrow>
         (case bscan (Suc NBUF) b_prev (\<lambda>x. b_refcnt x = 0) (bufs s) (b_prev (bufs s ! NBUF)) of
            None \<Rightarrow> Diverge
          | Some (Some b) \<Rightarrow>
              andthen (k_release c LBcache (upd_buf b (\<lambda>x. x\<lparr>b_dev := dev, b_blockno := blockno, b_valid := False,
                b_refcnt := 1\<rparr>) s)) (\<lambda>_ s.
              andthen (acquiresleep c (LBufSleep b) s) (\<lambda>_ s. Ret b s))
          | Some None \<Rightarrow> Panic ''bget: no buffers''))"

definition disk_rw :: "nat \<Rightarrow> bool \<Rightarrow> 'z bio_st_scheme \<Rightarrow> 'z bio_st_scheme" where
  "disk_rw b write s =
     (let x = bufs s ! b in
      if write then s\<lparr>disk := (disk s)(b_blockno x := b_data x), dtrace := dtrace s @ [(b_blockno x, b_data x)]\<rparr>
      else upd_buf b (\<lambda>x. x\<lparr>b_data := disk s (b_blockno x)\<rparr>) s)"

definition bread :: "nat \<Rightarrow> u32 \<Rightarrow> u32 \<Rightarrow> 'z bio_st_scheme \<Rightarrow> ('z bio_st_scheme, nat) outcome" where
  "bread c dev blockno s =
     andthen (bget c dev blockno s) (\<lambda>b s.
     if \<not> b_valid (bufs s ! b) then Ret b (upd_buf b (\<lambda>x. x\<lparr>b_valid := True\<rparr>) (disk_rw b False s))
     else Ret b s)"

definition bwrite :: "nat \<Rightarrow> nat \<Rightarrow> 'z bio_st_scheme \<Rightarrow> ('z bio_st_scheme, unit) outcome" where
  "bwrite c b s =
     andthen (holdingsleep c (LBufSleep b) s) (\<lambda>h s.
     if \<not> h then Panic ''bwrite'' else Ret () (disk_rw b True s))"

text \<open>The six link updates of \<^verbatim>\<open>brelse\<close>.\<close>

definition lru_front :: "nat \<Rightarrow> 'z bio_st_scheme \<Rightarrow> 'z bio_st_scheme" where
  "lru_front b s =
     (let s = upd_buf (b_next (bufs s ! b)) (\<lambda>x. x\<lparr>b_prev := b_prev (bufs s ! b)\<rparr>) s;
          s = upd_buf (b_prev (bufs s ! b)) (\<lambda>x. x\<lparr>b_next := b_next (bufs s ! b)\<rparr>) s;
          s = upd_buf b (\<lambda>x. x\<lparr>b_next := b_next (bufs s ! NBUF)\<rparr>) s;
          s = upd_buf b (\<lambda>x. x\<lparr>b_prev := NBUF\<rparr>) s;
          s = upd_buf (b_next (bufs s ! NBUF)) (\<lambda>x. x\<lparr>b_prev := b\<rparr>) s
      in upd_buf NBUF (\<lambda>x. x\<lparr>b_next := b\<rparr>) s)"

definition brelse :: "nat \<Rightarrow> nat \<Rightarrow> 'z bio_st_scheme \<Rightarrow> ('z bio_st_scheme, unit) outcome" where
  "brelse c b s =
     andthen (holdingsleep c (LBufSleep b) s) (\<lambda>h s.
     if \<not> h then Panic ''brelse''
     else
       andthen (releasesleep c (LBufSleep b) s) (\<lambda>_ s.
       andthen (k_acquire c LBcache s) (\<lambda>_ s.
       let s = upd_buf b (\<lambda>x. x\<lparr>b_refcnt := b_refcnt x - 1\<rparr>) s;
           s = (if b_refcnt (bufs s ! b) = 0 then lru_front b s else s)
       in k_release c LBcache s)))"

definition bpin :: "nat \<Rightarrow> nat \<Rightarrow> 'z bio_st_scheme \<Rightarrow> ('z bio_st_scheme, unit) outcome" where
  "bpin c b s =
     andthen (k_acquire c LBcache s) (\<lambda>_ s. k_release c LBcache (upd_buf b (\<lambda>x. x\<lparr>b_refcnt := b_refcnt x + 1\<rparr>) s))"

definition bunpin :: "nat \<Rightarrow> nat \<Rightarrow> 'z bio_st_scheme \<Rightarrow> ('z bio_st_scheme, unit) outcome" where
  "bunpin c b s =
     andthen (k_acquire c LBcache s) (\<lambda>_ s. k_release c LBcache (upd_buf b (\<lambda>x. x\<lparr>b_refcnt := b_refcnt x - 1\<rparr>) s))"

section \<open>The ring of buffers\<close>

text \<open>\<open>ring nx pv a xs b\<close>: following \<open>nx\<close> from \<open>a\<close> gives \<open>xs\<close> and then \<open>b\<close>, and \<open>pv\<close> leads back.\<close>

fun ring :: "(nat \<Rightarrow> nat) \<Rightarrow> (nat \<Rightarrow> nat) \<Rightarrow> nat \<Rightarrow> nat list \<Rightarrow> nat \<Rightarrow> bool" where
  "ring nx pv a [] b = (nx a = b \<and> pv b = a)"
| "ring nx pv a (x # xs) b = (nx a = x \<and> pv x = a \<and> ring nx pv x xs b)"

lemma ring_ConsI: "nx a = x \<Longrightarrow> pv x = a \<Longrightarrow> ring nx pv x xs b \<Longrightarrow> ring nx pv a (x # xs) b"
  by simp

lemma ring_append: "ring nx pv a (xs @ y # ys) b \<longleftrightarrow> ring nx pv a xs y \<and> ring nx pv y ys b"
  by (induction xs arbitrary: a) auto

lemma ring_rev: "ring pv nx b (rev xs) a = ring nx pv a xs b"
proof (induction xs arbitrary: a)
  case (Cons x xs)
  then show ?case by (simp add: ring_append) auto
qed auto

lemma ring_frame:
  "ring nx pv a xs b \<Longrightarrow> \<forall>z \<in> set (a # xs). nx' z = nx z \<Longrightarrow> \<forall>z \<in> set (xs @ [b]). pv' z = pv z \<Longrightarrow> ring nx' pv' a xs b"
  by (induction xs arbitrary: a) auto

lemma ring_ends: "ring nx pv a xs b \<Longrightarrow> pv b \<in> set (a # xs) \<and> nx a \<in> set (xs @ [b])"
  by (induction xs arbitrary: a) auto

lemma ring_unlink:
  "ring nx pv a xs y \<Longrightarrow> ring nx pv y ys b \<Longrightarrow> distinct (xs @ ys) \<Longrightarrow> a \<notin> set (xs @ ys) \<Longrightarrow> b \<notin> set (xs @ ys) \<Longrightarrow>
   y \<notin> set (a # b # xs @ ys) \<Longrightarrow> ring (nx(pv y := nx y)) (pv(nx y := pv y)) a (xs @ ys) b"
proof (induction xs arbitrary: a)
  case Nil
  then show ?case
  proof (cases ys)
    case (Cons z zs)
    with Nil have e: "nx a = y" "pv y = a" "nx y = z" "ring nx pv z zs b" by simp_all
    from e(4) have "ring (nx(a := z)) (pv(z := a)) z zs b"
      by (rule ring_frame) (use Nil Cons in auto)
    then show ?thesis unfolding e Cons append_Nil by (intro ring_ConsI) (assumption | simp)+
  qed simp
next
  case (Cons x xs)
  have "ring (nx(pv y := nx y)) (pv(nx y := pv y)) x (xs @ ys) b" by (rule Cons.IH) (use Cons.prems in auto)
  moreover have "pv y \<in> set (x # xs)" using ring_ends [of nx pv x xs y] Cons.prems(1) by simp
  moreover have "nx y \<in> set (ys @ [b])" using ring_ends [OF Cons.prems(2)] by simp
  ultimately have "(nx(pv y := nx y)) a = x" "(pv(nx y := pv y)) x = a"
    "ring (nx(pv y := nx y)) (pv(nx y := pv y)) x (xs @ ys) b" using Cons.prems by auto
  then show ?case unfolding append_Cons by (rule ring_ConsI)
qed

lemma ring_push:
  assumes "ring nx pv h xs b" and "y \<notin> set (h # b # xs)" and "h \<notin> set xs" and "distinct xs" and "b \<notin> set xs"
  shows "ring (nx(y := nx h, h := y)) (pv(y := h, nx h := y)) h (y # xs) b"
proof (cases xs)
  case (Cons z zs)
  with assms(1) have "ring nx pv z zs b" by simp
  then have "ring (nx(y := nx h, h := y)) (pv(y := h, nx h := y)) z zs b"
    by (rule ring_frame) (use assms Cons in auto)
  moreover have "(nx(y := nx h, h := y)) h = y" "(nx(y := nx h, h := y)) y = z" "(pv(y := h, nx h := y)) y = h"
    "(pv(y := h, nx h := y)) z = y" using assms Cons by auto
  ultimately show ?thesis unfolding Cons by (intro ring_ConsI) assumption+
qed (use assms in auto)

abbreviation nexts :: "buf list \<Rightarrow> nat \<Rightarrow> nat" where
  "nexts bs \<equiv> \<lambda>i. b_next (bs ! i)"

abbreviation prevs :: "buf list \<Rightarrow> nat \<Rightarrow> nat" where
  "prevs bs \<equiv> \<lambda>i. b_prev (bs ! i)"

definition lru :: "buf list \<Rightarrow> nat list \<Rightarrow> bool" where
  "lru bs xs \<longleftrightarrow> length bs = Suc NBUF \<and> distinct xs \<and> set xs = {..<NBUF} \<and> ring (nexts bs) (prevs bs) NBUF xs NBUF"

lemma lru_length: "lru bs xs \<Longrightarrow> length xs = NBUF"
  unfolding lru_def by (metis card_lessThan distinct_card)

lemma bscan_find:
  assumes "ring (\<lambda>i. link (bs ! i)) pv a xs NBUF" and "NBUF \<notin> set xs" and "length xs \<le> n"
  shows "bscan (Suc n) link P bs (link (bs ! a)) = Some (List.find (\<lambda>i. P (bs ! i)) xs)"
  using assms
proof (induction xs arbitrary: a n)
  case (Cons x xs)
  then obtain k where k: "n = Suc k" by (cases n) auto
  have "bscan (Suc k) link P bs (link (bs ! x)) = Some (List.find (\<lambda>i. P (bs ! i)) xs)"
    by (rule Cons.IH) (use Cons.prems k in auto)
  then show ?case using Cons.prems k by auto
qed simp

lemma bscan_lru:
  assumes "lru bs xs"
  shows "bscan (Suc NBUF) b_next P bs (b_next (bs ! NBUF)) = Some (List.find (\<lambda>i. P (bs ! i)) xs)"
    and "bscan (Suc NBUF) b_prev P bs (b_prev (bs ! NBUF)) = Some (List.find (\<lambda>i. P (bs ! i)) (rev xs))"
proof -
  have r: "ring (nexts bs) (prevs bs) NBUF xs NBUF" and n: "NBUF \<notin> set xs" using assms by (auto simp: lru_def)
  show "bscan (Suc NBUF) b_next P bs (b_next (bs ! NBUF)) = Some (List.find (\<lambda>i. P (bs ! i)) xs)"
    using r n lru_length [OF assms] by (intro bscan_find) auto
  have "ring (prevs bs) (nexts bs) NBUF (rev xs) NBUF" using r by (simp only: ring_rev)
  then show "bscan (Suc NBUF) b_prev P bs (b_prev (bs ! NBUF)) = Some (List.find (\<lambda>i. P (bs ! i)) (rev xs))"
    using n lru_length [OF assms] by (intro bscan_find) auto
qed

lemma links_upd_buf:
  "nexts (bufs (upd_buf k (\<lambda>x. x\<lparr>b_prev := v\<rparr>) s)) = nexts (bufs s)"
  "prevs (bufs (upd_buf k (\<lambda>x. x\<lparr>b_next := v\<rparr>) s)) = prevs (bufs s)"
  "k < length (bufs s) \<Longrightarrow> nexts (bufs (upd_buf k (\<lambda>x. x\<lparr>b_next := v\<rparr>) s)) = (nexts (bufs s))(k := v)"
  "k < length (bufs s) \<Longrightarrow> prevs (bufs (upd_buf k (\<lambda>x. x\<lparr>b_prev := v\<rparr>) s)) = (prevs (bufs s))(k := v)"
  "length (bufs (upd_buf k f s)) = length (bufs s)"
  by (cases "k < length (bufs s)"; auto simp: fun_eq_iff upd_buf_def nth_list_update list_update_beyond)+

text \<open>A buffer without its links.\<close>

definition core :: "buf \<Rightarrow> buf" where
  "core x = x\<lparr>b_prev := 0, b_next := 0\<rparr>"

abbreviation cores :: "buf list \<Rightarrow> buf list" where
  "cores \<equiv> List.map core"

lemma core_links [simp]: "core (x\<lparr>b_prev := p\<rparr>) = core x" "core (x\<lparr>b_next := p\<rparr>) = core x"
  by (simp_all add: core_def)

lemma cores_upd_buf: "(\<And>x. core (f x) = core x) \<Longrightarrow> cores (bufs (upd_buf i f s)) = cores (bufs s)"
  by (cases "i < length (bufs s)") (simp_all add: upd_buf_def map_update list_update_same_conv list_update_beyond)

lemma upd_buf_bufs: "bufs (upd_buf i f s) = (bufs s)[i := f (bufs s ! i)]"
  by (simp add: upd_buf_def)

lemma upd_buf_only: "s\<lparr>bufs := bufs (upd_buf i f s)\<rparr> = upd_buf i f s"
  by (simp add: upd_buf_def)

lemma lru_front_only: "lru_front b s = s\<lparr>bufs := bufs (lru_front b s)\<rparr>"
  by (simp add: lru_front_def Let_def upd_buf_def)

lemma lru_front_cores: "cores (bufs (lru_front b s)) = cores (bufs s)"
  by (simp add: lru_front_def Let_def cores_upd_buf)

text \<open>The list without \<open>b\<close>, then \<open>b\<close> in front: \<^verbatim>\<open>brelse\<close> moves a buffer to the most recently used end.\<close>

lemma lru_front_ok:
  assumes "lru (bufs s) (xs @ b # ys)"
  shows "lru (bufs (lru_front b s)) (b # xs @ ys)"
proof -
  let ?nx = "nexts (bufs s)" and ?pv = "prevs (bufs s)"
  have len: "length (bufs s) = Suc NBUF" and d: "distinct (xs @ b # ys)" and st: "set (xs @ b # ys) = {..<NBUF}"
    and r: "ring ?nx ?pv NBUF xs b" "ring ?nx ?pv b ys NBUF"
    using assms by (simp_all add: lru_def ring_append)
  have nb: "b \<noteq> NBUF" "b < NBUF" "NBUF \<notin> set (xs @ ys)" using st by auto
  have e: "?pv b \<in> set (NBUF # xs)" "?nx b \<in> set (ys @ [NBUF])" using ring_ends [OF r(1)] ring_ends [OF r(2)] by simp_all
  have sl: "\<And>x. x \<in> set (xs @ ys) \<Longrightarrow> x < NBUF" using st by auto
  have lt: "?pv b < Suc NBUF" "?nx b < Suc NBUF" using e sl [of "?pv b"] sl [of "?nx b"] by auto
  have ne: "?pv b \<noteq> b" "?nx b \<noteq> b" using e d nb by auto
  have u: "ring (?nx(?pv b := ?nx b)) (?pv(?nx b := ?pv b)) NBUF (xs @ ys) NBUF"
    using r by (rule ring_unlink) (use d nb in auto)
  let ?n = "?nx(?pv b := ?nx b)" and ?p = "?pv(?nx b := ?pv b)"
  have l2: "?n NBUF < Suc NBUF" using ring_ends [OF u] sl [of "?n NBUF"] by (auto simp del: fun_upd_apply)
  have w: "ring (?n(b := ?n NBUF, NBUF := b)) (?p(b := NBUF, ?n NBUF := b)) NBUF (b # xs @ ys) NBUF"
    using u by (rule ring_push) (use d nb in auto)
  define s1 where "s1 = upd_buf (b_next (bufs s ! b)) (\<lambda>x. x\<lparr>b_prev := b_prev (bufs s ! b)\<rparr>) s"
  define s2 where "s2 = upd_buf (b_prev (bufs s1 ! b)) (\<lambda>x. x\<lparr>b_next := b_next (bufs s1 ! b)\<rparr>) s1"
  define s3 where "s3 = upd_buf b (\<lambda>x. x\<lparr>b_next := b_next (bufs s2 ! NBUF)\<rparr>) s2"
  define s4 where "s4 = upd_buf b (\<lambda>x. x\<lparr>b_prev := NBUF\<rparr>) s3"
  define s5 where "s5 = upd_buf (b_next (bufs s4 ! NBUF)) (\<lambda>x. x\<lparr>b_prev := b\<rparr>) s4"
  have f: "lru_front b s = upd_buf NBUF (\<lambda>x. x\<lparr>b_next := b\<rparr>) s5"
    by (simp add: lru_front_def s1_def s2_def s3_def s4_def s5_def Let_def)
  have 1: "nexts (bufs s1) = ?nx" "prevs (bufs s1) = ?p" "length (bufs s1) = Suc NBUF"
    unfolding s1_def using len lt by (simp_all only: links_upd_buf)
  have b1: "b_prev (bufs s1 ! b) = ?pv b" "b_next (bufs s1 ! b) = ?nx b"
    using fun_cong [OF 1(2), of b] fun_cong [OF 1(1), of b] ne by auto
  have 2: "nexts (bufs s2) = ?n" "prevs (bufs s2) = ?p" "length (bufs s2) = Suc NBUF"
    unfolding s2_def b1 using 1 lt by (simp_all only: links_upd_buf)
  have b2: "b_next (bufs s2 ! NBUF) = ?n NBUF" using fun_cong [OF 2(1), of NBUF] by simp
  have 3: "nexts (bufs s3) = ?n(b := ?n NBUF)" "prevs (bufs s3) = ?p" "length (bufs s3) = Suc NBUF"
    unfolding s3_def b2 using 2 nb by (simp_all only: links_upd_buf less_SucI)
  have 4: "nexts (bufs s4) = ?n(b := ?n NBUF)" "prevs (bufs s4) = ?p(b := NBUF)" "length (bufs s4) = Suc NBUF"
    unfolding s4_def using 3 nb by (simp_all only: links_upd_buf less_SucI)
  have b4: "b_next (bufs s4 ! NBUF) = ?n NBUF" using fun_cong [OF 4(1), of NBUF] nb by simp
  have 5: "nexts (bufs s5) = ?n(b := ?n NBUF)" "prevs (bufs s5) = ?p(b := NBUF, ?n NBUF := b)" "length (bufs s5) = Suc NBUF"
    unfolding s5_def b4 using 4 l2 by (simp_all only: links_upd_buf)
  have "nexts (bufs (lru_front b s)) = ?n(b := ?n NBUF, NBUF := b)"
    "prevs (bufs (lru_front b s)) = ?p(b := NBUF, ?n NBUF := b)" "length (bufs (lru_front b s)) = Suc NBUF"
    unfolding f using 5 by (simp_all only: links_upd_buf lessI)
  moreover have "distinct (b # xs @ ys)" "set (b # xs @ ys) = {..<NBUF}" using d st by auto
  ultimately show ?thesis unfolding lru_def using w by (simp only: simp_thms)
qed

section \<open>What the callers see\<close>

text \<open>
  \<open>blk s i b\<close>: buffer \<open>i\<close> is for block \<open>b\<close> of the root device.  \<open>view s b\<close> is the current content of block \<open>b\<close>: the
  cached copy if there is one.
\<close>

definition blk :: "'z bio_st_scheme \<Rightarrow> nat \<Rightarrow> u32 \<Rightarrow> bool" where
  "blk s i b \<longleftrightarrow> i < NBUF \<and> b_dev (bufs s ! i) = ROOTDEV \<and> b_blockno (bufs s ! i) = b"

definition view :: "'z bio_st_scheme \<Rightarrow> u32 \<Rightarrow> block" where
  "view s b = (case first_index (\<lambda>x. b_dev x = ROOTDEV \<and> b_blockno x = b \<and> b_valid x) (take NBUF (bufs s)) of
     None \<Rightarrow> disk s b | Some i \<Rightarrow> b_data (bufs s ! i))"

abbreviation buf_lock :: "'z sl_st_scheme \<Rightarrow> nat \<Rightarrow> sleeplock" where
  "buf_lock s i \<equiv> slks s (LBufSleep i)"

definition holds_buf :: "nat \<Rightarrow> 'z bio_st_scheme \<Rightarrow> nat \<Rightarrow> bool" where
  "holds_buf c s i \<longleftrightarrow> sl_locked (buf_lock s i) \<and> sl_pid (buf_lock s i) = mypid c s"

text \<open>
  The cache invariant: the ring holds every buffer once; no block has two buffers; a buffer that nobody refers to is
  unlocked and, if valid, equal to the disk block.
\<close>

definition cache_inv :: "'z bio_st_scheme \<Rightarrow> bool" where
  "cache_inv s \<longleftrightarrow> (\<exists>xs. lru (bufs s) xs) \<and>
     (\<forall>i j b. blk s i b \<and> blk s j b \<longrightarrow> i = j) \<and>
     (\<forall>i < NBUF. b_valid (bufs s ! i) \<or> b_refcnt (bufs s ! i) \<noteq> 0 \<longrightarrow> b_dev (bufs s ! i) = ROOTDEV) \<and>
     (\<forall>i < NBUF. b_refcnt (bufs s ! i) = 0 \<longrightarrow> \<not> sl_locked (buf_lock s i) \<and>
        (b_valid (bufs s ! i) \<longrightarrow> b_data (bufs s ! i) = disk s (b_blockno (bufs s ! i)))) \<and>
     (\<forall>i < NBUF. length (b_data (bufs s ! i)) = BSIZE) \<and> (\<forall>b. length (disk s b) = BSIZE)"

lemma cache_invD:
  assumes "cache_inv s"
  shows "\<exists>xs. lru (bufs s) xs" and "blk s i b \<Longrightarrow> blk s j b \<Longrightarrow> i = j"
    and "i < NBUF \<Longrightarrow> b_valid (bufs s ! i) \<Longrightarrow> b_dev (bufs s ! i) = ROOTDEV"
    and "i < NBUF \<Longrightarrow> b_refcnt (bufs s ! i) \<noteq> 0 \<Longrightarrow> b_dev (bufs s ! i) = ROOTDEV"
    and "i < NBUF \<Longrightarrow> b_refcnt (bufs s ! i) = 0 \<Longrightarrow> \<not> sl_locked (buf_lock s i)"
    and "i < NBUF \<Longrightarrow> b_refcnt (bufs s ! i) = 0 \<Longrightarrow> b_valid (bufs s ! i) \<Longrightarrow>
           b_data (bufs s ! i) = disk s (b_blockno (bufs s ! i))"
    and "i < NBUF \<Longrightarrow> length (b_data (bufs s ! i)) = BSIZE" and "length (disk s b) = BSIZE"
    and "length (bufs s) = Suc NBUF"
proof -
  note a = assms [unfolded cache_inv_def]
  show "\<exists>xs. lru (bufs s) xs" using a by (elim conjE)
  then show "length (bufs s) = Suc NBUF" by (auto simp: lru_def)
  show "blk s i b \<Longrightarrow> blk s j b \<Longrightarrow> i = j" using a by (elim conjE) blast
qed (use assms in \<open>auto simp: cache_inv_def\<close>)

lemma view_cached:
  assumes "cache_inv s" and "blk s i b" and "b_valid (bufs s ! i)"
  shows "view s b = b_data (bufs s ! i)"
proof -
  have l: "length (bufs s) = Suc NBUF" using cache_invD(9) [OF assms(1)] .
  have iN: "i < NBUF" using assms(2) by (simp add: blk_def)
  let ?P = "\<lambda>x. b_dev x = ROOTDEV \<and> b_blockno x = b \<and> b_valid x"
  obtain j where j: "first_index ?P (take NBUF (bufs s)) = Some j"
  proof (cases "first_index ?P (take NBUF (bufs s))")
    case None
    have "bufs s ! i \<in> set (take NBUF (bufs s))" using iN l by (metis in_set_conv_nth length_take min.absorb2 nth_take le_SucI order_refl)
    then show ?thesis using None assms by (auto simp: blk_def)
  qed
  then have "blk s j b" using first_indexD(1,2) [OF j] l by (auto simp: blk_def)
  then have "j = i" using cache_invD(2) [OF assms(1)] assms(2) by blast
  then show ?thesis using j by (simp add: view_def)
qed

lemma view_uncached:
  assumes "length (bufs s) = Suc NBUF" and "\<And>i. blk s i b \<Longrightarrow> \<not> b_valid (bufs s ! i)"
  shows "view s b = disk s b"
proof -
  have "\<forall>x \<in> set (take NBUF (bufs s)). \<not> (b_dev x = ROOTDEV \<and> b_blockno x = b \<and> b_valid x)"
    using assms by (auto simp: in_set_conv_nth blk_def)
  then show ?thesis by (simp add: view_def first_index_None [THEN iffD2])
qed

lemma upd_buf_sel [simp]:
  "kmach (upd_buf i f s) = kmach s" "mem (upd_buf i f s) = mem s" "freelist (upd_buf i f s) = freelist s"
  "procs (upd_buf i f s) = procs s" "slks (upd_buf i f s) = slks s" "disk (upd_buf i f s) = disk s"
  "dtrace (upd_buf i f s) = dtrace s" "bio_st.more (upd_buf i f s) = bio_st.more s"
  by (simp_all add: upd_buf_def)

lemma upd_slk_sel [simp]:
  "kmach (upd_slk l g s) = kmach s" "mem (upd_slk l g s) = mem s" "freelist (upd_slk l g s) = freelist s"
  "procs (upd_slk l g s) = procs s" "slks (upd_slk l g s) = (slks s)(l := g (slks s l))"
  "sl_st.more (upd_slk l g s) = sl_st.more s"
  by (simp_all add: upd_slk_def)

text \<open>\<open>over s\<close>: the part of the state above the cache, which no operation of this component touches.\<close>

abbreviation over :: "'z bio_st_scheme \<Rightarrow> 'z" where
  "over s \<equiv> bio_st.more s"

lemma above_eq_iff:
  fixes s t :: "'z bio_st_scheme"
  shows "sl_st.more s = sl_st.more t \<longleftrightarrow> bufs s = bufs t \<and> disk s = disk t \<and> dtrace s = dtrace t \<and> over s = over t"
  by (cases s; cases t) auto

lemma settled_cong:
  "settled c s t \<Longrightarrow> kmach t' = kmach t \<Longrightarrow> mem t' = mem t \<Longrightarrow> freelist t' = freelist t \<Longrightarrow> procs t' = procs t \<Longrightarrow>
   settled c s t'"
  by (simp add: settled_def calm_def del: calm_simps)

lemma settled_cong2:
  "settled c s t \<Longrightarrow> kmach s' = kmach s \<Longrightarrow> mem s' = mem s \<Longrightarrow> freelist s' = freelist s \<Longrightarrow> procs s' = procs s \<Longrightarrow>
   settled c s' t"
  by (simp add: settled_def)

lemma calm_cong: "calm c s \<Longrightarrow> kmach s' = kmach s \<Longrightarrow> procs s' = procs s \<Longrightarrow> calm c s'"
  by (simp add: calm_def del: calm_simps)

lemma settled_calm: "settled c s t \<Longrightarrow> calm c t"
  by (simp add: settled_def)

text \<open>Taking a buffer: what \<^verbatim>\<open>bread\<close> promises.\<close>

definition got :: "nat \<Rightarrow> u32 \<Rightarrow> nat \<Rightarrow> 'z bio_st_scheme \<Rightarrow> 'z bio_st_scheme \<Rightarrow> bool" where
  "got c b i s t \<longleftrightarrow> settled c s t \<and> blk t i b \<and> holds_buf c t i \<and> b_valid (bufs t ! i) \<and> b_data (bufs t ! i) = view s b \<and>
     b_refcnt (bufs t ! i) = b_refcnt (bufs s ! i) + 1 \<and> b_refcnt (bufs t ! i) \<noteq> 0 \<and>
     (blk s i b \<or> b_refcnt (bufs s ! i) = 0) \<and> \<not> sl_locked (buf_lock s i) \<and>
     (\<forall>j. j \<noteq> i \<longrightarrow> bufs t ! j = bufs s ! j) \<and> (\<forall>l. l \<noteq> LBufSleep i \<longrightarrow> slks t l = slks s l) \<and>
     (\<forall>b'. view t b' = view s b') \<and> disk t = disk s \<and> dtrace t = dtrace s \<and> over t = over s \<and> cache_inv t"

lemma find_lru:
  assumes "lru bs xs"
  shows "List.find P xs = None \<longleftrightarrow> (\<forall>i < NBUF. \<not> P i)"
    and "List.find P (rev xs) = None \<longleftrightarrow> (\<forall>i < NBUF. \<not> P i)"
    and "List.find P xs = Some i \<Longrightarrow> i < NBUF \<and> P i" and "List.find P (rev xs) = Some i \<Longrightarrow> i < NBUF \<and> P i"
proof -
  have st: "set xs = {..<NBUF}" using assms by (simp add: lru_def)
  show "List.find P xs = None \<longleftrightarrow> (\<forall>i < NBUF. \<not> P i)" "List.find P (rev xs) = None \<longleftrightarrow> (\<forall>i < NBUF. \<not> P i)"
    by (auto simp: find_None_iff st)
  have "List.find P ys = Some i \<Longrightarrow> set ys = {..<NBUF} \<Longrightarrow> i < NBUF \<and> P i" for ys
    by (auto simp: find_Some_iff dest!: nth_mem)
  then show "List.find P xs = Some i \<Longrightarrow> i < NBUF \<and> P i" "List.find P (rev xs) = Some i \<Longrightarrow> i < NBUF \<and> P i"
    using st by auto
qed

lemma blk_update:
  assumes "bufs t = (bufs s)[i := x]" and "length (bufs s) = Suc NBUF" and "i < NBUF"
  shows "blk t j b \<longleftrightarrow> (if j = i then b_dev x = ROOTDEV \<and> b_blockno x = b else blk s j b)"
  using assms by (auto simp: blk_def)

lemma lru_update:
  assumes "lru bs xs" and "i < NBUF" and "b_next x = b_next (bs ! i)" and "b_prev x = b_prev (bs ! i)"
  shows "lru (bs[i := x]) xs"
proof -
  have "nexts (bs[i := x]) = nexts bs" "prevs (bs[i := x]) = prevs bs"
    using assms by (auto simp: fun_eq_iff nth_list_update lru_def)
  then show ?thesis using assms(1) by (simp add: lru_def)
qed

lemma cache_inv_take:
  assumes ci: "cache_inv s" and i: "i < NBUF" and own: "blk s i b \<or> b_refcnt (bufs s ! i) = 0"
    and only: "\<And>j. blk s j b \<Longrightarrow> j = i"
    and bt: "bufs t = (bufs s)[i := x]" and dt: "disk t = disk s" and sl: "\<And>j. j \<noteq> i \<Longrightarrow> buf_lock t j = buf_lock s j"
    and x: "b_dev x = ROOTDEV" "b_blockno x = b" "b_refcnt x \<noteq> 0" "length (b_data x) = BSIZE"
       "b_next x = b_next (bufs s ! i)" "b_prev x = b_prev (bufs s ! i)"
  shows "cache_inv t"
proof -
  note C = cache_invD [OF ci]
  note bk = blk_update [OF bt C(9) i]
  obtain xs where xs: "lru (bufs s) xs" using C(1) ..
  have "lru (bufs t) xs" unfolding bt using xs i x(5,6) by (rule lru_update)
  moreover have "\<forall>j k b'. blk t j b' \<and> blk t k b' \<longrightarrow> j = k"
    using bk only x(1,2) C(2) by metis
  moreover have "\<forall>j < NBUF. b_valid (bufs t ! j) \<or> b_refcnt (bufs t ! j) \<noteq> 0 \<longrightarrow> b_dev (bufs t ! j) = ROOTDEV"
    using C(3,4,9) x(1) i by (auto simp: bt nth_list_update)
  moreover have "\<forall>j < NBUF. b_refcnt (bufs t ! j) = 0 \<longrightarrow> \<not> sl_locked (buf_lock t j) \<and>
        (b_valid (bufs t ! j) \<longrightarrow> b_data (bufs t ! j) = disk t (b_blockno (bufs t ! j)))"
    using C(5,6,9) x(3) i sl by (auto simp: bt dt nth_list_update)
  moreover have "\<forall>j < NBUF. length (b_data (bufs t ! j)) = BSIZE" using C(7,9) x(4) i by (auto simp: bt nth_list_update)
  moreover have "\<forall>b. length (disk t b) = BSIZE" using C(8) by (simp add: dt)
  ultimately show ?thesis unfolding cache_inv_def by blast
qed

lemma view_take:
  assumes ci: "cache_inv s" and ct: "cache_inv t" and i: "i < NBUF" and own: "blk s i b \<or> b_refcnt (bufs s ! i) = 0"
    and only: "\<And>j. blk s j b \<Longrightarrow> j = i"
    and bt: "bufs t = (bufs s)[i := x]" and dt: "disk t = disk s"
    and x: "b_dev x = ROOTDEV" "b_blockno x = b" "b_valid x"
  shows "view t b' = (if b' = b then b_data x else view s b')"
proof -
  note C = cache_invD [OF ci]
  note bk = blk_update [OF bt C(9) i]
  have ti: "bufs t ! i = x" and tj: "\<And>j. j \<noteq> i \<Longrightarrow> bufs t ! j = bufs s ! j" using i C(9) by (auto simp: bt)
  show ?thesis
  proof (cases "b' = b")
    case True
    then show ?thesis using view_cached [OF ct, of i b] bk x ti by simp
  next
    case False
    show ?thesis
    proof (cases "\<exists>j. blk s j b' \<and> b_valid (bufs s ! j)")
      case True
      then obtain j where j: "blk s j b'" "b_valid (bufs s ! j)" by blast
      note vs = view_cached [OF ci j]
      show ?thesis
      proof (cases "j = i")
        case True
        then have r0: "b_refcnt (bufs s ! i) = 0" using own j(1) False by (auto simp: blk_def)
        have "view t b' = disk t b'"
          by (rule view_uncached) (use bk x(2) False C(2) j(1) True bt C(9) in \<open>auto split: if_splits\<close>)
        moreover have "b_data (bufs s ! i) = disk s b'" using C(6) [OF i r0] j True by (auto simp: blk_def)
        ultimately show ?thesis using vs True False dt by simp
      next
        case False
        then have "view t b' = b_data (bufs t ! j)" using view_cached [OF ct, of j b'] bk j tj by simp
        then show ?thesis using vs tj [OF False] \<open>b' \<noteq> b\<close> by simp
      qed
    next
      case none: False
      have "view s b' = disk s b'" by (rule view_uncached) (use C(9) none in auto)
      moreover have "view t b' = disk t b'"
        by (rule view_uncached) (use C(9) none bk x(2) tj False bt in \<open>auto split: if_splits\<close>)
      ultimately show ?thesis using dt False by simp
    qed
  qed
qed

lemma low_commute [simp]:
  "(upd_buf i f s)\<lparr>kmach := m\<rparr> = upd_buf i f (s\<lparr>kmach := m\<rparr>)"
  "(upd_slk l g u)\<lparr>kmach := m\<rparr> = upd_slk l g (u\<lparr>kmach := m\<rparr>)"
  by (cases s; simp add: upd_buf_def) (cases u; simp add: upd_slk_def)

lemma calm_upd_buf [simp]: "calm c (upd_buf i f s) = calm c s"
  by (simp add: calm_def del: calm_simps)

lemma calm_upd_slk [simp]: "calm c (upd_slk l g s) = calm c s"
  by (simp add: calm_def del: calm_simps)

lemma bget_ok:
  assumes s: "calm c s" and xs: "lru (bufs s) xs"
    and i: "i < NBUF" "\<not> sl_locked (buf_lock s i)"
    and w: "b_dev (bufs s ! i) = dev \<and> b_blockno (bufs s ! i) = b \<and> g = (\<lambda>x. x\<lparr>b_refcnt := b_refcnt x + 1\<rparr>) \<and>
         List.find (\<lambda>i. b_dev (bufs s ! i) = dev \<and> b_blockno (bufs s ! i) = b) xs = Some i \<or>
       List.find (\<lambda>i. b_dev (bufs s ! i) = dev \<and> b_blockno (bufs s ! i) = b) xs = None \<and>
         List.find (\<lambda>i. b_refcnt (bufs s ! i) = 0) (rev xs) = Some i \<and>
         g = (\<lambda>x. x\<lparr>b_dev := dev, b_blockno := b, b_valid := False, b_refcnt := 1\<rparr>)"
  shows "bget c dev b s = Ret i (upd_slk (LBufSleep i) (\<lambda>k. k\<lparr>sl_locked := True, sl_pid := mypid c s\<rparr>)
           (upd_buf i g (s\<lparr>kmach := after_cs c (kmach s)\<rparr>)))"
proof -
  let ?s = "upd_buf i g (s\<lparr>kmach := after_cs c (kmach s)\<rparr>)"
  have "calm c ?s" using s by simp
  then have a: "acquiresleep c (LBufSleep i) ?s = Ret () (upd_slk (LBufSleep i) (\<lambda>k. k\<lparr>sl_locked := True, sl_pid := mypid c s\<rparr>) ?s)"
    using acquiresleep_free [of c ?s "LBufSleep i"] i(2) by simp
  show ?thesis using w s a xs by (elim disjE conjE) (simp_all add: bget_def bscan_lru del: bscan.simps)
qed

lemma got_intro:
  assumes ci: "cache_inv s" and i: "i < NBUF" "\<not> sl_locked (buf_lock s i)" "b_refcnt (bufs s ! i) + 1 \<noteq> 0"
    and own: "blk s i b \<or> b_refcnt (bufs s ! i) = 0" and only: "\<And>j. blk s j b \<Longrightarrow> j = i"
    and st: "settled c s t" and bt: "bufs t = (bufs s)[i := x]" and sl: "slks t = (slks s)(LBufSleep i := k)"
    and k: "sl_locked k" "sl_pid k = mypid c s" and dt: "disk t = disk s" "dtrace t = dtrace s" "over t = over s"
    and x: "b_dev x = ROOTDEV" "b_blockno x = b" "b_valid x" "b_refcnt x = b_refcnt (bufs s ! i) + 1"
       "b_next x = b_next (bufs s ! i)" "b_prev x = b_prev (bufs s ! i)" "b_data x = view s b"
  shows "got c b i s t"
proof -
  note C = cache_invD [OF ci]
  have vl: "length (view s b) = BSIZE" by (auto simp: view_def C dest!: first_indexD(1) split: option.split)
  have ct: "cache_inv t"
    by (rule cache_inv_take [OF ci i(1) own only bt dt(1)]) (use sl x vl i(3) in auto)
  have "view t b' = view s b'" for b'
    using view_take [OF ci ct i(1) own only bt dt(1) x(1-3)] x(7) by simp
  moreover have "bufs t ! i = x" "\<And>j. j \<noteq> i \<Longrightarrow> bufs t ! j = bufs s ! j" using bt i(1) C(9) by auto
  moreover have "mypid c t = mypid c s" using st by (rule settled_pid)
  moreover have "blk t i b" using blk_update [OF bt C(9) i(1)] x by simp
  ultimately show ?thesis
    unfolding got_def holds_buf_def using st dt ct x sl k i(2,3) own by simp
qed

lemma bread_ok:
  assumes s: "calm c s" and ci: "cache_inv s"
    and room: "(\<exists>i. blk s i b) \<or> (\<exists>i < NBUF. b_refcnt (bufs s ! i) = 0)"
    and free: "\<And>i. blk s i b \<Longrightarrow> \<not> sl_locked (buf_lock s i) \<and> b_refcnt (bufs s ! i) + 1 \<noteq> 0"
  shows "\<exists>i t. bread c ROOTDEV b s = Ret i t \<and> got c b i s t"
proof -
  note C = cache_invD [OF ci]
  obtain xs where xs: "lru (bufs s) xs" using C(1) ..
  let ?P = "\<lambda>i. b_dev (bufs s ! i) = ROOTDEV \<and> b_blockno (bufs s ! i) = b"
  let ?Z = "\<lambda>i. b_refcnt (bufs s ! i) = 0"
  have bP: "blk s j b \<longleftrightarrow> j < NBUF \<and> ?P j" for j by (simp add: blk_def)
  obtain i g where i: "i < NBUF" "\<not> sl_locked (buf_lock s i)" "b_refcnt (bufs s ! i) + 1 \<noteq> 0"
    and own: "blk s i b \<or> b_refcnt (bufs s ! i) = 0" and only: "\<And>j. blk s j b \<Longrightarrow> j = i"
    and bg: "bget c ROOTDEV b s = Ret i (upd_slk (LBufSleep i) (\<lambda>k. k\<lparr>sl_locked := True, sl_pid := mypid c s\<rparr>)
           (upd_buf i g (s\<lparr>kmach := after_cs c (kmach s)\<rparr>)))"
    and g: "g = (\<lambda>x. x\<lparr>b_refcnt := b_refcnt x + 1\<rparr>) \<and> blk s i b \<or> b_refcnt (bufs s ! i) = 0 \<and> (\<forall>j. \<not> blk s j b) \<and>
        g = (\<lambda>x. x\<lparr>b_dev := ROOTDEV, b_blockno := b, b_valid := False, b_refcnt := 1\<rparr>)"
  proof (cases "List.find ?P xs")
    case None
    then have no: "\<not> blk s j b" for j using find_lru(1) [OF xs, of ?P] bP [of j] by auto
    have "\<not> (\<forall>i < NBUF. \<not> ?Z i)" using room no by blast
    then obtain i where f: "List.find ?Z (rev xs) = Some i" using find_lru(2) [OF xs, of ?Z] by (cases "List.find ?Z (rev xs)") auto
    then have z: "i < NBUF" "?Z i" using find_lru(4) [OF xs f] by simp_all
    let ?g = "\<lambda>x. x\<lparr>b_dev := ROOTDEV, b_blockno := b, b_valid := False, b_refcnt := 1\<rparr>"
    have "bget c ROOTDEV b s = Ret i (upd_slk (LBufSleep i) (\<lambda>k. k\<lparr>sl_locked := True, sl_pid := mypid c s\<rparr>)
           (upd_buf i ?g (s\<lparr>kmach := after_cs c (kmach s)\<rparr>)))"
      by (rule bget_ok [OF s xs z(1) C(5) [OF z]]) (use None f in simp)
    then show ?thesis by (rule that [OF z(1) C(5) [OF z], rotated 3]) (use z no in simp_all)
  next
    case (Some i)
    then have z: "i < NBUF" "?P i" using find_lru(3) [OF xs Some] by simp_all
    then have k: "blk s i b" by (simp add: blk_def)
    let ?g = "\<lambda>x. x\<lparr>b_refcnt := b_refcnt x + 1\<rparr>"
    have fr: "\<not> sl_locked (buf_lock s i)" "b_refcnt (bufs s ! i) + 1 \<noteq> 0" using free [OF k] by simp_all
    have "bget c ROOTDEV b s = Ret i (upd_slk (LBufSleep i) (\<lambda>k. k\<lparr>sl_locked := True, sl_pid := mypid c s\<rparr>)
           (upd_buf i ?g (s\<lparr>kmach := after_cs c (kmach s)\<rparr>)))"
      by (rule bget_ok [OF s xs z(1) fr(1)]) (use z Some in simp)
    moreover have "j = i" if "blk s j b" for j using that k by (rule C(2))
    ultimately show ?thesis using that [OF z(1) fr, of ?g] k by blast
  qed
  let ?u = "upd_slk (LBufSleep i) (\<lambda>k. k\<lparr>sl_locked := True, sl_pid := mypid c s\<rparr>)
           (upd_buf i g (s\<lparr>kmach := after_cs c (kmach s)\<rparr>))"
  have set: "settled c s t" if "kmach t = after_cs c (kmach s)" "mem t = mem s" "freelist t = freelist s" "procs t = procs s" for t
    using settled_cong [OF settled_after_cs [OF s], of t] that by simp
  have ub: "bufs ?u = (bufs s)[i := g (bufs s ! i)]" by (simp add: upd_buf_def upd_slk_def)
  show ?thesis
  proof (cases "b_valid (g (bufs s ! i))")
    case True
    then have bk: "blk s i b" "b_valid (bufs s ! i)" and g': "g = (\<lambda>x. x\<lparr>b_refcnt := b_refcnt x + 1\<rparr>)" using g by auto
    have "bread c ROOTDEV b s = Ret i ?u" using bg True ub i(1) C(9) by (simp add: bread_def)
    moreover have "got c b i s ?u"
      by (rule got_intro [OF ci i own only, where x = "g (bufs s ! i)"])
         (use ub bk g' view_cached [OF ci bk] in \<open>auto intro!: set simp: upd_buf_def upd_slk_def blk_def\<close>)
    ultimately show ?thesis by blast
  next
    case False
    let ?t = "upd_buf i (\<lambda>x. x\<lparr>b_valid := True\<rparr>) (disk_rw i False ?u)"
    let ?x = "(g (bufs s ! i))\<lparr>b_data := disk s b, b_valid := True\<rparr>"
    have no: "view s b = disk s b"
      by (rule view_uncached [OF C(9)]) (use g False only in auto)
    have gb: "b_blockno (g (bufs s ! i)) = b" "b_dev (g (bufs s ! i)) = ROOTDEV"
      "b_refcnt (g (bufs s ! i)) = b_refcnt (bufs s ! i) + 1" "b_next (g (bufs s ! i)) = b_next (bufs s ! i)"
      "b_prev (g (bufs s ! i)) = b_prev (bufs s ! i)" using g by (auto simp: blk_def)
    have "bread c ROOTDEV b s = Ret i ?t" using bg False ub i(1) C(9) by (simp add: bread_def)
    moreover have bt: "bufs ?t = (bufs s)[i := ?x]" using i(1) C(9) gb by (simp add: disk_rw_def upd_buf_def upd_slk_def)
    have "got c b i s ?t"
      by (rule got_intro [OF ci i own only _ bt])
         (use no gb in \<open>auto intro!: set simp: disk_rw_def upd_buf_def upd_slk_def\<close>)
    ultimately show ?thesis by blast
  qed
qed

text \<open>Changing a buffer one holds: data, reference count.\<close>

lemma buf_update:
  assumes ci: "cache_inv s" and bk: "blk s i b" and v: "b_valid (bufs s ! i)"
    and t: "bufs t = (bufs s)[i := x]" "disk t = disk s" "\<And>j. j \<noteq> i \<Longrightarrow> buf_lock t j = buf_lock s j"
    and x: "b_dev x = ROOTDEV" "b_blockno x = b" "b_valid x" "b_refcnt x \<noteq> 0" "length (b_data x) = BSIZE"
      "b_next x = b_next (bufs s ! i)" "b_prev x = b_prev (bufs s ! i)"
  shows "cache_inv t" and "view t b' = (if b' = b then b_data x else view s b')"
proof -
  have i: "i < NBUF" using bk by (simp add: blk_def)
  have own: "blk s i b \<or> b_refcnt (bufs s ! i) = 0" using bk by blast
  have only: "j = i" if "blk s j b" for j using that bk by (rule cache_invD(2) [OF ci])
  show ct: "cache_inv t"
    by (rule cache_inv_take [OF ci i own only t(1,2)]) (use t(3) x in auto)
  show "view t b' = (if b' = b then b_data x else view s b')"
    using view_take [OF ci ct i own only t(1,2) x(1-3)] by simp
qed

text \<open>What it is to hold buffer \<open>i\<close> for block \<open>b\<close>.\<close>

definition held :: "nat \<Rightarrow> 'z bio_st_scheme \<Rightarrow> nat \<Rightarrow> u32 \<Rightarrow> bool" where
  "held c s i b \<longleftrightarrow> blk s i b \<and> holds_buf c s i \<and> b_valid (bufs s ! i) \<and> b_refcnt (bufs s ! i) \<noteq> 0"

lemma got_held: "got c b i s t \<Longrightarrow> held c t i b"
  by (auto simp: got_def held_def)

definition set_data :: "nat \<Rightarrow> block \<Rightarrow> 'z bio_st_scheme \<Rightarrow> 'z bio_st_scheme" where
  "set_data i d s = upd_buf i (\<lambda>x. x\<lparr>b_data := d\<rparr>) s"

lemma set_data_sel [simp]:
  "kmach (set_data i d s) = kmach s" "mem (set_data i d s) = mem s" "freelist (set_data i d s) = freelist s"
  "procs (set_data i d s) = procs s" "slks (set_data i d s) = slks s" "disk (set_data i d s) = disk s"
  "dtrace (set_data i d s) = dtrace s" "over (set_data i d s) = over s" "calm c (set_data i d s) = calm c s"
  "bufs (set_data i d s) = (bufs s)[i := (bufs s ! i)\<lparr>b_data := d\<rparr>]"
  by (simp_all add: set_data_def upd_buf_bufs)

lemma set_data_ok:
  assumes "cache_inv s" and "held c s i b" and "length d = BSIZE"
  shows "cache_inv (set_data i d s)" and "view (set_data i d s) b' = (if b' = b then d else view s b')"
    and "held c (set_data i d s) i b" and "b_data (bufs (set_data i d s) ! i) = d"
proof -
  have h: "blk s i b" "b_valid (bufs s ! i)" "b_refcnt (bufs s ! i) \<noteq> 0" "holds_buf c s i" using assms(2) by (auto simp: held_def)
  then have i: "i < length (bufs s)" "b_dev (bufs s ! i) = ROOTDEV" "b_blockno (bufs s ! i) = b"
    using cache_invD(9) [OF assms(1)] by (auto simp: blk_def)
  note u = buf_update [OF assms(1) h(1,2), of "set_data i d s" "(bufs s ! i)\<lparr>b_data := d\<rparr>"]
  show "cache_inv (set_data i d s)" by (rule u(1)) (use h i assms(3) in simp_all)
  show "view (set_data i d s) b' = (if b' = b then d else view s b')"
    using u(2) [of b'] h i assms(3) by simp
  show "held c (set_data i d s) i b" "b_data (bufs (set_data i d s) ! i) = d"
    using h i by (auto simp: held_def holds_buf_def blk_def)
qed

lemma bwrite_ok:
  assumes s: "calm c s" and ci: "cache_inv s" and h: "held c s i b"
  shows "\<exists>t. bwrite c i s = Ret () t \<and> settled c s t \<and> bufs t = bufs s \<and> slks t = slks s \<and>
     disk t = (disk s)(b := b_data (bufs s ! i)) \<and> dtrace t = dtrace s @ [(b, b_data (bufs s ! i))] \<and> over t = over s \<and>
     cache_inv t \<and> (\<forall>b'. view t b' = view s b')"
proof -
  note C = cache_invD [OF ci]
  let ?d = "b_data (bufs s ! i)"
  let ?t = "disk_rw i True (s\<lparr>kmach := after_cs c (kmach s)\<rparr>)"
  have H: "blk s i b" "b_valid (bufs s ! i)" "b_refcnt (bufs s ! i) \<noteq> 0" "holds_buf c s i" using h by (auto simp: held_def)
  then have b: "b_blockno (bufs s ! i) = b" "i < NBUF" by (auto simp: blk_def)
  have w: "bwrite c i s = Ret () ?t" using H(4) by (simp add: bwrite_def holdingsleep_ok [OF s] holds_buf_def)
  have t: "bufs ?t = bufs s" "slks ?t = slks s" "disk ?t = (disk s)(b := ?d)" "dtrace ?t = dtrace s @ [(b, ?d)]" "over ?t = over s"
    "kmach ?t = after_cs c (kmach s)" "procs ?t = procs s" "mem ?t = mem s" "freelist ?t = freelist s"
    using b by (simp_all add: disk_rw_def Let_def)
  have st: "settled c s ?t" using settled_cong [OF settled_after_cs [OF s], of ?t] t by simp
  have bt: "blk ?t j b' = blk s j b'" for j b' by (simp add: blk_def t(1))
  have ne: "b_blockno (bufs s ! j) \<noteq> b" if "j < NBUF" "b_refcnt (bufs s ! j) = 0" "b_valid (bufs s ! j)" for j
    using C(2) [OF H(1), of j] C(3) [OF that(1,3)] that H(3) by (auto simp: blk_def)
  have ct: "cache_inv ?t"
    unfolding cache_inv_def bt using C ne b(2) by (simp add: t) blast
  have "view ?t b' = view s b'" for b'
  proof (cases "\<exists>j. blk s j b' \<and> b_valid (bufs s ! j)")
    case True
    then obtain j where j: "blk s j b'" "b_valid (bufs s ! j)" by blast
    then show ?thesis using view_cached [OF ci j] view_cached [OF ct, of j b'] bt t(1) by simp
  next
    case False
    then have "b' \<noteq> b" using H(1,2) by blast
    moreover have "view s b' = disk s b'" by (rule view_uncached) (use C(9) False in auto)
    moreover have "view ?t b' = disk ?t b'" by (rule view_uncached) (use C(9) False bt t(1) in auto)
    ultimately show ?thesis using t(3) by simp
  qed
  then show ?thesis using w t st ct by (intro exI [of _ ?t]) simp
qed

text \<open>The invariant and the view do not depend on the links, as long as they form the ring.\<close>

lemma cores_sel:
  assumes "cores bs = cores bs'" and "i < length bs"
  shows "b_valid (bs ! i) = b_valid (bs' ! i)" "b_dev (bs ! i) = b_dev (bs' ! i)" "b_blockno (bs ! i) = b_blockno (bs' ! i)"
    "b_refcnt (bs ! i) = b_refcnt (bs' ! i)" "b_data (bs ! i) = b_data (bs' ! i)" "b_disk (bs ! i) = b_disk (bs' ! i)"
proof -
  have "length bs = length bs'" using assms(1) by (rule map_eq_imp_length_eq)
  then have "core (bs ! i) = core (bs' ! i)" using assms by (metis nth_map)
  then show "b_valid (bs ! i) = b_valid (bs' ! i)" "b_dev (bs ! i) = b_dev (bs' ! i)" "b_blockno (bs ! i) = b_blockno (bs' ! i)"
    "b_refcnt (bs ! i) = b_refcnt (bs' ! i)" "b_data (bs ! i) = b_data (bs' ! i)" "b_disk (bs ! i) = b_disk (bs' ! i)"
    by (cases "bs ! i"; cases "bs' ! i"; simp add: core_def)+
qed

lemma cache_inv_relink:
  assumes ci: "cache_inv s" and l: "lru (bufs t) ys" and co: "cores (bufs t) = cores (bufs s)"
    and t: "disk t = disk s" "\<And>j. buf_lock t j = buf_lock s j"
  shows "cache_inv t" and "view t b = view s b" and "blk t i b = blk s i b"
proof -
  note C = cache_invD [OF ci]
  have len: "length (bufs t) = Suc NBUF" using l by (simp add: lru_def)
  have e: "b_valid (bufs t ! i) = b_valid (bufs s ! i)" "b_dev (bufs t ! i) = b_dev (bufs s ! i)"
    "b_blockno (bufs t ! i) = b_blockno (bufs s ! i)" "b_refcnt (bufs t ! i) = b_refcnt (bufs s ! i)"
    "b_data (bufs t ! i) = b_data (bufs s ! i)" if "i < NBUF" for i using cores_sel [OF co, of i] that len by simp_all
  show bk: "blk t i b = blk s i b" for i b using e by (auto simp: blk_def)
  show ct: "cache_inv t"
    unfolding cache_inv_def bk using l C e t by (simp; blast)
  show "view t b = view s b"
  proof (cases "\<exists>j. blk s j b \<and> b_valid (bufs s ! j)")
    case True
    then obtain j where j: "blk s j b" "b_valid (bufs s ! j)" by blast
    then have "j < NBUF" by (simp add: blk_def)
    then show ?thesis using view_cached [OF ci j] view_cached [OF ct, of j b] bk e j by simp
  next
    case False
    have "view s b = disk s b" by (rule view_uncached) (use C(9) False in auto)
    moreover have "view t b = disk t b"
      by (rule view_uncached) (use len False bk e in \<open>auto simp: blk_def\<close>)
    ultimately show ?thesis using t by simp
  qed
qed

text \<open>Giving a buffer back: what \<^verbatim>\<open>brelse\<close> promises.\<close>

definition gave :: "nat \<Rightarrow> nat \<Rightarrow> 'z bio_st_scheme \<Rightarrow> 'z bio_st_scheme \<Rightarrow> bool" where
  "gave c i s t \<longleftrightarrow> settled c s t \<and> slks t = (slks s)(LBufSleep i := (buf_lock s i)\<lparr>sl_locked := False, sl_pid := 0\<rparr>) \<and>
     cores (bufs t) = cores ((bufs s)[i := (bufs s ! i)\<lparr>b_refcnt := b_refcnt (bufs s ! i) - 1\<rparr>]) \<and>
     disk t = disk s \<and> dtrace t = dtrace s \<and> over t = over s \<and> cache_inv t \<and> (\<forall>b. view t b = view s b)"

lemma cache_inv_drop:
  assumes ci: "cache_inv s" and h: "blk s i b" "b_valid (bufs s ! i)"
    and cl: "b_refcnt (bufs s ! i) = 1 \<Longrightarrow> b_data (bufs s ! i) = disk s b"
    and bt: "bufs t = (bufs s)[i := (bufs s ! i)\<lparr>b_refcnt := b_refcnt (bufs s ! i) - 1\<rparr>]" and dt: "disk t = disk s"
    and sl: "\<And>j. j \<noteq> i \<Longrightarrow> buf_lock t j = buf_lock s j" "\<not> sl_locked (buf_lock t i)"
  shows "cache_inv t" and "view t b' = view s b'"
proof -
  note C = cache_invD [OF ci]
  have i: "i < NBUF" "b_dev (bufs s ! i) = ROOTDEV" "b_blockno (bufs s ! i) = b" using h by (auto simp: blk_def)
  have bk: "blk t j b' = blk s j b'" for j b' using blk_update [OF bt C(9) i(1)] i by (auto simp: blk_def)
  obtain xs where xs: "lru (bufs s) xs" using C(1) ..
  have "lru (bufs t) xs" unfolding bt using xs i(1) by (rule lru_update) simp_all
  moreover have "\<forall>j < NBUF. b_valid (bufs t ! j) \<or> b_refcnt (bufs t ! j) \<noteq> 0 \<longrightarrow> b_dev (bufs t ! j) = ROOTDEV"
    using C(3,4,9) i by (auto simp: bt nth_list_update)
  moreover have "\<forall>j < NBUF. b_refcnt (bufs t ! j) = 0 \<longrightarrow> \<not> sl_locked (buf_lock t j) \<and>
        (b_valid (bufs t ! j) \<longrightarrow> b_data (bufs t ! j) = disk t (b_blockno (bufs t ! j)))"
    using C(5,6,9) i sl cl by (auto simp: bt dt nth_list_update)
  moreover have "\<forall>j < NBUF. length (b_data (bufs t ! j)) = BSIZE" using C(7,9) i by (auto simp: bt nth_list_update)
  moreover have "\<forall>b. length (disk t b) = BSIZE" using C(8) by (simp add: dt)
  ultimately show ct: "cache_inv t" unfolding cache_inv_def bk using C(2) by blast
  show "view t b' = view s b'"
  proof (cases "\<exists>j. blk s j b' \<and> b_valid (bufs s ! j)")
    case True
    then obtain j where j: "blk s j b'" "b_valid (bufs s ! j)" by blast
    then show ?thesis using view_cached [OF ci j] view_cached [OF ct, of j b'] bk
      by (cases "j = i") (use i C(9) bt in auto)
  next
    case False
    have "view s b' = disk s b'" by (rule view_uncached) (use C(9) False in auto)
    moreover have "view t b' = disk t b'"
      by (rule view_uncached) (use C(9) False bk bt i in \<open>auto simp: nth_list_update\<close>)
    ultimately show ?thesis using dt by simp
  qed
qed

lemma lru_front_kmach [simp]: "(lru_front b s)\<lparr>kmach := m\<rparr> = lru_front b (s\<lparr>kmach := m\<rparr>)"
  by (simp add: lru_front_def Let_def upd_buf_bufs)

lemma lru_front_sel [simp]:
  "kmach (lru_front b s) = kmach s" "mem (lru_front b s) = mem s" "freelist (lru_front b s) = freelist s"
  "procs (lru_front b s) = procs s" "slks (lru_front b s) = slks s" "disk (lru_front b s) = disk s"
  "dtrace (lru_front b s) = dtrace s" "over (lru_front b s) = over s"
  by (subst lru_front_only, simp)+

definition drop_ref :: "nat \<Rightarrow> 'z bio_st_scheme \<Rightarrow> 'z bio_st_scheme" where
  "drop_ref i s = (let s = upd_buf i (\<lambda>x. x\<lparr>b_refcnt := b_refcnt x - 1\<rparr>) s
                   in if b_refcnt (bufs s ! i) = 0 then lru_front i s else s)"

lemma drop_ref_sel [simp]:
  "kmach (drop_ref b s) = kmach s" "mem (drop_ref b s) = mem s" "freelist (drop_ref b s) = freelist s"
  "procs (drop_ref b s) = procs s" "slks (drop_ref b s) = slks s" "disk (drop_ref b s) = disk s"
  "dtrace (drop_ref b s) = dtrace s" "over (drop_ref b s) = over s"
  by (simp_all add: drop_ref_def Let_def)

lemma drop_ref_kmach [simp]: "(drop_ref b s)\<lparr>kmach := m\<rparr> = drop_ref b (s\<lparr>kmach := m\<rparr>)"
  by (simp add: drop_ref_def Let_def upd_buf_bufs)

lemma drop_ref_ok:
  assumes ci: "cache_inv s" and h: "blk s i b" "b_valid (bufs s ! i)"
    and cl: "b_refcnt (bufs s ! i) = 1 \<Longrightarrow> b_data (bufs s ! i) = disk s b"
    and u: "bufs u = bufs s" "disk u = disk s" "\<And>j. j \<noteq> i \<Longrightarrow> buf_lock u j = buf_lock s j" "\<not> sl_locked (buf_lock u i)"
  shows "cores (bufs (drop_ref i u)) = cores ((bufs s)[i := (bufs s ! i)\<lparr>b_refcnt := b_refcnt (bufs s ! i) - 1\<rparr>])"
    and "cache_inv (drop_ref i u)" and "view (drop_ref i u) b' = view s b'"
proof -
  let ?v = "upd_buf i (\<lambda>x. x\<lparr>b_refcnt := b_refcnt x - 1\<rparr>) u"
  have bv: "bufs ?v = (bufs s)[i := (bufs s ! i)\<lparr>b_refcnt := b_refcnt (bufs s ! i) - 1\<rparr>]" using u by (simp add: upd_buf_bufs)
  note V = cache_inv_drop [OF ci h cl bv]
  have cv: "cache_inv ?v" "view ?v b' = view s b'" by (rule V; use u in simp)+
  obtain xs where xs: "lru (bufs ?v) xs" using cache_invD(1) [OF cv(1)] ..
  have "i < NBUF" using h by (simp add: blk_def)
  then have "i \<in> set xs" using xs by (simp add: lru_def)
  then obtain as bs where ab: "xs = as @ i # bs" by (metis split_list)
  have l: "lru (bufs (lru_front i ?v)) (i # as @ bs)" using xs unfolding ab by (rule lru_front_ok)
  note R = cache_inv_relink [OF cv(1) l lru_front_cores]
  have "cache_inv (lru_front i ?v)" "view (lru_front i ?v) b' = view ?v b'" by (rule R; simp)+
  then show "cache_inv (drop_ref i u)" "view (drop_ref i u) b' = view s b'" using cv by (simp_all add: drop_ref_def Let_def)
  show "cores (bufs (drop_ref i u)) = cores ((bufs s)[i := (bufs s ! i)\<lparr>b_refcnt := b_refcnt (bufs s ! i) - 1\<rparr>])"
    unfolding bv [symmetric] by (simp add: drop_ref_def Let_def lru_front_cores)
qed

lemma brelse_ok:
  assumes s: "calm c s" and ci: "cache_inv s" and h: "held c s i b"
    and cl: "b_refcnt (bufs s ! i) = 1 \<Longrightarrow> b_data (bufs s ! i) = disk s b"
  shows "\<exists>t. brelse c i s = Ret () t \<and> gave c i s t"
proof -
  have H: "blk s i b" "b_valid (bufs s ! i)" "holds_buf c s i" using h by (auto simp: held_def)
  let ?k = "after_cs c (kmach s)" and ?g = "\<lambda>k. k\<lparr>sl_locked := False, sl_pid := 0\<rparr>"
  have s1: "calm c (s\<lparr>kmach := ?k\<rparr>)" using s by simp
  obtain ps where r: "releasesleep c (LBufSleep i) (s\<lparr>kmach := ?k\<rparr>) =
      Ret () (upd_slk (LBufSleep i) ?g (s\<lparr>kmach := ?k, procs := ps\<rparr>))" and ps: "length ps = NPROC"
      "\<forall>j < NPROC. ps ! j = woken (Some (me c s)) (Some (ChSleeplock (LBufSleep i))) j (procs s ! j)"
    using releasesleep_ok [OF s1, of "LBufSleep i"] by auto
  let ?u = "upd_slk (LBufSleep i) ?g (s\<lparr>kmach := ?k, procs := ps\<rparr>)"
  have st: "settled c s (s\<lparr>kmach := ?k, procs := ps\<rparr>)" using s ps by (rule settled_wake)
  then have su: "settled c s ?u" by (rule settled_cong) simp_all
  have cu: "calm c ?u" using settled_calm [OF su] .
  have lb: "k_can c LBcache ?u" using cu by (rule calm_can)
  have "andthen (k_acquire c LBcache ?u) (\<lambda>_ s. k_release c LBcache (drop_ref i s)) = Ret () (drop_ref i ?u)"
    using lb by simp
  then have "brelse c i s = Ret () (drop_ref i ?u)"
    using H(3) r by (simp add: brelse_def holdingsleep_ok [OF s] holds_buf_def drop_ref_def Let_def)
  moreover have "gave c i s (drop_ref i ?u)"
  proof -
    have "bufs ?u = bufs s" "disk ?u = disk s" "\<And>j. j \<noteq> i \<Longrightarrow> buf_lock ?u j = buf_lock s j" "\<not> sl_locked (buf_lock ?u i)"
      by (simp_all add: upd_slk_def)
    note D = drop_ref_ok [OF ci H(1,2) cl this]
    have "settled c s (drop_ref i ?u)" using su by (rule settled_cong) simp_all
    then show ?thesis using D unfolding gave_def by (simp add: upd_slk_def)
  qed
  ultimately show ?thesis by blast
qed

lemma pin_ok:
  assumes s: "calm c s" and ci: "cache_inv s" and h: "blk s i b" "b_valid (bufs s ! i)"
    and t: "t = upd_buf i (\<lambda>x. x\<lparr>b_refcnt := r\<rparr>) (s\<lparr>kmach := after_cs c (kmach s)\<rparr>)" and r: "r \<noteq> 0"
  shows "settled c s t" and "cache_inv t" and "view t b' = view s b'"
proof -
  have i: "i < length (bufs s)" "b_dev (bufs s ! i) = ROOTDEV" "b_blockno (bufs s ! i) = b" "length (b_data (bufs s ! i)) = BSIZE"
    using cache_invD(7,9) [OF ci] h(1) by (auto simp: blk_def)
  show "settled c s t" using settled_cong [OF settled_after_cs [OF s], of t] t by simp
  note u = buf_update [OF ci h, of t "(bufs s ! i)\<lparr>b_refcnt := r\<rparr>"]
  show "cache_inv t" by (rule u(1)) (use t i h r in \<open>simp_all add: upd_buf_bufs\<close>)
  have "view t b' = (if b' = b then b_data (bufs s ! i) else view s b')"
    using u(2) [of b'] t i h r by (simp add: upd_buf_bufs)
  then show "view t b' = view s b'" using view_cached [OF ci h] by simp
qed

lemma bpin_eq: "calm c s \<Longrightarrow> bpin c i s = Ret () (upd_buf i (\<lambda>x. x\<lparr>b_refcnt := b_refcnt (bufs s ! i) + 1\<rparr>) (s\<lparr>kmach := after_cs c (kmach s)\<rparr>))"
  by (simp add: bpin_def upd_buf_def)

lemma bunpin_eq: "calm c s \<Longrightarrow> bunpin c i s = Ret () (upd_buf i (\<lambda>x. x\<lparr>b_refcnt := b_refcnt (bufs s ! i) - 1\<rparr>) (s\<lparr>kmach := after_cs c (kmach s)\<rparr>))"
  by (simp add: bunpin_def upd_buf_def)

section \<open>Initialisation\<close>

lemma initsleeplock_bufs [simp]: "bufs (initsleeplock l nm s) = bufs s"
  by (simp add: initsleeplock_def upd_slk_def)

lemma binit_one_ring:
  assumes "length (bufs s) = Suc NBUF" and "ring (nexts (bufs s)) (prevs (bufs s)) NBUF xs NBUF" and "b < NBUF"
    and "b \<notin> set xs" and "distinct xs" and "\<forall>x \<in> set xs. x < NBUF"
  shows "ring (nexts (bufs (binit_one b s))) (prevs (bufs (binit_one b s))) NBUF (b # xs) NBUF"
    and "length (bufs (binit_one b s)) = Suc NBUF" and "cores (bufs (binit_one b s)) = cores (bufs s)"
proof -
  let ?nx = "nexts (bufs s)" and ?pv = "prevs (bufs s)"
  define s1 where "s1 = upd_buf b (\<lambda>x. x\<lparr>b_next := b_next (bufs s ! NBUF)\<rparr>) s"
  define s2 where "s2 = upd_buf b (\<lambda>x. x\<lparr>b_prev := NBUF\<rparr>) s1"
  define s3 where "s3 = initsleeplock (LBufSleep b) ''buffer'' s2"
  define s4 where "s4 = upd_buf (b_next (bufs s3 ! NBUF)) (\<lambda>x. x\<lparr>b_prev := b\<rparr>) s3"
  have f: "binit_one b s = upd_buf NBUF (\<lambda>x. x\<lparr>b_next := b\<rparr>) s4"
    by (simp add: binit_one_def s1_def s2_def s3_def s4_def Let_def)
  have nb: "b < Suc NBUF" "b \<noteq> NBUF" "NBUF \<notin> set xs" using assms(3,6) by auto
  have l: "?nx NBUF < Suc NBUF" using ring_ends [OF assms(2)] assms(6) by fastforce
  have 1: "nexts (bufs s1) = ?nx(b := ?nx NBUF)" "prevs (bufs s1) = ?pv" "length (bufs s1) = Suc NBUF"
    unfolding s1_def using assms(1) nb by (simp_all only: links_upd_buf)
  have 2: "nexts (bufs s2) = ?nx(b := ?nx NBUF)" "prevs (bufs s2) = ?pv(b := NBUF)" "length (bufs s2) = Suc NBUF"
    unfolding s2_def using 1 nb by (simp_all only: links_upd_buf)
  have 3: "nexts (bufs s3) = ?nx(b := ?nx NBUF)" "prevs (bufs s3) = ?pv(b := NBUF)" "length (bufs s3) = Suc NBUF"
    unfolding s3_def initsleeplock_bufs by (fact 2)+
  have b3: "b_next (bufs s3 ! NBUF) = ?nx NBUF" using fun_cong [OF 3(1), of NBUF] nb by simp
  have 4: "nexts (bufs s4) = ?nx(b := ?nx NBUF)" "prevs (bufs s4) = ?pv(b := NBUF, ?nx NBUF := b)" "length (bufs s4) = Suc NBUF"
    unfolding s4_def b3 using 3 l by (simp_all only: links_upd_buf)
  have 5: "nexts (bufs (binit_one b s)) = ?nx(b := ?nx NBUF, NBUF := b)"
    "prevs (bufs (binit_one b s)) = ?pv(b := NBUF, ?nx NBUF := b)" "length (bufs (binit_one b s)) = Suc NBUF"
    unfolding f using 4 by (simp_all only: links_upd_buf lessI)
  show "length (bufs (binit_one b s)) = Suc NBUF" by fact
  have "ring (?nx(b := ?nx NBUF, NBUF := b)) (?pv(b := NBUF, ?nx NBUF := b)) NBUF (b # xs) NBUF"
    using assms(2) by (rule ring_push) (use assms nb in auto)
  then show "ring (nexts (bufs (binit_one b s))) (prevs (bufs (binit_one b s))) NBUF (b # xs) NBUF"
    unfolding 5 .
  show "cores (bufs (binit_one b s)) = cores (bufs s)"
    by (simp add: binit_one_def Let_def cores_upd_buf)
qed

lemma binit_lru:
  assumes "length (bufs s) = Suc NBUF"
  shows "lru (bufs (binit s)) (rev [0..<NBUF])" and "cores (bufs (binit s)) = cores (bufs s)"
proof -
  define s0 where "s0 = upd_buf NBUF (\<lambda>x. x\<lparr>b_next := NBUF\<rparr>) (upd_buf NBUF (\<lambda>x. x\<lparr>b_prev := NBUF\<rparr>)
      (s\<lparr>kmach := initlock LBcache ''bcache'' (kmach s)\<rparr>))"
  have 0: "length (bufs s0) = Suc NBUF" "b_next (bufs s0 ! NBUF) = NBUF" "b_prev (bufs s0 ! NBUF) = NBUF"
    "cores (bufs s0) = cores (bufs s)"
    using assms by (simp_all add: s0_def upd_buf_bufs cores_upd_buf) (simp add: map_update list_update_same_conv)
  have "k \<le> NBUF \<Longrightarrow> length (bufs (fold binit_one [0..<k] s0)) = Suc NBUF \<and> cores (bufs (fold binit_one [0..<k] s0)) = cores (bufs s) \<and>
    ring (nexts (bufs (fold binit_one [0..<k] s0))) (prevs (bufs (fold binit_one [0..<k] s0))) NBUF (rev [0..<k]) NBUF" for k
  proof (induction k)
    case 0
    then show ?case using \<open>length (bufs s0) = Suc NBUF\<close> \<open>b_next (bufs s0 ! NBUF) = NBUF\<close> \<open>b_prev (bufs s0 ! NBUF) = NBUF\<close>
      \<open>cores (bufs s0) = cores (bufs s)\<close> by simp
  next
    case (Suc k)
    let ?s = "fold binit_one [0..<k] s0"
    have r: "length (bufs ?s) = Suc NBUF" "ring (nexts (bufs ?s)) (prevs (bufs ?s)) NBUF (rev [0..<k]) NBUF" "k < NBUF"
      "cores (bufs ?s) = cores (bufs s)" using Suc by auto
    note O = binit_one_ring [OF r(1-3)]
    have e: "fold binit_one [0..<Suc k] s0 = binit_one k ?s" by simp
    show ?case unfolding e using O r(3,4) by simp
  qed
  note F = this [of NBUF]
  have b: "binit s = fold binit_one [0..<NBUF] s0" by (simp add: binit_def s0_def Let_def)
  show "lru (bufs (binit s)) (rev [0..<NBUF])" unfolding b lru_def using F by auto
  show "cores (bufs (binit s)) = cores (bufs s)" unfolding b using F by simp
qed

lemma calm_initlock: "calm c s \<Longrightarrow> kmach t = initlock l nm (kmach s) \<Longrightarrow> procs t = procs s \<Longrightarrow> calm c t"
  by (auto simp: calm_def initlock_def upd_lock_def cpu_ok_def lock_free_def simp del: calm_simps)

text \<open>\<^verbatim>\<open>binit\<close> leaves everything but the lock words and the links alone.\<close>

definition binit_frame :: "nat \<Rightarrow> 'z bio_st_scheme \<Rightarrow> 'z bio_st_scheme \<Rightarrow> bool" where
  "binit_frame c s t \<longleftrightarrow> (calm c s \<longrightarrow> calm c t) \<and> me c t = me c s \<and> procs t = procs s \<and> mem t = mem s \<and>
     disk t = disk s \<and> dtrace t = dtrace s \<and> over t = over s \<and> (\<forall>i. \<not> sl_locked (buf_lock s i) \<longrightarrow> \<not> sl_locked (buf_lock t i))"

lemma binit_one_frame: "binit_frame c s (binit_one b s)" "\<not> sl_locked (buf_lock (binit_one b s) b)"
proof -
  have k: "kmach (binit_one b s) = initlock (LBufSleep b) ''sleep lock'' (kmach s)" "procs (binit_one b s) = procs s"
    by (simp_all add: binit_one_def initsleeplock_def Let_def)
  have "calm c s \<Longrightarrow> calm c (binit_one b s)" by (rule calm_initlock [OF _ k])
  moreover have "me c (binit_one b s) = me c s" by (simp add: k initlock_def upd_lock_def)
  ultimately show "binit_frame c s (binit_one b s)"
    by (auto simp: binit_frame_def binit_one_def initsleeplock_def upd_slk_def Let_def)
  show "\<not> sl_locked (buf_lock (binit_one b s) b)"
    by (simp add: binit_one_def initsleeplock_def upd_slk_def Let_def)
qed

lemma binit_frame_trans: "binit_frame c s t \<Longrightarrow> binit_frame c t u \<Longrightarrow> binit_frame c s u"
  unfolding binit_frame_def by simp

lemma binit_fold_frame: "binit_frame c s (fold binit_one bs s) \<and> (\<forall>b \<in> set bs. \<not> sl_locked (buf_lock (fold binit_one bs s) b))"
proof (induction bs arbitrary: s)
  case (Cons b bs)
  have a: "binit_frame c s (binit_one b s)" by (rule binit_one_frame)
  have f: "binit_frame c (binit_one b s) (fold binit_one bs (binit_one b s))" using Cons.IH by blast
  have "\<not> sl_locked (buf_lock (fold binit_one bs (binit_one b s)) b)"
    using f binit_one_frame(2) unfolding binit_frame_def by blast
  then show ?case using binit_frame_trans [OF a f] Cons.IH [of "binit_one b s"] by simp
qed (simp add: binit_frame_def)

lemma binit_frame_ok: "binit_frame c s (binit s)" "i < NBUF \<Longrightarrow> \<not> sl_locked (buf_lock (binit s) i)"
proof -
  let ?s = "upd_buf NBUF (\<lambda>x. x\<lparr>b_next := NBUF\<rparr>) (upd_buf NBUF (\<lambda>x. x\<lparr>b_prev := NBUF\<rparr>)
      (s\<lparr>kmach := initlock LBcache ''bcache'' (kmach s)\<rparr>))"
  have b: "binit s = fold binit_one [0..<NBUF] ?s" by (simp add: binit_def Let_def)
  have "calm c s \<Longrightarrow> calm c ?s" by (rule calm_initlock) simp_all
  then have "binit_frame c s ?s" by (simp add: binit_frame_def initlock_def upd_lock_def)
  then show "binit_frame c s (binit s)"
    unfolding b by (rule binit_frame_trans) (use binit_fold_frame in blast)
  show "\<not> sl_locked (buf_lock (binit s) i)" if "i < NBUF" unfolding b using binit_fold_frame [of _ ?s "[0..<NBUF]"] that by simp
qed

text \<open>An empty buffer, as the zeroed memory of the kernel image has it.\<close>

definition zero_buf :: buf where
  "zero_buf = \<lparr>b_valid = False, b_disk = False, b_dev = 0, b_blockno = 0, b_refcnt = 0, b_prev = 0, b_next = 0,
     b_data = replicate BSIZE 0\<rparr>"

lemma binit_cache_inv:
  assumes "bufs s = replicate (Suc NBUF) zero_buf" and "\<And>b. length (disk s b) = BSIZE"
  shows "cache_inv (binit s)" and "view (binit s) b = disk s b" and "i < NBUF \<Longrightarrow> b_refcnt (bufs (binit s) ! i) = 0"
    and "\<not> blk (binit s) i b"
proof -
  have l: "lru (bufs (binit s)) (rev [0..<NBUF])" and c: "cores (bufs (binit s)) = cores (bufs s)"
    using binit_lru [of s] assms(1) by simp_all
  have len: "length (bufs (binit s)) = Suc NBUF" using l by (simp add: lru_def)
  have z: "b_valid (bufs (binit s) ! i) = False" "b_dev (bufs (binit s) ! i) = 0" "b_refcnt (bufs (binit s) ! i) = 0"
    "b_data (bufs (binit s) ! i) = replicate BSIZE 0" if "i < NBUF" for i
  proof -
    have "i < Suc NBUF" using that by simp
    then have "bufs s ! i = zero_buf" unfolding assms(1) by (rule nth_replicate)
    then show "b_valid (bufs (binit s) ! i) = False" "b_dev (bufs (binit s) ! i) = 0" "b_refcnt (bufs (binit s) ! i) = 0"
      "b_data (bufs (binit s) ! i) = replicate BSIZE 0"
      using cores_sel [OF c, of i] that len by (simp_all add: zero_buf_def)
  qed
  have d: "disk (binit s) = disk s" using binit_frame_ok(1) [of 0 s] by (simp add: binit_frame_def)
  show nb: "\<not> blk (binit s) i b" for i b using z(2) [of i] by (auto simp: blk_def ROOTDEV_def)
  show "cache_inv (binit s)" unfolding cache_inv_def using l z nb binit_frame_ok(2) [of _ s] assms(2) d by auto
  show "view (binit s) b = disk s b" using view_uncached [OF len, of b] nb d by simp
  show "i < NBUF \<Longrightarrow> b_refcnt (bufs (binit s) ! i) = 0" by (rule z)
qed

section \<open>Properties\<close>

lemma got_only:
  assumes "cache_inv s" and "got c b i s t" and "blk s j b"
  shows "j = i"
proof (rule ccontr)
  assume "j \<noteq> i"
  then have "blk t j b" using assms(2,3) by (simp add: got_def blk_def)
  moreover have "blk t i b" "cache_inv t" using assms(2) by (simp_all add: got_def)
  ultimately show False using cache_invD(2) \<open>j \<noteq> i\<close> by blast
qed

lemma got_clean:
  assumes ci: "cache_inv s" and g: "got c b i s t" and r: "b_refcnt (bufs s ! i) = 0"
  shows "view s b = disk s b"
proof (cases "blk s i b \<and> b_valid (bufs s ! i)")
  case True
  then have "i < NBUF" "b_blockno (bufs s ! i) = b" by (auto simp: blk_def)
  then show ?thesis using view_cached [OF ci] cache_invD(6) [OF ci _ r] True by auto
next
  case False
  show ?thesis
  proof (rule view_uncached)
    fix j assume j: "blk s j b"
    then have "j = i" by (rule got_only [OF ci g])
    then show "\<not> b_valid (bufs s ! j)" using False j by blast
  qed (rule cache_invD(9) [OF ci])
qed

lemma gave_bufs:
  assumes "gave c i s t" and "i < NBUF" and "length (bufs s) = Suc NBUF" and "j < NBUF"
  shows "b_refcnt (bufs t ! j) = (if j = i then b_refcnt (bufs s ! i) - 1 else b_refcnt (bufs s ! j))"
    and "b_valid (bufs t ! j) = b_valid (bufs s ! j)" and "b_data (bufs t ! j) = b_data (bufs s ! j)"
    and "b_dev (bufs t ! j) = b_dev (bufs s ! j)" and "b_blockno (bufs t ! j) = b_blockno (bufs s ! j)"
    and "blk t j b = blk s j b"
proof -
  have "cores (bufs t) = cores ((bufs s)[i := (bufs s ! i)\<lparr>b_refcnt := b_refcnt (bufs s ! i) - 1\<rparr>])"
    using assms(1) by (simp add: gave_def)
  moreover from this have "length (bufs t) = Suc NBUF" using assms(3) map_eq_imp_length_eq by fastforce
  ultimately show "b_refcnt (bufs t ! j) = (if j = i then b_refcnt (bufs s ! i) - 1 else b_refcnt (bufs s ! j))"
    "b_valid (bufs t ! j) = b_valid (bufs s ! j)" "b_data (bufs t ! j) = b_data (bufs s ! j)"
    "b_dev (bufs t ! j) = b_dev (bufs s ! j)" "b_blockno (bufs t ! j) = b_blockno (bufs s ! j)"
    using cores_sel [of "bufs t" _ j] assms(2-4) by (auto simp: nth_list_update)
  then show "blk t j b = blk s j b" by (simp add: blk_def)
qed

text \<open>
  C14. From a state that satisfies the cache invariant, with a buffer to spare,
  bread returns a locked buffer that holds the current content of the block: the cached copy if there
  is one, and the disk block otherwise.  Releasing it gives back the lock and the reference.  Neither call
  changes the content of any block, cached or on disk, or breaks the invariant (the ring of buffers stays a ring of
  all buffers, no block has two buffers, and an unreferenced valid buffer equals its disk block).
\<close>

theorem bread_brelse:
  assumes "calm c s" and "cache_inv s" and "(\<exists>i. blk s i b) \<or> (\<exists>i < NBUF. b_refcnt (bufs s ! i) = 0)"
    and "\<forall>i. blk s i b \<longrightarrow> \<not> sl_locked (buf_lock s i) \<and> b_refcnt (bufs s ! i) + 1 \<noteq> 0"
  shows "\<exists>i t u. bread c ROOTDEV b s = Ret i t \<and> b_data (bufs t ! i) = view s b \<and> holds_buf c t i \<and> cache_inv t \<and>
     brelse c i t = Ret () u \<and> cache_inv u \<and> \<not> sl_locked (buf_lock u i) \<and>
     (\<forall>j < NBUF. b_refcnt (bufs u ! j) = b_refcnt (bufs s ! j)) \<and>
     (\<forall>b'. view t b' = view s b' \<and> view u b' = view s b') \<and> disk u = disk s"
proof -
  obtain i t where t: "bread c ROOTDEV b s = Ret i t" and g: "got c b i s t"
    using bread_ok [OF assms(1-3)] assms(4) by blast
  note G = g [unfolded got_def]
  have ct: "cache_inv t" and ca: "calm c t" and d: "b_data (bufs t ! i) = view s b" and i: "i < NBUF" "i < length (bufs t)"
    using G cache_invD(9) [of t] by (auto simp: settled_def blk_def)
  have cl: "b_data (bufs t ! i) = disk t b" if "b_refcnt (bufs t ! i) = 1"
  proof -
    have "b_refcnt (bufs s ! i) = 0" using that G by simp
    then show ?thesis using got_clean [OF assms(2) g] d G by simp
  qed
  obtain u where u: "brelse c i t = Ret () u" "gave c i t u" using brelse_ok [OF ca ct got_held [OF g] cl] by blast
  note U = u(2) [unfolded gave_def]
  have "b_refcnt (bufs u ! j) = b_refcnt (bufs s ! j)" if "j < NBUF" for j
    using gave_bufs(1) [OF u(2) i(1) cache_invD(9) [OF ct] that] G by (cases "j = i") simp_all
  moreover have "holds_buf c t i" "\<forall>b'. view t b' = view s b'" "disk t = disk s" using G by simp_all
  moreover have "cache_inv u" "\<not> sl_locked (buf_lock u i)" "\<forall>b'. view u b' = view t b'" "disk u = disk t" using U by simp_all
  ultimately show ?thesis using t d ct u(1) by (intro exI [of _ i] exI [of _ t] exI [of _ u]) simp
qed

text \<open>A cache after \<^verbatim>\<open>binit\<close>, run by process 0 on hart 0.\<close>

definition bio_state :: "(u32 \<Rightarrow> block) \<Rightarrow> bio_st" where
  "bio_state d = \<lparr>kmach = upd_cpu 0 (\<lambda>k. k\<lparr>cpu_proc := Some 0\<rparr>) (kmach boot_kmem), mem = (\<lambda>_. 0), freelist = 0,
     kernel_pagetable = 0, satp = (\<lambda>_. 0), procs = replicate NPROC idle_proc, nextpid = 8, initproc = Some 0,
     slks = (\<lambda>_. \<lparr>sl_locked = False, sl_name = [], sl_pid = 0\<rparr>),
     bufs = replicate (Suc NBUF) zero_buf, disk = d, dtrace = []\<rparr>"

lemma bio_state_calm: "calm 0 (bio_state d)"
  by (simp add: calm_def bio_state_def boot_kmem_def upd_cpu_def cpu_ok_def lock_free_def NPROC_def del: calm_simps)

lemma bio_state_sel [simp]: "bufs (bio_state d) = replicate (Suc NBUF) zero_buf" "disk (bio_state d) = d"
  by (simp_all add: bio_state_def)

theorem bread_brelse_witness:
  "\<exists>i t u. bread 0 ROOTDEV 7 (binit (bio_state (\<lambda>b. replicate BSIZE (ucast b)))) = Ret i t \<and>
     b_data (bufs t ! i) = replicate BSIZE 7 \<and> brelse 0 i t = Ret () u"
proof -
  let ?d = "\<lambda>b :: u32. replicate BSIZE (ucast b :: u8)"
  let ?s = "bio_state ?d"
  have b: "cache_inv (binit ?s)" "view (binit ?s) 7 = replicate BSIZE 7" "\<forall>i < NBUF. b_refcnt (bufs (binit ?s) ! i) = 0"
    "\<forall>i. \<not> blk (binit ?s) i 7" using binit_cache_inv [of ?s] by auto
  have c: "calm 0 (binit ?s)" using binit_frame_ok(1) [of 0 ?s] bio_state_calm by (simp add: binit_frame_def)
  have r: "\<exists>i < NBUF. b_refcnt (bufs (binit ?s) ! i) = 0" using b(3) by (intro exI [of _ 0]) (simp add: NBUF_def)
  show ?thesis using bread_brelse [OF c b(1), of 7] r b(2,4) by auto
qed

end
