(* ===== verification/Cache.thy ===== *)
theory Cache
  imports Bio
begin

text \<open>
  The buffer cache as the log and the file system use it.  \<open>busy c P hs s\<close>: the process on hart \<open>c\<close> holds exactly the
  buffers \<open>hs\<close> (index and block number), each block of \<open>P\<close> is pinned by one extra reference, and nobody
  else refers to any buffer.  Each operation of the cache keeps the predicate and
  changes \<open>view\<close> and the disk only as its rule says.
\<close>

definition busy :: "nat \<Rightarrow> u32 set \<Rightarrow> (nat \<times> u32) list \<Rightarrow> 'z bio_st_scheme \<Rightarrow> bool" where
  "busy c P hs s \<longleftrightarrow> calm c s \<and> cache_inv s \<and> (\<forall>h \<in> set hs. held c s (fst h) (snd h)) \<and> distinct (map fst hs) \<and>
     (\<forall>i < NBUF. sl_locked (buf_lock s i) \<longleftrightarrow> i \<in> fst ` set hs) \<and>
     (\<forall>i < NBUF. b_refcnt (bufs s ! i) = (if \<exists>b \<in> P. blk s i b then 1 else 0) + (if i \<in> fst ` set hs then 1 else 0)) \<and>
     (\<forall>b \<in> P. \<exists>i. blk s i b \<and> b_valid (bufs s ! i))"

lemma busyD:
  assumes "busy c P hs s"
  shows "calm c s" "cache_inv s" "(i, b) \<in> set hs \<Longrightarrow> held c s i b" "distinct (map fst hs)"
    "i < NBUF \<Longrightarrow> sl_locked (buf_lock s i) \<longleftrightarrow> i \<in> fst ` set hs"
    "i < NBUF \<Longrightarrow> b_refcnt (bufs s ! i) = (if \<exists>b \<in> P. blk s i b then 1 else 0) + (if i \<in> fst ` set hs then 1 else 0)"
    "b \<in> P \<Longrightarrow> \<exists>i. blk s i b \<and> b_valid (bufs s ! i)"
  using assms by (auto simp: busy_def)

text \<open>There is room for another buffer as long as fewer than \<open>NBUF\<close> are pinned or held.\<close>

lemma busy_room:
  assumes "busy c P hs s" and "finite P" and "card P + length hs < NBUF"
  shows "\<exists>i < NBUF. b_refcnt (bufs s ! i) = 0"
proof -
  note B = busyD [OF assms(1)]
  let ?pin = "\<lambda>b. SOME i. blk s i b"
  let ?U = "?pin ` P \<union> fst ` set hs"
  have "card ?U \<le> card P + length hs"
    using card_Un_le [of "?pin ` P" "fst ` set hs"] card_image_le [OF assms(2), of ?pin]
      card_length [of "map fst hs"] by simp
  then have "card ?U < card {..<NBUF}" using assms(3) by simp
  moreover have "finite ?U" using assms(2) by simp
  ultimately have "\<not> {..<NBUF} \<subseteq> ?U" using card_mono [of ?U "{..<NBUF}"] by linarith
  then obtain i where i: "i < NBUF" "i \<notin> ?U" by auto
  have "\<not> blk s i b" if "b \<in> P" for b
  proof
    assume "blk s i b"
    moreover from this have "blk s (?pin b) b" by (rule someI)
    ultimately have "?pin b = i" using cache_invD(2) [OF B(2)] by blast
    then show False using i(2) that by auto
  qed
  then show ?thesis using B(6) [OF i(1)] i by auto
qed

lemma busy_bread:
  assumes b: "busy c P hs s" and r: "b \<in> P \<or> finite P \<and> card P + length hs < NBUF" and n: "b \<notin> snd ` set hs"
  shows "\<exists>i t. bread c ROOTDEV b s = Ret i t \<and> busy c P ((i, b) # hs) t \<and> b_data (bufs t ! i) = view s b \<and>
     (\<forall>b'. view t b' = view s b') \<and> disk t = disk s \<and> dtrace t = dtrace s \<and> over t = over s \<and> settled c s t \<and>
     (\<forall>h \<in> set hs. bufs t ! fst h = bufs s ! fst h) \<and> (\<forall>l. (\<forall>i. l \<noteq> LBufSleep i) \<longrightarrow> slks t l = slks s l)"
proof -
  note B = busyD [OF b]
  have nh: "i \<notin> fst ` set hs" if "blk s i b" for i
  proof
    assume "i \<in> fst ` set hs"
    then obtain b' where h: "(i, b') \<in> set hs" by auto
    then have "blk s i b'" using B(3) by (auto simp: held_def)
    then have "b' = b" using that by (simp add: blk_def)
    then show False using h n by force
  qed
  have fr: "\<not> sl_locked (buf_lock s i) \<and> b_refcnt (bufs s ! i) + 1 \<noteq> 0" if "blk s i b" for i
  proof -
    have "i < NBUF" using that by (simp add: blk_def)
    then show ?thesis using B(5,6) [of i] nh [OF that] by auto
  qed
  have room: "(\<exists>i. blk s i b) \<or> (\<exists>i < NBUF. b_refcnt (bufs s ! i) = 0)"
    using r B(7) [of b] busy_room [OF b] by blast
  obtain i t where t: "bread c ROOTDEV b s = Ret i t" "got c b i s t"
    using bread_ok [OF B(1,2) room] fr by blast
  note G = t(2) [unfolded got_def]
  have iN: "i < NBUF" using G by (simp add: blk_def)
  have ih: "i \<notin> fst ` set hs" using B(5) [OF iN] G by blast
  have bi: "bufs t ! j = bufs s ! j" if "j \<noteq> i" for j using G that by blast
  have bk: "blk t j b' = blk s j b'" if "j \<noteq> i" for j b' using bi [OF that] by (simp add: blk_def)
  have pid: "mypid c t = mypid c s" using G settled_pid by blast
  have own: "b' = b" if "blk s i b'" "b' \<in> P" for b'
  proof -
    have "b_refcnt (bufs s ! i) \<noteq> 0" using B(6) [OF iN] ih that by auto
    then have "blk s i b" using G by blast
    then show ?thesis using that(1) by (simp add: blk_def)
  qed
  have P1: "(\<exists>b' \<in> P. blk t j b') = (\<exists>b' \<in> P. blk s j b')" if "j < NBUF" for j
  proof (cases "j = i")
    case True
    have "blk s i b" if "b \<in> P" using B(7) [OF that] got_only [OF B(2) t(2)] by blast
    moreover have "blk t i b' \<longleftrightarrow> b' = b" for b' using G by (auto simp: blk_def)
    ultimately show ?thesis unfolding True using own by metis
  qed (simp add: bk)
  have "busy c P ((i, b) # hs) t" unfolding busy_def
  proof (intro conjI ballI allI impI)
    show "calm c t" "cache_inv t" using G settled_calm by blast+
    show "distinct (map fst ((i, b) # hs))" using B(4) ih by simp
  next
    fix h assume "h \<in> set ((i, b) # hs)"
    moreover have "held c t (fst h) (snd h)" if "h \<in> set hs"
    proof -
      have h: "held c s (fst h) (snd h)" "fst h \<noteq> i" using B(3) [of "fst h" "snd h"] that ih by auto
      then have "slks t (LBufSleep (fst h)) = slks s (LBufSleep (fst h))" using G by simp
      then show ?thesis using h bi bk pid by (simp add: held_def holds_buf_def)
    qed
    ultimately show "held c t (fst h) (snd h)" using got_held [OF t(2)] by auto
  next
    fix j assume j: "j < NBUF"
    show "sl_locked (buf_lock t j) = (j \<in> fst ` set ((i, b) # hs))"
      using B(5) [OF j] G by (cases "j = i") (simp_all add: holds_buf_def)
    show "b_refcnt (bufs t ! j) = (if \<exists>b \<in> P. blk t j b then 1 else 0) + (if j \<in> fst ` set ((i, b) # hs) then 1 else 0)"
      unfolding P1 [OF j] using B(6) [OF j] bi G ih by (cases "j = i") simp_all
  next
    fix b' assume p: "b' \<in> P"
    then obtain k where k: "blk s k b'" "b_valid (bufs s ! k)" using B(7) by blast
    show "\<exists>k. blk t k b' \<and> b_valid (bufs t ! k)"
    proof (cases "k = i")
      case True
      then have "b' = b" using own k(1) p by simp
      then show ?thesis using G by (intro exI [of _ i]) simp
    next
      case False
      then show ?thesis using bk bi k by (intro exI [of _ k]) simp
    qed
  qed
  moreover have "\<forall>h \<in> set hs. bufs t ! fst h = bufs s ! fst h" using bi ih by (metis imageI)
  moreover have "\<forall>l. (\<forall>i. l \<noteq> LBufSleep i) \<longrightarrow> slks t l = slks s l" using G by blast
  moreover have "b_data (bufs t ! i) = view s b" "\<forall>b'. view t b' = view s b'" "disk t = disk s" "dtrace t = dtrace s"
    "over t = over s" "settled c s t" using G by simp_all
  ultimately show ?thesis using t(1) by (intro exI [of _ i] exI [of _ t]) simp
qed

text \<open>A change of the data of a held buffer.\<close>

lemma busy_same_bufs:
  assumes b: "busy c P hs s" and calm: "calm c t" and ci: "cache_inv t" and pid: "mypid c t = mypid c s"
    and sl: "\<And>i. buf_lock t i = buf_lock s i"
    and bf: "\<And>i. i < NBUF \<Longrightarrow> b_dev (bufs t ! i) = b_dev (bufs s ! i) \<and> b_blockno (bufs t ! i) = b_blockno (bufs s ! i) \<and>
        b_valid (bufs t ! i) = b_valid (bufs s ! i) \<and> b_refcnt (bufs t ! i) = b_refcnt (bufs s ! i)"
  shows "busy c P hs t"
proof -
  note B = busyD [OF b]
  have bk: "blk t i b = blk s i b" for i b using bf [of i] by (auto simp: blk_def)
  have "held c t i b" if "held c s i b" for i b
  proof -
    have "i < NBUF" using that by (simp add: held_def blk_def)
    then show ?thesis using that bf [of i] sl pid bk by (simp add: held_def holds_buf_def)
  qed
  moreover have "\<exists>i. blk t i b \<and> b_valid (bufs t ! i)" if p: "b \<in> P" for b
  proof -
    obtain i where i: "blk s i b" "b_valid (bufs s ! i)" using B(7) [OF p] by blast
    then have "i < NBUF" by (simp add: blk_def)
    then show ?thesis using i bf [of i] bk by blast
  qed
  ultimately show ?thesis
    unfolding busy_def bk using calm ci B(3-6) bf sl by simp
qed

lemma busy_set_data:
  assumes b: "busy c P hs s" and h: "(i, b) \<in> set hs" and d: "length d = BSIZE"
  shows "busy c P hs (set_data i d s)" and "view (set_data i d s) b' = (if b' = b then d else view s b')"
    and "b_data (bufs (set_data i d s) ! i) = d"
proof -
  note B = busyD [OF b]
  note S = set_data_ok [OF B(2) B(3) [OF h] d]
  have i: "i < length (bufs s)" using B(3) [OF h] cache_invD(9) [OF B(2)] by (simp add: held_def blk_def)
  show "busy c P hs (set_data i d s)"
    by (rule busy_same_bufs [OF b]) (use B(1) S(1) i in \<open>simp_all add: nth_list_update\<close>)
  show "view (set_data i d s) b' = (if b' = b then d else view s b')" "b_data (bufs (set_data i d s) ! i) = d"
    using S(2,4) by simp_all
qed

lemma busy_bwrite:
  assumes b: "busy c P hs s" and h: "(i, b) \<in> set hs"
  shows "\<exists>t. bwrite c i s = Ret () t \<and> busy c P hs t \<and> bufs t = bufs s \<and> slks t = slks s \<and> settled c s t \<and>
     disk t = (disk s)(b := b_data (bufs s ! i)) \<and> dtrace t = dtrace s @ [(b, b_data (bufs s ! i))] \<and> over t = over s \<and>
     (\<forall>b'. view t b' = view s b')"
proof -
  note B = busyD [OF b]
  obtain t where t: "bwrite c i s = Ret () t" "settled c s t" "bufs t = bufs s" "slks t = slks s"
     "disk t = (disk s)(b := b_data (bufs s ! i))" "dtrace t = dtrace s @ [(b, b_data (bufs s ! i))]" "over t = over s"
     "cache_inv t" "\<forall>b'. view t b' = view s b'"
    using bwrite_ok [OF B(1,2) B(3) [OF h]] by blast
  have "busy c P hs t"
    by (rule busy_same_bufs [OF b settled_calm [OF t(2)] t(8) settled_pid [OF t(2)]]) (simp_all add: t(3,4))
  then show ?thesis using t by (intro exI [of _ t]) simp
qed

lemma busy_view:
  assumes "busy c P hs s" and "(i, b) \<in> set hs"
  shows "view s b = b_data (bufs s ! i)" and "length (b_data (bufs s ! i)) = BSIZE" and "i < NBUF"
  using view_cached [OF busyD(2) [OF assms(1)]] busyD(3) [OF assms] cache_invD(7) [OF busyD(2) [OF assms(1)]]
  by (auto simp: held_def blk_def)

lemma in_fst_unique: "distinct (map fst hs) \<Longrightarrow> (i, b) \<in> set hs \<Longrightarrow> (i, b') \<in> set hs \<Longrightarrow> b = b'"
  by (induction hs) (auto simp: rev_image_eqI)

lemma busy_brelse:
  assumes b: "busy c P hs s" and h: "(i, b) \<in> set hs" and cl: "b \<in> P \<or> view s b = disk s b"
  shows "\<exists>t. brelse c i s = Ret () t \<and> busy c P (remove1 (i, b) hs) t \<and> settled c s t \<and>
     (\<forall>b'. view t b' = view s b') \<and> disk t = disk s \<and> dtrace t = dtrace s \<and> over t = over s \<and>
     (\<forall>j < NBUF. b_data (bufs t ! j) = b_data (bufs s ! j)) \<and> (\<forall>l. (\<forall>i. l \<noteq> LBufSleep i) \<longrightarrow> slks t l = slks s l)"
proof -
  note B = busyD [OF b]
  have H: "held c s i b" using B(3) [OF h] .
  then have iN: "i < NBUF" and ib: "blk s i b" by (simp_all add: held_def blk_def)
  have len: "length (bufs s) = Suc NBUF" using cache_invD(9) [OF B(2)] .
  have ih: "i \<in> fst ` set hs" using h by force
  have "b_data (bufs s ! i) = disk s b" if "b_refcnt (bufs s ! i) = 1"
  proof -
    have "b \<notin> P" using B(6) [OF iN] that ib ih by (auto split: if_splits)
    then show ?thesis using cl busy_view(1) [OF b h] by simp
  qed
  then obtain t where t: "brelse c i s = Ret () t" "gave c i s t" using brelse_ok [OF B(1,2) H] by blast
  note G = t(2) [unfolded gave_def] and V = gave_bufs [OF t(2) iN len]
  have pid: "mypid c t = mypid c s" using G settled_pid by blast
  have bk: "blk t j b' = blk s j b'" for j b' using V(4,5) [of j] by (auto simp: blk_def)
  have rm: "fst ` set (remove1 (i, b) hs) = fst ` set hs - {i}"
  proof -
    have "distinct hs" "inj_on fst (set hs)" using B(4) by (simp_all add: distinct_map)
    then have "set (remove1 (i, b) hs) = set hs - {(i, b)}" "fst ` (set hs - {(i, b)}) = fst ` set hs - fst ` {(i, b)}"
      using h by (simp_all add: inj_on_image_set_diff)
    then show ?thesis by simp
  qed
  have "busy c P (remove1 (i, b) hs) t" unfolding busy_def
  proof (intro conjI ballI allI impI)
    show "calm c t" "cache_inv t" using G settled_calm by blast+
    show "distinct (map fst (remove1 (i, b) hs))" 
      using B(4) by (auto simp: distinct_map intro: inj_on_subset)
  next
    fix x assume x: "x \<in> set (remove1 (i, b) hs)"
    then have "fst x \<noteq> i" using rm by auto
    moreover have hx: "held c s (fst x) (snd x)" using set_remove1_subset [THEN subsetD, OF x] B(3) [of "fst x" "snd x"] by simp
    moreover from hx have "fst x < NBUF" by (simp add: held_def blk_def)
    ultimately show "held c t (fst x) (snd x)" using V(1,2) [of "fst x"] G pid bk by (simp add: held_def holds_buf_def)
  next
    fix j assume j: "j < NBUF"
    show "sl_locked (buf_lock t j) = (j \<in> fst ` set (remove1 (i, b) hs))"
      unfolding rm using B(5) [OF j] G by (cases "j = i") simp_all
    show "b_refcnt (bufs t ! j) = (if \<exists>b \<in> P. blk t j b then 1 else 0) + (if j \<in> fst ` set (remove1 (i, b) hs) then 1 else 0)"
      unfolding bk rm using V(1) [OF j] B(6) [OF j] ih by (cases "j = i") simp_all
  next
    fix b' assume "b' \<in> P"
    then obtain k where k: "blk s k b'" "b_valid (bufs s ! k)" using B(7) by blast
    then have "k < NBUF" by (simp add: blk_def)
    then show "\<exists>k. blk t k b' \<and> b_valid (bufs t ! k)" using V(2) [of k] bk k by (intro exI [of _ k]) simp
  qed
  then show ?thesis using t(1) G V(3) by (intro exI [of _ t]) simp
qed

text \<open>Pinning and unpinning the block of a held buffer.\<close>

lemma busy_refcnt:
  assumes b: "busy c P hs s" and h: "(i, b) \<in> set hs"
    and t: "t = upd_buf i (\<lambda>x. x\<lparr>b_refcnt := r\<rparr>) (s\<lparr>kmach := after_cs c (kmach s)\<rparr>)"
    and Q: "Q = insert b P \<and> r = 2 \<or> Q = P - {b} \<and> r = 1"
  shows "busy c Q hs t" and "settled c s t" and "view t b' = view s b'"
proof -
  note B = busyD [OF b]
  have H: "blk s i b" "b_valid (bufs s ! i)" "i < NBUF" using B(3) [OF h] by (simp_all add: held_def blk_def)
  have len: "length (bufs s) = Suc NBUF" using cache_invD(9) [OF B(2)] .
  have r: "r \<noteq> 0" using Q by auto
  note K = pin_ok [OF B(1,2) H(1,2) t r]
  show st: "settled c s t" and "view t b' = view s b'" using K by simp_all
  have bt: "bufs t ! j = (if j = i then (bufs s ! i)\<lparr>b_refcnt := r\<rparr> else bufs s ! j)" for j
    using H(3) len by (simp add: t upd_buf_bufs)
  have bk: "blk t j b' = blk s j b'" for j b' by (simp add: blk_def bt)
  have u: "blk s i b' \<longleftrightarrow> b' = b" for b' using H(1) by (auto simp: blk_def)
  have v: "\<not> blk s j b" if "j \<noteq> i" for j using cache_invD(2) [OF B(2) H(1), of j] that by blast
  have ih: "i \<in> fst ` set hs" using h by force
  have sl: "slks t = slks s" by (simp add: t)
  show "busy c Q hs t" unfolding busy_def
  proof (intro conjI ballI allI impI)
    show "calm c t" "cache_inv t" using st K settled_calm by blast+
    show "distinct (map fst hs)" by (rule B)
  next
    fix x assume "x \<in> set hs"
    then have "held c s (fst x) (snd x)" using B(3) [of "fst x" "snd x"] by simp
    then show "held c t (fst x) (snd x)" using r bk bt settled_pid [OF st] by (auto simp: held_def holds_buf_def sl)
  next
    fix j assume j: "j < NBUF"
    show "sl_locked (buf_lock t j) = (j \<in> fst ` set hs)" using B(5) [OF j] by (simp add: sl)
    show "b_refcnt (bufs t ! j) = (if \<exists>b \<in> Q. blk t j b then 1 else 0) + (if j \<in> fst ` set hs then 1 else 0)"
    proof (cases "j = i")
      case True
      have "(\<exists>b \<in> Q. blk t i b) \<longleftrightarrow> r = 2" unfolding bk u using Q by auto
      then show ?thesis using True ih Q by (auto simp: bt)
    next
      case False
      then have "(\<exists>b \<in> Q. blk t j b) = (\<exists>b \<in> P. blk s j b)" unfolding bk using Q v [OF False] by blast
      then show ?thesis using False B(6) [OF j] by (simp add: bt)
    qed
  next
    fix b' assume "b' \<in> Q"
    then consider "b' = b" | "b' \<in> P" using Q by auto
    then show "\<exists>k. blk t k b' \<and> b_valid (bufs t ! k)"
    proof cases
      case 1
      then show ?thesis using H bk bt by (intro exI [of _ i]) simp
    next
      case 2
      then obtain k where "blk s k b'" "b_valid (bufs s ! k)" using B(7) by blast
      then show ?thesis using bk bt by (intro exI [of _ k]) auto
    qed
  qed
qed

lemma busy_bpin:
  assumes b: "busy c P hs s" and h: "(i, b) \<in> set hs" and n: "b \<notin> P"
  shows "\<exists>t. bpin c i s = Ret () t \<and> busy c (insert b P) hs t \<and> settled c s t \<and> (\<forall>b'. view t b' = view s b') \<and>
    disk t = disk s \<and> dtrace t = dtrace s \<and> over t = over s \<and> slks t = slks s \<and> (\<forall>j. b_data (bufs t ! j) = b_data (bufs s ! j))"
proof -
  note B = busyD [OF b]
  have ib: "blk s i b" "i < NBUF" using B(3) [OF h] by (simp_all add: held_def blk_def)
  have ih: "i \<in> fst ` set hs" using h by force
  have "b_refcnt (bufs s ! i) = 1" using B(6) [OF ib(2)] ib n ih by (auto simp: blk_def)
  then have e: "bpin c i s = Ret () (upd_buf i (\<lambda>x. x\<lparr>b_refcnt := 2\<rparr>) (s\<lparr>kmach := after_cs c (kmach s)\<rparr>))"
    using bpin_eq [OF B(1), of i] by simp
  let ?t = "upd_buf i (\<lambda>x. x\<lparr>b_refcnt := 2\<rparr>) (s\<lparr>kmach := after_cs c (kmach s)\<rparr>)"
  note R = busy_refcnt [OF b h refl [of ?t]]
  have "b_data (bufs ?t ! j) = b_data (bufs s ! j)" for j
    using ib cache_invD(9) [OF B(2)] by (simp add: upd_buf_bufs nth_list_update)
  then show ?thesis using e R [of "insert b P"] by (intro exI [of _ ?t]) simp
qed

lemma busy_bunpin:
  assumes b: "busy c P hs s" and h: "(i, b) \<in> set hs" and n: "b \<in> P"
  shows "\<exists>t. bunpin c i s = Ret () t \<and> busy c (P - {b}) hs t \<and> settled c s t \<and> (\<forall>b'. view t b' = view s b') \<and>
    disk t = disk s \<and> dtrace t = dtrace s \<and> over t = over s \<and> slks t = slks s \<and> (\<forall>j. b_data (bufs t ! j) = b_data (bufs s ! j))"
proof -
  note B = busyD [OF b]
  have ib: "blk s i b" "i < NBUF" using B(3) [OF h] by (simp_all add: held_def blk_def)
  have ih: "i \<in> fst ` set hs" using h by force
  have "b_refcnt (bufs s ! i) = 2" using B(6) [OF ib(2)] ib n ih by auto
  then have e: "bunpin c i s = Ret () (upd_buf i (\<lambda>x. x\<lparr>b_refcnt := 1\<rparr>) (s\<lparr>kmach := after_cs c (kmach s)\<rparr>))"
    using bunpin_eq [OF B(1), of i] by simp
  let ?t = "upd_buf i (\<lambda>x. x\<lparr>b_refcnt := 1\<rparr>) (s\<lparr>kmach := after_cs c (kmach s)\<rparr>)"
  note R = busy_refcnt [OF b h refl [of ?t]]
  have "b_data (bufs ?t ! j) = b_data (bufs s ! j)" for j
    using ib cache_invD(9) [OF B(2)] by (simp add: upd_buf_bufs nth_list_update)
  then show ?thesis using e R [of "P - {b}"] by (intro exI [of _ ?t]) simp
qed

text \<open>The predicates of this theory read only the machine, the process table, the locks, the buffers and the disk.\<close>

lemma cache_cong:
  assumes "bufs t = bufs s" and "disk t = disk s" and "slks t = slks s" and "kmach t = kmach s" and "procs t = procs s"
  shows "busy c P hs t = busy c P hs s" and "view t b = view s b"
proof -
  have c: "calm c t = calm c s" by (simp add: calm_def assms del: calm_simps)
  have k: "blk t i b = blk s i b" for i b by (simp add: blk_def assms)
  have h: "held c t i b = held c s i b" for i b by (simp add: held_def holds_buf_def k assms)
  show "busy c P hs t = busy c P hs s" by (simp add: busy_def cache_inv_def c k h assms)
  show "view t b = view s b" unfolding view_def assms(1,2) by (rule refl)
qed

section \<open>Effects\<close>

text \<open>
  \<open>eff c s t V ws\<close>: the operations that led from \<open>s\<close> to \<open>t\<close> wrote the blocks \<open>ws\<close> to disk, in this order, and left the
  content \<open>V\<close>; of the rest of the state they changed at most the buffers and their locks.
\<close>

definition apply_writes :: "(u32 \<times> block) list \<Rightarrow> (u32 \<Rightarrow> block) \<Rightarrow> u32 \<Rightarrow> block" where
  "apply_writes ws d = fold (\<lambda>(b, x) d. d(b := x)) ws d"

lemma apply_writes_simps [simp]:
  "apply_writes [] d = d" "apply_writes ((b, x) # ws) d = apply_writes ws (d(b := x))"
  "apply_writes (vs @ ws) d = apply_writes ws (apply_writes vs d)"
  by (simp_all add: apply_writes_def)

definition eff :: "nat \<Rightarrow> 'z bio_st_scheme \<Rightarrow> 'z bio_st_scheme \<Rightarrow> (u32 \<Rightarrow> block) \<Rightarrow> (u32 \<times> block) list \<Rightarrow> bool" where
  "eff c s t V ws \<longleftrightarrow> settled c s t \<and> over t = over s \<and> (\<forall>l. (\<forall>i. l \<noteq> LBufSleep i) \<longrightarrow> slks t l = slks s l) \<and>
     disk t = apply_writes ws (disk s) \<and> dtrace t = dtrace s @ ws \<and> view t = V"

lemma eff_refl: "calm c s \<Longrightarrow> eff c s s (view s) []"
  by (simp add: eff_def settled_refl)

lemma eff_trans: "eff c s t V vs \<Longrightarrow> eff c t u W ws \<Longrightarrow> eff c s u W (vs @ ws)"
  by (auto simp: eff_def intro: settled_trans)

lemma effD:
  assumes "eff c s t V ws"
  shows "over t = over s" "disk t = apply_writes ws (disk s)" "dtrace t = dtrace s @ ws" "view t = V" "settled c s t"
  using assms by (auto simp: eff_def)

lemma breadE:
  assumes "busy c P hs s" and "b \<in> P \<or> finite P \<and> card P + length hs < NBUF" and "b \<notin> snd ` set hs"
  obtains i t where "bread c ROOTDEV b s = Ret i t" and "busy c P ((i, b) # hs) t" and "b_data (bufs t ! i) = view s b"
    and "eff c s t (view s) []"
  using busy_bread [OF assms] by (auto simp: eff_def fun_eq_iff)

lemma brelseE:
  assumes "busy c P hs s" and "(i, b) \<in> set hs" and "b \<in> P \<or> view s b = disk s b"
  obtains t where "brelse c i s = Ret () t" and "busy c P (remove1 (i, b) hs) t" and "eff c s t (view s) []"
  using busy_brelse [OF assms] by (auto simp: eff_def fun_eq_iff)

lemma bwriteE:
  assumes "busy c P hs s" and "(i, b) \<in> set hs"
  obtains t where "bwrite c i s = Ret () t" and "busy c P hs t" and "eff c s t (view s) [(b, view s b)]"
  using busy_bwrite [OF assms] busy_view(1) [OF assms] by (auto simp: eff_def fun_eq_iff)

lemma bunpinE:
  assumes "busy c P hs s" and "(i, b) \<in> set hs" and "b \<in> P"
  obtains t where "bunpin c i s = Ret () t" and "busy c (P - {b}) hs t" and "eff c s t (view s) []"
  using busy_bunpin [OF assms] by (auto simp: eff_def fun_eq_iff)

lemma bpinE:
  assumes "busy c P hs s" and "(i, b) \<in> set hs" and "b \<notin> P"
  obtains t where "bpin c i s = Ret () t" and "busy c (insert b P) hs t" and "eff c s t (view s) []"
  using busy_bpin [OF assms] by (auto simp: eff_def fun_eq_iff)

lemma set_data_eff:
  assumes "busy c P hs s" and "(i, b) \<in> set hs" and "length d = BSIZE"
  shows "busy c P hs (set_data i d s)" and "eff c s (set_data i d s) ((view s)(b := d)) []"
proof -
  note D = busy_set_data [OF assms]
  show "busy c P hs (set_data i d s)" by (rule D)
  have "view (set_data i d s) = (view s)(b := d)" using D(2) by (auto simp: fun_eq_iff)
  moreover have "settled c s (set_data i d s)"
    by (rule settled_cong [OF settled_refl [OF busyD(1) [OF assms(1)]]]) simp_all
  ultimately show "eff c s (set_data i d s) ((view s)(b := d)) []" by (simp add: eff_def)
qed

lemma busy_data: "busy c P hs s \<Longrightarrow> (i, b) \<in> set hs \<Longrightarrow> b_data (bufs s ! i) = view s b"
  using busy_view(1) by metis

lemma busy_view_length: "busy c P hs s \<Longrightarrow> length (view s b) = BSIZE"
proof -
  assume b: "busy c P hs s"
  note C = cache_invD [OF busyD(2) [OF b]]
  show ?thesis by (auto simp: view_def C dest!: first_indexD(1) split: option.split)
qed

end
