(* ===== verification/Blocks.thy ===== *)
theory Blocks
  imports Memory
begin

text \<open>
  Reading and writing little-endian integers inside a block of bytes: what the kernel and \<^verbatim>\<open>mkfs\<close> do
  when they cast the data of a buffer to a pointer to a struct.
\<close>

definition get_bytes :: "nat \<Rightarrow> nat \<Rightarrow> u8 list \<Rightarrow> u8 list" where
  "get_bytes off n d = take n (drop off d)"

definition put_bytes :: "nat \<Rightarrow> u8 list \<Rightarrow> u8 list \<Rightarrow> u8 list" where
  "put_bytes off bs d = take off d @ bs @ drop (off + length bs) d"

definition get32 :: "nat \<Rightarrow> u8 list \<Rightarrow> u32" where
  "get32 off d = le_word (get_bytes off 4 d)"

definition put32 :: "nat \<Rightarrow> u32 \<Rightarrow> u8 list \<Rightarrow> u8 list" where
  "put32 off v d = put_bytes off (le_bytes 4 v) d"

definition get16 :: "nat \<Rightarrow> u8 list \<Rightarrow> u16" where
  "get16 off d = le_word (get_bytes off 2 d)"

definition put16 :: "nat \<Rightarrow> u16 \<Rightarrow> u8 list \<Rightarrow> u8 list" where
  "put16 off v d = put_bytes off (le_bytes 2 v) d"

lemma length_put_bytes [simp]: "off + length bs \<le> length d \<Longrightarrow> length (put_bytes off bs d) = length d"
  by (simp add: put_bytes_def)

lemma get_put_same [simp]: "off + length bs \<le> length d \<Longrightarrow> n = length bs \<Longrightarrow> get_bytes off n (put_bytes off bs d) = bs"
  by (simp add: get_bytes_def put_bytes_def)

lemma nth_put_bytes:
  assumes "off + length bs \<le> length d"
  shows "put_bytes off bs d ! i = (if i < off then d ! i else if i < off + length bs then bs ! (i - off) else d ! i)"
  using assms by (auto simp: put_bytes_def nth_append)

lemma get_put_other:
  assumes "off + length bs \<le> length d" and "o' + n \<le> off \<or> off + length bs \<le> o'"
  shows "get_bytes o' n (put_bytes off bs d) = get_bytes o' n d"
proof (rule nth_equalityI)
  show "length (get_bytes o' n (put_bytes off bs d)) = length (get_bytes o' n d)" using assms by (simp add: get_bytes_def)
next
  fix i assume i: "i < length (get_bytes o' n (put_bytes off bs d))"
  then have "i < n" "o' + i < length d" using assms(1) by (auto simp: get_bytes_def)
  then show "get_bytes o' n (put_bytes off bs d) ! i = get_bytes o' n d ! i"
    using assms by (auto simp: get_bytes_def nth_put_bytes)
qed

lemma length_put32 [simp]: "off + 4 \<le> length d \<Longrightarrow> length (put32 off v d) = length d"
  by (simp add: put32_def)

lemma length_put16 [simp]: "off + 2 \<le> length d \<Longrightarrow> length (put16 off v d) = length d"
  by (simp add: put16_def)

lemma get32_put32 [simp]: "off + 4 \<le> length d \<Longrightarrow> get32 off (put32 off v d) = v"
  by (simp add: get32_def put32_def)

lemma get16_put16 [simp]: "off + 2 \<le> length d \<Longrightarrow> get16 off (put16 off v d) = v"
  by (simp add: get16_def put16_def)

lemma get32_put32_other:
  "off + 4 \<le> length d \<Longrightarrow> o' + 4 \<le> off \<or> off + 4 \<le> o' \<Longrightarrow> get32 o' (put32 off v d) = get32 o' d"
  by (simp add: get32_def put32_def get_put_other)

text \<open>An array of 32-bit integers that starts at byte \<open>off\<close>.\<close>

fun put_words :: "nat \<Rightarrow> u32 list \<Rightarrow> u8 list \<Rightarrow> u8 list" where
  "put_words off [] d = d"
| "put_words off (w # ws) d = put_words (off + 4) ws (put32 off w d)"

definition get_words :: "nat \<Rightarrow> nat \<Rightarrow> u8 list \<Rightarrow> u32 list" where
  "get_words off n d = map (\<lambda>i. get32 (off + 4 * i) d) [0..<n]"

lemma length_put_words [simp]: "off + 4 * length ws \<le> length d \<Longrightarrow> length (put_words off ws d) = length d"
  by (induction ws arbitrary: off d) auto

lemma get32_put_words_before:
  "off + 4 * length ws \<le> length d \<Longrightarrow> o' + 4 \<le> off \<Longrightarrow> get32 o' (put_words off ws d) = get32 o' d"
  by (induction ws arbitrary: off d) (auto simp: get32_put32_other)

lemma get32_put_words:
  "off + 4 * length ws \<le> length d \<Longrightarrow> i < length ws \<Longrightarrow> get32 (off + 4 * i) (put_words off ws d) = ws ! i"
proof (induction ws arbitrary: off d i)
  case (Cons w ws)
  show ?case
  proof (cases i)
    case 0
    then show ?thesis using Cons.prems by (simp add: get32_put_words_before)
  next
    case (Suc j)
    have e: "off + 4 * i = off + 4 + 4 * j" by (simp add: Suc)
    show ?thesis unfolding e using Cons.IH [of "off + 4" "put32 off w d" j] Cons.prems Suc by simp
  qed
qed simp

lemma get_words_put_words: "off + 4 * length ws \<le> length d \<Longrightarrow> n = length ws \<Longrightarrow> get_words off n (put_words off ws d) = ws"
  by (rule nth_equalityI) (simp_all add: get_words_def get32_put_words)

end
