(* ===== verification/Log.thy ===== *)
theory Log
  imports Cache Blocks
begin

text \<open>
  \<^verbatim>\<open>kernel/log.c\<close>: the redo log.  A system call brackets its writes with \<^verbatim>\<open>begin_op\<close> and \<^verbatim>\<open>end_op\<close>; \<^verbatim>\<open>log_write\<close>
  records a modified block and pins its buffer; the last \<^verbatim>\<open>end_op\<close> copies the modified blocks to the log, writes the
  header (the commit point), installs the blocks and clears the header.  \<^verbatim>\<open>initlog\<close> recovers after a crash.

  The block numbers of the header are kept as the unsigned values they are used as.  A header
  read from disk that announces more than \<^verbatim>\<open>LOGSIZE\<close> blocks would make \<^verbatim>\<open>read_head\<close> write past the array; that is \<open>Diverge\<close>.
\<close>

section \<open>Data\<close>

definition MAXOPBLOCKS :: int where
  "MAXOPBLOCKS = 10"

definition LOGSIZE :: int where
  "LOGSIZE = MAXOPBLOCKS * 3"

record superblock =
  sb_magic :: u32
  sb_size :: u32
  sb_nblocks :: u32
  sb_ninodes :: u32
  sb_nlog :: u32
  sb_logstart :: u32
  sb_inodestart :: u32
  sb_bmapstart :: u32

record logheader =
  lh_n :: int
  lh_block :: "u32 list"

record logdata =
  lg_start :: u32
  lg_size :: int
  lg_outstanding :: int
  lg_committing :: bool
  lg_dev :: u32
  lg_lh :: logheader

record log_st = bio_st +
  logs :: logdata

definition upd_log :: "(logdata \<Rightarrow> logdata) \<Rightarrow> 'z log_st_scheme \<Rightarrow> 'z log_st_scheme" where
  "upd_log f s = s\<lparr>logs := f (logs s)\<rparr>"

definition upd_lh :: "(logheader \<Rightarrow> logheader) \<Rightarrow> 'z log_st_scheme \<Rightarrow> 'z log_st_scheme" where
  "upd_lh f s = upd_log (\<lambda>g. g\<lparr>lg_lh := f (lg_lh g)\<rparr>) s"

abbreviation log_n :: "'z log_st_scheme \<Rightarrow> int" where
  "log_n s \<equiv> lh_n (lg_lh (logs s))"

abbreviation log_blocks :: "'z log_st_scheme \<Rightarrow> u32 list" where
  "log_blocks s \<equiv> lh_block (lg_lh (logs s))"

section \<open>Operations\<close>

text \<open>One iteration of \<^verbatim>\<open>install_trans\<close>; the loop bound \<^verbatim>\<open>log.lh.n\<close> does not change in the loop.\<close>

definition install_one :: "nat \<Rightarrow> bool \<Rightarrow> nat \<Rightarrow> 'z log_st_scheme \<Rightarrow> ('z log_st_scheme, unit) outcome" where
  "install_one c recovering tail s =
     andthen (bread c (lg_dev (logs s)) (lg_start (logs s) + of_nat tail + 1) s) (\<lambda>lbuf s.
     andthen (bread c (lg_dev (logs s)) (log_blocks s ! tail) s) (\<lambda>dbuf s.
     andthen (bwrite c dbuf (set_data dbuf (b_data (bufs s ! lbuf)) s)) (\<lambda>_ s.
     andthen (if recovering then Ret () s else bunpin c dbuf s) (\<lambda>_ s.
     andthen (brelse c lbuf s) (\<lambda>_ s.
     brelse c dbuf s)))))"

definition install_trans :: "nat \<Rightarrow> bool \<Rightarrow> 'z log_st_scheme \<Rightarrow> ('z log_st_scheme, unit) outcome" where
  "install_trans c recovering s = for_each (install_one c recovering) [0..<nat (log_n s)] s"

definition read_head :: "nat \<Rightarrow> 'z log_st_scheme \<Rightarrow> ('z log_st_scheme, unit) outcome" where
  "read_head c s =
     andthen (bread c (lg_dev (logs s)) (lg_start (logs s)) s) (\<lambda>buf s.
     let d = b_data (bufs s ! buf); n = sint (get32 0 d) in
     if n > LOGSIZE then Diverge
     else
       brelse c buf (upd_lh (\<lambda>h. h\<lparr>lh_n := n, lh_block := get_words 4 (nat n) d @ drop (nat n) (lh_block h)\<rparr>) s))"

definition write_head :: "nat \<Rightarrow> 'z log_st_scheme \<Rightarrow> ('z log_st_scheme, unit) outcome" where
  "write_head c s =
     andthen (bread c (lg_dev (logs s)) (lg_start (logs s)) s) (\<lambda>buf s.
     let d = put32 0 (word_of_int (log_n s)) (b_data (bufs s ! buf));
         d = put_words 4 (take (nat (log_n s)) (log_blocks s)) d
     in andthen (bwrite c buf (set_data buf d s)) (\<lambda>_ s. brelse c buf s))"

definition recover_from_log :: "nat \<Rightarrow> 'z log_st_scheme \<Rightarrow> ('z log_st_scheme, unit) outcome" where
  "recover_from_log c s =
     andthen (read_head c s) (\<lambda>_ s.
     andthen (install_trans c True s) (\<lambda>_ s.
     write_head c (upd_lh (\<lambda>h. h\<lparr>lh_n := 0\<rparr>) s)))"

definition initlog :: "nat \<Rightarrow> u32 \<Rightarrow> superblock \<Rightarrow> 'z log_st_scheme \<Rightarrow> ('z log_st_scheme, unit) outcome" where
  "initlog c dev sb s =
     (if 4 + 4 * LOGSIZE \<ge> int BSIZE then Panic ''initlog: too big logheader''
      else
        let s = s\<lparr>kmach := initlock LLog ''log'' (kmach s)\<rparr>
        in recover_from_log c (upd_log (\<lambda>g. g\<lparr>lg_start := sb_logstart sb, lg_size := sint (sb_nlog sb), lg_dev := dev\<rparr>) s))"

text \<open>The loop of \<^verbatim>\<open>begin_op\<close>, entered with \<^verbatim>\<open>log.lock\<close> held; the sleeper repeats it.\<close>

definition begin_op_loop :: "nat \<Rightarrow> 'z log_st_scheme \<Rightarrow> ('z log_st_scheme, unit) outcome" where
  "begin_op_loop c s =
     (if lg_committing (logs s) then sleep c (Some ChLog) LLog s
      else if log_n s + (lg_outstanding (logs s) + 1) * MAXOPBLOCKS > LOGSIZE then sleep c (Some ChLog) LLog s
      else k_release c LLog (upd_log (\<lambda>g. g\<lparr>lg_outstanding := lg_outstanding g + 1\<rparr>) s))"

definition begin_op :: "nat \<Rightarrow> 'z log_st_scheme \<Rightarrow> ('z log_st_scheme, unit) outcome" where
  "begin_op c s = andthen (k_acquire c LLog s) (\<lambda>_ s. begin_op_loop c s)"

definition begin_op_resume :: "nat \<Rightarrow> nat \<Rightarrow> bool \<Rightarrow> 'z log_st_scheme \<Rightarrow> ('z log_st_scheme, unit) outcome" where
  "begin_op_resume c p old_intena s = andthen (sleep_resume c p LLog old_intena s) (\<lambda>_ s. begin_op_loop c s)"

definition write_log_one :: "nat \<Rightarrow> nat \<Rightarrow> 'z log_st_scheme \<Rightarrow> ('z log_st_scheme, unit) outcome" where
  "write_log_one c tail s =
     andthen (bread c (lg_dev (logs s)) (lg_start (logs s) + of_nat tail + 1) s) (\<lambda>to s.
     andthen (bread c (lg_dev (logs s)) (log_blocks s ! tail) s) (\<lambda>from s.
     andthen (bwrite c to (set_data to (b_data (bufs s ! from)) s)) (\<lambda>_ s.
     andthen (brelse c from s) (\<lambda>_ s.
     brelse c to s))))"

definition write_log :: "nat \<Rightarrow> 'z log_st_scheme \<Rightarrow> ('z log_st_scheme, unit) outcome" where
  "write_log c s = for_each (write_log_one c) [0..<nat (log_n s)] s"

definition commit :: "nat \<Rightarrow> 'z log_st_scheme \<Rightarrow> ('z log_st_scheme, unit) outcome" where
  "commit c s =
     (if log_n s > 0 then
        andthen (write_log c s) (\<lambda>_ s.
        andthen (write_head c s) (\<lambda>_ s.
        andthen (install_trans c False s) (\<lambda>_ s.
        write_head c (upd_lh (\<lambda>h. h\<lparr>lh_n := 0\<rparr>) s))))
      else Ret () s)"

definition end_op :: "nat \<Rightarrow> 'z log_st_scheme \<Rightarrow> ('z log_st_scheme, unit) outcome" where
  "end_op c s =
     andthen (k_acquire c LLog s) (\<lambda>_ s.
     let s = upd_log (\<lambda>g. g\<lparr>lg_outstanding := lg_outstanding g - 1\<rparr>) s in
     if lg_committing (logs s) then Panic ''log.committing''
     else if lg_outstanding (logs s) = 0 then
       andthen (k_release c LLog (upd_log (\<lambda>g. g\<lparr>lg_committing := True\<rparr>) s)) (\<lambda>_ s.
       andthen (commit c s) (\<lambda>_ s.
       andthen (k_acquire c LLog s) (\<lambda>_ s.
       andthen (wakeup c (Some ChLog) (upd_log (\<lambda>g. g\<lparr>lg_committing := False\<rparr>) s)) (\<lambda>_ s.
       k_release c LLog s))))
     else
       andthen (wakeup c (Some ChLog) s) (\<lambda>_ s. k_release c LLog s))"

text \<open>The position \<^verbatim>\<open>i\<close> at which the search loop of \<^verbatim>\<open>log_write\<close> stops.\<close>

definition log_find :: "u32 \<Rightarrow> logheader \<Rightarrow> nat" where
  "log_find b h = (case first_index (\<lambda>x. x = b) (take (nat (lh_n h)) (lh_block h)) of None \<Rightarrow> nat (lh_n h) | Some i \<Rightarrow> i)"

definition log_write :: "nat \<Rightarrow> nat \<Rightarrow> 'z log_st_scheme \<Rightarrow> ('z log_st_scheme, unit) outcome" where
  "log_write c b s =
     andthen (k_acquire c LLog s) (\<lambda>_ s.
     if log_n s \<ge> LOGSIZE \<or> log_n s \<ge> lg_size (logs s) - 1 then Panic ''too big a transaction''
     else if lg_outstanding (logs s) < 1 then Panic ''log_write outside of trans''
     else
       let i = log_find (b_blockno (bufs s ! b)) (lg_lh (logs s));
           s = upd_lh (\<lambda>h. h\<lparr>lh_block := (lh_block h)[i := b_blockno (bufs s ! b)]\<rparr>) s
       in andthen (if int i = log_n s
                   then andthen (bpin c b s) (\<lambda>_ s. Ret () (upd_lh (\<lambda>h. h\<lparr>lh_n := lh_n h + 1\<rparr>) s))
                   else Ret () s) (\<lambda>_ s.
       k_release c LLog s))"

section \<open>One block at a time\<close>

lemma upd_log_sel [simp]:
  "kmach (upd_log f s) = kmach s" "mem (upd_log f s) = mem s" "freelist (upd_log f s) = freelist s"
  "procs (upd_log f s) = procs s" "slks (upd_log f s) = slks s" "disk (upd_log f s) = disk s"
  "dtrace (upd_log f s) = dtrace s" "bufs (upd_log f s) = bufs s" "logs (upd_log f s) = f (logs s)"
  "log_st.more (upd_log f s) = log_st.more s"
  by (simp_all add: upd_log_def)

lemma upd_lh_sel [simp]:
  "kmach (upd_lh f s) = kmach s" "mem (upd_lh f s) = mem s" "freelist (upd_lh f s) = freelist s"
  "procs (upd_lh f s) = procs s" "slks (upd_lh f s) = slks s" "disk (upd_lh f s) = disk s"
  "dtrace (upd_lh f s) = dtrace s" "bufs (upd_lh f s) = bufs s" "logs (upd_lh f s) = (logs s)\<lparr>lg_lh := f (lg_lh (logs s))\<rparr>"
  "log_st.more (upd_lh f s) = log_st.more s"
  by (simp_all add: upd_lh_def)

lemma upd_log_cache [simp]: "busy c P hs (upd_log f s) = busy c P hs s" "view (upd_log f s) b = view s b"
  by (rule cache_cong; simp)+

lemma upd_lh_cache [simp]: "busy c P hs (upd_lh f s) = busy c P hs s" "view (upd_lh f s) b = view s b"
  by (rule cache_cong; simp)+

lemma over_log:
  fixes s t :: "'z log_st_scheme"
  shows "over t = over s \<longleftrightarrow> logs t = logs s \<and> log_st.more t = log_st.more s"
  by (cases s; cases t) auto

lemma eff_logs: "eff c s t V ws \<Longrightarrow> logs t = logs s \<and> log_st.more t = log_st.more s"
  by (simp add: eff_def over_log)

text \<open>Copying one block to another through the cache, as the loops of \<^verbatim>\<open>write_log\<close> and \<^verbatim>\<open>install_trans\<close> do.\<close>

lemma write_log_one_ok:
  assumes b: "busy c P [] s" and "finite P" and "card P < NBUF" and dev: "lg_dev (logs s) = ROOTDEV"
    and src: "log_blocks s ! tail \<in> P" and dst: "lg_start (logs s) + of_nat tail + 1 \<notin> P"
  shows "\<exists>t. write_log_one c tail s = Ret () t \<and> busy c P [] t \<and>
     eff c s t ((view s)(lg_start (logs s) + of_nat tail + 1 := view s (log_blocks s ! tail)))
       [(lg_start (logs s) + of_nat tail + 1, view s (log_blocks s ! tail))]"
proof -
  let ?d = "lg_start (logs s) + of_nat tail + 1" and ?s = "log_blocks s ! tail"
  let ?x = "view s ?s"
  have ne: "?s \<noteq> ?d" using src dst by auto
  obtain i s1 where 1: "bread c ROOTDEV ?d s = Ret i s1" "busy c P [(i, ?d)] s1" "eff c s s1 (view s) []"
    by (rule breadE [OF b, of ?d]) (use assms(2,3) in auto)
  obtain j s2 where 2: "bread c ROOTDEV ?s s1 = Ret j s2" "busy c P [(j, ?s), (i, ?d)] s2" "eff c s1 s2 (view s1) []"
    by (rule breadE [OF 1(2), of ?s]) (use src ne in auto)
  have v: "view s1 = view s" "view s2 = view s" using effD(4) [OF 1(3)] effD(4) [OF 2(3)] by simp_all
  have x: "b_data (bufs s2 ! j) = ?x" using busy_data [OF 2(2), of j ?s] v by simp
  note 3 = set_data_eff [OF 2(2), of i ?d ?x]
  have l: "length ?x = BSIZE" using busy_view_length [OF b] .
  obtain s4 where 4: "bwrite c i (set_data i ?x s2) = Ret () s4" "busy c P [(j, ?s), (i, ?d)] s4"
     "eff c (set_data i ?x s2) s4 (view (set_data i ?x s2)) [(?d, view (set_data i ?x s2) ?d)]"
    by (rule bwriteE [OF 3(1), of i ?d]) (use l in auto)
  have v3: "view (set_data i ?x s2) = (view s)(?d := ?x)" using effD(4) [OF 3(2)] l v by simp
  have e4: "eff c s s4 ((view s)(?d := ?x)) [(?d, ?x)]"
    using eff_trans [OF eff_trans [OF eff_trans [OF 1(3) 2(3)] 3(2)] 4(3)] l by (simp add: v3)
  obtain s5 where 5: "brelse c j s4 = Ret () s5" "busy c P [(i, ?d)] s5" "eff c s4 s5 (view s4) []"
    by (rule brelseE [OF 4(2), of j ?s]) (use src in auto)
  have "view s5 ?d = disk s5 ?d" using effD(2,4) [OF e4] effD(2,4) [OF 5(3)] by simp
  then obtain s6 where 6: "brelse c i s5 = Ret () s6" "busy c P [] s6" "eff c s5 s6 (view s5) []"
    by (rule brelseE [OF 5(2), of i ?d, OF _ disjI2, rotated]) auto
  have "eff c s s6 ((view s)(?d := ?x)) [(?d, ?x)]"
    using eff_trans [OF e4 eff_trans [OF 5(3) 6(3)]] effD(4) [OF e4] effD(4) [OF 5(3)] by simp
  moreover have "write_log_one c tail s = Ret () s6"
    using 1(1) 2(1) 4(1) 5(1) 6(1) dev by (simp add: write_log_one_def eff_logs [OF 1(3)] x)
  ultimately show ?thesis using 6(2) by blast
qed

lemma install_one_ok:
  assumes b: "busy c P [] s" and "finite P" and "card P < NBUF" and dev: "lg_dev (logs s) = ROOTDEV"
    and home: "if recovering then P = {} else log_blocks s ! tail \<in> P"
    and lb: "lg_start (logs s) + of_nat tail + 1 \<notin> P"
      "view s (lg_start (logs s) + of_nat tail + 1) = disk s (lg_start (logs s) + of_nat tail + 1)"
    and ne: "log_blocks s ! tail \<noteq> lg_start (logs s) + of_nat tail + 1"
  shows "\<exists>t. install_one c recovering tail s = Ret () t \<and> busy c (P - {log_blocks s ! tail}) [] t \<and>
     eff c s t ((view s)(log_blocks s ! tail := view s (lg_start (logs s) + of_nat tail + 1)))
       [(log_blocks s ! tail, view s (lg_start (logs s) + of_nat tail + 1))]"
proof -
  let ?l = "lg_start (logs s) + of_nat tail + 1" and ?h = "log_blocks s ! tail"
  let ?x = "view s ?l" and ?Q = "P - {log_blocks s ! tail}"
  have two: "1 < NBUF" by (simp add: NBUF_def)
  obtain i s1 where 1: "bread c ROOTDEV ?l s = Ret i s1" "busy c P [(i, ?l)] s1" "eff c s s1 (view s) []"
    by (rule breadE [OF b, of ?l]) (use assms(2,3) in auto)
  obtain j s2 where 2: "bread c ROOTDEV ?h s1 = Ret j s2" "busy c P [(j, ?h), (i, ?l)] s2" "eff c s1 s2 (view s1) []"
    by (rule breadE [OF 1(2), of ?h]) (use home ne two in \<open>auto split: if_splits\<close>)
  have v: "view s1 = view s" "view s2 = view s" using effD(4) [OF 1(3)] effD(4) [OF 2(3)] by simp_all
  have x: "b_data (bufs s2 ! i) = ?x" using busy_data [OF 2(2), of i ?l] v by simp
  have l: "length ?x = BSIZE" using busy_view_length [OF b] .
  note 3 = set_data_eff [OF 2(2), of j ?h ?x]
  obtain s4 where 4: "bwrite c j (set_data j ?x s2) = Ret () s4" "busy c P [(j, ?h), (i, ?l)] s4"
     "eff c (set_data j ?x s2) s4 (view (set_data j ?x s2)) [(?h, view (set_data j ?x s2) ?h)]"
    by (rule bwriteE [OF 3(1), of j ?h]) (use l in auto)
  have v3: "view (set_data j ?x s2) = (view s)(?h := ?x)" using effD(4) [OF 3(2)] l v by simp
  have e4: "eff c s s4 ((view s)(?h := ?x)) [(?h, ?x)]"
    using eff_trans [OF eff_trans [OF eff_trans [OF 1(3) 2(3)] 3(2)] 4(3)] l by (simp add: v3)
  obtain s5 where 5: "(if recovering then Ret () s4 else bunpin c j s4) = Ret () s5" "busy c ?Q [(j, ?h), (i, ?l)] s5"
     "eff c s4 s5 (view s4) []"
  proof (cases recovering)
    case True
    then show ?thesis using that [of s4] 4(2) home eff_refl [OF busyD(1) [OF 4(2)]] by simp
  next
    case False
    then show ?thesis using bunpinE [OF 4(2), of j ?h] home that by auto
  qed
  have e5: "eff c s s5 ((view s)(?h := ?x)) [(?h, ?x)]" using eff_trans [OF e4 5(3)] effD(4) [OF e4] by simp
  note D5 = effD(2,4) [OF e5]
  have "view s5 ?l = disk s5 ?l" using D5 lb(2) ne by simp
  then obtain s6 where 6: "brelse c i s5 = Ret () s6" "busy c ?Q [(j, ?h)] s6" "eff c s5 s6 (view s5) []"
    by (rule brelseE [OF 5(2), of i ?l, OF _ disjI2, rotated]) (use ne in auto)
  have "view s6 ?h = disk s6 ?h" using D5 effD(2,4) [OF 6(3)] by simp
  then obtain s7 where 7: "brelse c j s6 = Ret () s7" "busy c ?Q [] s7" "eff c s6 s7 (view s6) []"
    by (rule brelseE [OF 6(2), of j ?h, OF _ disjI2, rotated]) auto
  have "eff c s s7 ((view s)(?h := ?x)) [(?h, ?x)]"
    using eff_trans [OF e5 eff_trans [OF 6(3) 7(3)]] D5(2) effD(4) [OF 6(3)] by simp
  moreover have "install_one c recovering tail s = Ret () s7"
    using 1(1) 2(1) 4(1) 5(1) 6(1) 7(1) dev by (simp add: install_one_def eff_logs [OF 1(3)] x)
  ultimately show ?thesis using 7(2) by blast
qed

text \<open>The bytes of the header block.\<close>

definition header :: "u32 list \<Rightarrow> block \<Rightarrow> block" where
  "header bl d = put_words 4 bl (put32 0 (of_nat (length bl)) d)"

lemma header_ok:
  assumes "length d = BSIZE" and "length bl \<le> 30"
  shows "length (header bl d) = BSIZE" and "sint (get32 0 (header bl d)) = int (length bl)"
    and "get_words 4 (length bl) (header bl d) = bl"
proof -
  have l: "4 + 4 * length bl \<le> length (put32 0 (of_nat (length bl)) d)" using assms by (simp add: BSIZE_def)
  show "length (header bl d) = BSIZE" using assms l by (simp add: header_def BSIZE_def)
  show "get_words 4 (length bl) (header bl d) = bl" unfolding header_def using l by (rule get_words_put_words) simp
  have "get32 0 (header bl d) = of_nat (length bl)"
    unfolding header_def using get32_put_words_before [OF l, of 0] assms by (simp add: BSIZE_def)
  moreover have "sint (of_nat (length bl) :: u32) = int (length bl)"
    using assms(2) by (simp add: signed_of_nat signed_take_bit_int_eq_self)
  ultimately show "sint (get32 0 (header bl d)) = int (length bl)" by simp
qed

lemma write_head_ok:
  assumes b: "busy c P [] s" and "finite P" and "card P < NBUF" and dev: "lg_dev (logs s) = ROOTDEV"
    and n: "log_n s = int k" "k \<le> length (log_blocks s)" "k \<le> 30"
  shows "\<exists>t. write_head c s = Ret () t \<and> busy c P [] t \<and>
     eff c s t ((view s)(lg_start (logs s) := header (take k (log_blocks s)) (view s (lg_start (logs s)))))
       [(lg_start (logs s), header (take k (log_blocks s)) (view s (lg_start (logs s))))]"
proof -
  let ?h = "lg_start (logs s)"
  let ?x = "header (take k (log_blocks s)) (view s ?h)"
  obtain i s1 where 1: "bread c ROOTDEV ?h s = Ret i s1" "busy c P [(i, ?h)] s1" "eff c s s1 (view s) []"
    by (rule breadE [OF b, of ?h]) (use assms(2,3) in auto)
  have v: "view s1 = view s" and lg: "logs s1 = logs s" using effD(4) [OF 1(3)] eff_logs [OF 1(3)] by simp_all
  have d: "b_data (bufs s1 ! i) = view s ?h" using busy_data [OF 1(2), of i ?h] v by simp
  have l: "length ?x = BSIZE" using header_ok(1) [OF busy_view_length [OF b]] n by simp
  note 3 = set_data_eff [OF 1(2), of i ?h ?x]
  obtain s4 where 4: "bwrite c i (set_data i ?x s1) = Ret () s4" "busy c P [(i, ?h)] s4"
     "eff c (set_data i ?x s1) s4 (view (set_data i ?x s1)) [(?h, view (set_data i ?x s1) ?h)]"
    by (rule bwriteE [OF 3(1), of i ?h]) (use l in auto)
  have v3: "view (set_data i ?x s1) = (view s)(?h := ?x)" using effD(4) [OF 3(2)] l v by simp
  have e4: "eff c s s4 ((view s)(?h := ?x)) [(?h, ?x)]"
    using eff_trans [OF eff_trans [OF 1(3) 3(2)] 4(3)] l by (simp add: v3)
  have "view s4 ?h = disk s4 ?h" using effD(2,4) [OF e4] by simp
  then obtain s5 where 5: "brelse c i s4 = Ret () s5" "busy c P [] s5" "eff c s4 s5 (view s4) []"
    by (rule brelseE [OF 4(2), of i ?h, OF _ disjI2, rotated]) auto
  have "eff c s s5 ((view s)(?h := ?x)) [(?h, ?x)]" using eff_trans [OF e4 5(3)] effD(4) [OF e4] by simp
  moreover have "put_words 4 (take (nat (log_n s)) (log_blocks s)) (put32 0 (word_of_int (log_n s)) (view s ?h)) = ?x"
    using n by (simp add: header_def)
  then have "write_head c s = Ret () s5"
    using 1(1) 4(1) 5(1) dev by (simp add: write_head_def Let_def d lg)
  ultimately show ?thesis using 5(2) by blast
qed

section \<open>The loops\<close>

text \<open>\<open>slot s k\<close> is the log block that belongs to entry \<open>k\<close> of the header.\<close>

definition slot :: "u32 \<Rightarrow> nat \<Rightarrow> u32" where
  "slot start k = start + of_nat k + 1"

text \<open>The log area is the 30 blocks that \<^verbatim>\<open>mkfs\<close> reserves, the header and the 29 after it, which do not wrap around; \<open>b\<close> lies outside of it.\<close>

definition outside :: "u32 \<Rightarrow> u32 \<Rightarrow> bool" where
  "outside start b \<longleftrightarrow> unat b < unat start \<or> unat start + 29 < unat b"

definition area_ok :: "u32 \<Rightarrow> bool" where
  "area_ok start \<longleftrightarrow> unat start + 29 < 2 ^ 32"

lemma slot_unat: "area_ok start \<Longrightarrow> k < 29 \<Longrightarrow> unat (slot start k) = unat start + k + 1"
  unfolding slot_def area_ok_def by (simp add: unat_word_ariths unat_of_nat)

lemma slot_eqD: "area_ok start \<Longrightarrow> k < 29 \<Longrightarrow> b = slot start k \<Longrightarrow> unat b = unat start + k + 1"
  by (simp add: slot_unat)

lemma slot_inj: "area_ok start \<Longrightarrow> k < 29 \<Longrightarrow> j < 29 \<Longrightarrow> slot start k = slot start j \<Longrightarrow> k = j"
  using slot_eqD [of start j "slot start k"] slot_unat [of start k] by simp

lemma outside_slot: "area_ok start \<Longrightarrow> k < 29 \<Longrightarrow> outside start b \<Longrightarrow> b \<noteq> slot start k"
  using slot_eqD [of start k b] unfolding outside_def by force

lemma slot_start: "area_ok start \<Longrightarrow> k < 29 \<Longrightarrow> slot start k \<noteq> start"
  using slot_eqD [of start k start] by force

lemma outside_start: "outside start b \<Longrightarrow> b \<noteq> start"
  by (auto simp: outside_def)

lemma write_log_loop:
  assumes "busy c P [] s" and "finite P" and "card P < NBUF" and "lg_dev (logs s) = ROOTDEV" and a: "area_ok (lg_start (logs s))"
    and "\<forall>k \<in> set ks. k < 29 \<and> log_blocks s ! k \<in> P" and o: "\<forall>b \<in> P. outside (lg_start (logs s)) b"
    and ws: "ws = List.map (\<lambda>k. (slot (lg_start (logs s)) k, view s (log_blocks s ! k))) ks"
  shows "\<exists>t. for_each (write_log_one c) ks s = Ret () t \<and> busy c P [] t \<and> eff c s t (apply_writes ws (view s)) ws"
  using assms
proof (induction ks arbitrary: s ws)
  case Nil
  then show ?case using eff_refl [OF busyD(1)] by auto
next
  case (Cons k ks)
  note P = Cons.prems
  let ?d = "slot (lg_start (logs s)) k" and ?x = "view s (log_blocks s ! k)"
  have k: "k < 29" "log_blocks s ! k \<in> P" using P(6) by auto
  have "?d \<notin> P" using P(7) outside_slot [OF P(5) k(1)] by blast
  then obtain t where t: "write_log_one c k s = Ret () t" "busy c P [] t" "eff c s t ((view s)(?d := ?x)) [(?d, ?x)]"
    using write_log_one_ok [OF P(1-4) k(2)] unfolding slot_def by blast
  have lg: "logs t = logs s" using eff_logs [OF t(3)] by simp
  have v: "view t (log_blocks s ! j) = view s (log_blocks s ! j)" if "j \<in> set ks" for j
  proof -
    have "log_blocks s ! j \<noteq> ?d" using P(6,7) that outside_slot [OF P(5) k(1)] by auto
    then show ?thesis using effD(4) [OF t(3)] by simp
  qed
  let ?ws = "List.map (\<lambda>k. (slot (lg_start (logs s)) k, view s (log_blocks s ! k))) ks"
  have w: "?ws = List.map (\<lambda>k. (slot (lg_start (logs t)) k, view t (log_blocks t ! k))) ks" using v by (simp add: lg)
  obtain u where u: "for_each (write_log_one c) ks t = Ret () u" "busy c P [] u" "eff c t u (apply_writes ?ws (view t)) ?ws"
    using Cons.IH [OF t(2) P(2,3) _ _ _ _ w] P(4-7) lg by auto
  have "eff c s u (apply_writes ?ws (view t)) ([(?d, ?x)] @ ?ws)" using t(3) u(3) by (rule eff_trans)
  then have "eff c s u (apply_writes ws (view s)) ws" using P(8) effD(4) [OF t(3)] by simp
  then show ?case using t(1) u(1,2) by auto
qed

lemma install_loop:
  assumes "busy c P [] s" and "finite P" and "card P < NBUF" and "lg_dev (logs s) = ROOTDEV" and "area_ok (lg_start (logs s))"
    and "\<forall>k \<in> set ks. k < 29 \<and> (\<not> recovering \<longrightarrow> log_blocks s ! k \<in> P) \<and> outside (lg_start (logs s)) (log_blocks s ! k) \<and>
       view s (slot (lg_start (logs s)) k) = disk s (slot (lg_start (logs s)) k)"
    and "\<forall>b \<in> P. outside (lg_start (logs s)) b" and "recovering \<longrightarrow> P = {}"
    and "\<not> recovering \<longrightarrow> distinct (List.map ((!) (log_blocks s)) ks)"
    and "ws = List.map (\<lambda>k. (log_blocks s ! k, view s (slot (lg_start (logs s)) k))) ks"
  shows "\<exists>t. for_each (install_one c recovering) ks s = Ret () t \<and> busy c (P - set (List.map ((!) (log_blocks s)) ks)) [] t \<and>
     eff c s t (apply_writes ws (view s)) ws"
  using assms
proof (induction ks arbitrary: s ws P)
  case Nil
  then show ?case using eff_refl [OF busyD(1)] by auto
next
  case (Cons k ks)
  note P = Cons.prems
  let ?l = "slot (lg_start (logs s)) k" and ?h = "log_blocks s ! k"
  let ?x = "view s ?l" and ?Q = "P - {log_blocks s ! k}"
  have k: "k < 29" "\<not> recovering \<longrightarrow> ?h \<in> P" "outside (lg_start (logs s)) ?h" "view s ?l = disk s ?l" using P(6) by auto
  have ne: "?h \<noteq> ?l" using outside_slot [OF P(5) k(1,3)] .
  have lP: "?l \<notin> P" using P(7) outside_slot [OF P(5) k(1)] by blast
  obtain t where t: "install_one c recovering k s = Ret () t" "busy c ?Q [] t" "eff c s t ((view s)(?h := ?x)) [(?h, ?x)]"
    using install_one_ok [OF P(1-4), of recovering k] k(2,4) P(8) lP ne unfolding slot_def by auto
  have lg: "logs t = logs s" using eff_logs [OF t(3)] by simp
  have v: "view t (slot (lg_start (logs s)) j) = view s (slot (lg_start (logs s)) j)"
    "disk t (slot (lg_start (logs s)) j) = disk s (slot (lg_start (logs s)) j)" if "j \<in> set ks" for j
  proof -
    have "j < 29" using P(6) that by simp
    then have "?h \<noteq> slot (lg_start (logs s)) j" using outside_slot [OF P(5) _ k(3)] by blast
    then show "view t (slot (lg_start (logs s)) j) = view s (slot (lg_start (logs s)) j)"
      "disk t (slot (lg_start (logs s)) j) = disk s (slot (lg_start (logs s)) j)" using effD(2,4) [OF t(3)] by simp_all
  qed
  let ?ws = "List.map (\<lambda>k. (log_blocks s ! k, view s (slot (lg_start (logs s)) k))) ks"
  have w: "?ws = List.map (\<lambda>k. (log_blocks t ! k, view t (slot (lg_start (logs t)) k))) ks" using v by (simp add: lg)
  have dk: "log_blocks s ! j \<noteq> ?h" if "j \<in> set ks" "\<not> recovering" for j
    using P(9) that by (metis distinct.simps(2) imageI list.map(2) list.set_map)
  have c: "card ?Q < NBUF" using P(2,3) card_Diff1_le [of P ?h] by linarith
  have h: "\<forall>k \<in> set ks. k < 29 \<and> (\<not> recovering \<longrightarrow> log_blocks t ! k \<in> ?Q) \<and> outside (lg_start (logs t)) (log_blocks t ! k) \<and>
       view t (slot (lg_start (logs t)) k) = disk t (slot (lg_start (logs t)) k)"
    using P(6) v dk by (auto simp: lg)
  obtain u where u: "for_each (install_one c recovering) ks t = Ret () u"
    "busy c (?Q - set (List.map ((!) (log_blocks t)) ks)) [] u" "eff c t u (apply_writes ?ws (view t)) ?ws"
    using Cons.IH [OF t(2) _ c _ _ h _ _ _ w] P(2,4,5,7-9) lg by auto
  have "eff c s u (apply_writes ?ws (view t)) ([(?h, ?x)] @ ?ws)" using t(3) u(3) by (rule eff_trans)
  then have "eff c s u (apply_writes ws (view s)) ws" using P(10) effD(4) [OF t(3)] by simp
  moreover have "?Q - set (List.map ((!) (log_blocks t)) ks) = P - set (List.map ((!) (log_blocks s)) (k # ks))"
    by (auto simp: lg)
  ultimately show ?case using t(1) u(1,2) by auto
qed

section \<open>Commit and recovery\<close>

lemma apply_writes_notin: "b \<notin> fst ` set ws \<Longrightarrow> apply_writes ws d b = d b"
  by (induction ws arbitrary: d) auto

lemma apply_writes_map:
  assumes "inj_on f (set ks)" and "k \<in> set ks"
  shows "apply_writes (List.map (\<lambda>k. (f k, g k)) ks) d (f k) = g k"
  using assms
proof (induction ks arbitrary: d)
  case (Cons j ks)
  show ?case
  proof (cases "k \<in> set ks")
    case False
    then have "k = j" "f k \<notin> f ` set ks" using Cons.prems by auto
    then show ?thesis using apply_writes_notin [of "f k" "List.map (\<lambda>k. (f k, g k)) ks"] by (auto simp: image_iff)
  qed (use Cons in auto)
qed simp

text \<open>The blocks of the current transaction, in the order of the header.\<close>

definition txn_blocks :: "'z log_st_scheme \<Rightarrow> u32 list" where
  "txn_blocks s = take (nat (log_n s)) (log_blocks s)"

text \<open>
  The state in which \<^verbatim>\<open>commit\<close> is called: no buffer in use, the blocks of the transaction pinned in the cache, at most 29
  of them, outside the log area, and no committed transaction in the log on disk.
\<close>

definition ready :: "nat \<Rightarrow> 'z log_st_scheme \<Rightarrow> bool" where
  "ready c s \<longleftrightarrow> busy c (set (txn_blocks s)) [] s \<and> 0 \<le> log_n s \<and> log_n s < 30 \<and> length (log_blocks s) = 30 \<and>
     distinct (txn_blocks s) \<and> lg_dev (logs s) = ROOTDEV \<and> area_ok (lg_start (logs s)) \<and>
     (\<forall>b \<in> set (txn_blocks s). outside (lg_start (logs s)) b) \<and> get32 0 (disk s (lg_start (logs s))) = 0"

definition log_writes :: "'z log_st_scheme \<Rightarrow> (u32 \<times> block) list" where
  "log_writes s = List.map (\<lambda>k. (slot (lg_start (logs s)) k, view s (log_blocks s ! k))) [0..<nat (log_n s)]"

definition home_writes :: "'z log_st_scheme \<Rightarrow> (u32 \<times> block) list" where
  "home_writes s = List.map (\<lambda>k. (log_blocks s ! k, view s (log_blocks s ! k))) [0..<nat (log_n s)]"

definition commit_writes :: "'z log_st_scheme \<Rightarrow> (u32 \<times> block) list" where
  "commit_writes s =
     (let L = lg_start (logs s); h = header (txn_blocks s) (view s L)
      in log_writes s @ [(L, h)] @ home_writes s @ [(L, header [] h)])"

lemma commit_ok:
  assumes r: "ready c s" and n: "0 < log_n s"
  shows "\<exists>t. commit c s = Ret () t \<and> busy c {} [] t \<and> settled c s t \<and> dtrace t = dtrace s @ commit_writes s \<and>
     disk t = apply_writes (commit_writes s) (disk s) \<and> view t = apply_writes (commit_writes s) (view s) \<and>
     logs t = (logs s)\<lparr>lg_lh := (lg_lh (logs s))\<lparr>lh_n := 0\<rparr>\<rparr> \<and> log_st.more t = log_st.more s"
proof -
  let ?L = "lg_start (logs s)" and ?n = "nat (log_n s)" and ?P = "set (txn_blocks s)"
  let ?h = "header (txn_blocks s) (view s ?L)"
  note R = r [unfolded ready_def]
  have b: "busy c ?P [] s" and len: "length (log_blocks s) = 30" and n30: "?n < 30" and dev: "lg_dev (logs s) = ROOTDEV"
    and a: "area_ok ?L" and o: "\<forall>b \<in> ?P. outside ?L b" and ds: "distinct (txn_blocks s)" using R by auto
  have lt: "length (txn_blocks s) = ?n" using len n30 by (simp add: txn_blocks_def)
  have tb: "txn_blocks s ! k = log_blocks s ! k" if "k < ?n" for k using that by (simp add: txn_blocks_def)
  have inP: "log_blocks s ! k \<in> ?P" if "k < ?n" for k using tb [OF that] that lt nth_mem by metis
  have card: "card ?P < NBUF" using card_length [of "txn_blocks s"] lt n30 by (simp add: NBUF_def)
  obtain s1 where 1: "for_each (write_log_one c) [0..<?n] s = Ret () s1" "busy c ?P [] s1"
      "eff c s s1 (apply_writes (log_writes s) (view s)) (log_writes s)"
    using write_log_loop [OF b _ card dev a _ o, of "[0..<?n]"] inP n30 by (auto simp: log_writes_def)
  have lg1: "logs s1 = logs s" using eff_logs [OF 1(3)] by simp
  have w1: "fst ` set (log_writes s) = slot ?L ` {..<?n}"
    by (simp add: log_writes_def image_image atLeast0LessThan)
  have injs: "inj_on (slot ?L) (set [0..<?n])" using slot_inj [OF a] n30 by (auto intro!: inj_onI)
  have v1L: "view s1 ?L = view s ?L"
  proof -
    have "slot ?L k \<noteq> ?L" if "k < ?n" for k using slot_start [OF a, of k] that n30 by simp
    then have "?L \<notin> fst ` set (log_writes s)" unfolding w1 by (metis imageE lessThan_iff)
    then show ?thesis unfolding effD(4) [OF 1(3)] by (rule apply_writes_notin)
  qed
  have v1h: "view s1 (log_blocks s ! k) = view s (log_blocks s ! k)" if "k < ?n" for k
  proof -
    have "log_blocks s ! k \<noteq> slot ?L j" if "j < ?n" for j
      using outside_slot [OF a, of j] that n30 o inP [OF \<open>k < ?n\<close>] by simp
    then have "log_blocks s ! k \<notin> fst ` set (log_writes s)" unfolding w1 by auto
    then show ?thesis unfolding effD(4) [OF 1(3)] by (rule apply_writes_notin)
  qed
  have sl: "view s1 (slot ?L k) = view s (log_blocks s ! k)" "disk s1 (slot ?L k) = view s (log_blocks s ! k)" if "k < ?n" for k
    using apply_writes_map [OF injs, of k] that effD(2,4) [OF 1(3)] by (simp_all add: log_writes_def)
  obtain s2 where 2: "write_head c s1 = Ret () s2" "busy c ?P [] s2" "eff c s1 s2 ((view s1)(?L := ?h)) [(?L, ?h)]"
    using write_head_ok [OF 1(2) _ card, of ?n] dev len n n30 v1L by (auto simp: lg1 txn_blocks_def)
  have lg2: "logs s2 = logs s" using eff_logs [OF 2(3)] lg1 by simp
  have sl2: "view s2 (slot ?L k) = view s (log_blocks s ! k)" "disk s2 (slot ?L k) = view s (log_blocks s ! k)" if "k < ?n" for k
    using sl [OF that] effD(2,4) [OF 2(3)] slot_start [OF a, of k] that n30 by auto
  have hw: "home_writes s = List.map (\<lambda>k. (log_blocks s2 ! k, view s2 (slot (lg_start (logs s2)) k))) [0..<?n]"
    using sl2 by (simp add: home_writes_def lg2)
  have im: "set (List.map ((!) (log_blocks s)) [0..<?n]) = ?P" and dm: "distinct (List.map ((!) (log_blocks s)) [0..<?n])"
  proof -
    have "List.map ((!) (log_blocks s)) [0..<?n] = txn_blocks s"
      using lt tb by (intro nth_equalityI) simp_all
    then show "set (List.map ((!) (log_blocks s)) [0..<?n]) = ?P" "distinct (List.map ((!) (log_blocks s)) [0..<?n])"
      using ds by simp_all
  qed
  have pre: "\<forall>k \<in> set [0..<?n]. k < 29 \<and> (\<not> False \<longrightarrow> log_blocks s2 ! k \<in> ?P) \<and> outside (lg_start (logs s2)) (log_blocks s2 ! k) \<and>
       view s2 (slot (lg_start (logs s2)) k) = disk s2 (slot (lg_start (logs s2)) k)"
    using inP o n30 sl2 by (auto simp: lg2)
  obtain s3 where 3: "for_each (install_one c False) [0..<?n] s2 = Ret () s3" "busy c {} [] s3"
      "eff c s2 s3 (apply_writes (home_writes s) (view s2)) (home_writes s)"
    using install_loop [OF 2(2) _ card _ _ pre _ _ _ hw] dev a o dm im by (auto simp: lg2)
  have lg3: "logs s3 = logs s" using eff_logs [OF 3(3)] lg2 by simp
  let ?s4 = "upd_lh (\<lambda>h. h\<lparr>lh_n := 0\<rparr>) s3"
  have v3L: "view s3 ?L = ?h"
  proof -
    have "?L \<notin> fst ` set (home_writes s)" using inP o outside_start by (fastforce simp: home_writes_def)
    then show ?thesis using effD(4) [OF 3(3)] effD(4) [OF 2(3)] apply_writes_notin by simp
  qed
  obtain s5 where 5: "write_head c ?s4 = Ret () s5" "busy c {} [] s5" "eff c ?s4 s5 ((view ?s4)(?L := header [] ?h)) [(?L, header [] ?h)]"
    using write_head_ok [of c "{}" ?s4 0] 3(2) dev v3L by (auto simp: lg3 NBUF_def)
  have e3: "eff c s s3 (apply_writes (home_writes s) (view s2)) (log_writes s @ [(?L, ?h)] @ home_writes s)"
    using eff_trans [OF 1(3) eff_trans [OF 2(3) 3(3)]] by simp
  have d: "commit_writes s = (log_writes s @ [(?L, ?h)] @ home_writes s) @ [(?L, header [] ?h)]"
    by (simp add: commit_writes_def Let_def)
  have v4: "view ?s4 = view s3" by (rule ext) simp
  have "view s2 = apply_writes (log_writes s @ [(?L, ?h)]) (view s)" using effD(4) [OF 2(3)] effD(4) [OF 1(3)] by simp
  then have v5: "view s5 = apply_writes (commit_writes s) (view s)"
    unfolding d using effD(4) [OF 5(3)] effD(4) [OF 3(3)] v4 by simp
  have "disk s5 = apply_writes (commit_writes s) (disk s)" "dtrace s5 = dtrace s @ commit_writes s"
    unfolding d using effD(2,3) [OF 5(3)] effD(2,3) [OF e3] by simp_all
  moreover have "settled c s s5"
    using settled_trans [OF effD(5) [OF e3]] settled_cong2 [OF effD(5) [OF 5(3)], of s3] by simp
  moreover have "logs s5 = (logs s)\<lparr>lg_lh := (lg_lh (logs s))\<lparr>lh_n := 0\<rparr>\<rparr>" "log_st.more s5 = log_st.more s"
    using eff_logs [OF 5(3)] eff_logs [OF 3(3)] eff_logs [OF 2(3)] eff_logs [OF 1(3)] lg3 by simp_all
  moreover have "commit c s = Ret () s5"
    using n 1(1) 2(1) 3(1) 5(1) by (simp add: commit_def write_log_def install_trans_def lg2)
  ultimately show ?thesis using 5(2) v5 by blast
qed

lemma busy_clean:
  assumes "busy c P [] s" and "b \<notin> P"
  shows "view s b = disk s b"
proof (cases "\<exists>i. blk s i b \<and> b_valid (bufs s ! i)")
  case True
  note B = busyD [OF assms(1)]
  obtain i where i: "blk s i b" "b_valid (bufs s ! i)" using True by blast
  have iN: "i < NBUF" "b_blockno (bufs s ! i) = b" using i(1) by (simp_all add: blk_def)
  have "\<not> blk s i b'" if "b' \<in> P" for b' using i(1) that assms(2) by (auto simp: blk_def)
  then have "b_refcnt (bufs s ! i) = 0" using B(6) [OF iN(1)] by auto
  then have "b_data (bufs s ! i) = disk s b" using cache_invD(6) [OF B(2) iN(1)] i(2) iN(2) by simp
  then show ?thesis using view_cached [OF B(2) i] by simp
next
  case False
  show ?thesis by (rule view_uncached) (use cache_invD(9) [OF busyD(2) [OF assms(1)]] False in auto)
qed

lemma read_head_ok:
  assumes b: "busy c {} [] s" and dev: "lg_dev (logs s) = ROOTDEV"
    and n: "sint (get32 0 (disk s (lg_start (logs s)))) = int k" "k \<le> 29"
  shows "\<exists>t. read_head c s = Ret () t \<and> busy c {} [] t \<and> settled c s t \<and> disk t = disk s \<and> dtrace t = dtrace s \<and>
     logs t = (logs s)\<lparr>lg_lh := (lg_lh (logs s))\<lparr>lh_n := int k,
        lh_block := get_words 4 k (disk s (lg_start (logs s))) @ drop k (log_blocks s)\<rparr>\<rparr>"
proof -
  let ?h = "lg_start (logs s)"
  obtain i s1 where 1: "bread c ROOTDEV ?h s = Ret i s1" "busy c {} [(i, ?h)] s1" "eff c s s1 (view s) []"
    by (rule breadE [OF b, of ?h]) (auto simp: NBUF_def)
  have lg: "logs s1 = logs s" using eff_logs [OF 1(3)] by simp
  have v: "view s1 = view s" "disk s1 = disk s" using effD(2,4) [OF 1(3)] by simp_all
  have d: "b_data (bufs s1 ! i) = disk s ?h" using busy_data [OF 1(2), of i ?h] v busy_clean [OF b, of ?h] by simp
  let ?f = "\<lambda>h. h\<lparr>lh_n := int k, lh_block := get_words 4 k (disk s ?h) @ drop k (lh_block h)\<rparr>"
  let ?s2 = "upd_lh ?f s1"
  have b2: "busy c {} [(i, ?h)] ?s2" and v2: "view ?s2 ?h = disk ?s2 ?h" using 1(2) v busy_clean [OF b, of ?h] by simp_all
  obtain s3 where 3: "brelse c i ?s2 = Ret () s3" "busy c {} [] s3" "eff c ?s2 s3 (view ?s2) []"
    by (rule brelseE [OF b2, of i ?h]) (use v2 in auto)
  have "read_head c s = Ret () s3"
    using 1(1) 3(1) dev n by (simp add: read_head_def Let_def d LOGSIZE_def MAXOPBLOCKS_def)
  moreover have "settled c s s3"
    using settled_trans [OF effD(5) [OF 1(3)]] settled_cong2 [OF effD(5) [OF 3(3)], of s1] by simp
  moreover have "logs s3 = logs ?s2" using eff_logs [OF 3(3)] by simp
  then have "logs s3 = (logs s)\<lparr>lg_lh := ?f (lg_lh (logs s))\<rparr>" by (simp add: lg)
  ultimately show ?thesis using 3(2) effD(2,3) [OF 3(3)] effD(3) [OF 1(3)] v(2) by auto
qed

lemma recover_ok:
  assumes b: "busy c {} [] s" and dev: "lg_dev (logs s) = ROOTDEV" and a: "area_ok (lg_start (logs s))"
    and n: "sint (get32 0 (disk s (lg_start (logs s)))) = int k" "k \<le> 29" and len: "length (log_blocks s) = 30"
    and bl: "bl = get_words 4 k (disk s (lg_start (logs s)))" and o: "\<forall>b \<in> set bl. outside (lg_start (logs s)) b"
  shows "\<exists>t. recover_from_log c s = Ret () t \<and> busy c {} [] t \<and> disk t = (apply_writes
       (List.map (\<lambda>i. (bl ! i, disk s (slot (lg_start (logs s)) i))) [0..<k]) (disk s))
       (lg_start (logs s) := header [] (disk s (lg_start (logs s)))) \<and> log_n t = 0"
proof -
  let ?L = "lg_start (logs s)"
  let ?lg = "(logs s)\<lparr>lg_lh := (lg_lh (logs s))\<lparr>lh_n := int k, lh_block := bl @ drop k (log_blocks s)\<rparr>\<rparr>"
  obtain s1 where 1: "read_head c s = Ret () s1" "busy c {} [] s1" "disk s1 = disk s" "logs s1 = ?lg"
    using read_head_ok [OF b dev n] unfolding bl by blast
  have lb: "length bl = k" by (simp add: bl get_words_def)
  have nth: "log_blocks s1 ! i = bl ! i" if "i < k" for i using that 1(4) lb by (simp add: nth_append)
  have in_bl: "bl ! i \<in> set bl" if "i < k" for i using that lb by simp
  have v1: "view s1 b = disk s b" for b using busy_clean [OF 1(2)] 1(3) by simp
  let ?ws = "List.map (\<lambda>i. (bl ! i, disk s (slot ?L i))) [0..<k]"
  have ws: "?ws = List.map (\<lambda>k. (log_blocks s1 ! k, view s1 (slot (lg_start (logs s1)) k))) [0..<k]"
    using nth v1 by (simp add: 1(4))
  have pre: "\<forall>j \<in> set [0..<k]. j < 29 \<and> (\<not> True \<longrightarrow> log_blocks s1 ! j \<in> {}) \<and> outside (lg_start (logs s1)) (log_blocks s1 ! j) \<and>
       view s1 (slot (lg_start (logs s1)) j) = disk s1 (slot (lg_start (logs s1)) j)"
    using n(2) o in_bl nth v1 1(3,4) by auto
  obtain s2 where 2: "for_each (install_one c True) [0..<k] s1 = Ret () s2" "busy c {} [] s2"
      "eff c s1 s2 (apply_writes ?ws (view s1)) ?ws"
    using install_loop [OF 1(2) _ _ _ _ pre _ _ _ ws] dev a 1(4) by (auto simp: NBUF_def)
  have lg2: "logs s2 = ?lg" using eff_logs [OF 2(3)] 1(4) by simp
  let ?s3 = "upd_lh (\<lambda>h. h\<lparr>lh_n := 0\<rparr>) s2"
  have "?L \<notin> fst ` set ?ws" using o in_bl outside_start by fastforce
  then have v2: "view s2 ?L = disk s ?L" using effD(4) [OF 2(3)] apply_writes_notin v1 by simp
  obtain s4 where 4: "write_head c ?s3 = Ret () s4" "busy c {} [] s4"
      "eff c ?s3 s4 ((view ?s3)(?L := header [] (disk s ?L))) [(?L, header [] (disk s ?L))]"
    using write_head_ok [of c "{}" ?s3 0] 2(2) dev v2 by (auto simp: lg2 NBUF_def)
  have "recover_from_log c s = Ret () s4"
    using 1(1) 2(1) 4(1) by (simp add: recover_from_log_def install_trans_def 1(4))
  moreover have "disk s4 = (apply_writes ?ws (disk s))(?L := header [] (disk s ?L))"
    using effD(2) [OF 4(3)] effD(2) [OF 2(3)] 1(3) by simp
  moreover have "log_n s4 = 0" using eff_logs [OF 4(3)] by simp
  ultimately show ?thesis using 4(2) by blast
qed

lemma busy_initlock:
  assumes "busy c P [] s" and "kmach t = initlock l nm (kmach s)" and "procs t = procs s" and "slks t = slks s"
    and "bufs t = bufs s" and "disk t = disk s"
  shows "busy c P [] t"
proof -
  note B = busyD [OF assms(1)]
  have "calm c t" using B(1) assms(2,3) by (rule calm_initlock)
  moreover have k: "blk t i b = blk s i b" for i b by (simp add: blk_def assms)
  moreover have "cache_inv t" using B(2) by (simp add: cache_inv_def k assms)
  ultimately show ?thesis using assms(1) by (simp add: busy_def assms)
qed

lemma initlog_eq:
  "initlog c dev sb s = recover_from_log c (upd_log (\<lambda>g. g\<lparr>lg_start := sb_logstart sb, lg_size := sint (sb_nlog sb),
      lg_dev := dev\<rparr>) (s\<lparr>kmach := initlock LLog ''log'' (kmach s)\<rparr>))"
  by (simp add: initlog_def LOGSIZE_def MAXOPBLOCKS_def BSIZE_def)

lemma binit_busy:
  assumes "calm c s" and "bufs s = replicate (Suc NBUF) zero_buf" and "\<And>b. length (disk s b) = BSIZE"
  shows "busy c {} [] (binit s)"
proof -
  note I = binit_cache_inv [OF assms(2,3)]
  have "calm c (binit s)" using binit_frame_ok(1) [of c s] assms(1) by (simp add: binit_frame_def)
  then show ?thesis using I(1,3) binit_frame_ok(2) [of _ s] by (simp add: busy_def)
qed

section \<open>Crashes\<close>

text \<open>
  \<open>rebooted c d L r\<close>: memory of a machine that starts again with disk \<open>d\<close>: an empty cache, nobody using it.  Only
  the disk has survived.
\<close>

definition rebooted :: "nat \<Rightarrow> (u32 \<Rightarrow> block) \<Rightarrow> 'z log_st_scheme \<Rightarrow> bool" where
  "rebooted c d r \<longleftrightarrow> calm c r \<and> bufs r = replicate (Suc NBUF) zero_buf \<and> disk r = d \<and> length (log_blocks r) = 30"

lemma recover_reboot:
  assumes r: "rebooted c d r" and l: "\<And>b. length (d b) = BSIZE" and a: "area_ok (sb_logstart sb)"
    and n: "sint (get32 0 (d (sb_logstart sb))) = int k" "k \<le> 29"
    and o: "\<forall>b \<in> set (get_words 4 k (d (sb_logstart sb))). outside (sb_logstart sb) b"
  shows "\<exists>u. initlog c ROOTDEV sb (binit r) = Ret () u \<and> (\<forall>b. outside (sb_logstart sb) b \<longrightarrow> disk u b =
     apply_writes (List.map (\<lambda>i. (get_words 4 k (d (sb_logstart sb)) ! i, d (slot (sb_logstart sb) i))) [0..<k]) d b)"
proof -
  note R = r [unfolded rebooted_def]
  let ?t = "upd_log (\<lambda>g. g\<lparr>lg_start := sb_logstart sb, lg_size := sint (sb_nlog sb), lg_dev := ROOTDEV\<rparr>)
      ((binit r)\<lparr>kmach := initlock LLog ''log'' (kmach (binit r))\<rparr>)"
  have "busy c {} [] (binit r)" using R l by (intro binit_busy) auto
  then have b: "busy c {} [] ?t" by (rule busy_initlock) simp_all
  have ov: "over (binit r) = over r" and dk: "disk (binit r) = d"
    using binit_frame_ok(1) [of c r] R by (simp_all add: binit_frame_def)
  have t: "lg_start (logs ?t) = sb_logstart sb" "disk ?t = d" "lg_dev (logs ?t) = ROOTDEV" "length (log_blocks ?t) = 30"
    using ov dk R by (simp_all add: over_log)
  obtain u where u: "recover_from_log c ?t = Ret () u" "disk u = (apply_writes
       (List.map (\<lambda>i. (get_words 4 k (d (sb_logstart sb)) ! i, d (slot (sb_logstart sb) i))) [0..<k]) d)
       (sb_logstart sb := header [] (d (sb_logstart sb)))"
    using recover_ok [OF b t(3) _ _ n(2) t(4) refl] a n(1) o unfolding t(1,2) by blast
  show ?thesis unfolding initlog_eq using u outside_start by (intro exI [of _ u]) auto
qed

lemma take_writes_in: "b \<in> fst ` set (take k ws) \<Longrightarrow> b \<in> fst ` set ws"
  by (auto dest: in_set_takeD)

lemma apply_writes_take: "b \<notin> fst ` set ws \<Longrightarrow> apply_writes (take k ws) d b = d b"
  by (rule apply_writes_notin) (auto dest: in_set_takeD)

lemma apply_writes_length:
  "(\<And>b. length (d b) = BSIZE) \<Longrightarrow> \<forall>w \<in> set ws. length (snd w) = BSIZE \<Longrightarrow> length (apply_writes ws d b) = BSIZE"
  by (induction ws arbitrary: d) auto

lemma commit_writes_split:
  assumes "ready c s" and "k \<le> length (commit_writes s)"
  shows "k \<le> nat (log_n s) \<and> take k (commit_writes s) = take k (log_writes s) \<or>
    (\<exists>j \<le> nat (log_n s). take k (commit_writes s) = log_writes s @
       [(lg_start (logs s), header (txn_blocks s) (view s (lg_start (logs s))))] @ take j (home_writes s) \<and> nat (log_n s) < k) \<or>
    take k (commit_writes s) = commit_writes s \<and> nat (log_n s) < k"
proof -
  let ?n = "nat (log_n s)"
  have l: "length (log_writes s) = ?n" "length (home_writes s) = ?n" by (simp_all add: log_writes_def home_writes_def)
  consider "k \<le> ?n" | "?n < k" "k \<le> 2 * ?n + 1" | "2 * ?n + 1 < k" by linarith
  then show ?thesis
  proof cases
    case 2
    then show ?thesis using l
      by (intro disjI2 disjI1 exI [of _ "k - ?n - 1"]) (auto simp: commit_writes_def Let_def take_Cons' not_le)
  next
    case 3
    then show ?thesis using assms(2) l by (auto simp: commit_writes_def Let_def)
  qed (use l in \<open>auto simp: commit_writes_def Let_def\<close>)
qed

text \<open>Facts of a ready state that the three phases of a commit share.\<close>

lemma ready_facts:
  assumes "ready c s"
  shows "List.map ((!) (log_blocks s)) [0..<nat (log_n s)] = txn_blocks s" and "length (txn_blocks s) = nat (log_n s)"
    and "nat (log_n s) < 30" and "area_ok (lg_start (logs s))"
    and "fst ` set (log_writes s) = slot (lg_start (logs s)) ` {..<nat (log_n s)}"
    and "fst ` set (home_writes s) = set (txn_blocks s)"
    and "\<And>b. length (view s b) = BSIZE" and "\<And>b. length (disk s b) = BSIZE"
proof -
  note R = assms [unfolded ready_def]
  show n: "nat (log_n s) < 30" "area_ok (lg_start (logs s))" using R by auto
  show l: "length (txn_blocks s) = nat (log_n s)" using R n by (simp add: txn_blocks_def)
  show m: "List.map ((!) (log_blocks s)) [0..<nat (log_n s)] = txn_blocks s"
    using l by (intro nth_equalityI) (simp_all add: txn_blocks_def)
  show "fst ` set (log_writes s) = slot (lg_start (logs s)) ` {..<nat (log_n s)}"
    by (simp add: log_writes_def image_image atLeast0LessThan)
  have "fst ` set (home_writes s) = set (List.map ((!) (log_blocks s)) [0..<nat (log_n s)])"
    by (simp add: home_writes_def image_image)
  then show "fst ` set (home_writes s) = set (txn_blocks s)" unfolding m .
  show "length (view s b) = BSIZE" for b using busy_view_length R by blast
  show "length (disk s b) = BSIZE" for b using cache_invD(8) [OF busyD(2)] R by blast
qed

lemma home_writes_apply:
  assumes "ready c s"
  shows "apply_writes (home_writes s) d b = (if b \<in> set (txn_blocks s) then view s b else d b)"
proof (cases "b \<in> set (txn_blocks s)")
  case True
  note F = ready_facts [OF assms]
  have ds: "distinct (txn_blocks s)" using assms by (simp add: ready_def)
  have i: "inj_on ((!) (log_blocks s)) (set [0..<nat (log_n s)])" using ds unfolding F(1) [symmetric] by (simp add: distinct_map)
  obtain k where "k \<in> set [0..<nat (log_n s)]" "b = log_blocks s ! k" using True unfolding F(1) [symmetric] by auto
  then show ?thesis using apply_writes_map [OF i] True by (simp add: home_writes_def)
qed (use apply_writes_notin ready_facts(6) [OF assms] in auto)

lemma log_writes_apply:
  assumes "ready c s"
  shows "outside (lg_start (logs s)) b \<Longrightarrow> apply_writes (take k (log_writes s)) d b = d b"
    and "apply_writes (take k (log_writes s)) d (lg_start (logs s)) = d (lg_start (logs s))"
    and "i < nat (log_n s) \<Longrightarrow> apply_writes (log_writes s) d (slot (lg_start (logs s)) i) = view s (log_blocks s ! i)"
proof -
  note F = ready_facts [OF assms]
  have ne: "b \<noteq> slot (lg_start (logs s)) i" if "outside (lg_start (logs s)) b \<or> b = lg_start (logs s)" "i < nat (log_n s)" for b i
    using that outside_slot [OF F(4), of i b] slot_start [OF F(4), of i] F(3) by auto
  then have out: "b \<notin> fst ` set (log_writes s)" if "outside (lg_start (logs s)) b \<or> b = lg_start (logs s)" for b
    unfolding F(5) using that by blast
  show "outside (lg_start (logs s)) b \<Longrightarrow> apply_writes (take k (log_writes s)) d b = d b"
    by (rule apply_writes_take) (simp add: out)
  show "apply_writes (take k (log_writes s)) d (lg_start (logs s)) = d (lg_start (logs s))"
    by (rule apply_writes_take) (simp add: out)
  have ij: "inj_on (slot (lg_start (logs s))) (set [0..<nat (log_n s)])"
    using slot_inj [OF F(4)] F(3) by (auto intro!: inj_onI)
  show "i < nat (log_n s) \<Longrightarrow> apply_writes (log_writes s) d (slot (lg_start (logs s)) i) = view s (log_blocks s ! i)"
    using apply_writes_map [OF ij, of i] by (simp add: log_writes_def)
qed

lemma ready_outside: "ready c s \<Longrightarrow> b \<in> set (txn_blocks s) \<Longrightarrow> outside (lg_start (logs s)) b"
  by (simp add: ready_def)

text \<open>The disk after a crash in the second phase: header written, some blocks installed.\<close>

lemma crash_committed:
  assumes r: "ready c s" and d: "d = apply_writes (log_writes s @
       [(lg_start (logs s), header (txn_blocks s) (view s (lg_start (logs s))))] @ take j (home_writes s)) (disk s)"
  shows "d (lg_start (logs s)) = header (txn_blocks s) (view s (lg_start (logs s)))"
    and "i < nat (log_n s) \<Longrightarrow> d (slot (lg_start (logs s)) i) = view s (log_blocks s ! i)"
    and "outside (lg_start (logs s)) b \<Longrightarrow> b \<notin> set (txn_blocks s) \<Longrightarrow> d b = disk s b"
proof -
  note F = ready_facts [OF r]
  let ?L = "lg_start (logs s)"
  have nh: "b \<notin> fst ` set (take j (home_writes s))" if "b \<notin> set (txn_blocks s)" for b
    using that take_writes_in F(6) by metis
  have "?L \<notin> set (txn_blocks s)" using ready_outside [OF r] outside_start by blast
  then show "d ?L = header (txn_blocks s) (view s ?L)" using apply_writes_notin [OF nh] by (simp add: d)
  show "d (slot ?L i) = view s (log_blocks s ! i)" if "i < nat (log_n s)"
  proof -
    have i: "i < 29" using that F(3) by simp
    have "slot ?L i \<notin> set (txn_blocks s)" using ready_outside [OF r] outside_slot [OF F(4) i] by blast
    then show ?thesis
      using apply_writes_notin [OF nh] log_writes_apply(3) [OF r that] slot_start [OF F(4) i] by (simp add: d)
  qed
  show "d b = disk s b" if "outside ?L b" "b \<notin> set (txn_blocks s)"
    using apply_writes_notin [OF nh [OF that(2)]] log_writes_apply(1) [OF r that(1), of "length (log_writes s)"]
      outside_start [OF that(1)] by (simp add: d)
qed

text \<open>
  C1. A commit that is interrupted by a crash is atomic.  From a state with a
  transaction of one to 29 blocks to commit, commit returns after writing a known sequence of blocks.  Stop the machine after any
  number k of these writes, and boot it: initlog returns, and every block outside the log area is as before the
  transaction if k does not include the write of the header, and is as the transaction left it otherwise.
\<close>

theorem commit_crash_atomic:
  assumes "ready c s" and "0 < log_n s" and "rebooted h (apply_writes (take k (commit_writes s)) (disk s)) r"
    and "k \<le> length (commit_writes s)" and "sb_logstart sb = lg_start (logs s)"
  shows "\<exists>t u. commit c s = Ret () t \<and> dtrace t = dtrace s @ commit_writes s \<and> log_n t = 0 \<and>
     initlog h ROOTDEV sb (binit r) = Ret () u \<and>
     (\<forall>b. outside (lg_start (logs s)) b \<longrightarrow> disk u b = (if k \<le> nat (log_n s) then disk s b else view s b))"
proof -
  let ?L = "lg_start (logs s)" and ?n = "nat (log_n s)"
  define d where "d = apply_writes (take k (commit_writes s)) (disk s)"
  note F = ready_facts [OF assms(1)]
  have h0: "length (header bl (view s ?L)) = BSIZE" if "length bl \<le> 30" for bl using header_ok(1) [OF F(7) that] .
  have hl: "length (header (txn_blocks s) (view s ?L)) = BSIZE" using h0 F(2,3) by simp
  have "\<forall>w \<in> set (commit_writes s). length (snd w) = BSIZE"
    using F(7) hl header_ok(1) [OF hl, of "[]"] by (auto simp: commit_writes_def log_writes_def home_writes_def Let_def)
  then have l: "length (d b) = BSIZE" for b
    unfolding d_def using F(8) by (intro apply_writes_length) (auto dest: in_set_takeD)
  have nb: "view s b = disk s b" if "b \<notin> set (txn_blocks s)" for b using busy_clean assms(1) that by (auto simp: ready_def)
  have rb: "rebooted h d r" using assms(3) by (simp add: d_def)
  have a: "area_ok (sb_logstart sb)" using F(4) assms(5) by simp
  note R = recover_reboot [OF rb l a]
  have none: "\<exists>u. initlog h ROOTDEV sb (binit r) = Ret () u \<and> (\<forall>b. outside ?L b \<longrightarrow> disk u b = d b)"
    if "get32 0 (d ?L) = 0" using R [of 0] that assms(5) by (simp add: get_words_def)
  have "\<exists>u. initlog h ROOTDEV sb (binit r) = Ret () u \<and>
     (\<forall>b. outside ?L b \<longrightarrow> disk u b = (if k \<le> ?n then disk s b else view s b))"
    using commit_writes_split [OF assms(1,4)]
  proof (elim disjE exE conjE)
    assume k: "k \<le> ?n" "take k (commit_writes s) = take k (log_writes s)"
    then have "d = apply_writes (take k (log_writes s)) (disk s)" by (simp add: d_def)
    then have "d b = disk s b" if "outside ?L b \<or> b = ?L" for b using log_writes_apply(1,2) [OF assms(1)] that by auto
    then show ?thesis using none assms(1) k(1) by (auto simp: ready_def)
  next
    fix j assume j: "j \<le> ?n" "take k (commit_writes s) = log_writes s @ [(?L, header (txn_blocks s) (view s ?L))] @ take j (home_writes s)"
      and k: "?n < k"
    have dd: "d = apply_writes (log_writes s @ [(?L, header (txn_blocks s) (view s ?L))] @ take j (home_writes s)) (disk s)"
      unfolding d_def j(2) ..
    note K = crash_committed [OF assms(1) dd]
    have lt: "length (txn_blocks s) \<le> 30" using F(2,3) by simp
    note H = header_ok [OF F(7) lt, of ?L]
    have gw: "get_words 4 ?n (d ?L) = txn_blocks s" "sint (get32 0 (d ?L)) = int ?n" using H(2,3) F(2) by (simp_all add: K(1))
    have hw: "List.map (\<lambda>i. (get_words 4 ?n (d ?L) ! i, d (slot ?L i))) [0..<?n] = home_writes s"
      using K(2) unfolding gw home_writes_def by (simp add: txn_blocks_def)
    have lz: "?n \<le> 29" using F(3) by simp
    have ob: "\<forall>b \<in> set (get_words 4 ?n (d ?L)). outside ?L b" unfolding gw using ready_outside [OF assms(1)] by blast
    obtain u where u: "initlog h ROOTDEV sb (binit r) = Ret () u"
      "\<forall>b. outside ?L b \<longrightarrow> disk u b = apply_writes (home_writes s) d b"
      using R [of ?n] gw(2) lz ob unfolding assms(5) hw by blast
    have "disk u b = view s b" if "outside ?L b" for b
      using u(2) that home_writes_apply [OF assms(1), of d b] K(3) [OF that] nb by auto
    then show ?thesis using u(1) k by auto
  next
    assume e: "take k (commit_writes s) = commit_writes s" and k: "?n < k"
    define d' where "d' = apply_writes (log_writes s @ [(?L, header (txn_blocks s) (view s ?L))] @ take ?n (home_writes s)) (disk s)"
    have th: "take ?n (home_writes s) = home_writes s" by (simp add: home_writes_def)
    have dd: "d = d'(?L := header [] (header (txn_blocks s) (view s ?L)))"
      unfolding d_def d'_def th e by (simp add: commit_writes_def Let_def)
    note K = crash_committed [OF assms(1) d'_def]
    have "get32 0 (d ?L) = 0" 
      using get32_put32 [of 0 "header (txn_blocks s) (view s ?L)" 0] hl by (simp add: dd header_def [of "[]"] BSIZE_def)
    moreover have "d b = view s b" if "outside ?L b" for b
      using that outside_start [OF that] K(3) [OF that] nb home_writes_apply [OF assms(1)] th by (auto simp: dd d'_def)
    ultimately show ?thesis using none k by auto
  qed
  then show ?thesis using commit_ok [OF assms(1,2)] by auto
qed

text \<open>A state with one modified block to commit, block 50, and the log area at block 2.\<close>

definition log_state :: "(u32 \<Rightarrow> block) \<Rightarrow> logdata \<Rightarrow> log_st" where
  "log_state d g = \<lparr>kmach = upd_cpu 0 (\<lambda>k. k\<lparr>cpu_proc := Some 0\<rparr>) (kmach boot_kmem), mem = (\<lambda>_. 0), freelist = 0,
     kernel_pagetable = 0, satp = (\<lambda>_. 0), procs = replicate NPROC idle_proc, nextpid = 8, initproc = Some 0,
     slks = (\<lambda>_. \<lparr>sl_locked = False, sl_name = [], sl_pid = 0\<rparr>),
     bufs = replicate (Suc NBUF) zero_buf, disk = d, dtrace = [], logs = g\<rparr>"

lemma log_state_sel [simp]:
  "bufs (log_state d g) = replicate (Suc NBUF) zero_buf" "disk (log_state d g) = d" "logs (log_state d g) = g"
  by (simp_all add: log_state_def)

lemma log_state_calm: "calm 0 (log_state d g)"
  by (simp add: calm_def log_state_def boot_kmem_def upd_cpu_def cpu_ok_def lock_free_def NPROC_def del: calm_simps)

definition one_block_log :: logdata where
  "one_block_log = \<lparr>lg_start = 2, lg_size = 30, lg_outstanding = 0, lg_committing = True, lg_dev = ROOTDEV,
     lg_lh = \<lparr>lh_n = 1, lh_block = replicate 30 50\<rparr>\<rparr>"

lemma ready_example:
  "\<exists>s :: log_st. ready 0 s \<and> logs s = one_block_log \<and> (\<forall>b. disk s b = replicate BSIZE 0) \<and> view s 50 = replicate BSIZE 1"
proof -
  let ?z = "\<lambda>_ :: u32. replicate BSIZE 0 :: block"
  let ?s = "binit (log_state ?z one_block_log)"
  have b: "busy 0 {} [] ?s" by (rule binit_busy [OF log_state_calm]) simp_all
  have s: "logs ?s = one_block_log" "disk ?s = ?z"
    using binit_frame_ok(1) [of 0 "log_state ?z one_block_log"] by (simp_all add: binit_frame_def over_log)
  obtain i s1 where 1: "busy 0 {} [(i, 50)] s1" "eff 0 ?s s1 (view ?s) []"
    by (rule breadE [OF b, of 50]) (auto simp: NBUF_def)
  note 2 = set_data_eff [OF 1(1), of i 50 "replicate BSIZE 1"]
  obtain s3 where 3: "busy 0 {50} [(i, 50)] s3" "eff 0 (set_data i (replicate BSIZE 1) s1) s3 (view (set_data i (replicate BSIZE 1) s1)) []"
    by (rule bpinE [OF 2(1), of i 50]) auto
  obtain s4 where 4: "busy 0 {50} [] s4" "eff 0 s3 s4 (view s3) []" by (rule brelseE [OF 3(1), of i 50]) auto
  have e: "eff 0 ?s s4 (view s3) []" using eff_trans [OF eff_trans [OF eff_trans [OF 1(2) 2(2)] 3(2)] 4(2)] by simp
  have v: "view s4 50 = replicate BSIZE 1" using effD(4) [OF e] effD(4) [OF 3(2)] effD(4) [OF 2(2)] by simp
  have l: "logs s4 = one_block_log" "disk s4 = ?z" using eff_logs [OF e] effD(2) [OF e] s by simp_all
  have t: "txn_blocks s4 = [50]" by (simp add: txn_blocks_def l one_block_log_def numeral_eq_Suc)
  have g: "get32 0 (replicate BSIZE 0) = 0" by (simp add: get32_def get_bytes_def BSIZE_def le_word_def horner_sum_eq_sum)
  have "ready 0 s4" unfolding ready_def t using 4(1) g
    by (simp add: l one_block_log_def area_ok_def outside_def)
  then show ?thesis using l v by (intro exI [of _ s4]) simp
qed

theorem commit_crash_atomic_witness:
  "\<exists>(s :: log_st) (r :: log_st) sb t u. ready 0 s \<and> disk s 50 = replicate BSIZE 0 \<and> view s 50 = replicate BSIZE 1 \<and>
     commit 0 s = Ret () t \<and> disk r = apply_writes (take 2 (commit_writes s)) (disk s) \<and>
     initlog 0 ROOTDEV sb (binit r) = Ret () u \<and> disk u 50 = replicate BSIZE 1"
proof -
  obtain s :: log_st where s: "ready 0 s" "logs s = one_block_log" "\<forall>b. disk s b = replicate BSIZE 0" "view s 50 = replicate BSIZE 1"
    using ready_example by blast
  let ?d = "apply_writes (take 2 (commit_writes s)) (disk s)"
  let ?r = "log_state ?d one_block_log"
  let ?sb = "\<lparr>sb_magic = 0, sb_size = 2000, sb_nblocks = 1954, sb_ninodes = 200, sb_nlog = 30, sb_logstart = 2,
     sb_inodestart = 32, sb_bmapstart = 45\<rparr>"
  have n: "0 < log_n s" "sb_logstart ?sb = lg_start (logs s)" "nat (log_n s) = 1" by (simp_all add: s(2) one_block_log_def)
  have r: "rebooted 0 ?d ?r" using log_state_calm by (simp add: rebooted_def one_block_log_def)
  have k: "2 \<le> length (commit_writes s)" by (simp add: commit_writes_def log_writes_def home_writes_def n(3) Let_def)
  have o: "outside (lg_start (logs s)) 50" by (simp add: s(2) one_block_log_def outside_def)
  obtain t u where "commit 0 s = Ret () t" "initlog 0 ROOTDEV ?sb (binit ?r) = Ret () u" "disk u 50 = view s 50"
    using commit_crash_atomic [OF s(1) n(1) r k n(2)] o n(3) by auto
  then show ?thesis using s by (intro exI [of _ s] exI [of _ ?r] exI [of _ ?sb] exI [of _ t] exI [of _ u]) simp
qed

end
