(* ===== verification/Fs.thy ===== *)
theory Fs
  imports Log KString
begin

text \<open>
  \<^verbatim>\<open>kernel/fs.c\<close>: block allocator, inodes, file contents, directories and path names.  A \<^verbatim>\<open>struct inode *\<close> is an index
  into the table \<open>inodes\<close>, 0 as a pointer is \<open>None\<close>.  The fields of type \<^verbatim>\<open>short\<close> and \<^verbatim>\<open>uint\<close> are words of their width.

  A local \<^verbatim>\<open>struct\<close> that \<^verbatim>\<open>readi\<close> fills or \<^verbatim>\<open>writei\<close> reads is a byte list: \<open>readi\<close> returns the bytes it
  produced besides the count, and the destination \<open>DLocal\<close> stands for such a local.  Loop counters that the
  code bounds by a check are natural numbers.  The messages printed on exhaustion are left out.
\<close>

section \<open>Data\<close>

definition FSMAGIC :: u32 where "FSMAGIC = 0x10203040"
definition NDIRECT :: nat where "NDIRECT = 12"
definition NINDIRECT :: nat where "NINDIRECT = BSIZE div 4"
definition MAXFILE :: nat where "MAXFILE = NDIRECT + NINDIRECT"
definition IPB :: nat where "IPB = BSIZE div 64"
definition BPB :: nat where "BPB = BSIZE * 8"
definition DIRSIZ :: nat where "DIRSIZ = 14"
definition ROOTINO :: u32 where "ROOTINO = 1"
definition NINODE :: nat where "NINODE = 50"
definition T_DIR :: u16 where "T_DIR = 1"
definition T_FILE :: u16 where "T_FILE = 2"
definition T_DEVICE :: u16 where "T_DEVICE = 3"

record inode =
  i_dev :: u32
  i_inum :: u32
  i_ref :: int
  i_valid :: bool
  i_type :: u16
  i_major :: u16
  i_minor :: u16
  i_nlink :: u16
  i_size :: u32
  i_addrs :: "u32 list"

record fs_st = log_st +
  sb :: superblock
  inodes :: "inode list"

definition IBLOCK :: "u32 \<Rightarrow> superblock \<Rightarrow> u32" where
  "IBLOCK i b = of_nat (unat i div IPB) + sb_inodestart b"

definition BBLOCK :: "u32 \<Rightarrow> superblock \<Rightarrow> u32" where
  "BBLOCK bn b = of_nat (unat bn div BPB) + sb_bmapstart b"

definition upd_inode :: "nat \<Rightarrow> (inode \<Rightarrow> inode) \<Rightarrow> 'z fs_st_scheme \<Rightarrow> 'z fs_st_scheme" where
  "upd_inode ip f s = s\<lparr>inodes := (inodes s)[ip := f (inodes s ! ip)]\<rparr>"

abbreviation ino :: "'z fs_st_scheme \<Rightarrow> nat \<Rightarrow> inode" where
  "ino s ip \<equiv> inodes s ! ip"

text \<open>The bytes of a \<^verbatim>\<open>struct dinode\<close>: type, major, minor, nlink, size and 13 block addresses.\<close>

record dinode =
  d_type :: u16
  d_major :: u16
  d_minor :: u16
  d_nlink :: u16
  d_size :: u32
  d_addrs :: "u32 list"

definition dinode_at :: "u32 \<Rightarrow> nat" where
  "dinode_at inum = 64 * (unat inum mod IPB)"

definition get_dinode :: "u32 \<Rightarrow> block \<Rightarrow> dinode" where
  "get_dinode inum d =
     (let off = dinode_at inum
      in \<lparr>d_type = get16 off d, d_major = get16 (off + 2) d, d_minor = get16 (off + 4) d, d_nlink = get16 (off + 6) d,
          d_size = get32 (off + 8) d, d_addrs = get_words (off + 12) (NDIRECT + 1) d\<rparr>)"

definition put_dinode :: "u32 \<Rightarrow> dinode \<Rightarrow> block \<Rightarrow> block" where
  "put_dinode inum x d =
     (let off = dinode_at inum
      in put_words (off + 12) (d_addrs x) (put32 (off + 8) (d_size x) (put16 (off + 6) (d_nlink x)
           (put16 (off + 4) (d_minor x) (put16 (off + 2) (d_major x) (put16 off (d_type x) d))))))"

section \<open>Super block and block allocator\<close>

definition get_sb :: "block \<Rightarrow> superblock" where
  "get_sb d = \<lparr>sb_magic = get32 0 d, sb_size = get32 4 d, sb_nblocks = get32 8 d, sb_ninodes = get32 12 d,
     sb_nlog = get32 16 d, sb_logstart = get32 20 d, sb_inodestart = get32 24 d, sb_bmapstart = get32 28 d\<rparr>"

definition readsb :: "nat \<Rightarrow> u32 \<Rightarrow> 'z fs_st_scheme \<Rightarrow> ('z fs_st_scheme, unit) outcome" where
  "readsb c dev s = andthen (bread c dev 1 s) (\<lambda>bp s. brelse c bp (s\<lparr>sb := get_sb (b_data (bufs s ! bp))\<rparr>))"

definition fsinit :: "nat \<Rightarrow> u32 \<Rightarrow> 'z fs_st_scheme \<Rightarrow> ('z fs_st_scheme, unit) outcome" where
  "fsinit c dev s =
     andthen (readsb c dev s) (\<lambda>_ s.
     if sb_magic (sb s) \<noteq> FSMAGIC then Panic ''invalid file system''
     else initlog c dev (sb s) s)"

definition bzero :: "nat \<Rightarrow> u32 \<Rightarrow> u32 \<Rightarrow> 'z fs_st_scheme \<Rightarrow> ('z fs_st_scheme, unit) outcome" where
  "bzero c dev bno s =
     andthen (bread c dev bno s) (\<lambda>bp s.
     andthen (log_write c bp (set_data bp (replicate BSIZE 0) s)) (\<lambda>_ s.
     brelse c bp s))"

definition bit_used :: "block \<Rightarrow> nat \<Rightarrow> bool" where
  "bit_used d bi = bit (d ! (bi div 8)) (bi mod 8)"

definition mark_bit :: "bool \<Rightarrow> nat \<Rightarrow> block \<Rightarrow> block" where
  "mark_bit used bi d = d[bi div 8 := (if used then set_bit (bi mod 8) (d ! (bi div 8)) else unset_bit (bi mod 8) (d ! (bi div 8)))]"

text \<open>One round of the outer loop of \<^verbatim>\<open>balloc\<close> covers the bits of one bitmap block.\<close>

function balloc_loop :: "nat \<Rightarrow> u32 \<Rightarrow> nat \<Rightarrow> nat \<Rightarrow> 'z fs_st_scheme \<Rightarrow> ('z fs_st_scheme, u32) outcome" where
  "balloc_loop c dev sz b s =
     (if b < sz then
        andthen (bread c dev (BBLOCK (of_nat b) (sb s)) s) (\<lambda>bp s.
        case first_index (\<lambda>bi. \<not> bit_used (b_data (bufs s ! bp)) bi) [0..<min BPB (sz - b)] of
          Some bi \<Rightarrow>
            andthen (log_write c bp (set_data bp (mark_bit True bi (b_data (bufs s ! bp))) s)) (\<lambda>_ s.
            andthen (brelse c bp s) (\<lambda>_ s.
            andthen (bzero c dev (of_nat (b + bi)) s) (\<lambda>_ s.
            Ret (of_nat (b + bi)) s)))
        | None \<Rightarrow> andthen (brelse c bp s) (\<lambda>_ s. balloc_loop c dev sz (b + BPB) s))
      else Ret 0 s)"
  by pat_completeness auto
termination
  by (relation "measure (\<lambda>(_, _, sz, b, _). sz - b)") (auto simp: BPB_def BSIZE_def)

declare balloc_loop.simps [simp del]

definition balloc :: "nat \<Rightarrow> u32 \<Rightarrow> 'z fs_st_scheme \<Rightarrow> ('z fs_st_scheme, u32) outcome" where
  "balloc c dev s = balloc_loop c dev (unat (sb_size (sb s))) 0 s"

definition bfree :: "nat \<Rightarrow> u32 \<Rightarrow> u32 \<Rightarrow> 'z fs_st_scheme \<Rightarrow> ('z fs_st_scheme, unit) outcome" where
  "bfree c dev b s =
     andthen (bread c dev (BBLOCK b (sb s)) s) (\<lambda>bp s.
     let bi = unat b mod BPB in
     if \<not> bit_used (b_data (bufs s ! bp)) bi then Panic ''freeing free block''
     else
       andthen (log_write c bp (set_data bp (mark_bit False bi (b_data (bufs s ! bp))) s)) (\<lambda>_ s.
       brelse c bp s))"

section \<open>Inodes\<close>

definition iinit :: "'z fs_st_scheme \<Rightarrow> 'z fs_st_scheme" where
  "iinit s = fold (\<lambda>i. initsleeplock (LInodeSleep i) ''inode'') [0..<NINODE]
     (s\<lparr>kmach := initlock LItable ''itable'' (kmach s)\<rparr>)"

definition iget :: "nat \<Rightarrow> u32 \<Rightarrow> u32 \<Rightarrow> 'z fs_st_scheme \<Rightarrow> ('z fs_st_scheme, nat) outcome" where
  "iget c dev inum s =
     andthen (k_acquire c LItable s) (\<lambda>_ s.
     case first_index (\<lambda>x. i_ref x > 0 \<and> i_dev x = dev \<and> i_inum x = inum) (inodes s) of
       Some ip \<Rightarrow>
         andthen (k_release c LItable (upd_inode ip (\<lambda>x. x\<lparr>i_ref := i_ref x + 1\<rparr>) s)) (\<lambda>_ s. Ret ip s)
     | None \<Rightarrow>
         (case first_index (\<lambda>x. i_ref x = 0) (inodes s) of
            None \<Rightarrow> Panic ''iget: no inodes''
          | Some ip \<Rightarrow>
              andthen (k_release c LItable
                (upd_inode ip (\<lambda>x. x\<lparr>i_dev := dev, i_inum := inum, i_ref := 1, i_valid := False\<rparr>) s)) (\<lambda>_ s. Ret ip s)))"

text \<open>The loop of \<^verbatim>\<open>ialloc\<close> over the inode numbers; \<^verbatim>\<open>n\<close> is the number of inodes.\<close>

function ialloc_loop :: "nat \<Rightarrow> u32 \<Rightarrow> u16 \<Rightarrow> nat \<Rightarrow> nat \<Rightarrow> 'z fs_st_scheme \<Rightarrow> ('z fs_st_scheme, nat option) outcome" where
  "ialloc_loop c dev type n inum s =
     (if inum < n then
        andthen (bread c dev (IBLOCK (of_nat inum) (sb s)) s) (\<lambda>bp s.
        if d_type (get_dinode (of_nat inum) (b_data (bufs s ! bp))) = 0 then
          andthen (log_write c bp (set_data bp (put_dinode (of_nat inum)
            \<lparr>d_type = type, d_major = 0, d_minor = 0, d_nlink = 0, d_size = 0, d_addrs = replicate (NDIRECT + 1) 0\<rparr>
            (b_data (bufs s ! bp))) s)) (\<lambda>_ s.
          andthen (brelse c bp s) (\<lambda>_ s.
          andthen (iget c dev (of_nat inum) s) (\<lambda>ip s. Ret (Some ip) s)))
        else andthen (brelse c bp s) (\<lambda>_ s. ialloc_loop c dev type n (inum + 1) s))
      else Ret None s)"
  by pat_completeness auto
termination
  by (relation "measure (\<lambda>(_, _, _, n, inum, _). n - inum)") auto

declare ialloc_loop.simps [simp del]

definition ialloc :: "nat \<Rightarrow> u32 \<Rightarrow> u16 \<Rightarrow> 'z fs_st_scheme \<Rightarrow> ('z fs_st_scheme, nat option) outcome" where
  "ialloc c dev type s = ialloc_loop c dev type (unat (sb_ninodes (sb s))) 1 s"

definition dinode_of :: "inode \<Rightarrow> dinode" where
  "dinode_of x = \<lparr>d_type = i_type x, d_major = i_major x, d_minor = i_minor x, d_nlink = i_nlink x, d_size = i_size x,
     d_addrs = i_addrs x\<rparr>"

definition iupdate :: "nat \<Rightarrow> nat \<Rightarrow> 'z fs_st_scheme \<Rightarrow> ('z fs_st_scheme, unit) outcome" where
  "iupdate c ip s =
     andthen (bread c (i_dev (ino s ip)) (IBLOCK (i_inum (ino s ip)) (sb s)) s) (\<lambda>bp s.
     andthen (log_write c bp (set_data bp
       (put_dinode (i_inum (ino s ip)) (dinode_of (ino s ip)) (b_data (bufs s ! bp))) s)) (\<lambda>_ s.
     brelse c bp s))"

definition idup :: "nat \<Rightarrow> nat \<Rightarrow> 'z fs_st_scheme \<Rightarrow> ('z fs_st_scheme, nat) outcome" where
  "idup c ip s =
     andthen (k_acquire c LItable s) (\<lambda>_ s.
     andthen (k_release c LItable (upd_inode ip (\<lambda>x. x\<lparr>i_ref := i_ref x + 1\<rparr>) s)) (\<lambda>_ s. Ret ip s))"

definition ilock :: "nat \<Rightarrow> nat \<Rightarrow> 'z fs_st_scheme \<Rightarrow> ('z fs_st_scheme, unit) outcome" where
  "ilock c ip s =
     (if i_ref (ino s ip) < 1 then Panic ''ilock''
      else
        andthen (acquiresleep c (LInodeSleep ip) s) (\<lambda>_ s.
        if \<not> i_valid (ino s ip) then
          andthen (bread c (i_dev (ino s ip)) (IBLOCK (i_inum (ino s ip)) (sb s)) s) (\<lambda>bp s.
          let d = get_dinode (i_inum (ino s ip)) (b_data (bufs s ! bp));
              s = upd_inode ip (\<lambda>x. x\<lparr>i_type := d_type d, i_major := d_major d, i_minor := d_minor d,
                    i_nlink := d_nlink d, i_size := d_size d, i_addrs := d_addrs d\<rparr>) s
          in andthen (brelse c bp s) (\<lambda>_ s.
             let s = upd_inode ip (\<lambda>x. x\<lparr>i_valid := True\<rparr>) s in
             if i_type (ino s ip) = 0 then Panic ''ilock: no type'' else Ret () s))
        else Ret () s))"

definition iunlock :: "nat \<Rightarrow> nat \<Rightarrow> 'z fs_st_scheme \<Rightarrow> ('z fs_st_scheme, unit) outcome" where
  "iunlock c ip s =
     andthen (holdingsleep c (LInodeSleep ip) s) (\<lambda>h s.
     if \<not> h \<or> i_ref (ino s ip) < 1 then Panic ''iunlock''
     else releasesleep c (LInodeSleep ip) s)"

text \<open>Freeing the content: the direct blocks, then those named by the indirect block, then that block.\<close>

definition itrunc_direct :: "nat \<Rightarrow> nat \<Rightarrow> nat \<Rightarrow> 'z fs_st_scheme \<Rightarrow> ('z fs_st_scheme, unit) outcome" where
  "itrunc_direct c ip i s =
     (if i_addrs (ino s ip) ! i \<noteq> 0 then
        andthen (bfree c (i_dev (ino s ip)) (i_addrs (ino s ip) ! i) s) (\<lambda>_ s.
        Ret () (upd_inode ip (\<lambda>x. x\<lparr>i_addrs := (i_addrs x)[i := 0]\<rparr>) s))
      else Ret () s)"

definition itrunc_indirect :: "nat \<Rightarrow> nat \<Rightarrow> nat \<Rightarrow> nat \<Rightarrow> 'z fs_st_scheme \<Rightarrow> ('z fs_st_scheme, unit) outcome" where
  "itrunc_indirect c ip bp j s =
     (if get32 (4 * j) (b_data (bufs s ! bp)) \<noteq> 0
      then bfree c (i_dev (ino s ip)) (get32 (4 * j) (b_data (bufs s ! bp))) s else Ret () s)"

definition itrunc :: "nat \<Rightarrow> nat \<Rightarrow> 'z fs_st_scheme \<Rightarrow> ('z fs_st_scheme, unit) outcome" where
  "itrunc c ip s =
     andthen (for_each (itrunc_direct c ip) [0..<NDIRECT] s) (\<lambda>_ s.
     andthen (if i_addrs (ino s ip) ! NDIRECT \<noteq> 0 then
                andthen (bread c (i_dev (ino s ip)) (i_addrs (ino s ip) ! NDIRECT) s) (\<lambda>bp s.
                andthen (for_each (itrunc_indirect c ip bp) [0..<NINDIRECT] s) (\<lambda>_ s.
                andthen (brelse c bp s) (\<lambda>_ s.
                andthen (bfree c (i_dev (ino s ip)) (i_addrs (ino s ip) ! NDIRECT) s) (\<lambda>_ s.
                Ret () (upd_inode ip (\<lambda>x. x\<lparr>i_addrs := (i_addrs x)[NDIRECT := 0]\<rparr>) s)))))
              else Ret () s) (\<lambda>_ s.
     iupdate c ip (upd_inode ip (\<lambda>x. x\<lparr>i_size := 0\<rparr>) s)))"

definition iput :: "nat \<Rightarrow> nat \<Rightarrow> 'z fs_st_scheme \<Rightarrow> ('z fs_st_scheme, unit) outcome" where
  "iput c ip s =
     andthen (k_acquire c LItable s) (\<lambda>_ s.
     andthen (if i_ref (ino s ip) = 1 \<and> i_valid (ino s ip) \<and> i_nlink (ino s ip) = 0 then
                andthen (acquiresleep c (LInodeSleep ip) s) (\<lambda>_ s.
                andthen (k_release c LItable s) (\<lambda>_ s.
                andthen (itrunc c ip s) (\<lambda>_ s.
                andthen (iupdate c ip (upd_inode ip (\<lambda>x. x\<lparr>i_type := 0\<rparr>) s)) (\<lambda>_ s.
                andthen (releasesleep c (LInodeSleep ip) (upd_inode ip (\<lambda>x. x\<lparr>i_valid := False\<rparr>) s)) (\<lambda>_ s.
                k_acquire c LItable s)))))
              else Ret () s) (\<lambda>_ s.
     k_release c LItable (upd_inode ip (\<lambda>x. x\<lparr>i_ref := i_ref x - 1\<rparr>) s)))"

definition iunlockput :: "nat \<Rightarrow> nat \<Rightarrow> 'z fs_st_scheme \<Rightarrow> ('z fs_st_scheme, unit) outcome" where
  "iunlockput c ip s = andthen (iunlock c ip s) (\<lambda>_ s. iput c ip s)"

section \<open>File contents\<close>

definition bmap :: "nat \<Rightarrow> nat \<Rightarrow> nat \<Rightarrow> 'z fs_st_scheme \<Rightarrow> ('z fs_st_scheme, u32) outcome" where
  "bmap c ip bn s =
     (if bn < NDIRECT then
        (if i_addrs (ino s ip) ! bn = 0 then
           andthen (balloc c (i_dev (ino s ip)) s) (\<lambda>addr s.
           if addr = 0 then Ret 0 s
           else Ret addr (upd_inode ip (\<lambda>x. x\<lparr>i_addrs := (i_addrs x)[bn := addr]\<rparr>) s))
         else Ret (i_addrs (ino s ip) ! bn) s)
      else if bn - NDIRECT < NINDIRECT then
        andthen (if i_addrs (ino s ip) ! NDIRECT = 0 then
                   andthen (balloc c (i_dev (ino s ip)) s) (\<lambda>addr s.
                   if addr = 0 then Ret 0 s
                   else Ret addr (upd_inode ip (\<lambda>x. x\<lparr>i_addrs := (i_addrs x)[NDIRECT := addr]\<rparr>) s))
                 else Ret (i_addrs (ino s ip) ! NDIRECT) s) (\<lambda>addr s.
        if addr = 0 then Ret 0 s
        else
          andthen (bread c (i_dev (ino s ip)) addr s) (\<lambda>bp s.
          let a = get32 (4 * (bn - NDIRECT)) (b_data (bufs s ! bp)) in
          if a = 0 then
            andthen (balloc c (i_dev (ino s ip)) s) (\<lambda>addr s.
            andthen (if addr \<noteq> 0
                     then log_write c bp (set_data bp (put32 (4 * (bn - NDIRECT)) addr (b_data (bufs s ! bp))) s)
                     else Ret () s) (\<lambda>_ s.
            andthen (brelse c bp s) (\<lambda>_ s. Ret addr s)))
          else andthen (brelse c bp s) (\<lambda>_ s. Ret a s)))
      else Panic ''bmap: out of range'')"

record fstat =
  st_dev :: int
  st_ino :: u32
  st_type :: u16
  st_nlink :: u16
  st_size :: u64

definition stati :: "inode \<Rightarrow> fstat" where
  "stati x = \<lparr>st_dev = sint (i_dev x), st_ino = i_inum x, st_type = i_type x, st_nlink = i_nlink x, st_size = ucast (i_size x)\<rparr>"

text \<open>Where \<^verbatim>\<open>readi\<close> writes to and \<^verbatim>\<open>writei\<close> reads from.\<close>

datatype rdst = DUser u64 | DKern u64 | DLocal
datatype wsrc = SUser u64 | SKern u64 | SLocal "u8 list"

definition copy_to :: "nat \<Rightarrow> rdst \<Rightarrow> u8 list \<Rightarrow> 'z fs_st_scheme \<Rightarrow> ('z fs_st_scheme, int) outcome" where
  "copy_to c dst bs s =
     (case dst of DUser a \<Rightarrow> either_copyout c True a bs s
      | DKern a \<Rightarrow> either_copyout c False a bs s
      | DLocal \<Rightarrow> Ret 0 s)"

definition dst_add :: "rdst \<Rightarrow> nat \<Rightarrow> rdst" where
  "dst_add dst m = (case dst of DUser a \<Rightarrow> DUser (a + of_nat m) | DKern a \<Rightarrow> DKern (a + of_nat m) | DLocal \<Rightarrow> DLocal)"

definition copy_from :: "nat \<Rightarrow> wsrc \<Rightarrow> nat \<Rightarrow> 'z fs_st_scheme \<Rightarrow> ('z fs_st_scheme, int \<times> u8 list) outcome" where
  "copy_from c src m s =
     (case src of SUser a \<Rightarrow> either_copyin c True a m s
      | SKern a \<Rightarrow> either_copyin c False a m s
      | SLocal bs \<Rightarrow> Ret (0, take m bs) s)"

definition src_add :: "wsrc \<Rightarrow> nat \<Rightarrow> wsrc" where
  "src_add src m = (case src of SUser a \<Rightarrow> SUser (a + of_nat m) | SKern a \<Rightarrow> SKern (a + of_nat m) | SLocal bs \<Rightarrow> SLocal (drop m bs))"

definition chunk :: "nat \<Rightarrow> nat \<Rightarrow> nat \<Rightarrow> nat" where
  "chunk n tot off = min (n - tot) (BSIZE - off mod BSIZE)"

lemma chunk_pos: "tot < n \<Longrightarrow> 0 < chunk n tot off"
  by (simp add: chunk_def BSIZE_def)

function readi_loop ::
    "nat \<Rightarrow> nat \<Rightarrow> rdst \<Rightarrow> nat \<Rightarrow> nat \<Rightarrow> nat \<Rightarrow> u8 list \<Rightarrow> 'z fs_st_scheme \<Rightarrow> ('z fs_st_scheme, int \<times> u8 list) outcome" where
  "readi_loop c ip dst off n tot acc s =
     (if tot < n then
        andthen (bmap c ip (off div BSIZE) s) (\<lambda>addr s.
        if addr = 0 then Ret (sint (of_nat tot :: u32), acc) s
        else
          andthen (bread c (i_dev (ino s ip)) addr s) (\<lambda>bp s.
          let m = chunk n tot off;
              bs = get_bytes (off mod BSIZE) m (b_data (bufs s ! bp))
          in andthen (copy_to c dst bs s) (\<lambda>r s.
             andthen (brelse c bp s) (\<lambda>_ s.
             if r = -1 then Ret (-1, acc) s
             else readi_loop c ip (dst_add dst m) (off + m) n (tot + m) (acc @ bs) s))))
      else Ret (sint (of_nat tot :: u32), acc) s)"
  by pat_completeness auto
termination
  by (relation "measure (\<lambda>(_, _, _, _, n, tot, _, _). n - tot)") (auto simp: chunk_pos diff_less_mono2)

declare readi_loop.simps [simp del]

definition readi ::
    "nat \<Rightarrow> nat \<Rightarrow> rdst \<Rightarrow> u32 \<Rightarrow> u32 \<Rightarrow> 'z fs_st_scheme \<Rightarrow> ('z fs_st_scheme, int \<times> u8 list) outcome" where
  "readi c ip dst off n s =
     (if off > i_size (ino s ip) \<or> off + n < off then Ret (0, []) s
      else
        let n = (if off + n > i_size (ino s ip) then i_size (ino s ip) - off else n)
        in readi_loop c ip dst (unat off) (unat n) 0 [] s)"

function writei_loop ::
    "nat \<Rightarrow> nat \<Rightarrow> wsrc \<Rightarrow> nat \<Rightarrow> nat \<Rightarrow> nat \<Rightarrow> 'z fs_st_scheme \<Rightarrow> ('z fs_st_scheme, nat \<times> nat) outcome" where
  "writei_loop c ip src off n tot s =
     (if tot < n then
        andthen (bmap c ip (off div BSIZE) s) (\<lambda>addr s.
        if addr = 0 then Ret (tot, off) s
        else
          andthen (bread c (i_dev (ino s ip)) addr s) (\<lambda>bp s.
          let m = chunk n tot off
          in andthen (copy_from c src m s) (\<lambda>(r, bs) s.
             let s = set_data bp (put_bytes (off mod BSIZE) bs (b_data (bufs s ! bp))) s in
             if r = -1 then andthen (brelse c bp s) (\<lambda>_ s. Ret (tot, off) s)
             else
               andthen (log_write c bp s) (\<lambda>_ s.
               andthen (brelse c bp s) (\<lambda>_ s.
               writei_loop c ip (src_add src m) (off + m) n (tot + m) s)))))
      else Ret (tot, off) s)"
  by pat_completeness auto
termination
  by (relation "measure (\<lambda>(_, _, _, _, n, tot, _). n - tot)") (auto simp: chunk_pos diff_less_mono2)

declare writei_loop.simps [simp del]

definition writei ::
    "nat \<Rightarrow> nat \<Rightarrow> wsrc \<Rightarrow> u32 \<Rightarrow> u32 \<Rightarrow> 'z fs_st_scheme \<Rightarrow> ('z fs_st_scheme, int) outcome" where
  "writei c ip src off n s =
     (if off > i_size (ino s ip) \<or> off + n < off then Ret (-1) s
      else if unat (off + n) > MAXFILE * BSIZE then Ret (-1) s
      else
        andthen (writei_loop c ip src (unat off) (unat n) 0 s) (\<lambda>(tot, off) s.
        let s = (if off > unat (i_size (ino s ip)) then upd_inode ip (\<lambda>x. x\<lparr>i_size := of_nat off\<rparr>) s else s)
        in andthen (iupdate c ip s) (\<lambda>_ s. Ret (int tot) s)))"

section \<open>Directories\<close>

definition name_rd :: "u8 list \<Rightarrow> nat \<Rightarrow> u8" where
  "name_rd bs i = (if i < List.length bs then bs ! i else 0)"

definition namecmp :: "u8 list \<Rightarrow> u8 list \<Rightarrow> int" where
  "namecmp a b = strncmp_rd (name_rd a) (name_rd b) DIRSIZ"

definition de_inum :: "u8 list \<Rightarrow> u16" where
  "de_inum de = get16 0 de"

definition de_name :: "u8 list \<Rightarrow> u8 list" where
  "de_name de = get_bytes 2 DIRSIZ de"

definition mk_dirent :: "u16 \<Rightarrow> u8 list \<Rightarrow> u8 list" where
  "mk_dirent inum name = put16 0 inum (replicate 2 0 @ pad_nul DIRSIZ (take DIRSIZ name))"

text \<open>The loop of \<^verbatim>\<open>dirlookup\<close>; the result carries \<^verbatim>\<open>*poff\<close>.\<close>

function dirlookup_loop ::
    "nat \<Rightarrow> nat \<Rightarrow> u8 list \<Rightarrow> nat \<Rightarrow> nat \<Rightarrow> 'z fs_st_scheme \<Rightarrow> ('z fs_st_scheme, (nat \<times> u32) option) outcome" where
  "dirlookup_loop c dp name sz off s =
     (if off < sz then
        andthen (readi c dp DLocal (of_nat off) 16 s) (\<lambda>(r, de) s.
        if r \<noteq> 16 then Panic ''dirlookup read''
        else if de_inum de \<noteq> 0 \<and> namecmp name (de_name de) = 0 then
          andthen (iget c (i_dev (ino s dp)) (ucast (de_inum de)) s) (\<lambda>ip s. Ret (Some (ip, of_nat off)) s)
        else dirlookup_loop c dp name sz (off + 16) s)
      else Ret None s)"
  by pat_completeness auto
termination
  by (relation "measure (\<lambda>(_, _, _, sz, off, _). sz - off)") auto

declare dirlookup_loop.simps [simp del]

definition dirlookup ::
    "nat \<Rightarrow> nat \<Rightarrow> u8 list \<Rightarrow> 'z fs_st_scheme \<Rightarrow> ('z fs_st_scheme, (nat \<times> u32) option) outcome" where
  "dirlookup c dp name s =
     (if i_type (ino s dp) \<noteq> T_DIR then Panic ''dirlookup not DIR''
      else dirlookup_loop c dp name (unat (i_size (ino s dp))) 0 s)"

function dirlink_slot :: "nat \<Rightarrow> nat \<Rightarrow> nat \<Rightarrow> nat \<Rightarrow> 'z fs_st_scheme \<Rightarrow> ('z fs_st_scheme, nat) outcome" where
  "dirlink_slot c dp sz off s =
     (if off < sz then
        andthen (readi c dp DLocal (of_nat off) 16 s) (\<lambda>(r, de) s.
        if r \<noteq> 16 then Panic ''dirlink read''
        else if de_inum de = 0 then Ret off s
        else dirlink_slot c dp sz (off + 16) s)
      else Ret off s)"
  by pat_completeness auto
termination
  by (relation "measure (\<lambda>(_, _, sz, off, _). sz - off)") auto

declare dirlink_slot.simps [simp del]

definition dirlink :: "nat \<Rightarrow> nat \<Rightarrow> u8 list \<Rightarrow> u32 \<Rightarrow> 'z fs_st_scheme \<Rightarrow> ('z fs_st_scheme, int) outcome" where
  "dirlink c dp name inum s =
     andthen (dirlookup c dp name s) (\<lambda>found s.
     case found of
       Some (ip, _) \<Rightarrow> andthen (iput c ip s) (\<lambda>_ s. Ret (-1) s)
     | None \<Rightarrow>
         andthen (dirlink_slot c dp (unat (i_size (ino s dp))) 0 s) (\<lambda>off s.
         andthen (writei c dp (SLocal (mk_dirent (ucast inum) name)) (of_nat off) 16 s) (\<lambda>r s.
         Ret (if r \<noteq> 16 then -1 else 0) s)))"

section \<open>Path names\<close>

definition slash :: u8 where "slash = 47"

text \<open>A path is the bytes before its NUL.  The result is the name copied and the rest of the path.\<close>

definition skipelem :: "u8 list \<Rightarrow> (u8 list \<times> u8 list) option" where
  "skipelem path =
     (let path = dropWhile (\<lambda>x. x = slash) path in
      if path = [] then None
      else
        let elem = takeWhile (\<lambda>x. x \<noteq> slash) path;
            rest = dropWhile (\<lambda>x. x \<noteq> slash) path
        in Some (take DIRSIZ elem, dropWhile (\<lambda>x. x = slash) rest))"

lemma skipelem_shorter:
  assumes "skipelem path = Some (name, tail)"
  shows "List.length tail < List.length path"
proof -
  let ?p = "dropWhile (\<lambda>x. x = slash) path"
  have ne: "?p \<noteq> []" and r: "tail = dropWhile (\<lambda>x. x = slash) (dropWhile (\<lambda>x. x \<noteq> slash) ?p)"
    using assms by (auto simp: skipelem_def Let_def split: if_splits)
  have "hd ?p \<noteq> slash" using hd_dropWhile [OF ne] by simp
  with ne have "dropWhile (\<lambda>x. x \<noteq> slash) ?p = dropWhile (\<lambda>x. x \<noteq> slash) (tl ?p)"
    by (cases ?p) auto
  then have "List.length tail \<le> List.length (tl ?p)"
    unfolding r by (metis length_dropWhile_le le_trans)
  also have "\<dots> < List.length ?p" using ne by simp
  also have "\<dots> \<le> List.length path" by (rule length_dropWhile_le)
  finally show ?thesis .
qed

function namex_loop ::
    "nat \<Rightarrow> bool \<Rightarrow> nat \<Rightarrow> u8 list \<Rightarrow> 'z fs_st_scheme \<Rightarrow> ('z fs_st_scheme, (nat \<times> u8 list) option) outcome" where
  "namex_loop c parent ip path s =
     (case skipelem path of
        None \<Rightarrow>
          if parent then andthen (iput c ip s) (\<lambda>_ s. Ret None s)
          else Ret (Some (ip, [])) s
      | Some (name, path') \<Rightarrow>
          andthen (ilock c ip s) (\<lambda>_ s.
          if i_type (ino s ip) \<noteq> T_DIR then andthen (iunlockput c ip s) (\<lambda>_ s. Ret None s)
          else if parent \<and> path' = [] then andthen (iunlock c ip s) (\<lambda>_ s. Ret (Some (ip, name)) s)
          else
            andthen (dirlookup c ip name s) (\<lambda>found s.
            case found of
              None \<Rightarrow> andthen (iunlockput c ip s) (\<lambda>_ s. Ret None s)
            | Some (nxt, _) \<Rightarrow> andthen (iunlockput c ip s) (\<lambda>_ s. namex_loop c parent nxt path' s))))"
  by pat_completeness auto
termination
  by (relation "measure (\<lambda>(_, _, _, path, _). List.length path)") (auto simp: skipelem_shorter)

declare namex_loop.simps [simp del]

definition namex ::
    "nat \<Rightarrow> u8 list \<Rightarrow> bool \<Rightarrow> 'z fs_st_scheme \<Rightarrow> ('z fs_st_scheme, (nat \<times> u8 list) option) outcome" where
  "namex c path parent s =
     andthen (if path \<noteq> [] \<and> hd path = slash then iget c ROOTDEV ROOTINO s
              else andthen (curproc c s) (\<lambda>p s. case p_cwd (procs s ! p) of Some ip \<Rightarrow> idup c ip s | None \<Rightarrow> Panic ''kerneltrap'')) (\<lambda>ip s.
     namex_loop c parent ip path s)"

definition namei :: "nat \<Rightarrow> u8 list \<Rightarrow> 'z fs_st_scheme \<Rightarrow> ('z fs_st_scheme, nat option) outcome" where
  "namei c path s = andthen (namex c path False s) (\<lambda>r s. Ret (map_option fst r) s)"

definition nameiparent ::
    "nat \<Rightarrow> u8 list \<Rightarrow> 'z fs_st_scheme \<Rightarrow> ('z fs_st_scheme, (nat \<times> u8 list) option) outcome" where
  "nameiparent c path s = namex c path True s"

end
