(* ===== verification/Ring.thy ===== *)
theory Ring
  imports Prelude
begin

text \<open>
  Ring buffers addressed by counters that are never reset: the pipe, the console and the serial line all keep a power of two
  of bytes, count what was written and read in machine words, and index the array by the count modulo its size.
  \<open>bounded_fifo\<close> is what their clients rely on, and \<open>ring_content\<close> is the list such a buffer holds, also after a
  counter has wrapped around.
\<close>

section \<open>The contract of a bounded queue\<close>

datatype 'a fifo_op = Put 'a | Get

locale bounded_fifo =
  fixes ok :: "'q \<Rightarrow> bool"
    and content :: "'q \<Rightarrow> 'a list"
    and capacity :: nat
    and full :: "'q \<Rightarrow> bool"
    and empty :: "'q \<Rightarrow> bool"
    and put :: "'a \<Rightarrow> 'q \<Rightarrow> 'q"
    and get :: "'q \<Rightarrow> 'a \<times> 'q"
  assumes content_bound: "ok q \<Longrightarrow> List.length (content q) \<le> capacity"
    and full_iff: "ok q \<Longrightarrow> full q \<longleftrightarrow> List.length (content q) = capacity"
    and empty_iff: "ok q \<Longrightarrow> empty q \<longleftrightarrow> content q = []"
    and put_ok: "ok q \<Longrightarrow> \<not> full q \<Longrightarrow> ok (put x q)"
    and put_content: "ok q \<Longrightarrow> \<not> full q \<Longrightarrow> content (put x q) = content q @ [x]"
    and get_ok: "ok q \<Longrightarrow> \<not> empty q \<Longrightarrow> ok (snd (get q))"
    and get_content: "ok q \<Longrightarrow> \<not> empty q \<Longrightarrow> fst (get q) # content (snd (get q)) = content q"
begin

text \<open>A run of the queue: a put on a full queue and a get from an empty one are skipped, as the code does by waiting.\<close>

fun run :: "'a fifo_op list \<Rightarrow> 'q \<Rightarrow> 'a list \<times> 'a list \<times> 'q" where
  "run [] q = ([], [], q)"
| "run (Put x # ops) q =
     (if full q then run ops q else let (ins, outs, q) = run ops (put x q) in (x # ins, outs, q))"
| "run (Get # ops) q =
     (if empty q then run ops q
      else let (x, q) = get q; (ins, outs, q) = run ops q in (ins, x # outs, q))"

lemma run_fifo:
  assumes "ok q" and "run ops q = (ins, outs, t)"
  shows "ok t \<and> content q @ ins = outs @ content t"
  using assms
proof (induction ops q arbitrary: ins outs t rule: run.induct)
  case (1 q)
  then show ?case by simp
next
  case (2 x ops q)
  show ?case
  proof (cases "full q")
    case True
    then show ?thesis using 2 by simp
  next
    case False
    obtain ins' where i: "ins = x # ins'" and r: "run ops (put x q) = (ins', outs, t)"
      using 2(4) False by (auto split: prod.splits)
    have "ok t \<and> content (put x q) @ ins' = outs @ content t"
      using 2(2) [OF False put_ok [OF 2(3) False] r] .
    then show ?thesis using put_content [OF 2(3) False] i by simp
  qed
next
  case (3 ops q)
  show ?case
  proof (cases "empty q")
    case True
    then show ?thesis using 3 by simp
  next
    case False
    obtain x u outs' where g: "get q = (x, u)" and o: "outs = x # outs'" and r: "run ops u = (ins, outs', t)"
      using 3(4) False by (auto split: prod.splits)
    have "ok u" using get_ok [OF 3(3) False] g by simp
    then have "ok t \<and> content u @ ins = outs' @ content t"
      using 3(2) [OF False g [symmetric] refl _ r] by simp
    then show ?thesis using get_content [OF 3(3) False] g o by (metis append_Cons fst_conv snd_conv)
  qed
qed

end

section \<open>Rings over machine words\<close>

definition ring_content :: "nat \<Rightarrow> 'a list \<Rightarrow> 'w::len word \<Rightarrow> 'w word \<Rightarrow> 'a list" where
  "ring_content n buf r w = map (\<lambda>i. buf ! (unat (r + of_nat i) mod n)) [0..<unat (w - r)]"

definition ring_ok :: "nat \<Rightarrow> 'a list \<Rightarrow> 'w::len word \<Rightarrow> 'w word \<Rightarrow> bool" where
  "ring_ok n buf r w \<longleftrightarrow> 0 < n \<and> n dvd 2 ^ LENGTH('w) \<and> n < 2 ^ LENGTH('w) \<and> List.length buf = n \<and> unat (w - r) \<le> n"

lemma length_ring_content [simp]: "List.length (ring_content n buf r w) = unat (w - r)"
  by (simp add: ring_content_def)

lemma unat_mod_dvd:
  fixes x :: "'w::len word"
  assumes "n dvd 2 ^ LENGTH('w)"
  shows "unat (x + of_nat i) mod n = (unat x + i) mod n"
proof -
  have "unat (x + of_nat i) mod n = ((unat x + unat (of_nat i :: 'w word)) mod 2 ^ LENGTH('w)) mod n"
    by (simp add: unat_word_ariths)
  also have "\<dots> = (unat x + unat (of_nat i :: 'w word)) mod n" using assms by (rule mod_mod_cancel)
  also have "\<dots> = (unat x + (i mod 2 ^ LENGTH('w)) mod n) mod n" by (simp add: unat_of_nat mod_add_right_eq)
  also have "\<dots> = (unat x + i) mod n" using assms by (simp add: mod_mod_cancel mod_add_right_eq)
  finally show ?thesis .
qed

lemma ring_step:
  fixes r w :: "'w::len word"
  assumes "w \<noteq> r"
  shows "unat (w - r) = Suc (unat (w - (r + 1)))"
proof -
  have "w - r \<noteq> 0" using assms by simp
  then have "unat (w - r - 1) = unat (w - r) - 1" by (simp add: unat_minus_one)
  moreover have "0 < unat (w - r)" using \<open>w - r \<noteq> 0\<close> by (simp add: unat_gt_0)
  ultimately show ?thesis by (simp add: algebra_simps)
qed

lemma ring_grow:
  fixes r w :: "'w::len word"
  assumes "unat (w - r) < n" and "n < 2 ^ LENGTH('w)"
  shows "unat (w + 1 - r) = Suc (unat (w - r))"
proof -
  have "unat ((w - r) + 1) = Suc (unat (w - r))"
    using assms by (simp add: unat_word_ariths unatSuc)
  then show ?thesis by (simp add: algebra_simps)
qed

lemma mod_inj_window_le:
  fixes i j n r :: nat
  assumes "(r + j) mod n = (r + i) mod n" and "i \<le> j" and "j < n"
  shows "i = j"
proof -
  have "n dvd (r + j) - (r + i)" using assms(1,2) by (simp add: mod_eq_dvd_iff_nat)
  then have "n dvd j - i" by simp
  moreover have "j - i < n" using assms(3) by simp
  ultimately have "j - i = 0" using dvd_imp_le [of n "j - i"] by linarith
  then show ?thesis using assms(2) by simp
qed

lemma mod_inj_window:
  fixes i j n r :: nat
  assumes "(r + i) mod n = (r + j) mod n" and "i < n" and "j < n"
  shows "i = j"
  using mod_inj_window_le [of r i n j] mod_inj_window_le [of r j n i] assms by (cases "i \<le> j") simp_all

lemma ring_put:
  fixes r w :: "'w::len word"
  assumes ok: "ring_ok n buf r w" and room: "unat (w - r) \<noteq> n"
  shows "ring_ok n (buf[unat w mod n := x]) r (w + 1)"
    and "ring_content n (buf[unat w mod n := x]) r (w + 1) = ring_content n buf r w @ [x]"
proof -
  have n: "0 < n" "n dvd 2 ^ LENGTH('w)" "n < 2 ^ LENGTH('w)" "List.length buf = n" and lt: "unat (w - r) < n"
    using ok room by (auto simp: ring_ok_def)
  have g: "unat (w + 1 - r) = Suc (unat (w - r))" by (rule ring_grow [OF lt n(3)])
  show "ring_ok n (buf[unat w mod n := x]) r (w + 1)" using n g lt by (simp add: ring_ok_def)
  have idx: "unat (r + of_nat i) mod n = (unat r + i) mod n" for i by (rule unat_mod_dvd [OF n(2)])
  have "r + of_nat (unat (w - r)) = w" by simp
  then have last: "unat w mod n = (unat r + unat (w - r)) mod n" using idx [of "unat (w - r)"] by simp
  have "unat w mod n \<noteq> (unat r + i) mod n" if "i < unat (w - r)" for i
    using mod_inj_window [of "unat r" i n "unat (w - r)"] that lt by (auto simp: last)
  then show "ring_content n (buf[unat w mod n := x]) r (w + 1) = ring_content n buf r w @ [x]"
    using n by (auto simp: ring_content_def g idx last)
qed

lemma ring_get:
  assumes ok: "ring_ok n buf r w" and ne: "w \<noteq> r"
  shows "ring_ok n buf (r + 1) w"
    and "ring_content n buf r w = buf ! (unat r mod n) # ring_content n buf (r + 1) w"
proof -
  note s = ring_step [OF ne]
  show "ring_ok n buf (r + 1) w" using ok s by (simp add: ring_ok_def)
  have "[0..<Suc k] = 0 # map Suc [0..<k]" for k by (simp add: upt_conv_Cons map_Suc_upt del: upt_Suc)
  then show "ring_content n buf r w = buf ! (unat r mod n) # ring_content n buf (r + 1) w"
    by (simp add: ring_content_def s comp_def algebra_simps del: upt_Suc)
qed

lemma ring_empty_iff: "ring_content n buf r w = [] \<longleftrightarrow> w = r"
  by (metis length_0_conv length_ring_content right_minus_eq unat_eq_0)

lemma ring_full_iff:
  fixes r w :: "'w::len word"
  assumes "ring_ok n buf r w"
  shows "w = r + of_nat n \<longleftrightarrow> unat (w - r) = n"
proof
  assume "w = r + of_nat n"
  then show "unat (w - r) = n" using assms by (simp add: ring_ok_def unat_of_nat)
next
  assume "unat (w - r) = n"
  then have "of_nat n = w - r" by (auto simp: ucast_id)
  then show "w = r + of_nat n" by simp
qed

lemma ring_split:
  fixes r w e :: "'w::len word"
  assumes "unat (w - r) + unat (e - w) = unat (e - r)"
  shows "ring_content n buf r e = ring_content n buf r w @ ring_content n buf w e"
proof -
  have "[0..<unat (e - r)] = [0..<unat (w - r)] @ map (\<lambda>i. i + unat (w - r)) [0..<unat (e - w)]"
    by (metis add.commute add.left_neutral assms le_add1 map_add_upt upt_add_eq_append zero_le)
  moreover have "r + of_nat (i + unat (w - r)) = w + of_nat i" for i by (simp add: algebra_simps)
  ultimately show ?thesis by (simp add: ring_content_def comp_def add.commute)
qed

end
