(* ===== verification/Uart.thy ===== *)
theory Uart
  imports Fs Ring
begin

text \<open>
  \<^verbatim>\<open>kernel/uart.c\<close> without its interrupt handler.  The device is not described: \<open>u_ans\<close> is the list of values it will
  return to the next register reads and \<open>u_trace\<close> records every access, so the definitions say what the driver
  does for each behaviour of the hardware.  A read for which no answer is left is a wait for the device.
\<close>

datatype reg_access = Rd nat u8 | Wr nat u8

record uart_st = fs_st +
  uart_tx_buf :: "u8 list"
  uart_tx_w :: u64
  uart_tx_r :: u64
  panicked :: bool
  u_ans :: "u8 list"
  u_trace :: "reg_access list"

definition RHR :: nat where "RHR = 0"
definition THR :: nat where "THR = 0"
definition IER :: nat where "IER = 1"
definition FCR :: nat where "FCR = 2"
definition ISR :: nat where "ISR = 2"
definition LCR :: nat where "LCR = 3"
definition LSR :: nat where "LSR = 5"
definition IER_RX_ENABLE :: u8 where "IER_RX_ENABLE = 1"
definition IER_TX_ENABLE :: u8 where "IER_TX_ENABLE = 2"
definition FCR_FIFO_ENABLE :: u8 where "FCR_FIFO_ENABLE = 1"
definition FCR_FIFO_CLEAR :: u8 where "FCR_FIFO_CLEAR = 6"
definition LCR_EIGHT_BITS :: u8 where "LCR_EIGHT_BITS = 3"
definition LCR_BAUD_LATCH :: u8 where "LCR_BAUD_LATCH = 0x80"
definition LSR_RX_READY :: nat where "LSR_RX_READY = 0"
definition LSR_TX_IDLE :: nat where "LSR_TX_IDLE = 5"
definition UART_TX_BUF_SIZE :: nat where "UART_TX_BUF_SIZE = 32"

definition ReadReg :: "nat \<Rightarrow> 'z uart_st_scheme \<Rightarrow> ('z uart_st_scheme, u8) outcome" where
  "ReadReg r s =
     (case u_ans s of [] \<Rightarrow> Blocked s
      | v # vs \<Rightarrow> Ret v (s\<lparr>u_ans := vs, u_trace := u_trace s @ [Rd r v]\<rparr>))"

definition WriteReg :: "nat \<Rightarrow> u8 \<Rightarrow> 'z uart_st_scheme \<Rightarrow> 'z uart_st_scheme" where
  "WriteReg r v s = s\<lparr>u_trace := u_trace s @ [Wr r v]\<rparr>"

definition uartinit :: "'z uart_st_scheme \<Rightarrow> 'z uart_st_scheme" where
  "uartinit s =
     (let s = WriteReg IER 0 s;
          s = WriteReg LCR LCR_BAUD_LATCH s;
          s = WriteReg 0 3 s;
          s = WriteReg 1 0 s;
          s = WriteReg LCR LCR_EIGHT_BITS s;
          s = WriteReg FCR (FCR_FIFO_ENABLE + FCR_FIFO_CLEAR) s;
          s = WriteReg IER (IER_TX_ENABLE + IER_RX_ENABLE) s
      in s\<lparr>kmach := initlock LUart ''uart'' (kmach s)\<rparr>)"

text \<open>Each round of the loop of \<^verbatim>\<open>uartstart\<close> moves \<^verbatim>\<open>uart_tx_r\<close> towards \<^verbatim>\<open>uart_tx_w\<close>, so their distance bounds the rounds.\<close>

fun uartstart_loop :: "nat \<Rightarrow> nat \<Rightarrow> 'z uart_st_scheme \<Rightarrow> ('z uart_st_scheme, unit) outcome" where
  "uartstart_loop c 0 s = Diverge"
| "uartstart_loop c (Suc fuel) s =
     (if uart_tx_w s = uart_tx_r s then andthen (ReadReg ISR s) (\<lambda>_ s. Ret () s)
      else
        andthen (ReadReg LSR s) (\<lambda>v s.
        if \<not> bit v LSR_TX_IDLE then Ret () s
        else
          let ch = uart_tx_buf s ! (unat (uart_tx_r s) mod UART_TX_BUF_SIZE)
          in andthen (wakeup c (Some ChUart) (s\<lparr>uart_tx_r := uart_tx_r s + 1\<rparr>)) (\<lambda>_ s.
             uartstart_loop c fuel (WriteReg THR ch s))))"

definition uartstart :: "nat \<Rightarrow> 'z uart_st_scheme \<Rightarrow> ('z uart_st_scheme, unit) outcome" where
  "uartstart c s = uartstart_loop c (Suc (unat (uart_tx_w s - uart_tx_r s))) s"

definition uartputc_loop :: "nat \<Rightarrow> u8 \<Rightarrow> 'z uart_st_scheme \<Rightarrow> ('z uart_st_scheme, unit) outcome" where
  "uartputc_loop c ch s =
     (if uart_tx_w s = uart_tx_r s + of_nat UART_TX_BUF_SIZE then sleep c (Some ChUart) LUart s
      else
        let s = s\<lparr>uart_tx_buf := (uart_tx_buf s)[unat (uart_tx_w s) mod UART_TX_BUF_SIZE := ch]\<rparr>;
            s = s\<lparr>uart_tx_w := uart_tx_w s + 1\<rparr>
        in andthen (uartstart c s) (\<lambda>_ s. k_release c LUart s))"

definition uartputc :: "nat \<Rightarrow> u8 \<Rightarrow> 'z uart_st_scheme \<Rightarrow> ('z uart_st_scheme, unit) outcome" where
  "uartputc c ch s =
     andthen (k_acquire c LUart s) (\<lambda>_ s.
     if panicked s then Blocked s else uartputc_loop c ch s)"

definition uartputc_resume ::
    "nat \<Rightarrow> nat \<Rightarrow> bool \<Rightarrow> u8 \<Rightarrow> 'z uart_st_scheme \<Rightarrow> ('z uart_st_scheme, unit) outcome" where
  "uartputc_resume c p old_intena ch s =
     andthen (sleep_resume c p LUart old_intena s) (\<lambda>_ s. uartputc_loop c ch s)"

fun wait_tx_idle :: "u8 list \<Rightarrow> 'z uart_st_scheme \<Rightarrow> ('z uart_st_scheme, unit) outcome" where
  "wait_tx_idle [] s = Blocked (s\<lparr>u_ans := []\<rparr>)"
| "wait_tx_idle (v # vs) s =
     (let s = s\<lparr>u_ans := vs, u_trace := u_trace s @ [Rd LSR v]\<rparr>
      in if bit v LSR_TX_IDLE then Ret () s else wait_tx_idle vs s)"

definition uartputc_sync :: "nat \<Rightarrow> u8 \<Rightarrow> 'z uart_st_scheme \<Rightarrow> ('z uart_st_scheme, unit) outcome" where
  "uartputc_sync c ch s =
     (let s = s\<lparr>kmach := push_off c (kmach s)\<rparr> in
      if panicked s then Blocked s
      else andthen (wait_tx_idle (u_ans s) s) (\<lambda>_ s. on_mach (pop_off c) (WriteReg THR ch s)))"

definition uartgetc :: "'z uart_st_scheme \<Rightarrow> ('z uart_st_scheme, int) outcome" where
  "uartgetc s =
     andthen (ReadReg LSR s) (\<lambda>v s.
     if bit v LSR_RX_READY then andthen (ReadReg RHR s) (\<lambda>v s. Ret (uint v) s)
     else Ret (-1) s)"

section \<open>Critical sections\<close>

text \<open>\<open>inside c l t\<close>: hart \<open>c\<close> holds \<open>l\<close> and took it with no other spin lock held.\<close>

definition inside :: "nat \<Rightarrow> lockid \<Rightarrow> 'z proc_st_scheme \<Rightarrow> bool" where
  "inside c l t \<longleftrightarrow> (\<forall>i. l \<noteq> LProc i) \<and> (\<exists>m. calm c (t\<lparr>kmach := m\<rparr>) \<and> kmach t = acquired c l m)"

lemma insideI:
  assumes "calm c s" "kmach t = acquired c l (kmach s)" "procs t = procs s" "\<forall>i. l \<noteq> LProc i"
  shows "inside c l t"
proof -
  have "calm c (t\<lparr>kmach := kmach s\<rparr>)" using assms(1,3) by (simp add: calm_def del: calm_simps)
  then show ?thesis using assms(2,4) by (auto simp: inside_def)
qed

lemma inside_cong: "kmach t = kmach s \<Longrightarrow> procs t = procs s \<Longrightarrow> inside c l t \<longleftrightarrow> inside c l s"
  by (simp add: inside_def calm_def del: calm_simps)

lemma inside_uart [simp]:
  "inside c l (t\<lparr>u_ans := a\<rparr>) = inside c l t" "inside c l (t\<lparr>u_trace := b\<rparr>) = inside c l t"
  "inside c l (t\<lparr>uart_tx_r := d\<rparr>) = inside c l t" "inside c l (t\<lparr>uart_tx_w := d\<rparr>) = inside c l t"
  "inside c l (t\<lparr>uart_tx_buf := e\<rparr>) = inside c l t"
  by (rule inside_cong; simp)+

lemma inside_cpu_ok: "inside c l t \<Longrightarrow> cpu_ok c (kmach t)"
  by (auto simp: inside_def dest: calm_cpu_ok)

lemma inside_after_cs: "inside c l t \<Longrightarrow> after_cs c (kmach t) = kmach t"
  by (auto simp: inside_def dest: calm_cpu_ok)

lemma inside_wakeup:
  assumes "inside c l t"
  obtains ps where "wakeup c ch t = Ret () (t\<lparr>procs := ps\<rparr>)" and "inside c l (t\<lparr>procs := ps\<rparr>)"
    and "List.length ps = NPROC" and "\<And>i. i < NPROC \<Longrightarrow> ps ! i = woken (cpu_proc (cpus (kmach t) c)) ch i (procs t ! i)"
proof -
  obtain m where "calm c (t\<lparr>kmach := m\<rparr>)" "kmach t = acquired c l m" and l: "\<forall>i. l \<noteq> LProc i"
    using assms by (auto simp: inside_def)
  moreover define s where "s = t\<lparr>kmach := m\<rparr>"
  ultimately have s: "calm c s" "kmach t = acquired c l (kmach s)" "procs t = procs s" by simp_all
  obtain ps where ps: "wakeup c ch t = Ret () (t\<lparr>procs := ps\<rparr>)" "List.length ps = NPROC"
     "\<forall>i < NPROC. ps ! i = woken (Some (me c s)) ch i (procs s ! i)"
    using wakeup_locked [OF s l] by blast
  have "inside c l (t\<lparr>procs := ps\<rparr>)"
    by (rule insideI [of c "s\<lparr>procs := ps\<rparr>"]) (use s ps(2) l in simp_all)
  moreover have "cpu_proc (cpus (kmach t) c) = Some (me c s)" using calm_proc [OF s(1)] s(2) by simp
  ultimately show ?thesis using that ps s(3) by simp
qed

section \<open>The transmit buffer\<close>

definition tx_ok :: "'z uart_st_scheme \<Rightarrow> bool" where
  "tx_ok s \<longleftrightarrow> ring_ok UART_TX_BUF_SIZE (uart_tx_buf s) (uart_tx_r s) (uart_tx_w s)"

definition tx_content :: "'z uart_st_scheme \<Rightarrow> u8 list" where
  "tx_content s = ring_content UART_TX_BUF_SIZE (uart_tx_buf s) (uart_tx_r s) (uart_tx_w s)"

text \<open>The bytes given to the device: the writes to its transmit register.\<close>

fun thr_bytes :: "reg_access list \<Rightarrow> u8 list" where
  "thr_bytes [] = []"
| "thr_bytes (Wr r v # xs) = (if r = THR then v # thr_bytes xs else thr_bytes xs)"
| "thr_bytes (Rd r v # xs) = thr_bytes xs"

lemma thr_bytes_append [simp]: "thr_bytes (xs @ ys) = thr_bytes xs @ thr_bytes ys"
  by (induction xs rule: thr_bytes.induct) simp_all

definition tx_put :: "u8 \<Rightarrow> 'z uart_st_scheme \<Rightarrow> 'z uart_st_scheme" where
  "tx_put ch s = s\<lparr>uart_tx_buf := (uart_tx_buf s)[unat (uart_tx_w s) mod UART_TX_BUF_SIZE := ch], uart_tx_w := uart_tx_w s + 1\<rparr>"

definition tx_get :: "'z uart_st_scheme \<Rightarrow> u8 \<times> 'z uart_st_scheme" where
  "tx_get s = (uart_tx_buf s ! (unat (uart_tx_r s) mod UART_TX_BUF_SIZE), s\<lparr>uart_tx_r := uart_tx_r s + 1\<rparr>)"

interpretation txq: bounded_fifo tx_ok tx_content UART_TX_BUF_SIZE
  "\<lambda>s. uart_tx_w s = uart_tx_r s + of_nat UART_TX_BUF_SIZE" "\<lambda>s. uart_tx_w s = uart_tx_r s" tx_put tx_get
proof
  fix s :: "'z uart_st_scheme" and x
  assume ok: "tx_ok s"
  note r = ok [unfolded tx_ok_def]
  show "List.length (tx_content s) \<le> UART_TX_BUF_SIZE" using r by (simp add: tx_content_def ring_ok_def)
  show "uart_tx_w s = uart_tx_r s + of_nat UART_TX_BUF_SIZE \<longleftrightarrow> List.length (tx_content s) = UART_TX_BUF_SIZE"
    using ring_full_iff [OF r] by (simp add: tx_content_def)
  show "uart_tx_w s = uart_tx_r s \<longleftrightarrow> tx_content s = []" by (simp add: tx_content_def ring_empty_iff)
  show "tx_ok (tx_put x s)" and "tx_content (tx_put x s) = tx_content s @ [x]"
    if "uart_tx_w s \<noteq> uart_tx_r s + of_nat UART_TX_BUF_SIZE"
    using ring_put [OF r] ring_full_iff [OF r] that by (auto simp: tx_put_def tx_ok_def tx_content_def)
  show "tx_ok (snd (tx_get s))" and "fst (tx_get s) # tx_content (snd (tx_get s)) = tx_content s"
    if "uart_tx_w s \<noteq> uart_tx_r s"
    using ring_get [OF r that] by (auto simp: tx_get_def tx_ok_def tx_content_def)
qed

text \<open>What \<^verbatim>\<open>uartstart\<close> may do to a state: give a prefix of the buffer to the device, in order.\<close>

definition sent_some :: "nat \<Rightarrow> 'z uart_st_scheme \<Rightarrow> 'z uart_st_scheme \<Rightarrow> bool" where
  "sent_some c t u \<longleftrightarrow> inside c LUart u \<and> tx_ok u \<and>
     (\<exists>bs. tx_content t = bs @ tx_content u \<and> thr_bytes (u_trace u) = thr_bytes (u_trace t) @ bs)"

lemma uartstart_loop_sends:
  assumes "inside c LUart t" and "tx_ok t" and "List.length (tx_content t) < fuel"
  shows "case uartstart_loop c fuel t of Ret _ u \<Rightarrow> sent_some c t u | Blocked u \<Rightarrow> u_ans u = [] | _ \<Rightarrow> False"
  using assms
proof (induction fuel arbitrary: t)
  case 0
  then show ?case by simp
next
  case (Suc fuel t)
  show ?case
  proof (cases "u_ans t")
    case Nil
    then show ?thesis by (simp add: ReadReg_def)
  next
    case (Cons v vs)
    let ?t = "t\<lparr>u_ans := vs, u_trace := u_trace t @ [Rd LSR v]\<rparr>"
    let ?ch = "uart_tx_buf t ! (unat (uart_tx_r t) mod UART_TX_BUF_SIZE)" and ?g = "?t\<lparr>uart_tx_r := uart_tx_r t + 1\<rparr>"
    have here: "sent_some c t (t\<lparr>u_ans := vs, u_trace := u_trace t @ [Rd r v]\<rparr>)" for r
      using Suc.prems(1,2) by (auto simp: sent_some_def tx_ok_def tx_content_def)
    show ?thesis
    proof (cases "uart_tx_w t = uart_tx_r t \<or> \<not> bit v LSR_TX_IDLE")
      case True
      then show ?thesis using here Cons by (auto simp: ReadReg_def)
    next
      case False
      then have ne: "uart_tx_w t \<noteq> uart_tx_r t" by simp
      have g: "tx_content t = ?ch # tx_content ?g" and ok: "tx_ok ?g"
        using txq.get_content [OF Suc.prems(2) ne] txq.get_ok [OF Suc.prems(2) ne]
        by (simp_all add: tx_get_def tx_content_def tx_ok_def)
      have ig: "inside c LUart ?g" using Suc.prems(1) by simp
      obtain ps where ps: "wakeup c (Some ChUart) ?g = Ret () (?g\<lparr>procs := ps\<rparr>)" "inside c LUart (?g\<lparr>procs := ps\<rparr>)"
        by (rule inside_wakeup [OF ig])
      let ?u = "WriteReg THR ?ch (?g\<lparr>procs := ps\<rparr>)"
      have "inside c LUart ?u" using ps(2) by (rule inside_cong [THEN iffD2, rotated 2]) (simp_all add: WriteReg_def)
      moreover have "tx_ok ?u" "tx_content ?u = tx_content ?g" "thr_bytes (u_trace ?u) = thr_bytes (u_trace t) @ [?ch]"
        using ok by (simp_all add: WriteReg_def tx_ok_def tx_content_def)
      ultimately have u: "inside c LUart ?u" "tx_ok ?u" "tx_content ?u = tx_content ?g"
        "thr_bytes (u_trace ?u) = thr_bytes (u_trace t) @ [?ch]" by simp_all
      have "uartstart_loop c (Suc fuel) t = uartstart_loop c fuel ?u"
        using False Cons ps(1) by (simp add: ReadReg_def Let_def)
      moreover have "case uartstart_loop c fuel ?u of Ret _ w \<Rightarrow> sent_some c ?u w | Blocked w \<Rightarrow> u_ans w = [] | _ \<Rightarrow> False"
        using Suc.IH [OF u(1,2)] Suc.prems(3) g u(3) by simp
      moreover have "sent_some c t w" if "sent_some c ?u w" for w
        using that u(3,4) g by (auto simp: sent_some_def)
      ultimately show ?thesis by (auto split: outcome.splits)
    qed
  qed
qed


text \<open>A machine with two bytes in the transmit buffer whose device accepts one byte and is then busy.\<close>

definition uart_world :: "u8 list \<Rightarrow> uart_st" where
  "uart_world ans = \<lparr>kmach = acquired 0 LUart (upd_cpu 0 (\<lambda>k. k\<lparr>cpu_proc := Some 0\<rparr>) (kmach boot_kmem)), mem = (\<lambda>_. 0), freelist = 0,
     kernel_pagetable = 0, satp = (\<lambda>_. 0), procs = replicate NPROC idle_proc,
     nextpid = 8, initproc = Some 0, slks = (\<lambda>_. \<lparr>sl_locked = False, sl_name = [], sl_pid = 0\<rparr>),
     bufs = replicate (Suc NBUF) zero_buf, disk = (\<lambda>_. replicate BSIZE 0), dtrace = [], logs = one_block_log,
     sb = get_sb (replicate BSIZE 0), inodes = [], uart_tx_buf = (replicate 32 0)[31 := 65, 0 := 66],
     uart_tx_w = 1, uart_tx_r = 0xFFFFFFFFFFFFFFFF, panicked = False, u_ans = ans, u_trace = []\<rparr>"

lemma uart_world_inside: "inside 0 LUart (uart_world ans)"
proof -
  have "calm 0 ((uart_world ans)\<lparr>kmach := upd_cpu 0 (\<lambda>k. k\<lparr>cpu_proc := Some 0\<rparr>) (kmach boot_kmem)\<rparr>)"
    by (simp add: calm_def uart_world_def boot_kmem_def upd_cpu_def cpu_ok_def lock_free_def NPROC_def del: calm_simps)
  then show ?thesis by (auto simp: inside_def) (simp add: uart_world_def, blast)
qed

lemma uart_world_tx: "tx_ok (uart_world ans)" "tx_content (uart_world ans) = [65, 66]"
  by (simp_all add: tx_ok_def tx_content_def ring_ok_def ring_content_def uart_world_def UART_TX_BUF_SIZE_def upt_rec)


section \<open>Output that may wait for the device\<close>

text \<open>\<open>yields P r\<close>: the run returns and \<open>P\<close> holds, or it waits for the device; it neither panics nor switches nor loops.\<close>

definition yields :: "('a \<Rightarrow> 's \<Rightarrow> bool) \<Rightarrow> ('s, 'a) outcome \<Rightarrow> bool" where
  "yields P r \<longleftrightarrow> (case r of Ret x t \<Rightarrow> P x t | Blocked _ \<Rightarrow> True | _ \<Rightarrow> False)"

lemma yields_simps [simp]:
  "yields P (Ret x t) = P x t" "yields P (Blocked t)" "\<not> yields P (Panic e)" "\<not> yields P (Slept t)" "\<not> yields P Diverge"
  by (simp_all add: yields_def)

lemma yields_andthen: "yields (\<lambda>x t. yields Q (f x t)) r \<Longrightarrow> yields Q (andthen r f)"
  by (cases r) simp_all

lemma yields_mono: "yields P r \<Longrightarrow> (\<And>x t. P x t \<Longrightarrow> Q x t) \<Longrightarrow> yields Q r"
  by (cases r) simp_all

text \<open>\<open>wrote t u\<close>: only the device has seen a difference.  \<open>steady\<close>: a matched pair of \<^verbatim>\<open>push_off\<close> and \<^verbatim>\<open>pop_off\<close> changes nothing.\<close>

definition wrote :: "'z uart_st_scheme \<Rightarrow> 'z uart_st_scheme \<Rightarrow> bool" where
  "wrote t u \<longleftrightarrow> (\<exists>a b. u = t\<lparr>u_ans := a, u_trace := b\<rparr>)"

definition steady :: "nat \<Rightarrow> 'z kst_scheme \<Rightarrow> bool" where
  "steady c t \<longleftrightarrow> cpu_ok c (kmach t) \<and> after_cs c (kmach t) = kmach t"

lemma wrote_refl [simp]: "wrote t t"
  unfolding wrote_def by (intro exI [of _ "u_ans t"] exI [of _ "u_trace t"]) simp

lemma wrote_I: "u = t\<lparr>u_ans := a, u_trace := b\<rparr> \<Longrightarrow> wrote t u"
  unfolding wrote_def by (intro exI)

lemma wrote_trans:
  assumes "wrote s t" and "wrote t u"
  shows "wrote s u"
proof -
  obtain a b a' b' where "t = s\<lparr>u_ans := a, u_trace := b\<rparr>" "u = t\<lparr>u_ans := a', u_trace := b'\<rparr>"
    using assms unfolding wrote_def by blast
  then have "u = s\<lparr>u_ans := a', u_trace := b'\<rparr>" by simp
  then show ?thesis by (rule wrote_I)
qed

lemma wrote_steady: "wrote t u \<Longrightarrow> steady c u = steady c t"
  unfolding wrote_def steady_def by auto

lemma inside_steady: "inside c l t \<Longrightarrow> steady c t"
  by (simp add: steady_def inside_cpu_ok inside_after_cs)

lemma wait_tx_idle_wrote: "yields (\<lambda>_ u. wrote s u) (wait_tx_idle vs s)"
proof (induction vs arbitrary: s)
  case (Cons v vs)
  have "wrote s (s\<lparr>u_ans := vs, u_trace := u_trace s @ [Rd LSR v]\<rparr>)" by (rule wrote_I) simp
  then show ?case using Cons [of "s\<lparr>u_ans := vs, u_trace := u_trace s @ [Rd LSR v]\<rparr>"]
    by (auto simp: Let_def elim!: yields_mono intro: wrote_trans)
qed simp

lemma uartputc_sync_wrote:
  assumes "steady c s"
  shows "yields (\<lambda>_ u. wrote s u) (uartputc_sync c ch s)"
proof (cases "panicked s")
  case True
  then show ?thesis by (simp add: uartputc_sync_def Let_def)
next
  case False
  let ?s = "s\<lparr>kmach := push_off c (kmach s)\<rparr>"
  have "yields (\<lambda>_ u. wrote s u) (on_mach (pop_off c) (WriteReg THR ch u))" if "wrote ?s u" for u
  proof -
    obtain a b where u: "u = ?s\<lparr>u_ans := a, u_trace := b\<rparr>" using \<open>wrote ?s u\<close> by (auto simp: wrote_def)
    have "on_mach (pop_off c) (WriteReg THR ch u) = Ret () (s\<lparr>u_ans := a, u_trace := b @ [Wr THR ch]\<rparr>)"
      using assms by (cases s) (simp add: u WriteReg_def on_mach_def steady_def push_pop_off)
    then show ?thesis by (auto simp: wrote_def)
  qed
  then have "yields (\<lambda>_ u. wrote s u) (andthen (wait_tx_idle (u_ans ?s) ?s) (\<lambda>_ s. on_mach (pop_off c) (WriteReg THR ch s)))"
    by (intro yields_andthen yields_mono [OF wait_tx_idle_wrote])
  then show ?thesis using False by (simp add: uartputc_sync_def Let_def)
qed

end
