(* ===== verification/Printf.thy ===== *)
theory Printf
  imports Uart
begin

text \<open>
  \<^verbatim>\<open>kernel/printf.c\<close> and \<^verbatim>\<open>consputc\<close> of \<^verbatim>\<open>kernel/console.c\<close>.  The text that a format and its arguments denote is computed by
  \<open>format_out\<close> and then sent byte by byte.  \<open>None\<close> stands for behaviour the language does not define: a conversion
  without an argument of its type, and a number whose characters do not fit the 16 bytes of \<^verbatim>\<open>buf\<close>.
\<close>

record printf_st = uart_st +
  pr_locking :: bool

definition BACKSPACE :: int where "BACKSPACE = 0x100"

definition consputc :: "nat \<Rightarrow> int \<Rightarrow> 'z uart_st_scheme \<Rightarrow> ('z uart_st_scheme, unit) outcome" where
  "consputc c ch s =
     (if ch = BACKSPACE then
        andthen (uartputc_sync c 8 s) (\<lambda>_ s.
        andthen (uartputc_sync c 32 s) (\<lambda>_ s.
        uartputc_sync c 8 s))
      else uartputc_sync c (word_of_int ch) s)"

definition ascii :: "string \<Rightarrow> u8 list" where
  "ascii cs = map of_char cs"

definition digits :: "u8 list" where
  "digits = ascii ''0123456789abcdef''"

text \<open>The digits in the order in which \<^verbatim>\<open>printint\<close> stores them, the lowest first.\<close>

function low_digits :: "nat \<Rightarrow> nat \<Rightarrow> u8 list" where
  "low_digits base x =
     digits ! (x mod base) # (if x div base = 0 \<or> base < 2 then [] else low_digits base (x div base))"
  by pat_completeness auto
termination
  by (relation "measure snd") (auto simp: div_eq_0_iff)

declare low_digits.simps [simp del]

definition printint :: "u64 \<Rightarrow> nat \<Rightarrow> bool \<Rightarrow> u8 list option" where
  "printint xx base sign =
     (let neg = (sign \<and> sint xx < 0);
          x = (if neg then - xx else xx);
          buf = low_digits base (unat x) @ (if neg then ascii ''-'' else [])
      in if List.length buf \<le> 16 then Some (rev buf) else None)"

definition printptr :: "u64 \<Rightarrow> u8 list" where
  "printptr x = ascii ''0x'' @ map (\<lambda>i. digits ! unat (drop_bit 60 (push_bit (4 * i) x))) [0..<16]"

datatype varg = AInt u32 | AU64 u64 | AStr "u8 list option"

fun arg_int :: "varg list \<Rightarrow> (u64 \<times> varg list) option" where
  "arg_int (AInt w # as) = Some (scast w, as)"
| "arg_int _ = None"

fun arg_u64 :: "varg list \<Rightarrow> (u64 \<times> varg list) option" where
  "arg_u64 (AU64 w # as) = Some (w, as)"
| "arg_u64 _ = None"

fun arg_str :: "varg list \<Rightarrow> (u8 list \<times> varg list) option" where
  "arg_str (AStr None # as) = Some (ascii ''(null)'', as)"
| "arg_str (AStr (Some bs) # as) = Some (bs, as)"
| "arg_str _ = None"

text \<open>The conversion selected by the characters after a percent sign: how it prints and how many characters it takes.\<close>

datatype conv = CInt nat bool | CLong nat bool | CPtr | CStr | CPercent | CEnd | CUnknown char

definition conv_of :: "string \<Rightarrow> conv \<times> nat" where
  "conv_of f =
     (case f of [] \<Rightarrow> (CEnd, 0)
      | c0 # f1 \<Rightarrow>
          let c1 = take 1 f1; c2 = take 1 (drop 1 f1) in
          if c0 = CHR ''d'' then (CInt 10 True, 1)
          else if c0 = CHR ''l'' \<and> c1 = ''d'' then (CLong 10 True, 2)
          else if c0 = CHR ''l'' \<and> c1 = ''l'' \<and> c2 = ''d'' then (CLong 10 True, 3)
          else if c0 = CHR ''u'' then (CInt 10 False, 1)
          else if c0 = CHR ''l'' \<and> c1 = ''u'' then (CLong 10 False, 2)
          else if c0 = CHR ''l'' \<and> c1 = ''l'' \<and> c2 = ''u'' then (CLong 10 False, 3)
          else if c0 = CHR ''x'' then (CInt 16 False, 1)
          else if c0 = CHR ''l'' \<and> c1 = ''x'' then (CLong 16 False, 2)
          else if c0 = CHR ''l'' \<and> c1 = ''l'' \<and> c2 = ''x'' then (CLong 16 False, 3)
          else if c0 = CHR ''p'' then (CPtr, 1)
          else if c0 = CHR ''s'' then (CStr, 1)
          else if c0 = CHR ''%'' then (CPercent, 1)
          else (CUnknown c0, 1))"

definition conv_out :: "conv \<Rightarrow> varg list \<Rightarrow> (u8 list \<times> varg list) option" where
  "conv_out cv as =
     (case cv of
        CInt base sign \<Rightarrow>
          (case arg_int as of None \<Rightarrow> None | Some (x, as) \<Rightarrow> map_option (\<lambda>t. (t, as)) (printint x base sign))
      | CLong base sign \<Rightarrow>
          (case arg_u64 as of None \<Rightarrow> None | Some (x, as) \<Rightarrow> map_option (\<lambda>t. (t, as)) (printint x base sign))
      | CPtr \<Rightarrow> map_option (\<lambda>(x, as). (printptr x, as)) (arg_u64 as)
      | CStr \<Rightarrow> arg_str as
      | CPercent \<Rightarrow> Some (ascii ''%'', as)
      | CEnd \<Rightarrow> Some ([], as)
      | CUnknown ch \<Rightarrow> Some (ascii [CHR ''%'', ch], as))"

function format_out :: "string \<Rightarrow> varg list \<Rightarrow> u8 list option" where
  "format_out [] as = Some []"
| "format_out (ch # f) as =
     (if ch \<noteq> CHR ''%'' then map_option (\<lambda>t. of_char ch # t) (format_out f as)
      else
        let (cv, n) = conv_of f in
        if cv = CEnd then Some []
        else
          (case conv_out cv as of None \<Rightarrow> None
           | Some (t, as) \<Rightarrow> map_option ((@) t) (format_out (drop n f) as)))"
  by pat_completeness auto
termination
  by (relation "measure (\<lambda>(f, _). List.length f)") auto

definition printf :: "nat \<Rightarrow> string \<Rightarrow> varg list \<Rightarrow> 'z printf_st_scheme \<Rightarrow> ('z printf_st_scheme, int) outcome" where
  "printf c fmt args s =
     (let locking = pr_locking s in
      andthen (if locking then k_acquire c LPr s else Ret () s) (\<lambda>_ s.
      case format_out fmt args of None \<Rightarrow> Diverge
      | Some out \<Rightarrow>
          andthen (for_each (\<lambda>b. consputc c (uint b)) out s) (\<lambda>_ s.
          andthen (if locking then k_release c LPr s else Ret () s) (\<lambda>_ s. Ret 0 s))))"

text \<open>\<^verbatim>\<open>panic\<close> ends in a loop; \<open>Blocked\<close> is the state in which it spins.\<close>

definition panic :: "nat \<Rightarrow> u8 list \<Rightarrow> 'z printf_st_scheme \<Rightarrow> ('z printf_st_scheme, unit) outcome" where
  "panic c msg s =
     andthen (printf c ''panic: '' [] (s\<lparr>pr_locking := False\<rparr>)) (\<lambda>_ s.
     andthen (printf c (''%s'' @ [CHR 0x0A]) [AStr (Some msg)] s) (\<lambda>_ s.
     Blocked (s\<lparr>panicked := True\<rparr>)))"

definition printfinit :: "'z printf_st_scheme \<Rightarrow> 'z printf_st_scheme" where
  "printfinit s = s\<lparr>kmach := initlock LPr ''pr'' (kmach s), pr_locking := True\<rparr>"

section \<open>Numbers\<close>

definition digit_val :: "u8 \<Rightarrow> nat" where
  "digit_val b = (if b \<le> 57 then unat b - 48 else unat b - 87)"

text \<open>The value of a numeral, most significant digit first.\<close>

definition numeral_value :: "nat \<Rightarrow> u8 list \<Rightarrow> nat" where
  "numeral_value base ds = foldl (\<lambda>n d. n * base + digit_val d) 0 ds"

text \<open>
  \<open>numeral base ds v\<close>: every byte of \<open>ds\<close> is one of the characters 0 to 9 and a to f that is a digit of the base, and the value is \<open>v\<close>;
  \<open>canonical ds\<close>: there is no leading zero, so that the number determines the text.
\<close>

definition is_digit :: "nat \<Rightarrow> u8 \<Rightarrow> bool" where
  "is_digit base b \<longleftrightarrow> (48 \<le> b \<and> b \<le> 57 \<or> 97 \<le> b \<and> b \<le> 102) \<and> digit_val b < base"

definition is_numeral :: "nat \<Rightarrow> u8 list \<Rightarrow> nat \<Rightarrow> bool" where
  "is_numeral base ds v \<longleftrightarrow> (\<forall>d \<in> set ds. is_digit base d) \<and> numeral_value base ds = v"

definition canonical :: "u8 list \<Rightarrow> bool" where
  "canonical ds \<longleftrightarrow> ds \<noteq> [] \<and> (hd ds = 48 \<longrightarrow> List.length ds = 1)"

lemma digits_are_digits:
  assumes "k < base" and "base \<le> 16"
  shows "is_digit base (digits ! k)" and "digits ! k = 48 \<longleftrightarrow> k = 0"
proof -
  have "k \<in> set [0..<16]" using assms by simp
  then have d: "(48 \<le> digits ! k \<and> digits ! k \<le> 57 \<or> 97 \<le> digits ! k \<and> digits ! k \<le> 102) \<and> digit_val (digits ! k) = k \<and>
      (digits ! k = 48 \<longleftrightarrow> k = 0)"
    by (simp add: upt_rec digits_def ascii_def digit_val_def) auto
  then show "is_digit base (digits ! k)" and "digits ! k = 48 \<longleftrightarrow> k = 0" using assms(1) by (simp_all add: is_digit_def)
qed

lemma digit_val_digits:
  assumes "k < 16"
  shows "digit_val (digits ! k) = k" and "digits ! k \<noteq> 45"
proof -
  have "k \<in> set [0..<16]" using assms by simp
  then have "digit_val (digits ! k) = k \<and> digits ! k \<noteq> 45"
    by (simp add: upt_rec digits_def ascii_def digit_val_def) auto
  then show "digit_val (digits ! k) = k" and "digits ! k \<noteq> 45" by simp_all
qed

lemma low_digits_rec:
  "2 \<le> base \<Longrightarrow> low_digits base x = digits ! (x mod base) # (if x < base then [] else low_digits base (x div base))"
  by (subst low_digits.simps) (simp add: div_eq_0_iff)

lemma low_digits_value:
  assumes "2 \<le> base" and "base \<le> 16"
  shows "foldr (\<lambda>d n. n * base + digit_val d) (low_digits base x) 0 = x"
proof (induction x rule: less_induct)
  case (less x)
  have "x mod base < base" using assms(1) by simp
  then have "x mod base < 16" using assms(2) by linarith
  then have d: "digit_val (digits ! (x mod base)) = x mod base" by (rule digit_val_digits)
  show ?case
  proof (cases "x < base")
    case True
    then show ?thesis using d by (subst low_digits_rec [OF assms(1)]) simp
  next
    case False
    then have "x div base < x" using assms(1) by simp
    then show ?thesis using d False less.IH [of "x div base"] by (subst low_digits_rec [OF assms(1)]) simp
  qed
qed

lemma low_digits_digits:
  assumes "2 \<le> base" and "base \<le> 16"
  shows "(\<forall>d \<in> set (low_digits base x). is_digit base d) \<and> low_digits base x \<noteq> [] \<and>
    (last (low_digits base x) = 48 \<longrightarrow> List.length (low_digits base x) = 1)"
proof (induction x rule: less_induct)
  case (less x)
  have m: "x mod base < base" using assms(1) by simp
  show ?case
  proof (cases "x < base")
    case True
    then show ?thesis using digits_are_digits [OF m assms(2)] by (subst (1 2 3 4) low_digits_rec [OF assms(1)]) simp
  next
    case False
    let ?ds = "low_digits base (x div base)"
    have l: "low_digits base x = digits ! (x mod base) # ?ds" using False by (subst low_digits_rec [OF assms(1)]) simp
    have "x div base < x" "x div base \<noteq> 0" using False assms(1) by (simp_all add: div_eq_0_iff)
    note ih = less.IH [OF this(1)]
    have "last ?ds \<noteq> 48"
    proof
      assume a: "last ?ds = 48"
      then have "List.length ?ds = 1" using ih by blast
      then have "x div base < base" using low_digits_rec [OF assms(1), of "x div base"] by (auto split: if_splits simp: low_digits.simps)
      then have "?ds = [digits ! (x div base)]" by (subst low_digits_rec [OF assms(1)]) simp
      then show False using a digits_are_digits(2) [OF \<open>x div base < base\<close> assms(2)] \<open>x div base \<noteq> 0\<close> by simp
    qed
    then show ?thesis unfolding l using ih digits_are_digits(1) [OF m assms(2)] by simp
  qed
qed

lemma low_digits_length:
  assumes "2 \<le> base"
  shows "List.length (low_digits base x) \<le> Suc n \<longleftrightarrow> x < base ^ Suc n"
proof (induction n arbitrary: x)
  case 0
  show ?case by (subst low_digits_rec [OF assms]) (simp, subst low_digits_rec [OF assms], simp)
next
  case (Suc n x)
  have "x div base < base ^ Suc n \<longleftrightarrow> x < base ^ Suc (Suc n)"
    using assms by (simp add: div_less_iff_less_mult mult.commute mult.left_commute)
  moreover have "x < base \<longrightarrow> x < base ^ Suc (Suc n)"
    using assms self_le_power [of base "Suc (Suc n)"] by linarith
  ultimately show ?case using Suc.IH [of "x div base"] by (subst low_digits_rec [OF assms]) auto
qed

lemma numeral_value_rev: "numeral_value base (rev ds) = foldr (\<lambda>d n. n * base + digit_val d) ds 0"
  by (simp add: numeral_value_def foldl_conv_foldr)

lemma unat_uminus_neg:
  fixes x :: u64
  assumes "sint x < 0"
  shows "unat (- x) = nat (- sint x)"
proof -
  have "- (2 ^ 63) \<le> sint x" using sint_ge [of x] by simp
  moreover have "- x = of_int (- sint x)" by simp
  then have "uint (- x) = (- sint x) mod 2 ^ 64" by (simp only: uint_word_of_int) simp
  ultimately have "uint (- x) = - sint x" using assms by simp
  then show ?thesis by (simp add: unat_eq_nat_uint)
qed

definition magnitude :: "u64 \<Rightarrow> bool \<Rightarrow> nat" where
  "magnitude xx sign = (if sign then nat \<bar>sint xx\<bar> else unat xx)"

lemma magnitude_unat: "unat (if sign \<and> sint xx < 0 then - xx else xx) = magnitude xx sign"
proof (cases "sign \<and> \<not> sint xx < 0")
  case True
  have "sint xx < 2 ^ 63" using sint_lt [of xx] by simp
  moreover have "uint (of_int (sint xx) :: u64) = sint xx mod 2 ^ 64" by (simp only: uint_word_of_int) simp
  ultimately have "uint xx = sint xx" using True by simp
  then show ?thesis using True by (simp add: magnitude_def unat_eq_nat_uint)
next
  case False
  then show ?thesis by (auto simp: magnitude_def unat_uminus_neg)
qed

lemma printint_spec:
  assumes "base = 10 \<or> base = 16"
  shows "case printint xx base sign of
      Some out \<Rightarrow> magnitude xx sign < base ^ (if sign \<and> sint xx < 0 then 15 else 16) \<and>
        (\<exists>ds. out = (if sign \<and> sint xx < 0 then ascii ''-'' else []) @ ds \<and> canonical ds \<and>
           is_numeral base ds (magnitude xx sign))
    | None \<Rightarrow> base ^ (if sign \<and> sint xx < 0 then 15 else 16) \<le> magnitude xx sign"
proof -
  have b: "2 \<le> base" "base \<le> 16" using assms by auto
  let ?m = "magnitude xx sign" and ?neg = "sign \<and> sint xx < 0"
  let ?ds = "low_digits base ?m"
  have p: "printint xx base sign = (if List.length (?ds @ (if ?neg then ascii ''-'' else [])) \<le> 16
      then Some (rev (?ds @ (if ?neg then ascii ''-'' else []))) else None)"
    unfolding printint_def Let_def magnitude_unat by simp
  have v: "is_numeral base (rev ?ds) ?m"
    unfolding is_numeral_def numeral_value_rev using low_digits_value [OF b] low_digits_digits [OF b] by simp
  have ne: "canonical (rev ?ds)" using low_digits_digits [OF b] by (simp add: canonical_def hd_rev)
  have l: "List.length ?ds \<le> 16 \<longleftrightarrow> ?m < base ^ 16" "List.length ?ds \<le> 15 \<longleftrightarrow> ?m < base ^ 15"
    using low_digits_length [OF b(1), of ?m 15] low_digits_length [OF b(1), of ?m 14] by (simp_all add: numeral_eq_Suc)
  show ?thesis unfolding p using v ne l by (auto simp: ascii_def)
qed

text \<open>
  C20. \<^verbatim>\<open>printint\<close> in base 10 or 16: the text is a minus sign exactly when the number is signed and negative, followed by
  the numeral of the magnitude in digits of the base, the characters 0 to 9 and a to f, with no leading zero; and the text is defined, that is, stays within the 16 bytes of the local
  buffer, exactly when the magnitude is below the base to the power 16, or 15 after a minus sign.
\<close>

theorem printint_correct:
  assumes "base = 10 \<or> base = 16"
  shows "case printint xx base sign of
      Some out \<Rightarrow> magnitude xx sign < base ^ (if sign \<and> sint xx < 0 then 15 else 16) \<and>
        (\<exists>ds. out = (if sign \<and> sint xx < 0 then ascii ''-'' else []) @ ds \<and> canonical ds \<and>
           is_numeral base ds (magnitude xx sign))
    | None \<Rightarrow> base ^ (if sign \<and> sint xx < 0 then 15 else 16) \<le> magnitude xx sign"
  using printint_spec [OF assms] .

theorem printint_correct_witness:
  "\<exists>ds. printint (- 305) 10 True = Some (ascii ''-'' @ ds) \<and> canonical ds \<and> is_numeral 10 ds 305"
proof -
  have "sint (- 305 :: u64) = - 305" by simp
  then have m: "magnitude (- 305) True = 305" "True \<and> sint (- 305 :: u64) < 0" by (simp_all add: magnitude_def)
  then show ?thesis using printint_correct [where base = 10 and xx = "- 305" and sign = True] by (auto split: option.splits)
qed

lemma numeral_value_snoc: "numeral_value base (ds @ [d]) = numeral_value base ds * base + digit_val d"
  by (simp add: numeral_value_def)

lemma numeral_value_split:
  assumes "0 < base" and "base \<le> 16"
  shows "numeral_value base (map (\<lambda>i. digits ! (x div base ^ (n - Suc i) mod base)) [0..<n]) = x mod base ^ n"
proof (induction n arbitrary: x)
  case 0
  then show ?case by (simp add: numeral_value_def)
next
  case (Suc n x)
  have m: "x mod base < 16" using assms mod_less_divisor [of base x] by linarith
  have "x div base ^ (Suc n - Suc i) = x div base div base ^ (n - Suc i)" if "i < n" for i
  proof -
    have "Suc n - Suc i = Suc (n - Suc i)" using that by simp
    then show ?thesis by (simp add: div_mult2_eq)
  qed
  then have "map (\<lambda>i. digits ! (x div base ^ (Suc n - Suc i) mod base)) [0..<Suc n] =
      map (\<lambda>i. digits ! (x div base div base ^ (n - Suc i) mod base)) [0..<n] @ [digits ! (x mod base)]"
    by simp
  then show ?case
    using Suc.IH [of "x div base"] m by (simp only: numeral_value_snoc digit_val_digits) (simp add: mod_mult2_eq)
qed

lemma top_nibble:
  fixes x :: u64
  assumes "i < 16"
  shows "unat (drop_bit 60 (push_bit (4 * i) x)) = unat x div 16 ^ (16 - Suc i) mod 16"
proof -
  have e: "(60 :: nat) = 4 * (16 - Suc i) + 4 * i" using assms by simp
  have "unat (drop_bit 60 (push_bit (4 * i) x)) = (unat x * 2 ^ (4 * i)) mod 2 ^ 64 div 2 ^ 60"
    by (simp only: unat_drop_bit_eq unsigned_push_bit_eq) (simp add: drop_bit_eq_div push_bit_eq_mult take_bit_eq_mod)
  also have "\<dots> = (unat x * 2 ^ (4 * i)) div 2 ^ 60 mod 2 ^ 4"
    by (simp add: mod_mult2_eq [of _ "2 ^ 60" "2 ^ 4", simplified])
  also have "(unat x * 2 ^ (4 * i)) div 2 ^ 60 = unat x div 2 ^ (4 * (16 - Suc i))"
    unfolding e power_add by (simp add: div_mult_mult2)
  finally show ?thesis by (simp add: power_mult)
qed

text \<open>
  C21. \<^verbatim>\<open>printptr\<close> prints 0x and sixteen hexadecimal digits, characters 0 to 9 and a to f, whose value is the pointer.
\<close>

theorem printptr_correct:
  "\<exists>ds. printptr x = ascii ''0x'' @ ds \<and> List.length ds = 16 \<and> is_numeral 16 ds (unat x)"
proof -
  have "unat x < 16 ^ 16" using unsigned_less [of x, where ?'a = nat] by simp
  moreover have "map (\<lambda>i. digits ! unat (drop_bit 60 (push_bit (4 * i) x))) [0..<16] =
      map (\<lambda>i. digits ! (unat x div 16 ^ (16 - Suc i) mod 16)) [0..<16]"
    by (intro map_cong) (simp_all add: top_nibble)
  ultimately have "numeral_value 16 (map (\<lambda>i. digits ! unat (drop_bit 60 (push_bit (4 * i) x))) [0..<16]) = unat x"
    using numeral_value_split [of 16 "unat x" 16] by (simp only:) simp
  moreover have "is_digit 16 (digits ! unat (drop_bit 60 (push_bit (4 * i) x)))" if "i < 16" for i
    unfolding top_nibble [OF that] by (rule digits_are_digits) simp_all
  ultimately have "is_numeral 16 (map (\<lambda>i. digits ! unat (drop_bit 60 (push_bit (4 * i) x))) [0..<16]) (unat x)"
    unfolding is_numeral_def by simp
  then show ?thesis unfolding printptr_def by (intro exI conjI) (rule refl, simp, simp only:)
qed

lemma format_u: "format_out ''%u'' [AInt w] = printint (scast w) 10 False"
  by (simp add: conv_of_def conv_out_def split: option.split)

text \<open>
  C22. The conversion \<^verbatim>\<open>%u\<close> takes its argument as a signed 32-bit integer and prints the sign-extended 64-bit value.  For an
  argument whose top bit is set that value has twenty digits, which overrun the buffer of \<^verbatim>\<open>printint\<close>; for any other the
  text is the decimal numeral of the argument.
\<close>

theorem printf_u_overruns:
  "if sint w < 0 then format_out ''%u'' [AInt w] = None
   else \<exists>ds. format_out ''%u'' [AInt w] = Some ds \<and> canonical ds \<and> is_numeral 10 ds (unat w)"
proof -
  have b: "- (2 ^ 31) \<le> sint w" "sint w < 2 ^ 31" using sint_ge [of w] sint_lt [of w] by simp_all
  have "(scast w :: u64) = of_int (sint w)" by simp
  then have u: "uint (scast w :: u64) = sint w mod 2 ^ 64" by (simp only: uint_word_of_int) simp
  show ?thesis
  proof (cases "sint w < 0")
    case True
    then have "sint w mod 2 ^ 64 = sint w + 2 ^ 64" using b by (intro int_mod_pos_eq [where q = "- 1"]) simp_all
    then have "10 ^ 16 \<le> magnitude (scast w) False" using b u by (simp add: magnitude_def unat_eq_nat_uint)
    then show ?thesis using True printint_spec [where base = 10 and xx = "scast w" and sign = False]
      unfolding format_u by (auto split: option.splits)
  next
    case False
    then have s: "uint (scast w :: u64) = sint w" using u b by simp
    have "uint (of_int (sint w) :: u32) = sint w mod 2 ^ 32" by (simp only: uint_word_of_int) simp
    then have "uint w = sint w" using False b by simp
    then have m: "magnitude (scast w) False = unat w" using s by (simp add: magnitude_def unat_eq_nat_uint)
    moreover have "unat w < 10 ^ 16" using \<open>uint w = sint w\<close> b by (simp add: unat_eq_nat_uint)
    ultimately show ?thesis using False printint_spec [where base = 10 and xx = "scast w" and sign = False]
      unfolding format_u by (auto split: option.splits)
  qed
qed

section \<open>Printing with a lock held\<close>

lemma consputc_wrote:
  assumes "steady c s"
  shows "yields (\<lambda>_ u. wrote s u) (consputc c ch s)"
proof -
  have st: "steady c t" if "wrote s t" for t using assms that wrote_steady by blast
  have one: "yields (\<lambda>_ u. wrote s u) (uartputc_sync c b t)" if "wrote s t" for b t
    by (rule yields_mono [OF uartputc_sync_wrote [OF st [OF that]]]) (rule wrote_trans [OF that])
  show ?thesis unfolding consputc_def
    by (auto intro!: yields_andthen yields_mono [OF one [OF wrote_refl]] yields_mono [OF one] one)
qed

lemma puts_wrote:
  assumes "steady c s"
  shows "yields (\<lambda>_ u. wrote s u) (for_each (\<lambda>b. consputc c (uint b)) bs s)"
  using assms
proof (induction bs arbitrary: s)
  case (Cons b bs)
  have "yields (\<lambda>_ u. wrote s u) (for_each (\<lambda>b. consputc c (uint b)) bs t)" if "wrote s t" for t
    by (rule yields_mono [OF Cons.IH]) (use Cons.prems wrote_steady [OF that] wrote_trans [OF that] in simp_all)
  then show ?case by (auto intro!: yields_andthen yields_mono [OF consputc_wrote [OF Cons.prems]])
qed simp

lemma printf_wrote:
  assumes i: "inside c l s" and l: "l \<noteq> LPr" and f: "format_out fmt args \<noteq> None"
  shows "yields (\<lambda>_ u. wrote s u) (printf c fmt args s)"
proof -
  obtain out where out: "format_out fmt args = Some out" using f by auto
  obtain m where m: "calm c (s\<lparr>kmach := m\<rparr>)" "kmach s = acquired c l m" using i by (auto simp: inside_def)
  let ?s = "s\<lparr>kmach := acquired c LPr (kmach s)\<rparr>"
  have can: "can_acquire c l m" "lock_free LPr m" using calm_can [OF m(1)] calm_free [OF m(1)] by simp_all
  then have k: "k_can c LPr s" using l m(2) by simp
  have ok: "cpu_ok c (kmach s)" and ac: "after_cs c (kmach s) = kmach s"
    using inside_cpu_ok [OF i] inside_after_cs [OF i] by simp_all
  have st: "steady c ?s" using ok by (simp add: steady_def)
  have rel: "k_release c LPr u = Ret () (u\<lparr>kmach := kmach s\<rparr>)" if "wrote ?s u" for u
  proof -
    have "kmach u = acquired c LPr (kmach s)" using that by (auto simp: wrote_def)
    then show ?thesis using k ac by simp
  qed
  have bk: "wrote s (u\<lparr>kmach := kmach s\<rparr>)" if "wrote ?s u" for u
  proof -
    obtain a b where "u = ?s\<lparr>u_ans := a, u_trace := b\<rparr>" using \<open>wrote ?s u\<close> by (auto simp: wrote_def)
    then have "u\<lparr>kmach := kmach s\<rparr> = s\<lparr>u_ans := a, u_trace := b\<rparr>" by (cases s) simp
    then show ?thesis by (auto simp: wrote_def)
  qed
  show ?thesis
  proof (cases "pr_locking s")
    case True
    then show ?thesis unfolding printf_def Let_def using k out
      by (auto intro!: yields_andthen yields_mono [OF puts_wrote [OF st]] simp: rel bk)
  next
    case False
    then show ?thesis unfolding printf_def Let_def using out
      by (auto intro!: yields_andthen yields_mono [OF puts_wrote [OF inside_steady [OF i]]])
  qed
qed

end
