(* ===== verification/Console.thy ===== *)
theory Console
  imports Printf
begin

text \<open>
  \<^verbatim>\<open>kernel/console.c\<close> and the interrupt handler of \<^verbatim>\<open>kernel/uart.c\<close>.  Functions that sleep run to the switch; the definition
  named \<open>_resume\<close> is what the same call does when the process runs again.
\<close>

datatype dev_fn = Consoleread | Consolewrite

record console_st = printf_st +
  cons_buf :: "u8 list"
  cons_r :: u32
  cons_w :: u32
  cons_e :: u32
  devsw :: "(dev_fn option \<times> dev_fn option) list"

definition INPUT_BUF_SIZE :: nat where "INPUT_BUF_SIZE = 128"
definition CONSOLE :: nat where "CONSOLE = 1"
definition NDEV :: nat where "NDEV = 10"

text \<open>\<^verbatim>\<open>C(x)\<close>: the code of a control character.\<close>

definition ctrl :: "char \<Rightarrow> int" where
  "ctrl x = of_char x - 64"

definition cons_at :: "u32 \<Rightarrow> 'z console_st_scheme \<Rightarrow> u8" where
  "cons_at i s = cons_buf s ! (unat i mod INPUT_BUF_SIZE)"

section \<open>Output\<close>

function consolewrite_loop ::
    "nat \<Rightarrow> bool \<Rightarrow> u64 \<Rightarrow> int \<Rightarrow> int \<Rightarrow> 'z console_st_scheme \<Rightarrow> ('z console_st_scheme, int) outcome" where
  "consolewrite_loop c user_src src n i s =
     (if i < n then
        andthen (either_copyin c user_src (src + word_of_int i) 1 s) (\<lambda>(r, bs) s.
        if r = -1 then Ret i s
        else andthen (uartputc c (hd bs) s) (\<lambda>_ s. consolewrite_loop c user_src src n (i + 1) s))
      else Ret i s)"
  by pat_completeness auto
termination
  by (relation "measure (\<lambda>(_, _, _, n, i, _). nat (n - i))") auto

declare consolewrite_loop.simps [simp del]

definition consolewrite ::
    "nat \<Rightarrow> bool \<Rightarrow> u64 \<Rightarrow> int \<Rightarrow> 'z console_st_scheme \<Rightarrow> ('z console_st_scheme, int) outcome" where
  "consolewrite c user_src src n s = consolewrite_loop c user_src src n 0 s"

definition consolewrite_resume ::
    "nat \<Rightarrow> nat \<Rightarrow> bool \<Rightarrow> u8 \<Rightarrow> bool \<Rightarrow> u64 \<Rightarrow> int \<Rightarrow> int \<Rightarrow> 'z console_st_scheme \<Rightarrow> ('z console_st_scheme, int) outcome" where
  "consolewrite_resume c p old_intena ch user_src src n i s =
     andthen (uartputc_resume c p old_intena ch s) (\<lambda>_ s. consolewrite_loop c user_src src n (i + 1) s)"

section \<open>Input\<close>

function consoleread_loop ::
    "nat \<Rightarrow> bool \<Rightarrow> u64 \<Rightarrow> int \<Rightarrow> int \<Rightarrow> 'z console_st_scheme \<Rightarrow> ('z console_st_scheme, int) outcome" where
  "consoleread_loop c user_dst dst n target s =
     (if n > 0 then
        if cons_r s = cons_w s then
          andthen (curproc c s) (\<lambda>p s.
          andthen (killed c p s) (\<lambda>k s.
          if k \<noteq> 0 then andthen (k_release c LCons s) (\<lambda>_ s. Ret (-1) s)
          else sleep c (Some ChCons) LCons s))
        else
          let ch = cons_at (cons_r s) s;
              s = s\<lparr>cons_r := cons_r s + 1\<rparr>
          in if uint ch = ctrl CHR ''D'' then
               let s = (if n < target then s\<lparr>cons_r := cons_r s - 1\<rparr> else s)
               in andthen (k_release c LCons s) (\<lambda>_ s. Ret (target - n) s)
             else
               andthen (either_copyout c user_dst dst [ch] s) (\<lambda>r s.
               if r = -1 then andthen (k_release c LCons s) (\<lambda>_ s. Ret (target - n) s)
               else if ch = 10 then andthen (k_release c LCons s) (\<lambda>_ s. Ret (target - (n - 1)) s)
               else consoleread_loop c user_dst (dst + 1) (n - 1) target s)
      else andthen (k_release c LCons s) (\<lambda>_ s. Ret (target - n) s))"
  by pat_completeness auto
termination
  by (relation "measure (\<lambda>(_, _, _, n, _, _). nat n)") auto

declare consoleread_loop.simps [simp del]

definition consoleread ::
    "nat \<Rightarrow> bool \<Rightarrow> u64 \<Rightarrow> int \<Rightarrow> 'z console_st_scheme \<Rightarrow> ('z console_st_scheme, int) outcome" where
  "consoleread c user_dst dst n s =
     andthen (k_acquire c LCons s) (\<lambda>_ s. consoleread_loop c user_dst dst n n s)"

definition consoleread_resume ::
    "nat \<Rightarrow> nat \<Rightarrow> bool \<Rightarrow> bool \<Rightarrow> u64 \<Rightarrow> int \<Rightarrow> int \<Rightarrow> 'z console_st_scheme \<Rightarrow> ('z console_st_scheme, int) outcome" where
  "consoleread_resume c p old_intena user_dst dst n target s =
     andthen (sleep_resume c p LCons old_intena s) (\<lambda>_ s. consoleread_loop c user_dst dst n target s)"

text \<open>The rows of \<^verbatim>\<open>procdump\<close> as it prints them.\<close>

definition newline :: string where "newline = [CHR 0x0A]"

definition print_row :: "nat \<Rightarrow> int \<times> string \<times> u8 list \<Rightarrow> 'z console_st_scheme \<Rightarrow> ('z console_st_scheme, unit) outcome" where
  "print_row c row s =
     (case row of (pid, st, name) \<Rightarrow>
        andthen (printf c ''%d %s %s'' [AInt (word_of_int pid), AStr (Some (ascii st)), AStr (Some name)] s) (\<lambda>_ s.
        andthen (printf c newline [] s) (\<lambda>_ s. Ret () s)))"

definition print_procdump :: "nat \<Rightarrow> 'z console_st_scheme \<Rightarrow> ('z console_st_scheme, unit) outcome" where
  "print_procdump c s = andthen (printf c newline [] s) (\<lambda>_ s. for_each (print_row c) (procdump s) s)"

text \<open>Kill line: the edit index moves back to the write index, which is at most the distance between them away.\<close>

fun kill_line :: "nat \<Rightarrow> nat \<Rightarrow> 'z console_st_scheme \<Rightarrow> ('z console_st_scheme, unit) outcome" where
  "kill_line c 0 s = Diverge"
| "kill_line c (Suc fuel) s =
     (if cons_e s \<noteq> cons_w s \<and> cons_at (cons_e s - 1) s \<noteq> 10
      then andthen (consputc c BACKSPACE (s\<lparr>cons_e := cons_e s - 1\<rparr>)) (\<lambda>_ s. kill_line c fuel s)
      else Ret () s)"

definition consoleintr_char :: "nat \<Rightarrow> int \<Rightarrow> 'z console_st_scheme \<Rightarrow> ('z console_st_scheme, unit) outcome" where
  "consoleintr_char c ch s =
     (if ch \<noteq> 0 \<and> unat (cons_e s - cons_r s) < INPUT_BUF_SIZE then
        let ch = (if ch = 13 then 10 else ch) in
        andthen (consputc c ch s) (\<lambda>_ s.
        let s = s\<lparr>cons_buf := (cons_buf s)[unat (cons_e s) mod INPUT_BUF_SIZE := word_of_int ch],
                  cons_e := cons_e s + 1\<rparr>
        in if ch = 10 \<or> ch = ctrl CHR ''D'' \<or> unat (cons_e s - cons_r s) = INPUT_BUF_SIZE
           then wakeup c (Some ChCons) (s\<lparr>cons_w := cons_e s\<rparr>)
           else Ret () s)
      else Ret () s)"

definition consoleintr :: "nat \<Rightarrow> int \<Rightarrow> 'z console_st_scheme \<Rightarrow> ('z console_st_scheme, unit) outcome" where
  "consoleintr c ch s =
     andthen (k_acquire c LCons s) (\<lambda>_ s.
     andthen (if ch = ctrl CHR ''P'' then print_procdump c s
              else if ch = ctrl CHR ''U'' then kill_line c (Suc (unat (cons_e s - cons_w s))) s
              else if ch = ctrl CHR ''H'' \<or> ch = 0x7f then
                (if cons_e s \<noteq> cons_w s then consputc c BACKSPACE (s\<lparr>cons_e := cons_e s - 1\<rparr>) else Ret () s)
              else consoleintr_char c ch s) (\<lambda>_ s.
     k_release c LCons s))"

text \<open>
  The loop of \<^verbatim>\<open>uartintr\<close> reads the device until it has no more input; each round takes an answer of the device, so
  one round more than there are answers is enough.
\<close>

fun uartintr_loop :: "nat \<Rightarrow> nat \<Rightarrow> 'z console_st_scheme \<Rightarrow> ('z console_st_scheme, unit) outcome" where
  "uartintr_loop c 0 s = Diverge"
| "uartintr_loop c (Suc fuel) s =
     andthen (uartgetc s) (\<lambda>ch s.
     if ch = -1 then Ret () s
     else andthen (consoleintr c ch s) (\<lambda>_ s. uartintr_loop c fuel s))"

definition uartintr :: "nat \<Rightarrow> 'z console_st_scheme \<Rightarrow> ('z console_st_scheme, unit) outcome" where
  "uartintr c s =
     andthen (uartintr_loop c (Suc (List.length (u_ans s))) s) (\<lambda>_ s.
     andthen (k_acquire c LUart s) (\<lambda>_ s.
     andthen (uartstart c s) (\<lambda>_ s.
     k_release c LUart s)))"

definition consoleinit :: "'z console_st_scheme \<Rightarrow> 'z console_st_scheme" where
  "consoleinit s =
     (let s = uartinit (s\<lparr>kmach := initlock LCons ''cons'' (kmach s)\<rparr>)
      in s\<lparr>devsw := (devsw s)[CONSOLE := (Some Consoleread, Some Consolewrite)]\<rparr>)"

section \<open>Line editing\<close>

text \<open>Input that a reader may take, and the line still being edited.\<close>

definition committed :: "'z console_st_scheme \<Rightarrow> u8 list" where
  "committed s = ring_content INPUT_BUF_SIZE (cons_buf s) (cons_r s) (cons_w s)"

definition editing :: "'z console_st_scheme \<Rightarrow> u8 list" where
  "editing s = ring_content INPUT_BUF_SIZE (cons_buf s) (cons_w s) (cons_e s)"

definition cons_ok :: "'z console_st_scheme \<Rightarrow> bool" where
  "cons_ok s \<longleftrightarrow> ring_ok INPUT_BUF_SIZE (cons_buf s) (cons_r s) (cons_e s) \<and>
     unat (cons_w s - cons_r s) + unat (cons_e s - cons_w s) = unat (cons_e s - cons_r s) \<and> 10 \<notin> set (editing s)"

text \<open>The editor a user of the console sees: the finished input and the current line.\<close>

definition line_edit :: "int \<Rightarrow> u8 list \<times> u8 list \<Rightarrow> u8 list \<times> u8 list" where
  "line_edit ch st =
     (case st of (fin, ed) \<Rightarrow>
        if ch = ctrl CHR ''P'' then (fin, ed)
        else if ch = ctrl CHR ''U'' then (fin, [])
        else if ch = ctrl CHR ''H'' \<or> ch = 0x7f then (fin, butlast ed)
        else if ch \<noteq> 0 \<and> List.length fin + List.length ed < 128 then
          let ed = ed @ [word_of_int (if ch = 13 then 10 else ch)]
          in if ch = 13 \<or> ch = 10 \<or> ch = ctrl CHR ''D'' \<or> List.length fin + List.length ed = 128 then (fin @ ed, [])
             else (fin, ed)
        else (fin, ed))"

lemma cons_lengths:
  assumes "cons_ok s"
  shows "List.length (committed s) + List.length (editing s) = unat (cons_e s - cons_r s)"
    and "unat (cons_e s - cons_r s) \<le> 128"
  using assms by (simp_all add: cons_ok_def committed_def editing_def ring_ok_def INPUT_BUF_SIZE_def)

lemma cons_put:
  assumes ok: "cons_ok s" and room: "unat (cons_e s - cons_r s) < INPUT_BUF_SIZE"
    and t: "cons_buf t = (cons_buf s)[unat (cons_e s) mod INPUT_BUF_SIZE := b]" "cons_e t = cons_e s + 1"
      "cons_r t = cons_r s" "cons_w t = cons_w s"
  shows "committed t = committed s" and "editing t = editing s @ [b]" and "ring_ok INPUT_BUF_SIZE (cons_buf t) (cons_r t) (cons_e t)"
    and "unat (cons_w t - cons_r t) + unat (cons_e t - cons_w t) = unat (cons_e t - cons_r t)"
proof -
  have r: "ring_ok INPUT_BUF_SIZE (cons_buf s) (cons_r s) (cons_e s)"
    and sp: "unat (cons_w s - cons_r s) + unat (cons_e s - cons_w s) = unat (cons_e s - cons_r s)"
    using ok by (simp_all add: cons_ok_def)
  have lt: "unat (cons_e s - cons_w s) < INPUT_BUF_SIZE" using sp room by linarith
  then have rw: "ring_ok INPUT_BUF_SIZE (cons_buf s) (cons_w s) (cons_e s)" using r by (simp add: ring_ok_def)
  have big: "INPUT_BUF_SIZE < 2 ^ LENGTH(32)" by (simp add: INPUT_BUF_SIZE_def)
  note p = ring_put [OF r, of b] and pw = ring_put [OF rw, of b]
  show "editing t = editing s @ [b]" using pw(2) lt t by (simp add: editing_def)
  show "ring_ok INPUT_BUF_SIZE (cons_buf t) (cons_r t) (cons_e t)" using p(1) room t by simp
  show sp': "unat (cons_w t - cons_r t) + unat (cons_e t - cons_w t) = unat (cons_e t - cons_r t)"
    using sp ring_grow [OF room big] ring_grow [OF lt big] t by simp
  have "committed t @ editing t = committed s @ editing s @ [b]"
    using p(2) room t ring_split [OF sp', of INPUT_BUF_SIZE "cons_buf t"] ring_split [OF sp, of INPUT_BUF_SIZE "cons_buf s"]
    by (simp add: committed_def editing_def)
  then show "committed t = committed s" using pw(2) lt t by (simp add: editing_def)
qed

lemma cons_rub:
  assumes ok: "cons_ok s" and ne: "cons_e s \<noteq> cons_w s"
    and t: "cons_buf t = cons_buf s" "cons_e t = cons_e s - 1" "cons_r t = cons_r s" "cons_w t = cons_w s"
  shows "committed t = committed s" and "editing t = butlast (editing s)" and "cons_ok t"
    and "cons_at (cons_e s - 1) s \<noteq> 10" and "Suc (unat (cons_e t - cons_w t)) = unat (cons_e s - cons_w s)"
proof -
  have r: "ring_ok INPUT_BUF_SIZE (cons_buf s) (cons_r s) (cons_e s)" and nn: "10 \<notin> set (editing s)"
    and sp: "unat (cons_w s - cons_r s) + unat (cons_e s - cons_w s) = unat (cons_e s - cons_r s)"
    using ok by (simp_all add: cons_ok_def)
  have dw: "Suc (unat (cons_e s - 1 - cons_w s)) = unat (cons_e s - cons_w s)"
  proof -
    have "cons_e s - cons_w s \<noteq> 0" using ne by simp
    then have "unat (cons_e s - cons_w s - 1) = unat (cons_e s - cons_w s) - 1" "0 < unat (cons_e s - cons_w s)"
      by (simp_all add: unat_minus_one unat_gt_0)
    then show ?thesis by (simp add: algebra_simps)
  qed
  have dr: "Suc (unat (cons_e s - 1 - cons_r s)) = unat (cons_e s - cons_r s)"
  proof -
    have "cons_e s - cons_r s \<noteq> 0" using sp dw by auto
    then have "unat (cons_e s - cons_r s - 1) = unat (cons_e s - cons_r s) - 1" "0 < unat (cons_e s - cons_r s)"
      by (simp_all add: unat_minus_one unat_gt_0)
    then show ?thesis by (simp add: algebra_simps)
  qed
  show "committed t = committed s" using t by (simp add: committed_def)
  show ed: "editing t = butlast (editing s)" using t dw by (simp add: editing_def ring_content_def map_butlast [symmetric] flip: dw)
  have "set (editing t) \<subseteq> set (editing s)" unfolding ed by (auto dest: in_set_butlastD)
  then show "cons_ok t" using r sp nn dw dr t by (auto simp: cons_ok_def ring_ok_def)
  have "cons_w s + of_nat (unat (cons_e s - 1 - cons_w s)) = cons_e s - 1" by simp
  then have "last (editing s) = cons_at (cons_e s - 1) s" by (simp add: editing_def ring_content_def cons_at_def flip: dw)
  moreover have "editing s \<noteq> []" using dw by (auto simp: editing_def ring_content_def)
  ultimately show "cons_at (cons_e s - 1) s \<noteq> 10" using nn last_in_set by metis
  show "Suc (unat (cons_e t - cons_w t)) = unat (cons_e s - cons_w s)" using dw t by simp
qed

lemma wrote_cons:
  assumes "wrote t u"
  shows "cons_buf u = cons_buf t" "cons_e u = cons_e t" "cons_r u = cons_r t" "cons_w u = cons_w t"
    "kmach u = kmach t" "procs u = procs t"
  using assms by (auto simp: wrote_def)

lemma wrote_lines:
  assumes "wrote t u"
  shows "committed u = committed t" "editing u = editing t" "cons_ok u = cons_ok t" "inside c l u = inside c l t"
  using wrote_cons [OF assms] inside_cong [of u t c l] by (simp_all add: committed_def editing_def cons_ok_def)

text \<open>What an interrupt leaves: the lock still held, a well-formed buffer, and these lines.\<close>

definition lines_are :: "nat \<Rightarrow> u8 list \<times> u8 list \<Rightarrow> 'z console_st_scheme \<Rightarrow> bool" where
  "lines_are c ls u \<longleftrightarrow> inside c LCons u \<and> cons_ok u \<and> (committed u, editing u) = ls"

lemma lines_are_wrote: "lines_are c ls t \<Longrightarrow> wrote t u \<Longrightarrow> lines_are c ls u"
  by (simp add: lines_are_def wrote_lines)

lemma inside_cons_e [simp]: "inside c l (t\<lparr>cons_e := x\<rparr>) = inside c l t" "inside c l (t\<lparr>cons_w := x\<rparr>) = inside c l t"
    "inside c l (t\<lparr>cons_buf := b\<rparr>) = inside c l t"
  by (rule inside_cong; simp)+

lemma rub_out:
  assumes "inside c LCons s" and "cons_ok s" and "cons_e s \<noteq> cons_w s"
  shows "yields (\<lambda>_ u. lines_are c (committed s, butlast (editing s)) u \<and>
      Suc (unat (cons_e u - cons_w u)) = unat (cons_e s - cons_w s)) (consputc c BACKSPACE (s\<lparr>cons_e := cons_e s - 1\<rparr>))"
proof -
  let ?t = "s\<lparr>cons_e := cons_e s - 1\<rparr>"
  note r = cons_rub [OF assms(2,3), of ?t, simplified]
  have i: "inside c LCons ?t" using assms(1) by simp
  then have "lines_are c (committed s, butlast (editing s)) ?t" using r by (simp add: lines_are_def)
  then show ?thesis
    by (intro yields_mono [OF consputc_wrote [OF inside_steady [OF i]]]) (simp add: lines_are_wrote wrote_cons r(5))
qed

lemma kill_line_lines:
  assumes "inside c LCons s" and "cons_ok s" and "unat (cons_e s - cons_w s) < fuel"
  shows "yields (\<lambda>_ u. lines_are c (committed s, []) u) (kill_line c fuel s)"
  using assms
proof (induction fuel arbitrary: s)
  case (Suc fuel s)
  show ?case
  proof (cases "cons_e s = cons_w s")
    case True
    then show ?thesis using Suc.prems by (simp add: lines_are_def editing_def ring_content_def)
  next
    case False
    have "cons_at (cons_e s - 1) s \<noteq> 10" using cons_rub(4) [OF Suc.prems(2) False, of "s\<lparr>cons_e := cons_e s - 1\<rparr>"] by simp
    moreover have "yields (\<lambda>_ w. lines_are c (committed s, []) w) (kill_line c fuel u)"
      if "lines_are c (committed s, butlast (editing s)) u" "Suc (unat (cons_e u - cons_w u)) = unat (cons_e s - cons_w s)" for u :: "'a console_st_scheme"
      using Suc.IH [of u] Suc.prems(3) that by (auto simp: lines_are_def)
    ultimately show ?thesis using False
      by (auto intro!: yields_andthen yields_mono [OF rub_out [OF Suc.prems(1,2) False]])
  qed
qed simp

lemma row_printable: "format_out ''%d %s %s'' [AInt w, AStr (Some a), AStr (Some b)] \<noteq> None"
proof -
  have b: "- (2 ^ 31) \<le> sint w" "sint w < 2 ^ 31" using sint_ge [of w] sint_lt [of w] by simp_all
  have "sint (scast w :: u64) = sint w" by (simp add: sint_up_scast is_up.rep_eq)
  then have "magnitude (scast w) True \<le> 2 ^ 31" using b by (simp add: magnitude_def)
  then have "printint (scast w) 10 True \<noteq> None"
    using printint_spec [where base = 10 and xx = "scast w" and sign = True] by (auto split: option.splits if_splits)
  then show ?thesis by (auto simp: conv_of_def conv_out_def)
qed

lemma procdump_wrote:
  assumes "inside c LCons s"
  shows "yields (\<lambda>_ u. wrote s u) (print_procdump c s)"
proof -
  have nl: "format_out newline [] \<noteq> None" by (simp add: newline_def)
  have st: "inside c LCons t" if "wrote s t" for t using wrote_lines(4) [OF that] assms by simp
  have pr: "yields (\<lambda>_ u. wrote s u) (printf c f args t)" if "wrote s t" "format_out f args \<noteq> None" for f args t
    by (rule yields_mono [OF printf_wrote [OF st [OF that(1)] _ that(2)]]) (use wrote_trans [OF that(1)] in simp_all)
  have row: "yields (\<lambda>_ u. wrote s u) (print_row c x t)" if "wrote s t" for x t
    unfolding print_row_def
    by (auto split: prod.split intro!: yields_andthen yields_mono [OF pr [OF that row_printable]] yields_mono [OF pr [OF _ nl]])
  have "yields (\<lambda>_ u. wrote s u) (for_each (print_row c) rows t)" if "wrote s t" for rows t
    using that
  proof (induction rows arbitrary: t)
    case (Cons x rows)
    then show ?case by (auto intro!: yields_andthen yields_mono [OF row [OF Cons.prems]])
  qed simp
  then show ?thesis unfolding print_procdump_def
    by (auto intro!: yields_andthen yields_mono [OF pr [OF wrote_refl nl]])
qed

text \<open>\<open>roused\<close>: every process that sleeps for console input in \<open>s\<close>, other than the running one, can run in \<open>u\<close>.\<close>

definition roused :: "nat \<Rightarrow> 'z console_st_scheme \<Rightarrow> 'z console_st_scheme \<Rightarrow> bool" where
  "roused c s u \<longleftrightarrow> (\<forall>i < NPROC. cpu_proc (cpus (kmach s) c) \<noteq> Some i \<and> p_state (procs s ! i) = SLEEPING \<and>
     p_chan (procs s ! i) = Some ChCons \<longrightarrow> p_state (procs u ! i) = RUNNABLE)"

lemma byte_eq_10:
  fixes ch :: int
  assumes "0 \<le> ch" and "ch < 256"
  shows "(word_of_int ch :: u8) = 10 \<longleftrightarrow> ch = 10"
proof -
  have "uint (word_of_int ch :: u8) = ch" using assms by (simp add: uint_word_of_int)
  moreover have "uint (10 :: u8) = 10" by simp
  ultimately show ?thesis by (metis word_uint_eqI of_int_numeral)
qed

lemma stored_lines:
  assumes i: "inside c LCons u" and ok: "cons_ok u" and room: "unat (cons_e u - cons_r u) < INPUT_BUF_SIZE"
    and b: "b = word_of_int ch" "0 \<le> ch" "ch < 256"
    and t: "t = u\<lparr>cons_buf := (cons_buf u)[unat (cons_e u) mod INPUT_BUF_SIZE := b], cons_e := cons_e u + 1\<rparr>"
  shows "yields (\<lambda>_ w. lines_are c (if ch = 10 \<or> ch = ctrl CHR ''D'' \<or> unat (cons_e t - cons_r t) = INPUT_BUF_SIZE
        then (committed u @ editing u @ [b], []) else (committed u, editing u @ [b])) w \<and>
      (committed w \<noteq> committed u \<longrightarrow> roused c u w))
    (if ch = 10 \<or> ch = ctrl CHR ''D'' \<or> unat (cons_e t - cons_r t) = INPUT_BUF_SIZE
     then wakeup c (Some ChCons) (t\<lparr>cons_w := cons_e t\<rparr>) else Ret () t)"
proof -
  note p = cons_put [OF ok room, of t b, unfolded t, simplified, folded t]
  have it: "inside c LCons t" using i by (simp add: t)
  show ?thesis
  proof (cases "ch = 10 \<or> ch = ctrl CHR ''D'' \<or> unat (cons_e t - cons_r t) = INPUT_BUF_SIZE")
    case True
    let ?w = "t\<lparr>cons_w := cons_e t\<rparr>"
    have iw: "inside c LCons ?w" using it by simp
    obtain ps where ps: "wakeup c (Some ChCons) ?w = Ret () (?w\<lparr>procs := ps\<rparr>)" "inside c LCons (?w\<lparr>procs := ps\<rparr>)"
        "List.length ps = NPROC" "\<And>i. i < NPROC \<Longrightarrow> ps ! i = woken (cpu_proc (cpus (kmach ?w) c)) (Some ChCons) i (procs ?w ! i)"
      by (rule inside_wakeup [OF iw, of "Some ChCons"]) blast
    have r: "roused c u (?w\<lparr>procs := ps\<rparr>)" using ps(4) by (auto simp: roused_def t woken_def)
    have "ring_content INPUT_BUF_SIZE (cons_buf t) (cons_r t) (cons_e t) = committed t @ editing t"
      unfolding committed_def editing_def by (rule ring_split) (use p(4) t in simp)
    then have "committed (?w\<lparr>procs := ps\<rparr>) = committed u @ editing u @ [b]" "editing (?w\<lparr>procs := ps\<rparr>) = []"
      using p(1,2) by (simp_all add: committed_def editing_def ring_content_def)
    moreover have "cons_ok (?w\<lparr>procs := ps\<rparr>)" using p(3) by (simp add: cons_ok_def editing_def ring_content_def t)
    ultimately have "lines_are c (committed u @ editing u @ [b], []) (?w\<lparr>procs := ps\<rparr>)" using ps(2) by (simp add: lines_are_def)
    then show ?thesis unfolding if_P [OF True] ps(1) using r by simp
  next
    case False
    have "10 \<notin> set (editing t)" using ok False b byte_eq_10 [OF b(2,3)] unfolding p(2) by (auto simp: cons_ok_def)
    then have "cons_ok t" using p(3,4) by (simp add: cons_ok_def t)
    then show ?thesis unfolding if_not_P [OF False] using it p(1,2) by (simp add: lines_are_def)
  qed
qed

lemma char_lines:
  assumes i: "inside c LCons s" and ok: "cons_ok s" and ch: "0 \<le> ch" "ch < 256"
    and n: "ch \<noteq> ctrl CHR ''P''" "ch \<noteq> ctrl CHR ''U''" "ch \<noteq> ctrl CHR ''H''" "ch \<noteq> 0x7f"
  shows "yields (\<lambda>_ u. lines_are c (line_edit ch (committed s, editing s)) u \<and> (committed u \<noteq> committed s \<longrightarrow> roused c s u))
     (consoleintr_char c ch s)"
proof (cases "ch \<noteq> 0 \<and> unat (cons_e s - cons_r s) < INPUT_BUF_SIZE")
  case False
  then have "line_edit ch (committed s, editing s) = (committed s, editing s)"
    using n cons_lengths(1) [OF ok] by (auto simp: line_edit_def INPUT_BUF_SIZE_def)
  then show ?thesis using False i ok by (auto simp: consoleintr_char_def lines_are_def)
next
  case True
  let ?ch = "if ch = 13 then 10 else ch"
  have ch': "0 \<le> ?ch" "?ch < 256" using ch by simp_all
  have step: "yields (\<lambda>_ w. lines_are c (line_edit ch (committed s, editing s)) w \<and> (committed w \<noteq> committed s \<longrightarrow> roused c s w))
      (let t = u\<lparr>cons_buf := (cons_buf u)[unat (cons_e u) mod INPUT_BUF_SIZE := word_of_int ?ch], cons_e := cons_e u + 1\<rparr>
       in if ?ch = 10 \<or> ?ch = ctrl CHR ''D'' \<or> unat (cons_e t - cons_r t) = INPUT_BUF_SIZE
          then wakeup c (Some ChCons) (t\<lparr>cons_w := cons_e t\<rparr>) else Ret () t)" if u: "wrote s u" for u
  proof -
    note w = wrote_lines [OF u] wrote_cons [OF u]
    let ?t = "u\<lparr>cons_buf := (cons_buf u)[unat (cons_e u) mod INPUT_BUF_SIZE := word_of_int ?ch], cons_e := cons_e u + 1\<rparr>"
    have room: "unat (cons_e u - cons_r u) < INPUT_BUF_SIZE" using True w by simp
    have "unat (cons_e ?t - cons_r ?t) = Suc (List.length (committed s) + List.length (editing s))"
      using ring_grow [OF room] cons_lengths(1) [OF ok] w by (simp add: INPUT_BUF_SIZE_def)
    then have le: "line_edit ch (committed s, editing s) =
        (if ?ch = 10 \<or> ?ch = ctrl CHR ''D'' \<or> unat (cons_e ?t - cons_r ?t) = INPUT_BUF_SIZE
         then (committed s @ editing s @ [word_of_int ?ch], []) else (committed s, editing s @ [word_of_int ?ch]))"
      using True n cons_lengths(1) [OF ok] by (auto simp: line_edit_def Let_def INPUT_BUF_SIZE_def ctrl_def)
    have r: "roused c u v = roused c s v" for v using w by (simp add: roused_def)
    have "inside c LCons u" "cons_ok u" using i ok w by simp_all
    from stored_lines [OF this room refl ch' refl] show ?thesis unfolding le Let_def w(1,2) r .
  qed
  show ?thesis unfolding consoleintr_char_def if_P [OF True] Let_def
    by (rule yields_andthen, rule yields_mono [OF consputc_wrote [OF inside_steady [OF i]]]) (rule step [unfolded Let_def])
qed

text \<open>What the handler does with the lock held, command by command.\<close>

definition edited :: "nat \<Rightarrow> int \<Rightarrow> 'z console_st_scheme \<Rightarrow> unit \<Rightarrow> 'z console_st_scheme \<Rightarrow> bool" where
  "edited c ch s _ u \<longleftrightarrow> lines_are c (line_edit ch (committed s, editing s)) u \<and> (committed u \<noteq> committed s \<longrightarrow> roused c s u)"

lemma edited_same:
  assumes "lines_are c ls u" and "ls = line_edit ch (committed s, editing s)" and "fst ls = committed s"
  shows "edited c ch s x u"
proof -
  have "committed u = committed s" using assms by (auto simp: lines_are_def dest: arg_cong [where f = fst])
  then show ?thesis using assms by (simp add: edited_def)
qed

lemma ctrl_distinct [simp]:
  "ctrl CHR ''P'' = 16" "ctrl CHR ''U'' = 21" "ctrl CHR ''H'' = 8"
  by (simp_all add: ctrl_def)

lemma rub_edited:
  assumes i: "inside c LCons s" and ok: "cons_ok s" and ch: "ch = 8 \<or> ch = 0x7f"
  shows "yields (edited c ch s)
    (if cons_e s \<noteq> cons_w s then consputc c BACKSPACE (s\<lparr>cons_e := cons_e s - 1\<rparr>) else Ret () s)"
proof -
  have l: "(committed s, butlast (editing s)) = line_edit ch (committed s, editing s)" using ch by (auto simp: line_edit_def)
  show ?thesis
  proof (cases "cons_e s = cons_w s")
    case True
    then have "editing s = []" by (simp add: editing_def ring_content_def)
    then have "lines_are c (committed s, butlast (editing s)) s" using i ok by (simp add: lines_are_def)
    then have "edited c ch s () s" by (rule edited_same [OF _ l]) simp
    then show ?thesis using True by simp
  next
    case False
    have "yields (edited c ch s) (consputc c BACKSPACE (s\<lparr>cons_e := cons_e s - 1\<rparr>))"
      by (rule yields_mono [OF rub_out [OF i ok False]]) (rule edited_same, erule conjunct1, rule l, simp)
    then show ?thesis using False by simp
  qed
qed

lemma handled_edited:
  assumes i: "inside c LCons s" and ok: "cons_ok s" and ch: "0 \<le> ch" "ch < 256"
  shows "yields (edited c ch s)
     (if ch = ctrl CHR ''P'' then print_procdump c s
      else if ch = ctrl CHR ''U'' then kill_line c (Suc (unat (cons_e s - cons_w s))) s
      else if ch = ctrl CHR ''H'' \<or> ch = 0x7f then
        (if cons_e s \<noteq> cons_w s then consputc c BACKSPACE (s\<lparr>cons_e := cons_e s - 1\<rparr>) else Ret () s)
      else consoleintr_char c ch s)"
proof -
  consider (P) "ch = 16" | (U) "ch = 21" | (H) "ch = 8 \<or> ch = 0x7f"
    | (other) "ch \<noteq> 16" "ch \<noteq> 21" "ch \<noteq> 8" "ch \<noteq> 0x7f" by blast
  then show ?thesis
  proof cases
    case P
    have "lines_are c (committed s, editing s) s" using i ok by (simp add: lines_are_def)
    then have "yields (edited c ch s) (print_procdump c s)"
      by (intro yields_mono [OF procdump_wrote [OF i]] edited_same) (use lines_are_wrote P in \<open>auto simp: line_edit_def\<close>)
    then show ?thesis using P by simp
  next
    case U
    have "yields (edited c ch s) (kill_line c (Suc (unat (cons_e s - cons_w s))) s)"
      by (rule yields_mono [OF kill_line_lines [OF i ok]]) (use U in \<open>auto intro!: edited_same simp: line_edit_def\<close>)
    then show ?thesis using U by simp
  next
    case H
    have e: "yields (edited c ch s)
        (if cons_e s \<noteq> cons_w s then consputc c BACKSPACE (s\<lparr>cons_e := cons_e s - 1\<rparr>) else Ret () s)"
      by (rule rub_edited [OF i ok H])
    have "ch \<noteq> ctrl CHR ''P''" "ch \<noteq> ctrl CHR ''U''" "ch = ctrl CHR ''H'' \<or> ch = 0x7f" using H by auto
    then show ?thesis using e by (simp only: if_False if_True)
  next
    case other
    then have "yields (edited c ch s) (consoleintr_char c ch s)"
      using char_lines [OF i ok ch] by (simp add: edited_def [abs_def])
    then show ?thesis using other by simp
  qed
qed

lemma edited_released:
  assumes "edited c ch s () u"
  obtains t where "k_release c LCons u = Ret () t" and "calm c t" and "cons_ok t"
    and "(committed t, editing t) = line_edit ch (committed s, editing s)"
    and "committed t \<noteq> committed s \<longrightarrow> roused c s t"
proof -
  obtain m where m: "calm c (u\<lparr>kmach := m\<rparr>)" "kmach u = acquired c LCons m"
    using assms by (auto simp: edited_def lines_are_def inside_def)
  let ?t = "u\<lparr>kmach := after_cs c m\<rparr>"
  have "k_release c LCons u = Ret () ?t" using m(2) calm_can [OF m(1)] by (intro k_release_ok) simp_all
  moreover have "calm c ?t" using m(1) calm_after_cs [of c "u\<lparr>kmach := m\<rparr>"] by simp
  moreover have "cons_ok ?t = cons_ok u" "committed ?t = committed u" "editing ?t = editing u" "roused c s ?t = roused c s u"
    by (simp_all add: cons_ok_def committed_def editing_def roused_def)
  ultimately show thesis using assms by (intro that [of ?t]) (auto simp: edited_def lines_are_def)
qed

text \<open>
  C18. The console interrupt handler implements a line editor.  With \<open>committed\<close> the input a reader may take and \<open>editing\<close> the
  current line, each byte from the device changes them as \<open>line_edit\<close> says: an ordinary character is appended, return
  counts as newline, erase drops the last character of the current line only, kill drops the current line, a newline, an end
  of file or a full buffer hands the line to the readers and makes the sleeping ones runnable, and input that does
  not fit in 128 bytes is dropped.  The handler returns with all locks free, or waits for the device to take its echo.
\<close>

theorem consoleintr_refines:
  assumes "calm c s" and "cons_ok s" and "0 \<le> ch" and "ch < 256"
  shows "case consoleintr c ch s of
      Ret _ t \<Rightarrow> calm c t \<and> cons_ok t \<and> (committed t, editing t) = line_edit ch (committed s, editing s) \<and>
        (committed t \<noteq> committed s \<longrightarrow> roused c s t)
    | Blocked _ \<Rightarrow> True | _ \<Rightarrow> False"
proof -
  let ?s = "s\<lparr>kmach := acquired c LCons (kmach s)\<rparr>" and ?ls = "line_edit ch (committed s, editing s)"
  have i: "inside c LCons ?s" by (rule insideI [OF assms(1)]) simp_all
  have "cons_ok ?s" and ls: "committed ?s = committed s" "editing ?s = editing s"
    using assms(2) by (simp_all add: cons_ok_def committed_def editing_def)
  note body = handled_edited [OF i this(1) assms(3,4)]
  have e: "edited c ch ?s x u = edited c ch s x u" for x u using ls by (simp add: edited_def roused_def)
  have rel: "yields (\<lambda>_ t. calm c t \<and> cons_ok t \<and> (committed t, editing t) = ?ls \<and>
      (committed t \<noteq> committed s \<longrightarrow> roused c s t)) (k_release c LCons u)" if "edited c ch s x u" for x u
    by (rule edited_released [of c ch s u]) (use that in simp_all)
  have "yields (\<lambda>_ t. calm c t \<and> cons_ok t \<and> (committed t, editing t) = ?ls \<and>
      (committed t \<noteq> committed s \<longrightarrow> roused c s t)) (consoleintr c ch s)"
    unfolding consoleintr_def k_acquire_ok [OF calm_can [OF assms(1)]] andthen_simps
    by (rule yields_andthen, rule yields_mono [OF body]) (simp only: e, rule rel)
  then show ?thesis by (simp add: yields_def)
qed

definition cons_world :: "u8 list \<Rightarrow> console_st" where
  "cons_world ans = \<lparr>kmach = upd_cpu 0 (\<lambda>k. k\<lparr>cpu_proc := Some 0\<rparr>) (kmach boot_kmem), mem = (\<lambda>_. 0), freelist = 0,
     kernel_pagetable = 0, satp = (\<lambda>_. 0), procs = replicate NPROC idle_proc,
     nextpid = 8, initproc = Some 0, slks = (\<lambda>_. \<lparr>sl_locked = False, sl_name = [], sl_pid = 0\<rparr>),
     bufs = replicate (Suc NBUF) zero_buf, disk = (\<lambda>_. replicate BSIZE 0), dtrace = [], logs = one_block_log,
     sb = get_sb (replicate BSIZE 0), inodes = [], uart_tx_buf = replicate 32 0, uart_tx_w = 0, uart_tx_r = 0,
     panicked = False, u_ans = ans, u_trace = [], pr_locking = True, cons_buf = (replicate 128 0)[0 := 97, 1 := 98],
     cons_r = 0, cons_w = 0, cons_e = 2, devsw = replicate NDEV (None, None)\<rparr>"

text \<open>With \<open>ab\<close> typed and the device ready, a return hands the line \<open>ab\<close> and its newline to the readers.\<close>

theorem consoleintr_refines_witness:
  "calm 0 (cons_world [0x20]) \<and> line_edit 13 ([], [97, 98]) = ([97, 98, 10], []) \<and>
   (case consoleintr 0 13 (cons_world [0x20]) of
      Ret _ t \<Rightarrow> committed t = [97, 98, 10] \<and> editing t = [] | Blocked _ \<Rightarrow> True | _ \<Rightarrow> False)"
proof -
  have k: "calm 0 (cons_world ans)" for ans
    by (simp add: calm_def cons_world_def boot_kmem_def upd_cpu_def cpu_ok_def lock_free_def NPROC_def del: calm_simps)
  have l: "committed (cons_world ans) = []" "editing (cons_world ans) = [97, 98]" for ans
    by (simp_all add: committed_def editing_def ring_content_def cons_world_def INPUT_BUF_SIZE_def upt_rec)
  have o: "cons_ok (cons_world ans)" for ans
    using l by (simp add: cons_ok_def) (simp add: cons_world_def INPUT_BUF_SIZE_def ring_ok_def)
  have e: "line_edit 13 ([], [97, 98]) = ([97, 98, 10], [])" by (simp add: line_edit_def ctrl_def)
  show ?thesis using consoleintr_refines [OF k o, of 13 "[0x20]"] k [of "[0x20]"] e
    by (cases "consoleintr 0 13 (cons_world [0x20])") (simp_all add: l)
qed

end
