(* ===== verification/Pipe.thy ===== *)
theory Pipe
  imports Console Ring UserCopy
begin

text \<open>
  \<^verbatim>\<open>kernel/pipe.c\<close> without \<^verbatim>\<open>pipealloc\<close>, which is with the file table.  A pipe lives in a page of its own and is a record
  indexed by the address of that page.
\<close>

definition PIPESIZE :: nat where "PIPESIZE = 512"

record pipe =
  pi_data :: "u8 list"
  nread :: u32
  nwrite :: u32
  readopen :: bool
  writeopen :: bool

record pipe_st = console_st +
  pipes :: "u64 \<Rightarrow> pipe"

definition upd_pipe :: "u64 \<Rightarrow> (pipe \<Rightarrow> pipe) \<Rightarrow> 'z pipe_st_scheme \<Rightarrow> 'z pipe_st_scheme" where
  "upd_pipe pi f s = s\<lparr>pipes := (pipes s)(pi := f (pipes s pi))\<rparr>"

definition pipe_put :: "u8 \<Rightarrow> pipe \<Rightarrow> pipe" where
  "pipe_put ch q = q\<lparr>pi_data := (pi_data q)[unat (nwrite q) mod PIPESIZE := ch], nwrite := nwrite q + 1\<rparr>"

definition pipe_get :: "pipe \<Rightarrow> u8 \<times> pipe" where
  "pipe_get q = (pi_data q ! (unat (nread q) mod PIPESIZE), q\<lparr>nread := nread q + 1\<rparr>)"

definition pipe_full :: "pipe \<Rightarrow> bool" where
  "pipe_full q \<longleftrightarrow> nwrite q = nread q + of_nat PIPESIZE"

definition pipe_empty :: "pipe \<Rightarrow> bool" where
  "pipe_empty q \<longleftrightarrow> nread q = nwrite q"

definition pipeclose :: "u64 \<Rightarrow> nat \<Rightarrow> u64 \<Rightarrow> bool \<Rightarrow> 'z pipe_st_scheme \<Rightarrow> ('z pipe_st_scheme, unit) outcome" where
  "pipeclose kend c pi wr s =
     andthen (k_acquire c (LPipe pi) s) (\<lambda>_ s.
     andthen (if wr then wakeup c (Some (ChPipeRead pi)) (upd_pipe pi (\<lambda>q. q\<lparr>writeopen := False\<rparr>) s)
              else wakeup c (Some (ChPipeWrite pi)) (upd_pipe pi (\<lambda>q. q\<lparr>readopen := False\<rparr>) s)) (\<lambda>_ s.
     if \<not> readopen (pipes s pi) \<and> \<not> writeopen (pipes s pi)
     then andthen (k_release c (LPipe pi) s) (\<lambda>_ s. kfree kend c pi s)
     else k_release c (LPipe pi) s))"

function pipewrite_loop ::
    "nat \<Rightarrow> nat \<Rightarrow> u64 \<Rightarrow> u64 \<Rightarrow> int \<Rightarrow> int \<Rightarrow> 'z pipe_st_scheme \<Rightarrow> ('z pipe_st_scheme, int) outcome" where
  "pipewrite_loop c pr pi addr n i s =
     (if i < n then
        andthen (if readopen (pipes s pi) then killed c pr s else Ret 1 s) (\<lambda>k s.
        if k \<noteq> 0 then andthen (k_release c (LPipe pi) s) (\<lambda>_ s. Ret (-1) s)
        else if pipe_full (pipes s pi) then
          andthen (wakeup c (Some (ChPipeRead pi)) s) (\<lambda>_ s. sleep c (Some (ChPipeWrite pi)) (LPipe pi) s)
        else
          andthen (copyin c (p_pagetable (procs s ! pr)) (addr + word_of_int i) 1 s) (\<lambda>(r, bs) s.
          if r = -1 then
            andthen (wakeup c (Some (ChPipeRead pi)) s) (\<lambda>_ s.
            andthen (k_release c (LPipe pi) s) (\<lambda>_ s. Ret i s))
          else pipewrite_loop c pr pi addr n (i + 1) (upd_pipe pi (pipe_put (hd bs)) s)))
      else
        andthen (wakeup c (Some (ChPipeRead pi)) s) (\<lambda>_ s.
        andthen (k_release c (LPipe pi) s) (\<lambda>_ s. Ret i s)))"
  by pat_completeness auto
termination
  by (relation "measure (\<lambda>(_, _, _, _, n, i, _). nat (n - i))") auto

declare pipewrite_loop.simps [simp del]

definition pipewrite :: "nat \<Rightarrow> u64 \<Rightarrow> u64 \<Rightarrow> int \<Rightarrow> 'z pipe_st_scheme \<Rightarrow> ('z pipe_st_scheme, int) outcome" where
  "pipewrite c pi addr n s =
     andthen (curproc c s) (\<lambda>pr s.
     andthen (k_acquire c (LPipe pi) s) (\<lambda>_ s. pipewrite_loop c pr pi addr n 0 s))"

definition pipewrite_resume ::
    "nat \<Rightarrow> nat \<Rightarrow> bool \<Rightarrow> u64 \<Rightarrow> u64 \<Rightarrow> int \<Rightarrow> int \<Rightarrow> 'z pipe_st_scheme \<Rightarrow> ('z pipe_st_scheme, int) outcome" where
  "pipewrite_resume c pr old_intena pi addr n i s =
     andthen (sleep_resume c pr (LPipe pi) old_intena s) (\<lambda>_ s. pipewrite_loop c pr pi addr n i s)"

function piperead_copy ::
    "nat \<Rightarrow> nat \<Rightarrow> u64 \<Rightarrow> u64 \<Rightarrow> int \<Rightarrow> int \<Rightarrow> 'z pipe_st_scheme \<Rightarrow> ('z pipe_st_scheme, int) outcome" where
  "piperead_copy c pr pi addr n i s =
     (if i < n \<and> \<not> pipe_empty (pipes s pi) then
        let (ch, q) = pipe_get (pipes s pi) in
        andthen (copyout c (p_pagetable (procs s ! pr)) (addr + word_of_int i) [ch] (upd_pipe pi (\<lambda>_. q) s)) (\<lambda>r s.
        if r = -1 then Ret i s else piperead_copy c pr pi addr n (i + 1) s)
      else Ret i s)"
  by pat_completeness auto
termination
  by (relation "measure (\<lambda>(_, _, _, _, n, i, _). nat (n - i))") auto

declare piperead_copy.simps [simp del]

definition piperead_loop ::
    "nat \<Rightarrow> nat \<Rightarrow> u64 \<Rightarrow> u64 \<Rightarrow> int \<Rightarrow> 'z pipe_st_scheme \<Rightarrow> ('z pipe_st_scheme, int) outcome" where
  "piperead_loop c pr pi addr n s =
     (if pipe_empty (pipes s pi) \<and> writeopen (pipes s pi) then
        andthen (killed c pr s) (\<lambda>k s.
        if k \<noteq> 0 then andthen (k_release c (LPipe pi) s) (\<lambda>_ s. Ret (-1) s)
        else sleep c (Some (ChPipeRead pi)) (LPipe pi) s)
      else
        andthen (piperead_copy c pr pi addr n 0 s) (\<lambda>i s.
        andthen (wakeup c (Some (ChPipeWrite pi)) s) (\<lambda>_ s.
        andthen (k_release c (LPipe pi) s) (\<lambda>_ s. Ret i s))))"

definition piperead :: "nat \<Rightarrow> u64 \<Rightarrow> u64 \<Rightarrow> int \<Rightarrow> 'z pipe_st_scheme \<Rightarrow> ('z pipe_st_scheme, int) outcome" where
  "piperead c pi addr n s =
     andthen (curproc c s) (\<lambda>pr s.
     andthen (k_acquire c (LPipe pi) s) (\<lambda>_ s. piperead_loop c pr pi addr n s))"

definition piperead_resume ::
    "nat \<Rightarrow> nat \<Rightarrow> bool \<Rightarrow> u64 \<Rightarrow> u64 \<Rightarrow> int \<Rightarrow> 'z pipe_st_scheme \<Rightarrow> ('z pipe_st_scheme, int) outcome" where
  "piperead_resume c pr old_intena pi addr n s =
     andthen (sleep_resume c pr (LPipe pi) old_intena s) (\<lambda>_ s. piperead_loop c pr pi addr n s)"

section \<open>The buffer is a bounded queue\<close>

definition pipe_ok :: "pipe \<Rightarrow> bool" where
  "pipe_ok q \<longleftrightarrow> ring_ok PIPESIZE (pi_data q) (nread q) (nwrite q)"

definition pipe_content :: "pipe \<Rightarrow> u8 list" where
  "pipe_content q = ring_content PIPESIZE (pi_data q) (nread q) (nwrite q)"

interpretation pipeq: bounded_fifo pipe_ok pipe_content PIPESIZE pipe_full pipe_empty pipe_put pipe_get
proof
  fix q :: pipe and x
  assume ok: "pipe_ok q"
  note r = ok [unfolded pipe_ok_def]
  show "List.length (pipe_content q) \<le> PIPESIZE" using r by (simp add: pipe_content_def ring_ok_def)
  show "pipe_full q \<longleftrightarrow> List.length (pipe_content q) = PIPESIZE"
    using ring_full_iff [OF r] by (simp add: pipe_full_def pipe_content_def)
  show "pipe_empty q \<longleftrightarrow> pipe_content q = []"
    by (auto simp: pipe_empty_def pipe_content_def ring_empty_iff)
  show "pipe_ok (pipe_put x q)" and "pipe_content (pipe_put x q) = pipe_content q @ [x]" if "\<not> pipe_full q"
    using ring_put [OF r] ring_full_iff [OF r] that
    by (auto simp: pipe_full_def pipe_put_def pipe_ok_def pipe_content_def)
  show "pipe_ok (snd (pipe_get q))" and "fst (pipe_get q) # pipe_content (snd (pipe_get q)) = pipe_content q"
    if "\<not> pipe_empty q"
    using ring_get [OF r] that by (auto simp: pipe_empty_def pipe_get_def pipe_ok_def pipe_content_def)
qed

text \<open>
  C15. The buffer of a pipe is a first-in first-out queue of at most 512 bytes: for every sequence of puts and gets from any
  state of the counters, also across the wrap-around of the 32-bit counters, what was in the pipe followed by what was put
  is what was got followed by what is left, and at most 512 bytes are ever held.
\<close>

theorem pipe_is_fifo:
  assumes "pipe_ok q" and "pipeq.run ops q = (ins, outs, t)"
  shows "pipe_content q @ ins = outs @ pipe_content t \<and> pipe_ok t \<and> List.length (pipe_content t) \<le> 512"
  using pipeq.run_fifo [OF assms] pipeq.content_bound [of t] by (simp add: PIPESIZE_def)

definition wrap_pipe :: pipe where
  "wrap_pipe = \<lparr>pi_data = replicate 512 0, nread = 0xFFFFFFFF, nwrite = 0xFFFFFFFF, readopen = True, writeopen = True\<rparr>"

lemma wrap_pipe_ok: "pipe_ok wrap_pipe"
  by (simp add: pipe_ok_def ring_ok_def wrap_pipe_def PIPESIZE_def)

theorem pipe_is_fifo_witness:
  "\<exists>t. pipeq.run [Put 7, Put 8, Get] wrap_pipe = ([7, 8], [7], t) \<and> pipe_content t = [8]"
proof -
  obtain ins outs t where r: "pipeq.run [Put 7, Put 8, Get] wrap_pipe = (ins, outs, t)" by (metis prod_cases3)
  have "pipeq.run [Put 7, Put 8, Get] wrap_pipe = (ins, outs, t) \<Longrightarrow> ins = [7, 8] \<and> outs = [7]"
    by (simp add: wrap_pipe_def pipe_full_def pipe_empty_def pipe_put_def pipe_get_def PIPESIZE_def)
  moreover have "pipe_content wrap_pipe = []" by (simp add: wrap_pipe_def pipe_content_def ring_empty_iff)
  ultimately show ?thesis using pipe_is_fifo [OF wrap_pipe_ok r] r by auto
qed

section \<open>The whole calls\<close>

text \<open>\<open>pstate c pi s t\<close>: \<open>t\<close> is \<open>s\<close> with the lock of pipe \<open>pi\<close> held by hart \<open>c\<close> and another content of the pipe.\<close>

definition pheld :: "nat \<Rightarrow> u64 \<Rightarrow> 'z pipe_st_scheme \<Rightarrow> pipe \<Rightarrow> 'z pipe_st_scheme" where
  "pheld c pi s q = s\<lparr>kmach := acquired c (LPipe pi) (kmach s), pipes := (pipes s)(pi := q)\<rparr>"

lemma pheld_simps [simp]:
  "kmach (pheld c pi s q) = acquired c (LPipe pi) (kmach s)" "procs (pheld c pi s q) = procs s"
  "mem (pheld c pi s q) = mem s" "pipes (pheld c pi s q) = (pipes s)(pi := q)"
  "upd_pipe pi f (pheld c pi s q) = pheld c pi s (f q)"
  by (simp_all add: pheld_def upd_pipe_def)

lemma pheld_kmach [simp]: "(pheld c pi s q)\<lparr>kmach := acquired c (LPipe pi) (kmach s)\<rparr> = pheld c pi s q"
  by (simp add: pheld_def)

lemma killed_locked [simp]:
  assumes "calm c s"
  shows "killed c p (pheld c pi s q) = Ret (p_killed (procs s ! p)) (pheld c pi s q)"
  using assms by (simp add: killed_def Let_def)

lemma pipewrite_steps:
  assumes s: "calm c s" "pt_tree (mem s) 2 (p_pagetable (procs s ! pr))" "p_killed (procs s ! pr) = 0"
    and q: "pipe_ok q" "readopen q" "List.length (pipe_content q) + k \<le> PIPESIZE"
    and u: "\<forall>i < k. readable (mem s) (p_pagetable (procs s ! pr)) (addr + of_nat (m + i))" and n: "int (m + k) \<le> n"
  shows "\<exists>q'. pipewrite_loop c pr pi addr n (int m) (pheld c pi s q) =
       pipewrite_loop c pr pi addr n (int (m + k)) (pheld c pi s q') \<and> pipe_ok q' \<and>
     pipe_content q' = pipe_content q @ user_bytes (mem s) (p_pagetable (procs s ! pr)) (addr + of_nat m) k \<and>
     readopen q' = readopen q \<and> writeopen q' = writeopen q"
  using q u n
proof (induction k arbitrary: q m)
  case 0
  then show ?case by (intro exI [of _ q]) (simp add: user_bytes_def)
next
  case (Suc k q m)
  let ?pt = "p_pagetable (procs s ! pr)" and ?va = "addr + of_nat m"
  let ?b = "user_byte (mem s) ?pt ?va" and ?q = "pipe_put (user_byte (mem s) ?pt ?va) q"
  have nf: "\<not> pipe_full q" using Suc.prems(1,3) by (simp add: pipeq.full_iff)
  have rd: "readable (mem s) ?pt ?va" using Suc.prems(4) by (metis add.right_neutral zero_less_Suc)
  have ci: "copyin c ?pt ?va 1 (pheld c pi s q) = Ret (0, [?b]) (pheld c pi s q)"
    using copyin_result [of "pheld c pi s q" ?pt 1 ?va c] s(2) rd by (simp add: user_bytes_def)
  have st: "pipewrite_loop c pr pi addr n (int m) (pheld c pi s q) = pipewrite_loop c pr pi addr n (int (Suc m)) (pheld c pi s ?q)"
    by (subst pipewrite_loop.simps) (use s ci nf Suc.prems(2,5) in \<open>simp add: add.commute\<close>)
  have c: "pipe_content ?q = pipe_content q @ [?b]" and o: "pipe_ok ?q"
    using pipeq.put_content [OF Suc.prems(1) nf] pipeq.put_ok [OF Suc.prems(1) nf] by simp_all
  have "List.length (pipe_content ?q) + k \<le> PIPESIZE" "readopen ?q" "writeopen ?q = writeopen q"
    using Suc.prems(2,3) c by (simp_all add: pipe_put_def)
  moreover have "\<forall>i < k. readable (mem s) ?pt (addr + of_nat (Suc m + i))"
    using Suc.prems(4) by (metis Suc_less_eq add_Suc_shift)
  moreover have "user_bytes (mem s) ?pt ?va (Suc k) = ?b # user_bytes (mem s) ?pt (addr + of_nat (Suc m)) k"
    by (simp add: user_bytes_def upt_conv_Cons map_Suc_upt [symmetric] algebra_simps del: upt_Suc)
  ultimately show ?case using Suc.IH [OF o, of "Suc m"] st c Suc.prems(2,5) by auto
qed

lemmas pipewrite_steps0 = pipewrite_steps [where m = 0, unfolded add_0 semiring_1_class.of_nat_0 add_0_right of_nat_0]

text \<open>
  \<open>wakes_exactly c ch s t\<close>: from \<open>s\<close> to \<open>t\<close> exactly the processes asleep on \<open>ch\<close> became runnable; \<open>wakes_then_sleeps c ch ch' s t\<close>: besides, the
  caller went to sleep on \<open>ch'\<close>.
\<close>

definition wakes_exactly :: "nat \<Rightarrow> chan \<Rightarrow> 'z proc_st_scheme \<Rightarrow> 'z proc_st_scheme \<Rightarrow> bool" where
  "wakes_exactly c ch s t \<longleftrightarrow> List.length (procs t) = NPROC \<and>
     (\<forall>i < NPROC. procs t ! i = woken (Some (me c s)) (Some ch) i (procs s ! i))"

definition wakes_then_sleeps :: "nat \<Rightarrow> chan \<Rightarrow> chan \<Rightarrow> 'z proc_st_scheme \<Rightarrow> 'z proc_st_scheme \<Rightarrow> bool" where
  "wakes_then_sleeps c ch ch' s t \<longleftrightarrow> List.length (procs t) = NPROC \<and>
     (\<forall>i < NPROC. procs t ! i = (if i = me c s then (procs s ! i)\<lparr>p_chan := Some ch', p_state := SLEEPING\<rparr>
        else woken (Some (me c s)) (Some ch) i (procs s ! i)))"

lemma pheld_finish:
  assumes "calm c s"
  shows "\<exists>ps. andthen (wakeup c ch (pheld c pi s q)) (\<lambda>_ s. andthen (k_release c (LPipe pi) s) (\<lambda>_ s. Ret r s)) =
       Ret r (s\<lparr>kmach := after_cs c (kmach s), procs := ps, pipes := (pipes s)(pi := q)\<rparr>) \<and>
     List.length ps = NPROC \<and> (\<forall>i < NPROC. ps ! i = woken (Some (me c s)) ch i (procs s ! i))"
proof -
  obtain ps where ps: "wakeup c ch (pheld c pi s q) = Ret () ((pheld c pi s q)\<lparr>procs := ps\<rparr>)" "List.length ps = NPROC"
     "\<forall>i < NPROC. ps ! i = woken (Some (me c s)) ch i (procs s ! i)"
    using wakeup_locked [OF assms, of "pheld c pi s q" "LPipe pi" ch] by auto
  have "k_release c (LPipe pi) ((pheld c pi s q)\<lparr>procs := ps\<rparr>) =
      Ret () ((pheld c pi s q)\<lparr>procs := ps, kmach := after_cs c (kmach s)\<rparr>)"
    using assms by (intro k_release_ok) simp_all
  moreover have "(pheld c pi s q)\<lparr>procs := ps, kmach := after_cs c (kmach s)\<rparr> =
      s\<lparr>kmach := after_cs c (kmach s), procs := ps, pipes := (pipes s)(pi := q)\<rparr>"
    by (cases s) (simp add: pheld_def)
  ultimately show ?thesis using ps by (intro exI [of _ ps]) simp
qed

lemma pipewrite_enter:
  assumes "calm c s"
  shows "pipewrite c pi addr n s = pipewrite_loop c (me c s) pi addr n 0 (pheld c pi s (pipes s pi))"
proof -
  have "s\<lparr>kmach := acquired c (LPipe pi) (after_cs c (kmach s))\<rparr> = pheld c pi s (pipes s pi)"
    using assms by (simp add: pheld_def)
  then show ?thesis using assms calm_proc [OF assms] by (simp add: pipewrite_def)
qed

lemma pipewrite_done:
  assumes s: "calm c s" "pt_tree (mem s) 2 (p_pagetable (procs s ! pr))" "p_killed (procs s ! pr) = 0" and q: "readopen q"
    and e: "i = n \<or> i < n \<and> \<not> pipe_full q \<and> \<not> readable (mem s) (p_pagetable (procs s ! pr)) (addr + of_nat i)"
  shows "pipewrite_loop c pr pi addr (int n) (int i) (pheld c pi s q) =
    andthen (wakeup c (Some (ChPipeRead pi)) (pheld c pi s q)) (\<lambda>_ s. andthen (k_release c (LPipe pi) s) (\<lambda>_ s. Ret (int i) s))"
proof (cases "i = n")
  case True
  then show ?thesis by (subst pipewrite_loop.simps) simp
next
  case False
  then have f: "i < n" "\<not> pipe_full q" "\<not> readable (mem s) (p_pagetable (procs s ! pr)) (addr + of_nat i)" using e by auto
  then have nr: "\<not> (\<forall>j < 1. readable (mem (pheld c pi s q)) (p_pagetable (procs s ! pr)) (addr + of_nat i + of_nat j))" by simp
  have "pt_tree (mem (pheld c pi s q)) 2 (p_pagetable (procs s ! pr))" using s(2) by simp
  from copyin_result [OF this, of 1 "addr + of_nat i" c, unfolded if_not_P [OF nr]]
  obtain bs where "copyin c (p_pagetable (procs s ! pr)) (addr + of_nat i) 1 (pheld c pi s q) = Ret (-1, bs) (pheld c pi s q)" ..
  then show ?thesis by (subst pipewrite_loop.simps) (use s q f in simp)
qed

lemma pipewrite_returns:
  assumes s: "calm c s" "pt_tree (mem s) 2 (p_pagetable (procs s ! me c s))" "p_killed (procs s ! me c s) = 0"
    and q: "pipe_ok (pipes s pi)" "readopen (pipes s pi)" "List.length (pipe_content (pipes s pi)) + r \<le> PIPESIZE"
    and u: "\<forall>i < r. readable (mem s) (p_pagetable (procs s ! me c s)) (addr + of_nat i)"
    and e: "r = k \<or> r < k \<and> List.length (pipe_content (pipes s pi)) + r < PIPESIZE \<and>
      \<not> readable (mem s) (p_pagetable (procs s ! me c s)) (addr + of_nat r)"
  shows "\<exists>t q'. pipewrite c pi addr (int k) s = Ret (int r) t \<and> wakes_exactly c (ChPipeRead pi) s t \<and>
     t = s\<lparr>kmach := after_cs c (kmach s), procs := procs t, pipes := (pipes s)(pi := q')\<rparr> \<and> pipe_ok q' \<and>
     pipe_content q' = pipe_content (pipes s pi) @ user_bytes (mem s) (p_pagetable (procs s ! me c s)) addr r"
proof -
  have rk: "int r \<le> int k" using e by auto
  obtain q' where q': "pipewrite_loop c (me c s) pi addr (int k) 0 (pheld c pi s (pipes s pi)) =
       pipewrite_loop c (me c s) pi addr (int k) (int r) (pheld c pi s q')" "pipe_ok q'"
     "pipe_content q' = pipe_content (pipes s pi) @ user_bytes (mem s) (p_pagetable (procs s ! me c s)) addr r" "readopen q' = readopen (pipes s pi)"
    using pipewrite_steps0 [OF s q u rk, of pi] by (elim exE conjE) (rule that)
  note ro = q'(4) [THEN iffD2, OF q(2)]
  have "List.length (user_bytes (mem s) (p_pagetable (procs s ! me c s)) addr r) = r" by (simp add: length_user_bytes)
  then have "\<not> pipe_full q'" if "List.length (pipe_content (pipes s pi)) + r < PIPESIZE"
    using pipeq.full_iff [OF q'(2)] q'(3) that by simp
  then have e': "r = k \<or> r < k \<and> \<not> pipe_full q' \<and> \<not> readable (mem s) (p_pagetable (procs s ! me c s)) (addr + of_nat r)"
    using e by auto
  obtain ps where ps: "andthen (wakeup c (Some (ChPipeRead pi)) (pheld c pi s q'))
       (\<lambda>_ s. andthen (k_release c (LPipe pi) s) (\<lambda>_ s. Ret (int r) s)) =
       Ret (int r) (s\<lparr>kmach := after_cs c (kmach s), procs := ps, pipes := (pipes s)(pi := q')\<rparr>)" "List.length ps = NPROC"
      "\<forall>i < NPROC. ps ! i = woken (Some (me c s)) (Some (ChPipeRead pi)) i (procs s ! i)"
    using pheld_finish [OF s(1), of "Some (ChPipeRead pi)" pi q' "int r"] by (elim exE conjE) (rule that)
  let ?t = "s\<lparr>kmach := after_cs c (kmach s), procs := ps, pipes := (pipes s)(pi := q')\<rparr>"
  have "pipewrite c pi addr (int k) s = Ret (int r) ?t"
    unfolding pipewrite_enter [OF s(1)] q'(1) pipewrite_done [OF s ro e'] ps(1) ..
  moreover have "wakes_exactly c (ChPipeRead pi) s ?t" using ps(2,3) by (simp add: wakes_exactly_def)
  ultimately show ?thesis using q'(2,3) by (intro exI [of _ ?t] exI [of _ q']) simp
qed

lemma pipewrite_sleeps:
  assumes s: "calm c s" "noff (cpus (kmach s) c) = 0" "pt_tree (mem s) 2 (p_pagetable (procs s ! me c s))" "p_killed (procs s ! me c s) = 0"
    and q: "pipe_ok (pipes s pi)" "readopen (pipes s pi)" "List.length (pipe_content (pipes s pi)) + r = PIPESIZE" and r: "r < k"
    and u: "\<forall>i < r. readable (mem s) (p_pagetable (procs s ! me c s)) (addr + of_nat i)"
  shows "\<exists>t q' m. pipewrite c pi addr (int k) s = Slept t \<and> wakes_then_sleeps c (ChPipeRead pi) (ChPipeWrite pi) s t \<and>
     t = s\<lparr>kmach := m, procs := procs t, pipes := (pipes s)(pi := q')\<rparr> \<and> lock_free (LPipe pi) m \<and> pipe_ok q' \<and>
     pipe_content q' = pipe_content (pipes s pi) @ user_bytes (mem s) (p_pagetable (procs s ! me c s)) addr r"
proof -
  have rk: "int r \<le> int k" and q3: "List.length (pipe_content (pipes s pi)) + r \<le> PIPESIZE" using r q(3) by simp_all
  obtain q' where q': "pipewrite_loop c (me c s) pi addr (int k) 0 (pheld c pi s (pipes s pi)) =
       pipewrite_loop c (me c s) pi addr (int k) (int r) (pheld c pi s q')" "pipe_ok q'"
     "pipe_content q' = pipe_content (pipes s pi) @ user_bytes (mem s) (p_pagetable (procs s ! me c s)) addr r" "readopen q' = readopen (pipes s pi)"
    using pipewrite_steps0 [OF s(1,3,4) q(1,2) q3 u rk, of pi] by (elim exE conjE) (rule that)
  note ro = q'(4) [THEN iffD2, OF q(2)]
  have full: "pipe_full q'" using pipeq.full_iff [OF q'(2)] q'(3) q(3) by (simp add: length_user_bytes)
  let ?h = "pheld c pi s q'"
  obtain ps where ps: "wakeup c (Some (ChPipeRead pi)) ?h = Ret () (?h\<lparr>procs := ps\<rparr>)" "List.length ps = NPROC"
     "\<forall>i < NPROC. ps ! i = woken (Some (me c s)) (Some (ChPipeRead pi)) i (procs s ! i)"
    using wakeup_locked [OF s(1), of ?h "LPipe pi" "Some (ChPipeRead pi)"] by auto
  have "calm c (s\<lparr>procs := ps\<rparr>)" using s(1) ps(2) by simp
  then obtain m where sl: "sleep c (Some (ChPipeWrite pi)) (LPipe pi) (?h\<lparr>procs := ps\<rparr>) =
      (Slept (?h\<lparr>procs := ps, kmach := m, procs := ps[me c s := (ps ! me c s)\<lparr>p_chan := Some (ChPipeWrite pi), p_state := SLEEPING\<rparr>]\<rparr>)
        :: ('a pipe_st_scheme, int) outcome)"
      and fr: "lock_free (LPipe pi) m"
    using sleep_locked [of c "s\<lparr>procs := ps\<rparr>" "LPipe pi" "?h\<lparr>procs := ps\<rparr>" "Some (ChPipeWrite pi)"] s(2) by auto
  let ?ps = "ps[me c s := (ps ! me c s)\<lparr>p_chan := Some (ChPipeWrite pi), p_state := SLEEPING\<rparr>]"
  let ?t = "s\<lparr>kmach := m, procs := ?ps, pipes := (pipes s)(pi := q')\<rparr>"
  have "pipewrite c pi addr (int k) s = sleep c (Some (ChPipeWrite pi)) (LPipe pi) (?h\<lparr>procs := ps\<rparr>)"
    unfolding pipewrite_enter [OF s(1)] q'(1) by (subst pipewrite_loop.simps) (use s ro full r ps(1) in simp)
  then have "pipewrite c pi addr (int k) s = Slept ?t" unfolding sl by (cases s) (simp add: pheld_def)
  moreover have "wakes_then_sleeps c (ChPipeRead pi) (ChPipeWrite pi) s ?t"
    using ps(2,3) calm_me [OF s(1)] by (auto simp: wakes_then_sleeps_def woken_def nth_list_update)
  ultimately show ?thesis using fr q'(2,3) by (intro exI [of _ ?t] exI [of _ q'] exI [of _ m]) simp
qed

lemma pipewrite_refused:
  assumes s: "calm c s" and q: "\<not> readopen (pipes s pi) \<or> p_killed (procs s ! me c s) \<noteq> 0" and n: "0 < n"
  shows "pipewrite c pi addr n s = Ret (-1) (s\<lparr>kmach := after_cs c (kmach s)\<rparr>)"
proof -
  let ?h = "pheld c pi s (pipes s pi)"
  have "k_release c (LPipe pi) ?h = Ret () (?h\<lparr>kmach := after_cs c (kmach s)\<rparr>)"
    using s by (intro k_release_ok) simp_all
  moreover have "?h\<lparr>kmach := after_cs c (kmach s)\<rparr> = s\<lparr>kmach := after_cs c (kmach s)\<rparr>" by (cases s) (simp add: pheld_def)
  ultimately show ?thesis
    unfolding pipewrite_enter [OF s] by (subst pipewrite_loop.simps) (use s q n in auto)
qed

text \<open>The number of leading indices with a property, among the first \<open>k\<close>.\<close>

definition leading :: "(nat \<Rightarrow> bool) \<Rightarrow> nat \<Rightarrow> nat" where
  "leading P k = List.length (takeWhile P [0..<k])"

lemma leadingD:
  shows "leading P k \<le> k" and "i < leading P k \<Longrightarrow> P i" and "leading P k < k \<Longrightarrow> \<not> P (leading P k)"
proof -
  have l: "leading P k \<le> List.length [0..<k]" unfolding leading_def by (rule length_takeWhile_le)
  then show "leading P k \<le> k" by simp
  show "P i" if "i < leading P k"
  proof -
    have "takeWhile P [0..<k] ! i = i" using takeWhile_nth [of i P "[0..<k]"] that l by (simp add: leading_def)
    then show ?thesis using nth_mem [of i "takeWhile P [0..<k]"] that set_takeWhileD [of i P "[0..<k]"] by (simp add: leading_def)
  qed
  show "\<not> P (leading P k)" if "leading P k < k"
    using nth_length_takeWhile [of P "[0..<k]"] that by (simp add: leading_def)
qed

text \<open>
  C16. What \<^verbatim>\<open>pipewrite\<close> does with a positive count \<open>k\<close>, in every case.  It returns -1 and changes nothing when the read side is closed or the
  caller was killed.  Otherwise let \<open>r\<close> be the number of leading readable bytes of the caller and \<open>room\<close> the space left in the pipe.
  When the room is used up before the bytes are, it appends as many bytes as fit, makes exactly the processes asleep on
  the pipe as readers runnable, and sleeps as a writer, the lock free; in all other cases it appends the \<open>r\<close> readable
  bytes, makes exactly the sleeping readers runnable, and returns \<open>r\<close>.  Nothing else of the state changes.
\<close>

theorem pipewrite_correct:
  assumes "calm c s" and "noff (cpus (kmach s) c) = 0" and "pipe_ok (pipes s pi)" and "0 < k"
    and "pt_tree (mem s) 2 (p_pagetable (procs s ! me c s))"
    and "r = leading (\<lambda>i. readable (mem s) (p_pagetable (procs s ! me c s)) (addr + of_nat i)) k"
    and "room = 512 - List.length (pipe_content (pipes s pi))"
  shows "if \<not> readopen (pipes s pi) \<or> p_killed (procs s ! me c s) \<noteq> 0
     then pipewrite c pi addr (int k) s = Ret (-1) (s\<lparr>kmach := after_cs c (kmach s)\<rparr>)
     else if room < k \<and> room \<le> r
     then \<exists>t q m. pipewrite c pi addr (int k) s = Slept t \<and> wakes_then_sleeps c (ChPipeRead pi) (ChPipeWrite pi) s t \<and>
       t = s\<lparr>kmach := m, procs := procs t, pipes := (pipes s)(pi := q)\<rparr> \<and> lock_free (LPipe pi) m \<and> pipe_ok q \<and>
       pipe_content q = pipe_content (pipes s pi) @ user_bytes (mem s) (p_pagetable (procs s ! me c s)) addr room
     else \<exists>t q. pipewrite c pi addr (int k) s = Ret (int r) t \<and> wakes_exactly c (ChPipeRead pi) s t \<and>
       t = s\<lparr>kmach := after_cs c (kmach s), procs := procs t, pipes := (pipes s)(pi := q)\<rparr> \<and> pipe_ok q \<and>
       pipe_content q = pipe_content (pipes s pi) @ user_bytes (mem s) (p_pagetable (procs s ! me c s)) addr r"
proof -
  note r = leadingD [where P = "\<lambda>i. readable (mem s) (p_pagetable (procs s ! me c s)) (addr + of_nat i)" and k = k, folded assms(6)]
  have room: "List.length (pipe_content (pipes s pi)) + room = PIPESIZE"
    using pipeq.content_bound [OF assms(3)] assms(7) by (simp add: PIPESIZE_def)
  consider "\<not> readopen (pipes s pi) \<or> p_killed (procs s ! me c s) \<noteq> 0"
    | "readopen (pipes s pi)" "p_killed (procs s ! me c s) = 0" "room < k" "room \<le> r"
    | "readopen (pipes s pi)" "p_killed (procs s ! me c s) = 0" "\<not> (room < k \<and> room \<le> r)" by blast
  then show ?thesis
  proof cases
    case 1
    then show ?thesis using pipewrite_refused [OF assms(1) 1, of "int k"] assms(4) by simp
  next
    case 2
    have "\<forall>i < room. readable (mem s) (p_pagetable (procs s ! me c s)) (addr + of_nat i)" using r(2) 2(4) by simp
    then show ?thesis using pipewrite_sleeps [OF assms(1,2,5) 2(2) assms(3) 2(1) room 2(3)] 2 by simp
  next
    case 3
    have "List.length (pipe_content (pipes s pi)) + r \<le> PIPESIZE" using 3(3) room r(1) by auto
    moreover have "r = k \<or> r < k \<and> List.length (pipe_content (pipes s pi)) + r < PIPESIZE \<and>
      \<not> readable (mem s) (p_pagetable (procs s ! me c s)) (addr + of_nat r)" using 3(3) room r(1,3) by auto
    moreover have "\<not> (\<not> readopen (pipes s pi) \<or> p_killed (procs s ! me c s) \<noteq> 0)" using 3(1,2) by simp
    ultimately show ?thesis unfolding if_not_P [OF 3(3)]
      using pipewrite_returns [OF assms(1,5) 3(2) assms(3) 3(1), of r addr k] r(2) by (simp only: if_False) blast
  qed
qed

lemma not_in_range_next:
  assumes "k < 2 ^ 64"
  shows "\<not> in_range (a + 1) k (a :: u64)"
proof -
  have "a - (a + 1) = (- 1 :: u64)" by simp
  then have "unat (a - (a + 1)) = 2 ^ 64 - 1" by (simp add: unsigned_minus_1_eq_mask mask_eq_exp_minus_1)
  then show ?thesis using assms by (simp add: in_range_def)
qed

lemma pheld_mem [simp]: "(pheld c pi s q)\<lparr>mem := m\<rparr> = pheld c pi (s\<lparr>mem := m\<rparr>) q"
  by (cases s) (simp add: pheld_def)

lemma calm_mem [simp]: "calm c (s\<lparr>mem := m\<rparr>) = calm c s"
  by (simp add: calm_def del: calm_simps)

text \<open>\<open>user_filled\<close>: the user's memory after \<open>bs\<close> was stored at \<open>a\<close>.\<close>

definition user_filled :: "u64 \<Rightarrow> u64 \<Rightarrow> u8 list \<Rightarrow> mem \<Rightarrow> mem \<Rightarrow> bool" where
  "user_filled pt a bs m m' \<longleftrightarrow> pte_of m' pt = pte_of m pt \<and> user_space m' pt \<and>
     (\<forall>va. readable m pt va \<longrightarrow> user_byte m' pt va =
        (if in_range a (List.length bs) va then bs ! unat (va - a) else user_byte m pt va))"

lemma user_filled_Nil: "user_space m pt \<Longrightarrow> user_filled pt a [] m m"
  by (simp add: user_filled_def in_range_def)

lemma readable_same: "pte_of m' pt = pte_of m pt \<Longrightarrow> readable m' pt = readable m pt \<and> writable m' pt = writable m pt"
  by (auto simp: readable_def writable_def)

lemma user_filled_Cons:
  assumes "user_filled pt a [b] m m'" and "user_filled pt (a + 1) bs m' m''" and "List.length bs < 2 ^ 64"
  shows "user_filled pt a (b # bs) m m''"
proof -
  note r = in_range_Suc [OF assms(3)] not_in_range_next [OF assms(3)]
  have z: "in_range x 0 y = False" for x y :: u64 by (simp add: in_range_def)
  have u1: "pte_of m' pt = pte_of m pt" "\<And>va. readable m pt va \<Longrightarrow> user_byte m' pt va = (if va = a then b else user_byte m pt va)"
    using assms(1) in_range_Suc [of 0 a] z by (simp_all add: user_filled_def)
  have u2: "pte_of m'' pt = pte_of m' pt" "user_space m'' pt" "\<And>va. readable m' pt va \<Longrightarrow> user_byte m'' pt va =
      (if in_range (a + 1) (List.length bs) va then bs ! unat (va - (a + 1)) else user_byte m' pt va)"
    using assms(2) by (simp_all add: user_filled_def)
  note rd = readable_same [OF u1(1), THEN conjunct1]
  have nz: "unat (va - a) = Suc (unat (va - (a + 1)))" if "in_range (a + 1) (List.length bs) va" for va
  proof -
    have "va \<noteq> a" using r(2) that by auto
    then have "va - a \<noteq> 0" by simp
    then have "unat (va - a - 1) = unat (va - a) - 1" "0 < unat (va - a)" by (simp_all add: unat_minus_one unat_gt_0)
    then show ?thesis by (simp add: algebra_simps)
  qed
  have "user_byte m'' pt va = (if in_range a (Suc (List.length bs)) va then (b # bs) ! unat (va - a) else user_byte m pt va)"
    if va: "readable m pt va" for va
    unfolding u2(3) [OF va [folded rd]] u1(2) [OF va] r(1) using r(2) nz [of va] by auto
  then show ?thesis using u1(1) u2(1,2) by (simp add: user_filled_def)
qed

lemma copyout_byte:
  assumes "user_space (mem s) pt" and "writable (mem s) pt a"
  shows "\<exists>m'. copyout c pt a [b] s = Ret 0 (s\<lparr>mem := m'\<rparr>) \<and> user_filled pt a [b] (mem s) m'"
  using copyout_result [OF assms(1), of "[b]" c a] assms(2) by (simp add: user_filled_def)

lemma piperead_steps:
  assumes "calm c s" and "user_space (mem s) (p_pagetable (procs s ! pr))" and "pipe_ok q"
    and "k \<le> List.length (pipe_content q)" and "int (m + k) \<le> n"
    and "\<forall>i < k. writable (mem s) (p_pagetable (procs s ! pr)) (addr + of_nat m + of_nat i)"
  shows "\<exists>q' m'. piperead_copy c pr pi addr n (int m) (pheld c pi s q) =
       piperead_copy c pr pi addr n (int (m + k)) (pheld c pi (s\<lparr>mem := m'\<rparr>) q') \<and> pipe_ok q' \<and>
     pipe_content q' = drop k (pipe_content q) \<and>
     user_filled (p_pagetable (procs s ! pr)) (addr + of_nat m) (take k (pipe_content q)) (mem s) m'"
  using assms
proof (induction k arbitrary: q m s)
  case 0
  then show ?case by (intro exI [of _ q] exI [of _ "mem s"]) (simp add: user_filled_Nil)
next
  case (Suc k q m s)
  let ?pt = "p_pagetable (procs s ! pr)" and ?a = "addr + of_nat m"
  obtain b q1 where g: "pipe_get q = (b, q1)" by (metis surj_pair)
  have ne: "\<not> pipe_empty q" using Suc.prems(3,4) pipeq.empty_iff [OF Suc.prems(3)] by auto
  have c1: "pipe_content q = b # pipe_content q1" and o1: "pipe_ok q1"
    using pipeq.get_content [OF Suc.prems(3) ne] pipeq.get_ok [OF Suc.prems(3) ne] g by simp_all
  have "writable (mem s) ?pt (?a + of_nat 0)" using Suc.prems(6) by blast
  then have w: "writable (mem s) ?pt ?a" by simp
  obtain m1 where m1: "copyout c ?pt ?a [b] (pheld c pi s q1) = Ret 0 (pheld c pi (s\<lparr>mem := m1\<rparr>) q1)"
      "user_filled ?pt ?a [b] (mem s) m1"
    using copyout_byte [of "pheld c pi s q1" ?pt ?a c b] Suc.prems(2) w by auto
  have st: "piperead_copy c pr pi addr n (int m) (pheld c pi s q) =
      piperead_copy c pr pi addr n (int (Suc m)) (pheld c pi (s\<lparr>mem := m1\<rparr>) q1)"
    by (subst piperead_copy.simps) (use ne g m1(1) Suc.prems(5) in \<open>simp add: add.commute\<close>)
  have us: "user_space m1 ?pt" and pt1: "pte_of m1 ?pt = pte_of (mem s) ?pt" using m1(2) by (simp_all add: user_filled_def)
  have a1: "addr + of_nat (Suc m) = ?a + 1" by simp
  have "writable m1 ?pt (?a + 1 + of_nat i)" if "i < k" for i
  proof -
    have "writable (mem s) ?pt (?a + of_nat (Suc i))" using Suc.prems(6) that by blast
    then show ?thesis using readable_same [OF pt1] by (simp add: algebra_simps)
  qed
  then obtain q' m' where ih: "piperead_copy c pr pi addr n (int (Suc m)) (pheld c pi (s\<lparr>mem := m1\<rparr>) q1) =
       piperead_copy c pr pi addr n (int (Suc m + k)) (pheld c pi (s\<lparr>mem := m'\<rparr>) q')" "pipe_ok q'"
     "pipe_content q' = drop k (pipe_content q1)" "user_filled ?pt (?a + 1) (take k (pipe_content q1)) m1 m'"
    using Suc.IH [of "s\<lparr>mem := m1\<rparr>" q1 "Suc m"] Suc.prems(1,4,5) us o1 c1 unfolding a1 by auto
  have "List.length (take k (pipe_content q1)) < 2 ^ 64"
    using pipeq.content_bound [OF o1] by (simp add: PIPESIZE_def)
  then have "user_filled ?pt ?a (take (Suc k) (pipe_content q)) (mem s) m'"
    using user_filled_Cons [OF m1(2) ih(4)] c1 by simp
  then show ?case using st ih(1-3) c1 by (intro exI [of _ q'] exI [of _ m']) simp
qed

lemma piperead_enter:
  assumes "calm c s"
  shows "piperead c pi addr n s = piperead_loop c (me c s) pi addr n (pheld c pi s (pipes s pi))"
proof -
  have "s\<lparr>kmach := acquired c (LPipe pi) (after_cs c (kmach s))\<rparr> = pheld c pi s (pipes s pi)"
    using assms by (simp add: pheld_def)
  then show ?thesis using assms calm_proc [OF assms] by (simp add: piperead_def)
qed

lemma piperead_waits:
  assumes s: "calm c s" "noff (cpus (kmach s) c) = 0" and q: "pipe_empty (pipes s pi)" "writeopen (pipes s pi)"
  shows "if p_killed (procs s ! me c s) \<noteq> 0 then piperead c pi addr n s = Ret (-1) (s\<lparr>kmach := after_cs c (kmach s)\<rparr>)
     else \<exists>m. piperead c pi addr n s = Slept (s\<lparr>kmach := m, procs := (procs s)[me c s :=
       (procs s ! me c s)\<lparr>p_chan := Some (ChPipeRead pi), p_state := SLEEPING\<rparr>]\<rparr>) \<and> lock_free (LPipe pi) m"
proof -
  let ?h = "pheld c pi s (pipes s pi)"
  have rel: "k_release c (LPipe pi) ?h = Ret () (?h\<lparr>kmach := after_cs c (kmach s)\<rparr>)"
    using s(1) by (intro k_release_ok) simp_all
  have h: "?h\<lparr>kmach := m\<rparr> = s\<lparr>kmach := m\<rparr>" for m by (cases s) (simp add: pheld_def)
  obtain m where sl: "sleep c (Some (ChPipeRead pi)) (LPipe pi) ?h =
      (Slept (?h\<lparr>kmach := m, procs := (procs s)[me c s := (procs s ! me c s)\<lparr>p_chan := Some (ChPipeRead pi), p_state := SLEEPING\<rparr>]\<rparr>)
        :: ('a pipe_st_scheme, int) outcome)" and fr: "lock_free (LPipe pi) m"
    using sleep_locked [OF s, of "LPipe pi" ?h "Some (ChPipeRead pi)"] by auto
  show ?thesis unfolding piperead_enter [OF s(1)] piperead_loop_def using s q rel fr by (auto simp: sl h)
qed

text \<open>The copying loop where it stops: the count is reached, the pipe is empty, or the address is not writable; then a byte has been taken.\<close>

lemma piperead_stops:
  assumes "user_space (mem s) (p_pagetable (procs s ! pr))" and "pipe_ok q"
    and "if full then \<not> (int w < n \<and> pipe_content q \<noteq> [])
      else int w < n \<and> pipe_content q \<noteq> [] \<and> \<not> writable (mem s) (p_pagetable (procs s ! pr)) (addr + of_nat w)"
  shows "\<exists>q'. piperead_copy c pr pi addr n (int w) (pheld c pi s q) = Ret (int w) (pheld c pi s q') \<and> pipe_ok q' \<and>
    pipe_content q' = (if full then pipe_content q else tl (pipe_content q))"
proof (cases full)
  case True
  then show ?thesis using assms(3) pipeq.empty_iff [OF assms(2)]
    by (intro exI [of _ q]) (subst piperead_copy.simps, use assms(2) in auto)
next
  case False
  then have f: "int w < n" "\<not> pipe_empty q" "\<not> writable (mem s) (p_pagetable (procs s ! pr)) (addr + of_nat w)"
    using assms(3) pipeq.empty_iff [OF assms(2)] by auto
  obtain b q1 where g: "pipe_get q = (b, q1)" by (metis surj_pair)
  have c1: "pipe_content q = b # pipe_content q1" and o1: "pipe_ok q1"
    using pipeq.get_content [OF assms(2) f(2)] pipeq.get_ok [OF assms(2) f(2)] g by simp_all
  have "copyout c (p_pagetable (procs s ! pr)) (addr + of_nat w) [b] (pheld c pi s q1) = Ret (-1) (pheld c pi s q1)"
    using copyout_page [of "pheld c pi s q1" "p_pagetable (procs s ! pr)" "[b]" c "addr + of_nat w"] assms(1) f(3) by simp
  then have "piperead_copy c pr pi addr n (int w) (pheld c pi s q) = Ret (int w) (pheld c pi s q1)"
    by (subst piperead_copy.simps) (use f g in simp)
  then show ?thesis using False c1 o1 by (intro exI [of _ q1]) simp
qed

lemma piperead_copies:
  assumes s: "calm c s" "user_space (mem s) (p_pagetable (procs s ! me c s))"
    and q: "pipe_ok (pipes s pi)" "\<not> (pipe_empty (pipes s pi) \<and> writeopen (pipes s pi))"
    and k: "k = min n (List.length (pipe_content (pipes s pi)))"
    and w: "w = leading (\<lambda>i. writable (mem s) (p_pagetable (procs s ! me c s)) (addr + of_nat i)) k"
  shows "\<exists>t q. piperead c pi addr (int n) s = Ret (int w) t \<and> wakes_exactly c (ChPipeWrite pi) s t \<and>
     t = s\<lparr>mem := mem t, kmach := after_cs c (kmach s), procs := procs t, pipes := (pipes s)(pi := q)\<rparr> \<and> pipe_ok q \<and>
     pipe_content q = drop (if w < k then Suc w else w) (pipe_content (pipes s pi)) \<and>
     user_filled (p_pagetable (procs s ! me c s)) addr (take w (pipe_content (pipes s pi))) (mem s) (mem t)"
proof -
  let ?h = "pheld c pi s (pipes s pi)" and ?pt = "p_pagetable (procs s ! me c s)"
  note lead = leadingD [where P = "\<lambda>i. writable (mem s) ?pt (addr + of_nat i)" and k = k, folded w]
  have wl: "w \<le> List.length (pipe_content (pipes s pi))" and wn: "int (0 + w) \<le> int n" using k lead(1) by simp_all
  have w0: "\<forall>i < w. writable (mem s) ?pt (addr + of_nat 0 + of_nat i)" using lead(2) by simp
  obtain q' m' where st: "piperead_copy c (me c s) pi addr (int n) (int 0) ?h =
       piperead_copy c (me c s) pi addr (int n) (int (0 + w)) (pheld c pi (s\<lparr>mem := m'\<rparr>) q')" "pipe_ok q'"
     "pipe_content q' = drop w (pipe_content (pipes s pi))"
     "user_filled ?pt (addr + of_nat 0) (take w (pipe_content (pipes s pi))) (mem s) m'"
    using piperead_steps [OF s(1,2) q(1) wl wn w0, of pi] by (elim exE conjE) (rule that)
  let ?s = "s\<lparr>mem := m'\<rparr>"
  have us: "user_space (mem ?s) (p_pagetable (procs ?s ! me c s))" and pt: "pte_of m' ?pt = pte_of (mem s) ?pt"
    using st(4) by (simp_all add: user_filled_def)
  have "if w = k then \<not> (int w < int n \<and> pipe_content q' \<noteq> [])
      else int w < int n \<and> pipe_content q' \<noteq> [] \<and> \<not> writable (mem ?s) (p_pagetable (procs ?s ! me c s)) (addr + of_nat w)"
  proof (cases "w = k")
    case False
    then have "w < k" using lead(1) by simp
    then show ?thesis using False lead(3) k st(3) readable_same [OF pt] by simp
  qed (use k st(3) in auto)
  from piperead_stops [OF us st(2) this, of c pi] obtain q1 where
    q1: "piperead_copy c (me c s) pi addr (int n) (int w) (pheld c pi ?s q') = Ret (int w) (pheld c pi ?s q1)" "pipe_ok q1"
     "pipe_content q1 = (if w = k then pipe_content q' else tl (pipe_content q'))" by blast
  have cp: "piperead_copy c (me c s) pi addr (int n) 0 ?h = Ret (int w) (pheld c pi ?s q1)" using st(1) q1(1) by simp
  have "calm c ?s" using s(1) by simp
  from pheld_finish [OF this, of "Some (ChPipeWrite pi)" pi q1 "int w"]
  obtain ps where ps: "andthen (wakeup c (Some (ChPipeWrite pi)) (pheld c pi ?s q1))
       (\<lambda>_ s. andthen (k_release c (LPipe pi) s) (\<lambda>_ s. Ret (int w) s)) =
     Ret (int w) (s\<lparr>mem := m', kmach := after_cs c (kmach s), procs := ps, pipes := (pipes s)(pi := q1)\<rparr>)" "List.length ps = NPROC"
     "\<forall>i < NPROC. ps ! i = woken (Some (me c s)) (Some (ChPipeWrite pi)) i (procs s ! i)"
    by (elim exE conjE) (rule that, simp_all)
  let ?t = "s\<lparr>mem := m', kmach := after_cs c (kmach s), procs := ps, pipes := (pipes s)(pi := q1)\<rparr>"
  have "piperead c pi addr (int n) s = Ret (int w) ?t"
    unfolding piperead_enter [OF s(1)] piperead_loop_def using q(2) by (auto simp: cp ps(1))
  moreover have "wakes_exactly c (ChPipeWrite pi) s ?t" using ps(2,3) by (simp add: wakes_exactly_def)
  moreover have "pipe_content q1 = drop (if w < k then Suc w else w) (pipe_content (pipes s pi))"
    using q1(3) st(3) lead(1) by (auto simp: drop_Suc tl_drop)
  ultimately show ?thesis using q1(2) st(4) by (intro exI [of _ ?t] exI [of _ q1]) simp
qed

text \<open>
  C17. What \<^verbatim>\<open>piperead\<close> does, in every case.  On an empty pipe whose write side is open it returns -1 to a killed caller and otherwise
  sleeps as a reader, the lock free, and nothing else changes.  In every other case let \<open>k\<close> be the smaller of the count and the
  bytes available and \<open>w\<close> the number of leading writable bytes of the caller's buffer among them: it returns \<open>w\<close>, the first \<open>w\<close> bytes of
  the pipe are in the caller's memory and nowhere else has that memory changed, exactly the processes asleep on the pipe as
  writers are runnable, and the bytes that left the pipe are those, and one more that is lost when \<open>w\<close> is below \<open>k\<close>.
\<close>

theorem piperead_correct:
  assumes "calm c s" and "noff (cpus (kmach s) c) = 0" and "pipe_ok (pipes s pi)"
    and "user_space (mem s) (p_pagetable (procs s ! me c s))"
    and "k = min n (List.length (pipe_content (pipes s pi)))"
    and "w = leading (\<lambda>i. writable (mem s) (p_pagetable (procs s ! me c s)) (addr + of_nat i)) k"
  shows "if pipe_content (pipes s pi) = [] \<and> writeopen (pipes s pi)
     then if p_killed (procs s ! me c s) \<noteq> 0 then piperead c pi addr (int n) s = Ret (-1) (s\<lparr>kmach := after_cs c (kmach s)\<rparr>)
       else \<exists>m. piperead c pi addr (int n) s = Slept (s\<lparr>kmach := m, procs := (procs s)[me c s :=
         (procs s ! me c s)\<lparr>p_chan := Some (ChPipeRead pi), p_state := SLEEPING\<rparr>]\<rparr>) \<and> lock_free (LPipe pi) m
     else \<exists>t q. piperead c pi addr (int n) s = Ret (int w) t \<and> wakes_exactly c (ChPipeWrite pi) s t \<and>
       t = s\<lparr>mem := mem t, kmach := after_cs c (kmach s), procs := procs t, pipes := (pipes s)(pi := q)\<rparr> \<and> pipe_ok q \<and>
       pipe_content q = drop (if w < k then Suc w else w) (pipe_content (pipes s pi)) \<and>
       user_filled (p_pagetable (procs s ! me c s)) addr (take w (pipe_content (pipes s pi))) (mem s) (mem t)"
proof (cases "pipe_empty (pipes s pi) \<and> writeopen (pipes s pi)")
  case True
  then show ?thesis using piperead_waits [OF assms(1,2), of pi addr "int n"] pipeq.empty_iff [OF assms(3)] by simp
next
  case False
  then have "\<not> (pipe_content (pipes s pi) = [] \<and> writeopen (pipes s pi))" using pipeq.empty_iff [OF assms(3)] by simp
  then show ?thesis using piperead_copies [OF assms(1,4,3) False assms(5,6)] by (simp only: if_False)
qed

text \<open>A machine in which process 0 has one page of memory and process 1 sleeps on \<open>ch\<close>, and a pipe in the page at 0x80500000.\<close>

definition pipe_world :: "mem \<Rightarrow> chan \<Rightarrow> pipe \<Rightarrow> pipe_st" where
  "pipe_world m ch q = \<lparr>kmach = upd_cpu 0 (\<lambda>k. k\<lparr>cpu_proc := Some 0\<rparr>) (kmach boot_kmem), mem = m, freelist = 0,
     kernel_pagetable = 0, satp = (\<lambda>_. 0), procs = (replicate NPROC idle_proc)[0 := idle_proc\<lparr>p_pagetable := 0x80200000\<rparr>,
       1 := idle_proc\<lparr>p_state := SLEEPING, p_chan := Some ch\<rparr>], nextpid = 8, initproc = Some 0, slks = (\<lambda>_. \<lparr>sl_locked = False, sl_name = [], sl_pid = 0\<rparr>),
     bufs = replicate (Suc NBUF) zero_buf, disk = (\<lambda>_. replicate BSIZE 0), dtrace = [], logs = one_block_log,
     sb = get_sb (replicate BSIZE 0), inodes = [], uart_tx_buf = replicate 32 0, uart_tx_w = 0, uart_tx_r = 0,
     panicked = False, u_ans = [], u_trace = [], pr_locking = True, cons_buf = replicate 128 0, cons_r = 0, cons_w = 0,
     cons_e = 0, devsw = replicate NDEV (None, None), pipes = (\<lambda>_. q)\<rparr>"

lemma pipe_world_simps [simp]:
  "pipes (pipe_world m ch q) pi = q" "mem (pipe_world m ch q) = m" "me 0 (pipe_world m ch q) = 0"
  "noff (cpus (kmach (pipe_world m ch q)) 0) = 0"
  "procs (pipe_world m ch q) ! Suc 0 = idle_proc\<lparr>p_state := SLEEPING, p_chan := Some ch\<rparr>"
  "p_pagetable (procs (pipe_world m ch q) ! 0) = 0x80200000" "p_killed (procs (pipe_world m ch q) ! 0) = 0"
  by (simp_all add: pipe_world_def boot_kmem_def upd_cpu_def idle_proc_def NPROC_def)

lemma pipe_world_calm: "calm 0 (pipe_world m ch q)"
  by (simp add: calm_def pipe_world_def boot_kmem_def upd_cpu_def cpu_ok_def lock_free_def NPROC_def del: calm_simps)

lemma low_page:
  assumes "i < 3"
  shows "unat (100 + of_nat i :: u64) < 4096"
  using unat_plus_offset [of 100 10 i] assms by simp

lemma leading_all: "\<forall>i < k. P i \<Longrightarrow> leading P k = k"
  by (metis leadingD(1,3) le_neq_implies_less)

theorem pipewrite_correct_witness:
  "\<exists>m t. pipewrite 0 0x80500000 100 3 (pipe_world m (ChPipeRead 0x80500000) wrap_pipe) = Ret 3 t \<and>
     pipe_content (pipes t 0x80500000) = user_bytes m 0x80200000 100 3 \<and> p_state (procs t ! 1) = RUNNABLE"
proof -
  obtain s :: kmem_st where s: "user_space (mem s) 0x80200000"
    "\<And>va. unat va < 4096 \<Longrightarrow> writable (mem s) 0x80200000 va"
    by (rule one_user_page) blast
  let ?w = "pipe_world (mem s) (ChPipeRead 0x80500000) wrap_pipe"
  have n: "noff (cpus (kmach ?w) 0) = 0" and o: "pipe_ok (pipes ?w 0x80500000)" and z: "0 < (3 :: nat)"
    and t: "pt_tree (mem ?w) 2 (p_pagetable (procs ?w ! me 0 ?w))"
    using s(1) wrap_pipe_ok by (simp_all add: user_space_def)
  have e: "pipe_content wrap_pipe = []" by (simp add: wrap_pipe_def pipe_content_def ring_empty_iff)
  have rd: "\<forall>i < 3. readable (mem s) 0x80200000 (100 + of_nat i)"
    using s(2) low_page by (auto simp: writable_def)
  have r: "3 = leading (\<lambda>i. readable (mem ?w) (p_pagetable (procs ?w ! me 0 ?w)) (100 + of_nat i)) 3"
    using leading_all [OF rd] by simp
  have "readopen wrap_pipe" by (simp add: wrap_pipe_def)
  then obtain t q where tq: "pipewrite 0 0x80500000 100 (int 3) ?w = Ret (int 3) t" "wakes_exactly 0 (ChPipeRead 0x80500000) ?w t"
     "t = ?w\<lparr>kmach := after_cs 0 (kmach ?w), procs := procs t, pipes := (pipes ?w)(0x80500000 := q)\<rparr>"
     "pipe_content q = user_bytes (mem s) 0x80200000 100 3"
    using pipewrite_correct [OF pipe_world_calm n o z t r refl] e by auto
  have "pipes t 0x80500000 = q" by (subst tq(3)) simp
  moreover have "procs t ! 1 = woken (Some 0) (Some (ChPipeRead 0x80500000)) 1 (procs ?w ! 1)"
    using tq(2) unfolding wakes_exactly_def by (simp add: NPROC_def)
  then have "p_state (procs t ! 1) = RUNNABLE" by (simp add: woken_def)
  ultimately show ?thesis using tq(1,4) by auto
qed

definition full_pipe :: pipe where
  "full_pipe = \<lparr>pi_data = replicate 512 7, nread = 0xFFFFFFFF, nwrite = 511, readopen = True, writeopen = True\<rparr>"

lemma full_pipe_ok: "pipe_ok full_pipe" "List.length (pipe_content full_pipe) = 512"
  by (simp_all add: pipe_ok_def pipe_content_def ring_ok_def full_pipe_def PIPESIZE_def)

theorem piperead_correct_witness:
  "\<exists>m t. piperead 0 0x80500000 100 3 (pipe_world m (ChPipeWrite 0x80500000) full_pipe) = Ret 3 t \<and>
     user_filled 0x80200000 100 (take 3 (pipe_content full_pipe)) m (mem t) \<and> p_state (procs t ! 1) = RUNNABLE"
proof -
  obtain s :: kmem_st where s: "user_space (mem s) 0x80200000"
    "\<And>va. unat va < 4096 \<Longrightarrow> writable (mem s) 0x80200000 va"
    by (rule one_user_page) blast
  let ?w = "pipe_world (mem s) (ChPipeWrite 0x80500000) full_pipe"
  have n: "noff (cpus (kmach ?w) 0) = 0" and o: "pipe_ok (pipes ?w 0x80500000)"
    and u: "user_space (mem ?w) (p_pagetable (procs ?w ! me 0 ?w))"
    and k: "3 = min 3 (List.length (pipe_content (pipes ?w 0x80500000)))"
    using s(1) full_pipe_ok by simp_all
  have ne: "\<not> (pipe_content full_pipe = [] \<and> writeopen full_pipe)" using full_pipe_ok(2) by auto
  have "\<forall>i < 3. writable (mem s) 0x80200000 (100 + of_nat i)" using s(2) low_page by auto
  then have w: "3 = leading (\<lambda>i. writable (mem ?w) (p_pagetable (procs ?w ! me 0 ?w)) (100 + of_nat i)) 3"
    using leading_all by simp
  obtain t where t: "piperead 0 0x80500000 100 (int 3) ?w = Ret (int 3) t" "wakes_exactly 0 (ChPipeWrite 0x80500000) ?w t"
      "user_filled 0x80200000 100 (take 3 (pipe_content full_pipe)) (mem s) (mem t)"
    using piperead_correct [OF pipe_world_calm n o u k w] ne by auto
  have "procs t ! 1 = woken (Some 0) (Some (ChPipeWrite 0x80500000)) 1 (procs ?w ! 1)"
    using t(2) unfolding wakes_exactly_def by (simp add: NPROC_def)
  then have "p_state (procs t ! 1) = RUNNABLE" by (simp add: woken_def)
  then show ?thesis using t(1,3) by auto
qed

end
