(* ===== verification/File.thy ===== *)
theory File
  imports Pipe
begin

text \<open>
  \<^verbatim>\<open>kernel/file.c\<close> and \<^verbatim>\<open>pipealloc\<close>: the table of open files.  A \<^verbatim>\<open>struct file *\<close> is an index into the table.
\<close>

datatype fd_type = FD_NONE | FD_PIPE | FD_INODE | FD_DEVICE

record open_file =
  f_type :: fd_type
  f_ref :: int
  f_readable :: bool
  f_writable :: bool
  f_pipe :: u64
  f_ip :: nat
  f_off :: u32
  f_major :: u16

record file_st = pipe_st +
  files :: "open_file list"

definition NFILE :: nat where "NFILE = 100"

definition upd_file :: "nat \<Rightarrow> (open_file \<Rightarrow> open_file) \<Rightarrow> 'z file_st_scheme \<Rightarrow> 'z file_st_scheme" where
  "upd_file f g s = s\<lparr>files := (files s)[f := g (files s ! f)]\<rparr>"

abbreviation fil :: "'z file_st_scheme \<Rightarrow> nat \<Rightarrow> open_file" where
  "fil s f \<equiv> files s ! f"

definition fileinit :: "'z file_st_scheme \<Rightarrow> 'z file_st_scheme" where
  "fileinit s = s\<lparr>kmach := initlock LFtable ''ftable'' (kmach s)\<rparr>"

definition filealloc :: "nat \<Rightarrow> 'z file_st_scheme \<Rightarrow> ('z file_st_scheme, nat option) outcome" where
  "filealloc c s =
     andthen (k_acquire c LFtable s) (\<lambda>_ s.
     case first_index (\<lambda>x. f_ref x = 0) (files s) of
       Some f \<Rightarrow> andthen (k_release c LFtable (upd_file f (\<lambda>x. x\<lparr>f_ref := 1\<rparr>) s)) (\<lambda>_ s. Ret (Some f) s)
     | None \<Rightarrow> andthen (k_release c LFtable s) (\<lambda>_ s. Ret None s))"

definition filedup :: "nat \<Rightarrow> nat \<Rightarrow> 'z file_st_scheme \<Rightarrow> ('z file_st_scheme, nat) outcome" where
  "filedup c f s =
     andthen (k_acquire c LFtable s) (\<lambda>_ s.
     if f_ref (fil s f) < 1 then Panic ''filedup''
     else andthen (k_release c LFtable (upd_file f (\<lambda>x. x\<lparr>f_ref := f_ref x + 1\<rparr>) s)) (\<lambda>_ s. Ret f s))"

definition fileclose :: "u64 \<Rightarrow> nat \<Rightarrow> nat \<Rightarrow> 'z file_st_scheme \<Rightarrow> ('z file_st_scheme, unit) outcome" where
  "fileclose kend c f s =
     andthen (k_acquire c LFtable s) (\<lambda>_ s.
     if f_ref (fil s f) < 1 then Panic ''fileclose''
     else
       let s = upd_file f (\<lambda>x. x\<lparr>f_ref := f_ref x - 1\<rparr>) s in
       if f_ref (fil s f) > 0 then k_release c LFtable s
       else
         let ff = fil s f;
             s = upd_file f (\<lambda>x. x\<lparr>f_ref := 0, f_type := FD_NONE\<rparr>) s
         in andthen (k_release c LFtable s) (\<lambda>_ s.
            case f_type ff of
              FD_PIPE \<Rightarrow> pipeclose kend c (f_pipe ff) (f_writable ff) s
            | FD_NONE \<Rightarrow> Ret () s
            | _ \<Rightarrow>
                andthen (begin_op c s) (\<lambda>_ s.
                andthen (iput c (f_ip ff) s) (\<lambda>_ s.
                end_op c s))))"

text \<open>The 24 bytes of a \<^verbatim>\<open>struct stat\<close>: \<^verbatim>\<open>dev\<close>, \<^verbatim>\<open>ino\<close>, \<^verbatim>\<open>type\<close>, \<^verbatim>\<open>nlink\<close>, 4 bytes of padding whose content is not specified, \<^verbatim>\<open>size\<close>.\<close>

definition stat_bytes :: "u8 list \<Rightarrow> fstat \<Rightarrow> u8 list" where
  "stat_bytes pad st =
     put32 0 (word_of_int (st_dev st)) (replicate 4 0) @ put32 0 (st_ino st) (replicate 4 0) @
     put16 0 (st_type st) (replicate 2 0) @ put16 0 (st_nlink st) (replicate 2 0) @ take 4 pad @
     put32 0 (ucast (st_size st)) (replicate 4 0) @ put32 0 (ucast (drop_bit 32 (st_size st))) (replicate 4 0)"

definition filestat ::
    "u8 list \<Rightarrow> nat \<Rightarrow> nat \<Rightarrow> u64 \<Rightarrow> 'z file_st_scheme \<Rightarrow> ('z file_st_scheme, int) outcome" where
  "filestat pad c f addr s =
     andthen (curproc c s) (\<lambda>p s.
     if f_type (fil s f) = FD_INODE \<or> f_type (fil s f) = FD_DEVICE then
       andthen (ilock c (f_ip (fil s f)) s) (\<lambda>_ s.
       let st = stati (ino s (f_ip (fil s f))) in
       andthen (iunlock c (f_ip (fil s f)) s) (\<lambda>_ s.
       andthen (copyout c (p_pagetable (procs s ! p)) addr (stat_bytes pad st) s) (\<lambda>r s.
       Ret (if r < 0 then -1 else 0) s)))
     else Ret (-1) s)"

text \<open>The call through \<^verbatim>\<open>devsw\<close>.\<close>

definition dev_call ::
    "nat \<Rightarrow> dev_fn \<Rightarrow> u64 \<Rightarrow> int \<Rightarrow> 'z file_st_scheme \<Rightarrow> ('z file_st_scheme, int) outcome" where
  "dev_call c fn addr n s =
     (case fn of Consoleread \<Rightarrow> consoleread c True addr n s | Consolewrite \<Rightarrow> consolewrite c True addr n s)"

definition dev_entry :: "open_file \<Rightarrow> 'z file_st_scheme \<Rightarrow> dev_fn option \<times> dev_fn option" where
  "dev_entry x s =
     (if sint (f_major x) < 0 \<or> sint (f_major x) \<ge> int NDEV then (None, None) else devsw s ! unat (f_major x))"

definition fileread :: "nat \<Rightarrow> nat \<Rightarrow> u64 \<Rightarrow> int \<Rightarrow> 'z file_st_scheme \<Rightarrow> ('z file_st_scheme, int) outcome" where
  "fileread c f addr n s =
     (if \<not> f_readable (fil s f) then Ret (-1) s
      else case f_type (fil s f) of
        FD_PIPE \<Rightarrow> piperead c (f_pipe (fil s f)) addr n s
      | FD_DEVICE \<Rightarrow>
          (case fst (dev_entry (fil s f) s) of None \<Rightarrow> Ret (-1) s | Some fn \<Rightarrow> dev_call c fn addr n s)
      | FD_INODE \<Rightarrow>
          andthen (ilock c (f_ip (fil s f)) s) (\<lambda>_ s.
          andthen (readi c (f_ip (fil s f)) (DUser addr) (f_off (fil s f)) (word_of_int n) s) (\<lambda>(r, _) s.
          let s = (if r > 0 then upd_file f (\<lambda>x. x\<lparr>f_off := f_off x + word_of_int r\<rparr>) s else s) in
          andthen (iunlock c (f_ip (fil s f)) s) (\<lambda>_ s. Ret r s)))
      | FD_NONE \<Rightarrow> Panic ''fileread'')"

definition max_write :: int where
  "max_write = ((MAXOPBLOCKS - 1 - 1 - 2) div 2) * int BSIZE"

function filewrite_loop ::
    "nat \<Rightarrow> nat \<Rightarrow> u64 \<Rightarrow> int \<Rightarrow> int \<Rightarrow> 'z file_st_scheme \<Rightarrow> ('z file_st_scheme, int) outcome" where
  "filewrite_loop c f addr n i s =
     (if i < n then
        let n1 = min (n - i) max_write in
        andthen (begin_op c s) (\<lambda>_ s.
        andthen (ilock c (f_ip (fil s f)) s) (\<lambda>_ s.
        andthen (writei c (f_ip (fil s f)) (SUser (addr + word_of_int i)) (f_off (fil s f)) (word_of_int n1) s) (\<lambda>r s.
        let s = (if r > 0 then upd_file f (\<lambda>x. x\<lparr>f_off := f_off x + word_of_int r\<rparr>) s else s) in
        andthen (iunlock c (f_ip (fil s f)) s) (\<lambda>_ s.
        andthen (end_op c s) (\<lambda>_ s.
        if r \<noteq> n1 then Ret i s else filewrite_loop c f addr n (i + r) s)))))
      else Ret i s)"
  by pat_completeness auto
termination
  by (relation "measure (\<lambda>(_, _, _, n, i, _). nat (n - i))") (auto simp: max_write_def MAXOPBLOCKS_def BSIZE_def)

declare filewrite_loop.simps [simp del]

definition filewrite :: "nat \<Rightarrow> nat \<Rightarrow> u64 \<Rightarrow> int \<Rightarrow> 'z file_st_scheme \<Rightarrow> ('z file_st_scheme, int) outcome" where
  "filewrite c f addr n s =
     (if \<not> f_writable (fil s f) then Ret (-1) s
      else case f_type (fil s f) of
        FD_PIPE \<Rightarrow> pipewrite c (f_pipe (fil s f)) addr n s
      | FD_DEVICE \<Rightarrow>
          (case snd (dev_entry (fil s f) s) of None \<Rightarrow> Ret (-1) s | Some fn \<Rightarrow> dev_call c fn addr n s)
      | FD_INODE \<Rightarrow> andthen (filewrite_loop c f addr n 0 s) (\<lambda>i s. Ret (if i = n then n else -1) s)
      | FD_NONE \<Rightarrow> Panic ''filewrite'')"

section \<open>Pipes as pairs of files\<close>

definition pipealloc_bad ::
    "u64 \<Rightarrow> nat \<Rightarrow> nat option \<Rightarrow> nat option \<Rightarrow> 'z file_st_scheme \<Rightarrow> ('z file_st_scheme, (nat \<times> nat) option) outcome" where
  "pipealloc_bad kend c f0 f1 s =
     andthen (case f0 of Some f \<Rightarrow> fileclose kend c f s | None \<Rightarrow> Ret () s) (\<lambda>_ s.
     andthen (case f1 of Some f \<Rightarrow> fileclose kend c f s | None \<Rightarrow> Ret () s) (\<lambda>_ s.
     Ret None s))"

definition pipealloc :: "u64 \<Rightarrow> nat \<Rightarrow> 'z file_st_scheme \<Rightarrow> ('z file_st_scheme, (nat \<times> nat) option) outcome" where
  "pipealloc kend c s =
     andthen (filealloc c s) (\<lambda>r0 s.
     case r0 of None \<Rightarrow> pipealloc_bad kend c None None s
     | Some f0 \<Rightarrow>
     andthen (filealloc c s) (\<lambda>r1 s.
     case r1 of None \<Rightarrow> pipealloc_bad kend c (Some f0) None s
     | Some f1 \<Rightarrow>
     andthen (kalloc c s) (\<lambda>pi s.
     if pi = 0 then pipealloc_bad kend c (Some f0) (Some f1) s
     else
       let s = upd_pipe pi (\<lambda>q. q\<lparr>readopen := True, writeopen := True, nwrite := 0, nread := 0\<rparr>) s;
           s = s\<lparr>kmach := initlock (LPipe pi) ''pipe'' (kmach s)\<rparr>;
           s = upd_file f0 (\<lambda>x. x\<lparr>f_type := FD_PIPE, f_readable := True, f_writable := False, f_pipe := pi\<rparr>) s;
           s = upd_file f1 (\<lambda>x. x\<lparr>f_type := FD_PIPE, f_readable := False, f_writable := True, f_pipe := pi\<rparr>) s
       in Ret (Some (f0, f1)) s)))"

end
