(* ===== verification/ProcSys.thy ===== *)
theory ProcSys
  imports File
begin

text \<open>
  The functions of \<^verbatim>\<open>kernel/proc.c\<close> that use the file system: \<^verbatim>\<open>userinit\<close>, \<^verbatim>\<open>fork\<close> and \<^verbatim>\<open>exit\<close>.
\<close>

record sys_st = file_st +
  ticks :: u32
  forkret_first :: bool

text \<open>\<^verbatim>\<open>safestrcpy\<close> between the name fields of processes, which are arrays of 16 bytes outside the modelled memory.\<close>

definition name_copy :: "u8 list \<Rightarrow> u8 list \<Rightarrow> u8 list" where
  "name_copy dst src =
     (let k = takeWhile (\<lambda>b. b \<noteq> 0) (take 15 src) in k @ 0 # drop (Suc (List.length k)) dst)"

definition initcode :: "u8 list" where
  "initcode =
    [0x17, 0x05, 0x00, 0x00, 0x13, 0x05, 0x45, 0x02,
     0x97, 0x05, 0x00, 0x00, 0x93, 0x85, 0x35, 0x02,
     0x93, 0x08, 0x70, 0x00, 0x73, 0x00, 0x00, 0x00,
     0x93, 0x08, 0x20, 0x00, 0x73, 0x00, 0x00, 0x00,
     0xef, 0xf0, 0x9f, 0xff, 0x2f, 0x69, 0x6e, 0x69,
     0x74, 0x00, 0x00, 0x24, 0x00, 0x00, 0x00, 0x00,
     0x00, 0x00, 0x00, 0x00]"

definition userinit :: "link \<Rightarrow> nat \<Rightarrow> 'z file_st_scheme \<Rightarrow> ('z file_st_scheme, unit) outcome" where
  "userinit lk c s =
     andthen (allocproc lk c s) (\<lambda>r s.
     let s = s\<lparr>initproc := r\<rparr> in
     case r of None \<Rightarrow> Panic ''kerneltrap''
     | Some p \<Rightarrow>
         andthen (uvmfirst c (p_pagetable (procs s ! p)) initcode s) (\<lambda>_ s.
         let s = upd_proc p (\<lambda>q. q\<lparr>p_sz := PGSIZE\<rparr>) s;
             s = tf_set (p_trapframe (procs s ! p)) TF_epc 0 s;
             s = tf_set (p_trapframe (procs s ! p)) TF_sp PGSIZE s;
             s = upd_proc p (\<lambda>q. q\<lparr>p_name := name_copy (p_name q) (ascii ''initcode'')\<rparr>) s
         in andthen (namei c [slash] s) (\<lambda>ip s.
            k_release c (LProc p) (upd_proc p (\<lambda>q. q\<lparr>p_cwd := ip, p_state := RUNNABLE\<rparr>) s))))"

definition fork_dup :: "nat \<Rightarrow> nat \<Rightarrow> nat \<Rightarrow> nat \<Rightarrow> 'z file_st_scheme \<Rightarrow> ('z file_st_scheme, unit) outcome" where
  "fork_dup c p np i s =
     (case p_ofile (procs s ! p) ! i of None \<Rightarrow> Ret () s
      | Some f \<Rightarrow>
          andthen (filedup c f s) (\<lambda>f s.
          Ret () (upd_proc np (\<lambda>q. q\<lparr>p_ofile := (p_ofile q)[i := Some f]\<rparr>) s)))"

definition TF_SIZE :: nat where "TF_SIZE = 288"

definition fork :: "link \<Rightarrow> nat \<Rightarrow> 'z file_st_scheme \<Rightarrow> ('z file_st_scheme, int) outcome" where
  "fork lk c s =
     andthen (curproc c s) (\<lambda>p s.
     andthen (allocproc lk c s) (\<lambda>r s.
     case r of None \<Rightarrow> Ret (-1) s
     | Some np \<Rightarrow>
         andthen (uvmcopy (l_end lk) c (p_pagetable (procs s ! p)) (p_pagetable (procs s ! np)) (p_sz (procs s ! p)) s) (\<lambda>r s.
         if r < 0 then
           andthen (freeproc lk c np s) (\<lambda>_ s.
           andthen (k_release c (LProc np) s) (\<lambda>_ s. Ret (-1) s))
         else
           let s = upd_proc np (\<lambda>q. q\<lparr>p_sz := p_sz (procs s ! p)\<rparr>) s;
               s = s\<lparr>mem := mem_write (p_trapframe (procs s ! np))
                             (mem_read (mem s) (p_trapframe (procs s ! p)) TF_SIZE) (mem s)\<rparr>;
               s = tf_set (p_trapframe (procs s ! np)) TF_a0 0 s
           in andthen (for_each (fork_dup c p np) [0..<NOFILE] s) (\<lambda>_ s.
              andthen (case p_cwd (procs s ! p) of Some ip \<Rightarrow> idup c ip s | None \<Rightarrow> Panic ''kerneltrap'') (\<lambda>ip s.
              let s = upd_proc np (\<lambda>q. q\<lparr>p_cwd := Some ip\<rparr>) s;
                  s = upd_proc np (\<lambda>q. q\<lparr>p_name := name_copy (p_name q) (p_name (procs s ! p))\<rparr>) s;
                  pid = p_pid (procs s ! np)
              in andthen (k_release c (LProc np) s) (\<lambda>_ s.
                 andthen (k_acquire c LWait s) (\<lambda>_ s.
                 andthen (k_release c LWait (upd_proc np (\<lambda>q. q\<lparr>p_parent := Some p\<rparr>) s)) (\<lambda>_ s.
                 andthen (fork_finish c np s) (\<lambda>_ s. Ret pid s)))))))))"

definition exit_close :: "link \<Rightarrow> nat \<Rightarrow> nat \<Rightarrow> nat \<Rightarrow> 'z file_st_scheme \<Rightarrow> ('z file_st_scheme, unit) outcome" where
  "exit_close lk c p fd s =
     (case p_ofile (procs s ! p) ! fd of None \<Rightarrow> Ret () s
      | Some f \<Rightarrow>
          andthen (fileclose (l_end lk) c f s) (\<lambda>_ s.
          Ret () (upd_proc p (\<lambda>q. q\<lparr>p_ofile := (p_ofile q)[fd := None]\<rparr>) s)))"

definition exit :: "link \<Rightarrow> nat \<Rightarrow> int \<Rightarrow> 'z file_st_scheme \<Rightarrow> ('z file_st_scheme, 'a) outcome" where
  "exit lk c status s =
     andthen (curproc c s) (\<lambda>p s.
     if initproc s = Some p then Panic ''init exiting''
     else
       andthen (for_each (exit_close lk c p) [0..<NOFILE] s) (\<lambda>_ s.
       andthen (begin_op c s) (\<lambda>_ s.
       andthen (case p_cwd (procs s ! p) of Some ip \<Rightarrow> iput c ip s | None \<Rightarrow> Panic ''kerneltrap'') (\<lambda>_ s.
       andthen (end_op c s) (\<lambda>_ s.
       let s = upd_proc p (\<lambda>q. q\<lparr>p_cwd := None\<rparr>) s in
       andthen (k_acquire c LWait s) (\<lambda>_ s.
       andthen (reparent c p s) (\<lambda>_ s.
       andthen (wakeup c (map_option ChProc (p_parent (procs s ! p))) s) (\<lambda>_ s.
       exit_finish c p status s))))))))"

end
