(* ===== verification/Sysproc.thy ===== *)
theory Sysproc
  imports ProcSys
begin

text \<open>
  The system-call arguments of \<^verbatim>\<open>kernel/syscall.c\<close> and the system calls of \<^verbatim>\<open>kernel/sysproc.c\<close>.  A string argument is
  returned with the bytes before its NUL.
\<close>

section \<open>Arguments\<close>

definition fetchaddr :: "nat \<Rightarrow> u64 \<Rightarrow> 'z file_st_scheme \<Rightarrow> ('z file_st_scheme, u64 option) outcome" where
  "fetchaddr c addr s =
     andthen (curproc c s) (\<lambda>p s.
     if addr \<ge> p_sz (procs s ! p) \<or> addr + 8 > p_sz (procs s ! p) then Ret None s
     else
       andthen (copyin c (p_pagetable (procs s ! p)) addr 8 s) (\<lambda>(r, bs) s.
       Ret (if r \<noteq> 0 then None else Some (le_word bs)) s))"

definition fetchstr :: "nat \<Rightarrow> u64 \<Rightarrow> nat \<Rightarrow> 'z file_st_scheme \<Rightarrow> ('z file_st_scheme, int \<times> u8 list) outcome" where
  "fetchstr c addr mx s =
     andthen (curproc c s) (\<lambda>p s.
     andthen (copyinstr c (p_pagetable (procs s ! p)) addr mx s) (\<lambda>(r, bs) s.
     Ret (if r < 0 then (-1, bs) else (int (List.length (upto_nul bs)), bs)) s))"

definition argraw :: "nat \<Rightarrow> nat \<Rightarrow> 'z file_st_scheme \<Rightarrow> ('z file_st_scheme, u64) outcome" where
  "argraw c n s =
     andthen (curproc c s) (\<lambda>p s.
     if n \<le> 5 then Ret (tf_get (p_trapframe (procs s ! p)) (TF_a0 + 8 * of_nat n) s) s
     else Panic ''argraw'')"

definition argint :: "nat \<Rightarrow> nat \<Rightarrow> 'z file_st_scheme \<Rightarrow> ('z file_st_scheme, int) outcome" where
  "argint c n s = andthen (argraw c n s) (\<lambda>w s. Ret (sint (ucast w :: u32)) s)"

definition argaddr :: "nat \<Rightarrow> nat \<Rightarrow> 'z file_st_scheme \<Rightarrow> ('z file_st_scheme, u64) outcome" where
  "argaddr c n s = argraw c n s"

definition MAXPATH :: nat where "MAXPATH = 128"

definition argstr :: "nat \<Rightarrow> nat \<Rightarrow> nat \<Rightarrow> 'z file_st_scheme \<Rightarrow> ('z file_st_scheme, int \<times> u8 list) outcome" where
  "argstr c n mx s = andthen (argaddr c n s) (\<lambda>addr s. fetchstr c addr mx s)"

section \<open>System calls\<close>

definition sys_exit :: "link \<Rightarrow> nat \<Rightarrow> 'z sys_st_scheme \<Rightarrow> ('z sys_st_scheme, u64) outcome" where
  "sys_exit lk c s = andthen (argint c 0 s) (\<lambda>n s. exit lk c n s)"

definition sys_getpid :: "nat \<Rightarrow> 'z sys_st_scheme \<Rightarrow> ('z sys_st_scheme, u64) outcome" where
  "sys_getpid c s = andthen (curproc c s) (\<lambda>p s. Ret (word_of_int (p_pid (procs s ! p))) s)"

definition sys_fork :: "link \<Rightarrow> nat \<Rightarrow> 'z sys_st_scheme \<Rightarrow> ('z sys_st_scheme, u64) outcome" where
  "sys_fork lk c s = andthen (fork lk c s) (\<lambda>r s. Ret (word_of_int r) s)"

definition sys_wait :: "link \<Rightarrow> nat \<Rightarrow> 'z sys_st_scheme \<Rightarrow> ('z sys_st_scheme, u64) outcome" where
  "sys_wait lk c s =
     andthen (argaddr c 0 s) (\<lambda>p s.
     andthen (wait lk c p s) (\<lambda>r s. Ret (word_of_int r) s))"

definition sys_sbrk :: "link \<Rightarrow> nat \<Rightarrow> 'z sys_st_scheme \<Rightarrow> ('z sys_st_scheme, u64) outcome" where
  "sys_sbrk lk c s =
     andthen (argint c 0 s) (\<lambda>n s.
     andthen (curproc c s) (\<lambda>p s.
     let addr = p_sz (procs s ! p) in
     andthen (growproc lk c n s) (\<lambda>r s. Ret (if r < 0 then -1 else addr) s)))"

definition sys_sleep_loop :: "nat \<Rightarrow> int \<Rightarrow> u32 \<Rightarrow> 'z sys_st_scheme \<Rightarrow> ('z sys_st_scheme, u64) outcome" where
  "sys_sleep_loop c n ticks0 s =
     (if uint (ticks s - ticks0) < n then
        andthen (curproc c s) (\<lambda>p s.
        andthen (killed c p s) (\<lambda>k s.
        if k \<noteq> 0 then andthen (k_release c LTicks s) (\<lambda>_ s. Ret (-1) s)
        else sleep c (Some ChTicks) LTicks s))
      else andthen (k_release c LTicks s) (\<lambda>_ s. Ret 0 s))"

definition sys_sleep :: "nat \<Rightarrow> 'z sys_st_scheme \<Rightarrow> ('z sys_st_scheme, u64) outcome" where
  "sys_sleep c s =
     andthen (argint c 0 s) (\<lambda>n s.
     let n = (if n < 0 then 0 else n) in
     andthen (k_acquire c LTicks s) (\<lambda>_ s. sys_sleep_loop c n (ticks s) s))"

definition sys_sleep_resume ::
    "nat \<Rightarrow> nat \<Rightarrow> bool \<Rightarrow> int \<Rightarrow> u32 \<Rightarrow> 'z sys_st_scheme \<Rightarrow> ('z sys_st_scheme, u64) outcome" where
  "sys_sleep_resume c p old_intena n ticks0 s =
     andthen (sleep_resume c p LTicks old_intena s) (\<lambda>_ s. sys_sleep_loop c n ticks0 s)"

definition sys_kill :: "nat \<Rightarrow> 'z sys_st_scheme \<Rightarrow> ('z sys_st_scheme, u64) outcome" where
  "sys_kill c s =
     andthen (argint c 0 s) (\<lambda>pid s.
     andthen (kill c pid s) (\<lambda>r s. Ret (word_of_int r) s))"

definition sys_uptime :: "nat \<Rightarrow> 'z sys_st_scheme \<Rightarrow> ('z sys_st_scheme, u64) outcome" where
  "sys_uptime c s =
     andthen (k_acquire c LTicks s) (\<lambda>_ s.
     let xticks = ticks s in
     andthen (k_release c LTicks s) (\<lambda>_ s. Ret (ucast xticks) s))"

end
