(* ===== verification/Exec.thy ===== *)
theory Exec
  imports Sysproc
begin

text \<open>
  \<^verbatim>\<open>kernel/exec.c\<close> and the headers of \<^verbatim>\<open>kernel/elf.h\<close>, which are read from the file as byte lists.
\<close>

unbundle bit_operations_syntax

definition ELF_MAGIC :: u32 where "ELF_MAGIC = 0x464C457F"
definition ELF_PROG_LOAD :: u32 where "ELF_PROG_LOAD = 1"
definition USERSTACK :: u64 where "USERSTACK = 2"
definition MAXARG :: nat where "MAXARG = 32"

definition get64 :: "nat \<Rightarrow> u8 list \<Rightarrow> u64" where
  "get64 off d = le_word (get_bytes off 8 d)"

record elfhdr =
  e_magic :: u32
  e_entry :: u64
  e_phoff :: u64
  e_phnum :: u16

definition elfhdr_of :: "u8 list \<Rightarrow> elfhdr" where
  "elfhdr_of d = \<lparr>e_magic = get32 0 d, e_entry = get64 24 d, e_phoff = get64 32 d, e_phnum = get16 56 d\<rparr>"

record proghdr =
  ph_type :: u32
  ph_flags :: u32
  ph_off :: u64
  ph_vaddr :: u64
  ph_filesz :: u64
  ph_memsz :: u64

definition proghdr_of :: "u8 list \<Rightarrow> proghdr" where
  "proghdr_of d = \<lparr>ph_type = get32 0 d, ph_flags = get32 4 d, ph_off = get64 8 d, ph_vaddr = get64 16 d,
     ph_filesz = get64 32 d, ph_memsz = get64 40 d\<rparr>"

definition flags2perm :: "u32 \<Rightarrow> u64" where
  "flags2perm flags =
     (let perm = (if flags AND 1 \<noteq> 0 then PTE_X else 0)
      in if flags AND 2 \<noteq> 0 then perm OR PTE_W else perm)"

text \<open>
  The counter of \<^verbatim>\<open>loadseg\<close> has 32 bits.  On a segment that reaches the last page below \<open>2 ^ 32\<close> it wraps to 0 and the loop
  starts again, for ever.
\<close>

function loadseg_loop ::
    "nat \<Rightarrow> u64 \<Rightarrow> u64 \<Rightarrow> nat \<Rightarrow> u32 \<Rightarrow> nat \<Rightarrow> nat \<Rightarrow> 'z fs_st_scheme \<Rightarrow> ('z fs_st_scheme, int) outcome" where
  "loadseg_loop c pagetable va ip offset sz i s =
     (if 2 ^ 32 \<le> i then Diverge
      else if i < sz then
        andthen (walkaddr c pagetable (va + of_nat i) s) (\<lambda>pa s.
        if pa = 0 then Panic ''loadseg: address should exist''
        else
          let n = (if sz - i < unat PGSIZE then sz - i else unat PGSIZE) in
          andthen (readi c ip (DKern pa) (offset + of_nat i) (of_nat n) s) (\<lambda>(r, _) s.
          if r \<noteq> int n then Ret (-1) s
          else loadseg_loop c pagetable va ip offset sz (i + unat PGSIZE) s))
      else Ret 0 s)"
  by pat_completeness auto
termination
  by (relation "measure (\<lambda>(_, _, _, _, _, _, i, _). 2 ^ 32 - i)") (auto simp: PGSIZE_def)

declare loadseg_loop.simps [simp del]

definition loadseg ::
    "nat \<Rightarrow> u64 \<Rightarrow> u64 \<Rightarrow> nat \<Rightarrow> u32 \<Rightarrow> u32 \<Rightarrow> 'z fs_st_scheme \<Rightarrow> ('z fs_st_scheme, int) outcome" where
  "loadseg c pagetable va ip offset sz s = loadseg_loop c pagetable va ip offset (unat sz) 0 s"

text \<open>The loop over the program headers; the result says whether it ended without \<^verbatim>\<open>goto bad\<close>, and \<^verbatim>\<open>sz\<close>.\<close>

fun exec_load ::
    "link \<Rightarrow> nat \<Rightarrow> nat \<Rightarrow> u64 \<Rightarrow> nat \<Rightarrow> u32 \<Rightarrow> u64 \<Rightarrow> 'z fs_st_scheme \<Rightarrow> ('z fs_st_scheme, bool \<times> u64) outcome" where
  "exec_load lk c ip pagetable 0 off sz s = Ret (True, sz) s"
| "exec_load lk c ip pagetable (Suc n) off sz s =
     andthen (readi c ip DLocal off 56 s) (\<lambda>(r, d) s.
     let ph = proghdr_of d in
     if r \<noteq> 56 then Ret (False, sz) s
     else if ph_type ph \<noteq> ELF_PROG_LOAD then exec_load lk c ip pagetable n (off + 56) sz s
     else if ph_memsz ph < ph_filesz ph then Ret (False, sz) s
     else if ph_vaddr ph + ph_memsz ph < ph_vaddr ph then Ret (False, sz) s
     else if ph_vaddr ph mod PGSIZE \<noteq> 0 then Ret (False, sz) s
     else
       andthen (uvmalloc (l_end lk) c pagetable sz (ph_vaddr ph + ph_memsz ph) (flags2perm (ph_flags ph)) s) (\<lambda>sz1 s.
       if sz1 = 0 then Ret (False, sz) s
       else
         andthen (loadseg c pagetable (ph_vaddr ph) ip (ucast (ph_off ph)) (ucast (ph_filesz ph)) s) (\<lambda>r s.
         if r < 0 then Ret (False, sz1) s
         else exec_load lk c ip pagetable n (off + 56) sz1 s)))"

definition exec_bad ::
    "link \<Rightarrow> nat \<Rightarrow> u64 \<Rightarrow> u64 \<Rightarrow> nat option \<Rightarrow> 'z fs_st_scheme \<Rightarrow> ('z fs_st_scheme, int) outcome" where
  "exec_bad lk c pagetable sz ip s =
     andthen (if pagetable \<noteq> 0 then proc_freepagetable lk c pagetable sz s else Ret () s) (\<lambda>_ s.
     andthen (case ip of None \<Rightarrow> Ret () s | Some ip \<Rightarrow> andthen (iunlockput c ip s) (\<lambda>_ s. end_op c s)) (\<lambda>_ s.
     Ret (-1) s))"

text \<open>
  Pushing the argument strings: \<open>argv\<close> holds the addresses before the null pointer.  The result is the stack pointer and
  the addresses pushed, \<open>None\<close> on \<^verbatim>\<open>goto bad\<close>.
\<close>

fun exec_push ::
    "nat \<Rightarrow> u64 \<Rightarrow> u64 \<Rightarrow> u64 list \<Rightarrow> u64 \<Rightarrow> u64 list \<Rightarrow> 'z fs_st_scheme \<Rightarrow> ('z fs_st_scheme, (u64 \<times> u64 list) option) outcome" where
  "exec_push c pagetable stackbase [] sp ustack s = Ret (Some (sp, ustack)) s"
| "exec_push c pagetable stackbase (a # argv) sp ustack s =
     (if List.length ustack \<ge> MAXARG then Ret None s
      else case strlen (mem s) a of None \<Rightarrow> Diverge
      | Some len \<Rightarrow>
          let sp = sp - (word_of_int len + 1);
              sp = sp - sp mod 16
          in if sp < stackbase then Ret None s
             else
               andthen (copyout c pagetable sp (mem_read (mem s) a (nat len + 1)) s) (\<lambda>r s.
               if r < 0 then Ret None s
               else exec_push c pagetable stackbase argv sp (ustack @ [sp]) s))"

definition base_name :: "u8 list \<Rightarrow> u8 list" where
  "base_name path = rev (takeWhile (\<lambda>b. b \<noteq> slash) (rev path))"

definition exec_commit ::
    "link \<Rightarrow> nat \<Rightarrow> nat \<Rightarrow> u8 list \<Rightarrow> u64 \<Rightarrow> u64 \<Rightarrow> u64 \<Rightarrow> u64 \<Rightarrow> 'z fs_st_scheme \<Rightarrow> ('z fs_st_scheme, unit) outcome" where
  "exec_commit lk c p path pagetable sz sp pc s =
     (let oldsz = p_sz (procs s ! p);
          s = tf_set (p_trapframe (procs s ! p)) TF_a1 sp s;
          s = upd_proc p (\<lambda>q. q\<lparr>p_name := name_copy (p_name q) (base_name path)\<rparr>) s;
          oldpagetable = p_pagetable (procs s ! p);
          s = upd_proc p (\<lambda>q. q\<lparr>p_pagetable := pagetable, p_sz := sz\<rparr>) s;
          s = tf_set (p_trapframe (procs s ! p)) TF_epc pc s;
          s = tf_set (p_trapframe (procs s ! p)) TF_sp sp s
      in proc_freepagetable lk c oldpagetable oldsz s)"

text \<open>After the program is loaded: the stack, its contents, and the switch to the new image.\<close>

definition exec_stack ::
    "link \<Rightarrow> nat \<Rightarrow> u8 list \<Rightarrow> u64 list \<Rightarrow> u64 \<Rightarrow> u64 \<Rightarrow> u64 \<Rightarrow> 'z fs_st_scheme \<Rightarrow> ('z fs_st_scheme, int) outcome" where
  "exec_stack lk c path argv pc pagetable sz s =
     andthen (curproc c s) (\<lambda>p s.
     let sz = PGROUNDUP sz in
     andthen (uvmalloc (l_end lk) c pagetable sz (sz + (USERSTACK + 1) * PGSIZE) PTE_W s) (\<lambda>sz1 s.
     if sz1 = 0 then exec_bad lk c pagetable sz None s
     else
       andthen (uvmclear c pagetable (sz1 - (USERSTACK + 1) * PGSIZE) s) (\<lambda>_ s.
       let stackbase = sz1 - USERSTACK * PGSIZE in
       andthen (exec_push c pagetable stackbase argv sz1 [] s) (\<lambda>r s.
       case r of None \<Rightarrow> exec_bad lk c pagetable sz1 None s
       | Some (sp, ustack) \<Rightarrow>
           if List.length ustack \<ge> MAXARG then Diverge
           else
             let argc = List.length ustack;
                 sp = sp - (of_nat argc + 1) * 8;
                 sp = sp - sp mod 16
             in if sp < stackbase then exec_bad lk c pagetable sz1 None s
                else
                  andthen (copyout c pagetable sp (concat (map (le_bytes 8) (ustack @ [0]))) s) (\<lambda>r s.
                  if r < 0 then exec_bad lk c pagetable sz1 None s
                  else andthen (exec_commit lk c p path pagetable sz1 sp pc s) (\<lambda>_ s. Ret (int argc) s))))))"

definition exec :: "link \<Rightarrow> nat \<Rightarrow> u8 list \<Rightarrow> u64 list \<Rightarrow> 'z fs_st_scheme \<Rightarrow> ('z fs_st_scheme, int) outcome" where
  "exec lk c path argv s =
     andthen (curproc c s) (\<lambda>p s.
     andthen (begin_op c s) (\<lambda>_ s.
     andthen (namei c path s) (\<lambda>r s.
     case r of None \<Rightarrow> andthen (end_op c s) (\<lambda>_ s. Ret (-1) s)
     | Some ip \<Rightarrow>
         andthen (ilock c ip s) (\<lambda>_ s.
         andthen (readi c ip DLocal 0 64 s) (\<lambda>(r, d) s.
         let elf = elfhdr_of d in
         if r \<noteq> 64 \<or> e_magic elf \<noteq> ELF_MAGIC then exec_bad lk c 0 0 (Some ip) s
         else
           andthen (proc_pagetable lk c p s) (\<lambda>pagetable s.
           if pagetable = 0 then exec_bad lk c 0 0 (Some ip) s
           else
             andthen (exec_load lk c ip pagetable (unat (e_phnum elf)) (ucast (e_phoff elf)) 0 s) (\<lambda>(ok, sz) s.
             if \<not> ok then exec_bad lk c pagetable sz (Some ip) s
             else
               andthen (iunlockput c ip s) (\<lambda>_ s.
               andthen (end_op c s) (\<lambda>_ s.
               exec_stack lk c path argv (e_entry elf) pagetable sz s)))))))))"

end
