(* ===== verification/Sysfile.thy ===== *)
theory Sysfile
  imports Exec
begin

text \<open>
  \<^verbatim>\<open>kernel/sysfile.c\<close>: the system calls on files.  A path argument is the string before the NUL that \<^verbatim>\<open>argstr\<close> copied.
\<close>

unbundle bit_operations_syntax

definition O_RDONLY :: int where "O_RDONLY = 0"
definition O_WRONLY :: int where "O_WRONLY = 1"
definition O_RDWR :: int where "O_RDWR = 2"
definition O_CREATE :: int where "O_CREATE = 0x200"
definition O_TRUNC :: int where "O_TRUNC = 0x400"

definition argfd :: "nat \<Rightarrow> nat \<Rightarrow> 'z file_st_scheme \<Rightarrow> ('z file_st_scheme, (nat \<times> nat) option) outcome" where
  "argfd c n s =
     andthen (argint c n s) (\<lambda>fd s.
     if fd < 0 \<or> fd \<ge> int NOFILE then Ret None s
     else
       andthen (curproc c s) (\<lambda>p s.
       Ret (map_option (\<lambda>f. (nat fd, f)) (p_ofile (procs s ! p) ! nat fd)) s))"

definition set_ofile :: "nat \<Rightarrow> nat \<Rightarrow> nat option \<Rightarrow> 'z proc_st_scheme \<Rightarrow> 'z proc_st_scheme" where
  "set_ofile p fd v s = upd_proc p (\<lambda>q. q\<lparr>p_ofile := (p_ofile q)[fd := v]\<rparr>) s"

definition fdalloc :: "nat \<Rightarrow> nat \<Rightarrow> 'z file_st_scheme \<Rightarrow> ('z file_st_scheme, int) outcome" where
  "fdalloc c f s =
     andthen (curproc c s) (\<lambda>p s.
     case first_index (\<lambda>x. x = None) (p_ofile (procs s ! p)) of
       Some fd \<Rightarrow> Ret (int fd) (set_ofile p fd (Some f) s)
     | None \<Rightarrow> Ret (-1) s)"

definition sys_dup :: "nat \<Rightarrow> 'z file_st_scheme \<Rightarrow> ('z file_st_scheme, u64) outcome" where
  "sys_dup c s =
     andthen (argfd c 0 s) (\<lambda>r s.
     case r of None \<Rightarrow> Ret (-1) s
     | Some (_, f) \<Rightarrow>
         andthen (fdalloc c f s) (\<lambda>fd s.
         if fd < 0 then Ret (-1) s
         else andthen (filedup c f s) (\<lambda>_ s. Ret (word_of_int fd) s)))"

definition sys_read :: "nat \<Rightarrow> 'z file_st_scheme \<Rightarrow> ('z file_st_scheme, u64) outcome" where
  "sys_read c s =
     andthen (argaddr c 1 s) (\<lambda>p s.
     andthen (argint c 2 s) (\<lambda>n s.
     andthen (argfd c 0 s) (\<lambda>r s.
     case r of None \<Rightarrow> Ret (-1) s
     | Some (_, f) \<Rightarrow> andthen (fileread c f p n s) (\<lambda>r s. Ret (word_of_int r) s))))"

definition sys_write :: "nat \<Rightarrow> 'z file_st_scheme \<Rightarrow> ('z file_st_scheme, u64) outcome" where
  "sys_write c s =
     andthen (argaddr c 1 s) (\<lambda>p s.
     andthen (argint c 2 s) (\<lambda>n s.
     andthen (argfd c 0 s) (\<lambda>r s.
     case r of None \<Rightarrow> Ret (-1) s
     | Some (_, f) \<Rightarrow> andthen (filewrite c f p n s) (\<lambda>r s. Ret (word_of_int r) s))))"

definition sys_close :: "link \<Rightarrow> nat \<Rightarrow> 'z file_st_scheme \<Rightarrow> ('z file_st_scheme, u64) outcome" where
  "sys_close lk c s =
     andthen (argfd c 0 s) (\<lambda>r s.
     case r of None \<Rightarrow> Ret (-1) s
     | Some (fd, f) \<Rightarrow>
         andthen (curproc c s) (\<lambda>p s.
         andthen (fileclose (l_end lk) c f (set_ofile p fd None s)) (\<lambda>_ s. Ret 0 s)))"

definition sys_fstat :: "u8 list \<Rightarrow> nat \<Rightarrow> 'z file_st_scheme \<Rightarrow> ('z file_st_scheme, u64) outcome" where
  "sys_fstat pad c s =
     andthen (argaddr c 1 s) (\<lambda>st s.
     andthen (argfd c 0 s) (\<lambda>r s.
     case r of None \<Rightarrow> Ret (-1) s
     | Some (_, f) \<Rightarrow> andthen (filestat pad c f st s) (\<lambda>r s. Ret (word_of_int r) s)))"

section \<open>Links\<close>

definition end_with :: "nat \<Rightarrow> u64 \<Rightarrow> 'z fs_st_scheme \<Rightarrow> ('z fs_st_scheme, u64) outcome" where
  "end_with c r s = andthen (end_op c s) (\<lambda>_ s. Ret r s)"

definition put_end_with :: "nat \<Rightarrow> nat \<Rightarrow> u64 \<Rightarrow> 'z fs_st_scheme \<Rightarrow> ('z fs_st_scheme, u64) outcome" where
  "put_end_with c ip r s = andthen (iunlockput c ip s) (\<lambda>_ s. end_with c r s)"

definition add_nlink :: "nat \<Rightarrow> nat \<Rightarrow> int \<Rightarrow> 'z fs_st_scheme \<Rightarrow> ('z fs_st_scheme, unit) outcome" where
  "add_nlink c ip d s = iupdate c ip (upd_inode ip (\<lambda>x. x\<lparr>i_nlink := i_nlink x + word_of_int d\<rparr>) s)"

definition sys_link_bad :: "nat \<Rightarrow> nat \<Rightarrow> 'z fs_st_scheme \<Rightarrow> ('z fs_st_scheme, u64) outcome" where
  "sys_link_bad c ip s =
     andthen (ilock c ip s) (\<lambda>_ s.
     andthen (add_nlink c ip (-1) s) (\<lambda>_ s.
     put_end_with c ip (-1) s))"

definition sys_link :: "nat \<Rightarrow> 'z file_st_scheme \<Rightarrow> ('z file_st_scheme, u64) outcome" where
  "sys_link c s =
     andthen (argstr c 0 MAXPATH s) (\<lambda>(r, old) s.
     if r < 0 then Ret (-1) s else
     andthen (argstr c 1 MAXPATH s) (\<lambda>(r, new) s.
     if r < 0 then Ret (-1) s else
     andthen (begin_op c s) (\<lambda>_ s.
     andthen (namei c (upto_nul old) s) (\<lambda>r s.
     case r of None \<Rightarrow> end_with c (-1) s
     | Some ip \<Rightarrow>
         andthen (ilock c ip s) (\<lambda>_ s.
         if i_type (ino s ip) = T_DIR then put_end_with c ip (-1) s
         else
           andthen (add_nlink c ip 1 s) (\<lambda>_ s.
           andthen (iunlock c ip s) (\<lambda>_ s.
           andthen (nameiparent c (upto_nul new) s) (\<lambda>r s.
           case r of None \<Rightarrow> sys_link_bad c ip s
           | Some (dp, name) \<Rightarrow>
               andthen (ilock c dp s) (\<lambda>_ s.
               andthen (if i_dev (ino s dp) \<noteq> i_dev (ino s ip) then Ret (-1) s
                        else dirlink c dp name (i_inum (ino s ip)) s) (\<lambda>r s.
               if r < 0 then andthen (iunlockput c dp s) (\<lambda>_ s. sys_link_bad c ip s)
               else
                 andthen (iunlockput c dp s) (\<lambda>_ s.
                 andthen (iput c ip s) (\<lambda>_ s.
                 end_with c 0 s))))))))))))"

text \<open>The loop of \<^verbatim>\<open>isdirempty\<close> after the two first entries.\<close>

function isdirempty_loop :: "nat \<Rightarrow> nat \<Rightarrow> nat \<Rightarrow> nat \<Rightarrow> 'z fs_st_scheme \<Rightarrow> ('z fs_st_scheme, bool) outcome" where
  "isdirempty_loop c dp sz off s =
     (if off < sz then
        andthen (readi c dp DLocal (of_nat off) 16 s) (\<lambda>(r, de) s.
        if r \<noteq> 16 then Panic ''isdirempty: readi''
        else if de_inum de \<noteq> 0 then Ret False s
        else isdirempty_loop c dp sz (off + 16) s)
      else Ret True s)"
  by pat_completeness auto
termination
  by (relation "measure (\<lambda>(_, _, sz, off, _). sz - off)") auto

declare isdirempty_loop.simps [simp del]

definition isdirempty :: "nat \<Rightarrow> nat \<Rightarrow> 'z fs_st_scheme \<Rightarrow> ('z fs_st_scheme, bool) outcome" where
  "isdirempty c dp s = isdirempty_loop c dp (unat (i_size (ino s dp))) 32 s"

definition unlink_entry ::
    "nat \<Rightarrow> nat \<Rightarrow> nat \<Rightarrow> u32 \<Rightarrow> 'z fs_st_scheme \<Rightarrow> ('z fs_st_scheme, u64) outcome" where
  "unlink_entry c dp ip off s =
     andthen (writei c dp (SLocal (replicate 16 0)) off 16 s) (\<lambda>r s.
     if r \<noteq> 16 then Panic ''unlink: writei''
     else
       andthen (if i_type (ino s ip) = T_DIR then add_nlink c dp (-1) s else Ret () s) (\<lambda>_ s.
       andthen (iunlockput c dp s) (\<lambda>_ s.
       andthen (add_nlink c ip (-1) s) (\<lambda>_ s.
       put_end_with c ip 0 s))))"

definition sys_unlink :: "nat \<Rightarrow> 'z file_st_scheme \<Rightarrow> ('z file_st_scheme, u64) outcome" where
  "sys_unlink c s =
     andthen (argstr c 0 MAXPATH s) (\<lambda>(r, path) s.
     if r < 0 then Ret (-1) s else
     andthen (begin_op c s) (\<lambda>_ s.
     andthen (nameiparent c (upto_nul path) s) (\<lambda>r s.
     case r of None \<Rightarrow> end_with c (-1) s
     | Some (dp, name) \<Rightarrow>
         andthen (ilock c dp s) (\<lambda>_ s.
         if namecmp name (ascii ''.'') = 0 \<or> namecmp name (ascii ''..'') = 0 then put_end_with c dp (-1) s
         else
           andthen (dirlookup c dp name s) (\<lambda>r s.
           case r of None \<Rightarrow> put_end_with c dp (-1) s
           | Some (ip, off) \<Rightarrow>
               andthen (ilock c ip s) (\<lambda>_ s.
               if sint (i_nlink (ino s ip)) < 1 then Panic ''unlink: nlink < 1''
               else
                 andthen (if i_type (ino s ip) = T_DIR then isdirempty c ip s else Ret True s) (\<lambda>e s.
                 if \<not> e then andthen (iunlockput c ip s) (\<lambda>_ s. put_end_with c dp (-1) s)
                 else unlink_entry c dp ip off s)))))))"

section \<open>Creation\<close>

definition create_fail :: "nat \<Rightarrow> nat \<Rightarrow> nat \<Rightarrow> 'z fs_st_scheme \<Rightarrow> ('z fs_st_scheme, nat option) outcome" where
  "create_fail c ip dp s =
     andthen (iupdate c ip (upd_inode ip (\<lambda>x. x\<lparr>i_nlink := 0\<rparr>) s)) (\<lambda>_ s.
     andthen (iunlockput c ip s) (\<lambda>_ s.
     andthen (iunlockput c dp s) (\<lambda>_ s.
     Ret None s)))"

text \<open>The entries for a new inode; the result says whether there was no \<^verbatim>\<open>goto fail\<close>.\<close>

definition create_link ::
    "nat \<Rightarrow> nat \<Rightarrow> nat \<Rightarrow> u8 list \<Rightarrow> u16 \<Rightarrow> 'z fs_st_scheme \<Rightarrow> ('z fs_st_scheme, bool) outcome" where
  "create_link c ip dp name type s =
     andthen (if type = T_DIR then
                andthen (dirlink c ip (ascii ''.'') (i_inum (ino s ip)) s) (\<lambda>r s.
                if r < 0 then Ret (-1) s else dirlink c ip (ascii ''..'') (i_inum (ino s dp)) s)
              else Ret 0 s) (\<lambda>r s.
     if r < 0 then Ret False s
     else andthen (dirlink c dp name (i_inum (ino s ip)) s) (\<lambda>r s. Ret (0 \<le> r) s))"

definition create_new ::
    "nat \<Rightarrow> nat \<Rightarrow> u8 list \<Rightarrow> u16 \<Rightarrow> u16 \<Rightarrow> u16 \<Rightarrow> 'z fs_st_scheme \<Rightarrow> ('z fs_st_scheme, nat option) outcome" where
  "create_new c dp name type major minor s =
     andthen (ialloc c (i_dev (ino s dp)) type s) (\<lambda>r s.
     case r of None \<Rightarrow> andthen (iunlockput c dp s) (\<lambda>_ s. Ret None s)
     | Some ip \<Rightarrow>
         andthen (ilock c ip s) (\<lambda>_ s.
         andthen (iupdate c ip (upd_inode ip (\<lambda>x. x\<lparr>i_major := major, i_minor := minor, i_nlink := 1\<rparr>) s)) (\<lambda>_ s.
         andthen (create_link c ip dp name type s) (\<lambda>ok s.
         if \<not> ok then create_fail c ip dp s
         else
           andthen (if type = T_DIR then add_nlink c dp 1 s else Ret () s) (\<lambda>_ s.
           andthen (iunlockput c dp s) (\<lambda>_ s.
           Ret (Some ip) s))))))"

definition create ::
    "nat \<Rightarrow> u8 list \<Rightarrow> u16 \<Rightarrow> u16 \<Rightarrow> u16 \<Rightarrow> 'z fs_st_scheme \<Rightarrow> ('z fs_st_scheme, nat option) outcome" where
  "create c path type major minor s =
     andthen (nameiparent c path s) (\<lambda>r s.
     case r of None \<Rightarrow> Ret None s
     | Some (dp, name) \<Rightarrow>
         andthen (ilock c dp s) (\<lambda>_ s.
         andthen (dirlookup c dp name s) (\<lambda>r s.
         case r of
           Some (ip, _) \<Rightarrow>
             andthen (iunlockput c dp s) (\<lambda>_ s.
             andthen (ilock c ip s) (\<lambda>_ s.
             if type = T_FILE \<and> (i_type (ino s ip) = T_FILE \<or> i_type (ino s ip) = T_DEVICE) then Ret (Some ip) s
             else andthen (iunlockput c ip s) (\<lambda>_ s. Ret None s)))
         | None \<Rightarrow> create_new c dp name type major minor s)))"

section \<open>Opening\<close>

text \<open>The inode to open, locked; \<open>None\<close> where \<^verbatim>\<open>sys_open\<close> ends the transaction and returns -1.\<close>

definition open_inode :: "nat \<Rightarrow> u8 list \<Rightarrow> int \<Rightarrow> 'z fs_st_scheme \<Rightarrow> ('z fs_st_scheme, nat option) outcome" where
  "open_inode c path omode s =
     (if omode AND O_CREATE \<noteq> 0 then create c path T_FILE 0 0 s
      else
        andthen (namei c path s) (\<lambda>r s.
        case r of None \<Rightarrow> Ret None s
        | Some ip \<Rightarrow>
            andthen (ilock c ip s) (\<lambda>_ s.
            if i_type (ino s ip) = T_DIR \<and> omode \<noteq> O_RDONLY
            then andthen (iunlockput c ip s) (\<lambda>_ s. Ret None s)
            else Ret (Some ip) s)))"

definition open_fields :: "nat \<Rightarrow> inode \<Rightarrow> int \<Rightarrow> open_file \<Rightarrow> open_file" where
  "open_fields ip x omode f =
     (let f = (if i_type x = T_DEVICE then f\<lparr>f_type := FD_DEVICE, f_major := i_major x\<rparr>
               else f\<lparr>f_type := FD_INODE, f_off := 0\<rparr>)
      in f\<lparr>f_ip := ip, f_readable := (omode AND O_WRONLY = 0),
           f_writable := (omode AND O_WRONLY \<noteq> 0 \<or> omode AND O_RDWR \<noteq> 0)\<rparr>)"

definition open_file_of ::
    "link \<Rightarrow> nat \<Rightarrow> nat \<Rightarrow> int \<Rightarrow> 'z file_st_scheme \<Rightarrow> ('z file_st_scheme, u64) outcome" where
  "open_file_of lk c ip omode s =
     andthen (filealloc c s) (\<lambda>r s.
     case r of None \<Rightarrow> put_end_with c ip (-1) s
     | Some f \<Rightarrow>
         andthen (fdalloc c f s) (\<lambda>fd s.
         if fd < 0 then andthen (fileclose (l_end lk) c f s) (\<lambda>_ s. put_end_with c ip (-1) s)
         else
           let s = upd_file f (open_fields ip (ino s ip) omode) s in
           andthen (if omode AND O_TRUNC \<noteq> 0 \<and> i_type (ino s ip) = T_FILE then itrunc c ip s else Ret () s) (\<lambda>_ s.
           andthen (iunlock c ip s) (\<lambda>_ s.
           end_with c (word_of_int fd) s))))"

definition sys_open :: "link \<Rightarrow> nat \<Rightarrow> 'z file_st_scheme \<Rightarrow> ('z file_st_scheme, u64) outcome" where
  "sys_open lk c s =
     andthen (argint c 1 s) (\<lambda>omode s.
     andthen (argstr c 0 MAXPATH s) (\<lambda>(r, path) s.
     if r < 0 then Ret (-1) s else
     andthen (begin_op c s) (\<lambda>_ s.
     andthen (open_inode c (upto_nul path) omode s) (\<lambda>r s.
     case r of None \<Rightarrow> end_with c (-1) s
     | Some ip \<Rightarrow>
         if i_type (ino s ip) = T_DEVICE \<and> (sint (i_major (ino s ip)) < 0 \<or> sint (i_major (ino s ip)) \<ge> int NDEV)
         then put_end_with c ip (-1) s
         else open_file_of lk c ip omode s))))"

definition sys_mkdir :: "nat \<Rightarrow> 'z file_st_scheme \<Rightarrow> ('z file_st_scheme, u64) outcome" where
  "sys_mkdir c s =
     andthen (begin_op c s) (\<lambda>_ s.
     andthen (argstr c 0 MAXPATH s) (\<lambda>(r, path) s.
     if r < 0 then end_with c (-1) s else
     andthen (create c (upto_nul path) T_DIR 0 0 s) (\<lambda>r s.
     case r of None \<Rightarrow> end_with c (-1) s | Some ip \<Rightarrow> put_end_with c ip 0 s)))"

definition sys_mknod :: "nat \<Rightarrow> 'z file_st_scheme \<Rightarrow> ('z file_st_scheme, u64) outcome" where
  "sys_mknod c s =
     andthen (begin_op c s) (\<lambda>_ s.
     andthen (argint c 1 s) (\<lambda>major s.
     andthen (argint c 2 s) (\<lambda>minor s.
     andthen (argstr c 0 MAXPATH s) (\<lambda>(r, path) s.
     if r < 0 then end_with c (-1) s else
     andthen (create c (upto_nul path) T_DEVICE (word_of_int major) (word_of_int minor) s) (\<lambda>r s.
     case r of None \<Rightarrow> end_with c (-1) s | Some ip \<Rightarrow> put_end_with c ip 0 s)))))"

definition sys_chdir :: "nat \<Rightarrow> 'z file_st_scheme \<Rightarrow> ('z file_st_scheme, u64) outcome" where
  "sys_chdir c s =
     andthen (curproc c s) (\<lambda>p s.
     andthen (begin_op c s) (\<lambda>_ s.
     andthen (argstr c 0 MAXPATH s) (\<lambda>(r, path) s.
     if r < 0 then end_with c (-1) s else
     andthen (namei c (upto_nul path) s) (\<lambda>r s.
     case r of None \<Rightarrow> end_with c (-1) s
     | Some ip \<Rightarrow>
         andthen (ilock c ip s) (\<lambda>_ s.
         if i_type (ino s ip) \<noteq> T_DIR then put_end_with c ip (-1) s
         else
           andthen (iunlock c ip s) (\<lambda>_ s.
           andthen (case p_cwd (procs s ! p) of Some d \<Rightarrow> iput c d s | None \<Rightarrow> Panic ''kerneltrap'') (\<lambda>_ s.
           andthen (end_op c s) (\<lambda>_ s.
           Ret 0 (upd_proc p (\<lambda>q. q\<lparr>p_cwd := Some ip\<rparr>) s)))))))))"

section \<open>Exec and pipe\<close>

text \<open>The pages with the argument strings; \<open>False\<close> is \<^verbatim>\<open>goto bad\<close>.\<close>

fun exec_args ::
    "nat \<Rightarrow> u64 \<Rightarrow> nat list \<Rightarrow> u64 list \<Rightarrow> 'z file_st_scheme \<Rightarrow> ('z file_st_scheme, bool \<times> u64 list) outcome" where
  "exec_args c uargv [] argv s = Ret (False, argv) s"
| "exec_args c uargv (i # is) argv s =
     andthen (fetchaddr c (uargv + 8 * of_nat i) s) (\<lambda>r s.
     case r of None \<Rightarrow> Ret (False, argv) s
     | Some uarg \<Rightarrow>
         if uarg = 0 then Ret (True, argv) s
         else
           andthen (kalloc c s) (\<lambda>pg s.
           if pg = 0 then Ret (False, argv) s
           else
             andthen (fetchstr c uarg (unat PGSIZE) s) (\<lambda>(r, bs) s.
             let s = s\<lparr>mem := mem_write pg bs (mem s)\<rparr> in
             if r < 0 then Ret (False, argv @ [pg]) s
             else exec_args c uargv is (argv @ [pg]) s)))"

definition sys_exec :: "link \<Rightarrow> nat \<Rightarrow> 'z file_st_scheme \<Rightarrow> ('z file_st_scheme, u64) outcome" where
  "sys_exec lk c s =
     andthen (argaddr c 1 s) (\<lambda>uargv s.
     andthen (argstr c 0 MAXPATH s) (\<lambda>(r, path) s.
     if r < 0 then Ret (-1) s else
     andthen (exec_args c uargv [0..<MAXARG] [] s) (\<lambda>(ok, argv) s.
     andthen (if ok then exec lk c (upto_nul path) argv s else Ret (-1) s) (\<lambda>ret s.
     andthen (for_each (kfree (l_end lk) c) argv s) (\<lambda>_ s.
     Ret (word_of_int ret) s)))))"

definition sys_pipe :: "link \<Rightarrow> nat \<Rightarrow> 'z file_st_scheme \<Rightarrow> ('z file_st_scheme, u64) outcome" where
  "sys_pipe lk c s =
     andthen (curproc c s) (\<lambda>p s.
     andthen (argaddr c 0 s) (\<lambda>fdarray s.
     andthen (pipealloc (l_end lk) c s) (\<lambda>r s.
     case r of None \<Rightarrow> Ret (-1) s
     | Some (fr, fw) \<Rightarrow>
         let close = (\<lambda>s. andthen (fileclose (l_end lk) c fr s) (\<lambda>_ s.
                          andthen (fileclose (l_end lk) c fw s) (\<lambda>_ s. Ret (-1) s)))
         in andthen (fdalloc c fr s) (\<lambda>fd0 s.
            if fd0 < 0 then close s
            else
              andthen (fdalloc c fw s) (\<lambda>fd1 s.
              if fd1 < 0 then close (set_ofile p (nat fd0) None s)
              else
                andthen (copyout c (p_pagetable (procs s ! p)) fdarray (le_bytes 4 (word_of_int fd0 :: u32)) s) (\<lambda>r s.
                andthen (if r < 0 then Ret (-1) s
                         else copyout c (p_pagetable (procs s ! p)) (fdarray + 4) (le_bytes 4 (word_of_int fd1 :: u32)) s) (\<lambda>r s.
                if r < 0 then close (set_ofile p (nat fd1) None (set_ofile p (nat fd0) None s))
                else Ret 0 s)))))))"

end
