(* ===== verification/Virtio.thy ===== *)
theory Virtio
  imports ProcSys
begin

text \<open>
  \<^verbatim>\<open>kernel/virtio_disk.c\<close>, \<^verbatim>\<open>kernel/plic.c\<close> and the data of \<^verbatim>\<open>kernel/virtio.h\<close>.  Registers of devices are accessed as those of the
  UART are: \<open>m_ans\<close> holds the values the next reads will return, and \<open>m_trace\<close> records the accesses.  Memory that the
  device writes (the used ring and the status bytes) is part of the state and changed by nobody here.

  An address given to the device is one of the objects the driver points it at.
\<close>

unbundle bit_operations_syntax

section \<open>Device registers\<close>

datatype mmio = MRead u64 u32 | MWrite u64 u32

record mmio_st = sys_st +
  m_ans :: "u32 list"
  m_trace :: "mmio list"

definition mread :: "u64 \<Rightarrow> 'z mmio_st_scheme \<Rightarrow> ('z mmio_st_scheme, u32) outcome" where
  "mread a s =
     (case m_ans s of [] \<Rightarrow> Blocked s
      | v # vs \<Rightarrow> Ret v (s\<lparr>m_ans := vs, m_trace := m_trace s @ [MRead a v]\<rparr>))"

definition mwrite :: "u64 \<Rightarrow> u32 \<Rightarrow> 'z mmio_st_scheme \<Rightarrow> 'z mmio_st_scheme" where
  "mwrite a v s = s\<lparr>m_trace := m_trace s @ [MWrite a v]\<rparr>"

section \<open>Interrupt controller\<close>

definition UART0_IRQ :: u32 where "UART0_IRQ = 10"
definition VIRTIO0_IRQ :: u32 where "VIRTIO0_IRQ = 1"

definition PLIC_SENABLE :: "nat \<Rightarrow> u64" where "PLIC_SENABLE hart = PLIC + 0x2080 + of_nat hart * 0x100"
definition PLIC_SPRIORITY :: "nat \<Rightarrow> u64" where "PLIC_SPRIORITY hart = PLIC + 0x201000 + of_nat hart * 0x2000"
definition PLIC_SCLAIM :: "nat \<Rightarrow> u64" where "PLIC_SCLAIM hart = PLIC + 0x201004 + of_nat hart * 0x2000"

definition plicinit :: "'z mmio_st_scheme \<Rightarrow> 'z mmio_st_scheme" where
  "plicinit s = mwrite (PLIC + ucast VIRTIO0_IRQ * 4) 1 (mwrite (PLIC + ucast UART0_IRQ * 4) 1 s)"

definition plicinithart :: "nat \<Rightarrow> 'z mmio_st_scheme \<Rightarrow> 'z mmio_st_scheme" where
  "plicinithart c s =
     (let s = mwrite (PLIC_SENABLE c) (push_bit (unat UART0_IRQ) 1 OR push_bit (unat VIRTIO0_IRQ) 1) s
      in mwrite (PLIC_SPRIORITY c) 0 s)"

definition plic_claim :: "nat \<Rightarrow> 'z mmio_st_scheme \<Rightarrow> ('z mmio_st_scheme, u32) outcome" where
  "plic_claim c s = mread (PLIC_SCLAIM c) s"

definition plic_complete :: "nat \<Rightarrow> u32 \<Rightarrow> 'z mmio_st_scheme \<Rightarrow> 'z mmio_st_scheme" where
  "plic_complete c irq s = mwrite (PLIC_SCLAIM c) irq s"

section \<open>Data of the disk driver\<close>

definition NUM :: nat where "NUM = 8"
definition VRING_DESC_F_NEXT :: u16 where "VRING_DESC_F_NEXT = 1"
definition VRING_DESC_F_WRITE :: u16 where "VRING_DESC_F_WRITE = 2"
definition VIRTIO_BLK_T_IN :: u32 where "VIRTIO_BLK_T_IN = 0"
definition VIRTIO_BLK_T_OUT :: u32 where "VIRTIO_BLK_T_OUT = 1"

definition VIRTIO_MMIO_MAGIC_VALUE :: u64 where "VIRTIO_MMIO_MAGIC_VALUE = 0x000"
definition VIRTIO_MMIO_VERSION :: u64 where "VIRTIO_MMIO_VERSION = 0x004"
definition VIRTIO_MMIO_DEVICE_ID :: u64 where "VIRTIO_MMIO_DEVICE_ID = 0x008"
definition VIRTIO_MMIO_VENDOR_ID :: u64 where "VIRTIO_MMIO_VENDOR_ID = 0x00c"
definition VIRTIO_MMIO_DEVICE_FEATURES :: u64 where "VIRTIO_MMIO_DEVICE_FEATURES = 0x010"
definition VIRTIO_MMIO_DRIVER_FEATURES :: u64 where "VIRTIO_MMIO_DRIVER_FEATURES = 0x020"
definition VIRTIO_MMIO_QUEUE_SEL :: u64 where "VIRTIO_MMIO_QUEUE_SEL = 0x030"
definition VIRTIO_MMIO_QUEUE_NUM_MAX :: u64 where "VIRTIO_MMIO_QUEUE_NUM_MAX = 0x034"
definition VIRTIO_MMIO_QUEUE_NUM :: u64 where "VIRTIO_MMIO_QUEUE_NUM = 0x038"
definition VIRTIO_MMIO_QUEUE_READY :: u64 where "VIRTIO_MMIO_QUEUE_READY = 0x044"
definition VIRTIO_MMIO_QUEUE_NOTIFY :: u64 where "VIRTIO_MMIO_QUEUE_NOTIFY = 0x050"
definition VIRTIO_MMIO_INTERRUPT_STATUS :: u64 where "VIRTIO_MMIO_INTERRUPT_STATUS = 0x060"
definition VIRTIO_MMIO_INTERRUPT_ACK :: u64 where "VIRTIO_MMIO_INTERRUPT_ACK = 0x064"
definition VIRTIO_MMIO_STATUS :: u64 where "VIRTIO_MMIO_STATUS = 0x070"
definition VIRTIO_MMIO_QUEUE_DESC_LOW :: u64 where "VIRTIO_MMIO_QUEUE_DESC_LOW = 0x080"
definition VIRTIO_MMIO_QUEUE_DESC_HIGH :: u64 where "VIRTIO_MMIO_QUEUE_DESC_HIGH = 0x084"
definition VIRTIO_MMIO_DRIVER_DESC_LOW :: u64 where "VIRTIO_MMIO_DRIVER_DESC_LOW = 0x090"
definition VIRTIO_MMIO_DRIVER_DESC_HIGH :: u64 where "VIRTIO_MMIO_DRIVER_DESC_HIGH = 0x094"
definition VIRTIO_MMIO_DEVICE_DESC_LOW :: u64 where "VIRTIO_MMIO_DEVICE_DESC_LOW = 0x0a0"
definition VIRTIO_MMIO_DEVICE_DESC_HIGH :: u64 where "VIRTIO_MMIO_DEVICE_DESC_HIGH = 0x0a4"

definition VIRTIO_CONFIG_S_ACKNOWLEDGE :: u32 where "VIRTIO_CONFIG_S_ACKNOWLEDGE = 1"
definition VIRTIO_CONFIG_S_DRIVER :: u32 where "VIRTIO_CONFIG_S_DRIVER = 2"
definition VIRTIO_CONFIG_S_DRIVER_OK :: u32 where "VIRTIO_CONFIG_S_DRIVER_OK = 4"
definition VIRTIO_CONFIG_S_FEATURES_OK :: u32 where "VIRTIO_CONFIG_S_FEATURES_OK = 8"

text \<open>The feature bits the driver turns off, in the order in which it does.\<close>

definition features_off :: "nat list" where
  "features_off = [5, 7, 11, 12, 27, 29, 28]"

datatype daddr = DNull | DOps nat | DData nat | DStatus nat

record virtq_desc =
  d_addr :: daddr
  d_len :: u32
  d_flags :: u16
  d_next :: u16

record blk_req =
  rq_type :: u32
  rq_reserved :: u32
  rq_sector :: u64

record virtio_st = mmio_st +
  v_desc_page :: u64
  v_avail_page :: u64
  v_used_page :: u64
  v_desc :: "virtq_desc list"
  v_avail_idx :: u16
  v_avail_ring :: "u16 list"
  v_used_idx :: u16
  v_used_ring :: "u32 list"
  v_free :: "bool list"
  v_seen :: u16
  v_info_b :: "nat option list"
  v_info_status :: "u8 list"
  v_ops :: "blk_req list"

definition null_desc :: virtq_desc where
  "null_desc = \<lparr>d_addr = DNull, d_len = 0, d_flags = 0, d_next = 0\<rparr>"

section \<open>Initialisation\<close>

definition vreg :: "u64 \<Rightarrow> u64" where
  "vreg r = VIRTIO0 + r"

definition virtio_queue_init :: "nat \<Rightarrow> u32 \<Rightarrow> 'z virtio_st_scheme \<Rightarrow> ('z virtio_st_scheme, unit) outcome" where
  "virtio_queue_init c status s =
     andthen (kalloc c s) (\<lambda>desc s.
     andthen (kalloc c s) (\<lambda>avail s.
     andthen (kalloc c s) (\<lambda>used s.
     let s = s\<lparr>v_desc_page := desc, v_avail_page := avail, v_used_page := used\<rparr> in
     if desc = 0 \<or> avail = 0 \<or> used = 0 then Panic ''virtio disk kalloc''
     else
       let s = s\<lparr>mem := memset used 0 (ucast PGSIZE) (memset avail 0 (ucast PGSIZE)
                          (memset desc 0 (ucast PGSIZE) (mem s)))\<rparr>;
           s = s\<lparr>v_desc := replicate NUM null_desc, v_avail_idx := 0, v_avail_ring := replicate NUM 0,
                 v_used_idx := 0, v_used_ring := replicate NUM 0\<rparr>;
           s = mwrite (vreg VIRTIO_MMIO_QUEUE_NUM) (of_nat NUM) s;
           s = mwrite (vreg VIRTIO_MMIO_QUEUE_DESC_LOW) (ucast desc) s;
           s = mwrite (vreg VIRTIO_MMIO_QUEUE_DESC_HIGH) (ucast (drop_bit 32 desc)) s;
           s = mwrite (vreg VIRTIO_MMIO_DRIVER_DESC_LOW) (ucast avail) s;
           s = mwrite (vreg VIRTIO_MMIO_DRIVER_DESC_HIGH) (ucast (drop_bit 32 avail)) s;
           s = mwrite (vreg VIRTIO_MMIO_DEVICE_DESC_LOW) (ucast used) s;
           s = mwrite (vreg VIRTIO_MMIO_DEVICE_DESC_HIGH) (ucast (drop_bit 32 used)) s;
           s = mwrite (vreg VIRTIO_MMIO_QUEUE_READY) 1 s;
           s = s\<lparr>v_free := replicate NUM True\<rparr>
       in Ret () (mwrite (vreg VIRTIO_MMIO_STATUS) (status OR VIRTIO_CONFIG_S_DRIVER_OK) s))))"

definition virtio_disk_init :: "nat \<Rightarrow> 'z virtio_st_scheme \<Rightarrow> ('z virtio_st_scheme, unit) outcome" where
  "virtio_disk_init c s =
     (let s = s\<lparr>kmach := initlock LVdisk ''virtio_disk'' (kmach s)\<rparr> in
      andthen (mread (vreg VIRTIO_MMIO_MAGIC_VALUE) s) (\<lambda>v s.
      if v \<noteq> 0x74726976 then Panic ''could not find virtio disk'' else
      andthen (mread (vreg VIRTIO_MMIO_VERSION) s) (\<lambda>v s.
      if v \<noteq> 2 then Panic ''could not find virtio disk'' else
      andthen (mread (vreg VIRTIO_MMIO_DEVICE_ID) s) (\<lambda>v s.
      if v \<noteq> 2 then Panic ''could not find virtio disk'' else
      andthen (mread (vreg VIRTIO_MMIO_VENDOR_ID) s) (\<lambda>v s.
      if v \<noteq> 0x554d4551 then Panic ''could not find virtio disk'' else
      let s = mwrite (vreg VIRTIO_MMIO_STATUS) 0 s;
          status = VIRTIO_CONFIG_S_ACKNOWLEDGE;
          s = mwrite (vreg VIRTIO_MMIO_STATUS) status s;
          status = status OR VIRTIO_CONFIG_S_DRIVER;
          s = mwrite (vreg VIRTIO_MMIO_STATUS) status s
      in
      andthen (mread (vreg VIRTIO_MMIO_DEVICE_FEATURES) s) (\<lambda>features s.
      let s = mwrite (vreg VIRTIO_MMIO_DRIVER_FEATURES) (fold unset_bit features_off features) s;
          status = status OR VIRTIO_CONFIG_S_FEATURES_OK;
          s = mwrite (vreg VIRTIO_MMIO_STATUS) status s
      in
      andthen (mread (vreg VIRTIO_MMIO_STATUS) s) (\<lambda>status s.
      if status AND VIRTIO_CONFIG_S_FEATURES_OK = 0 then Panic ''virtio disk FEATURES_OK unset'' else
      let s = mwrite (vreg VIRTIO_MMIO_QUEUE_SEL) 0 s in
      andthen (mread (vreg VIRTIO_MMIO_QUEUE_READY) s) (\<lambda>v s.
      if v \<noteq> 0 then Panic ''virtio disk should not be ready'' else
      andthen (mread (vreg VIRTIO_MMIO_QUEUE_NUM_MAX) s) (\<lambda>mx s.
      if mx = 0 then Panic ''virtio disk has no queue 0''
      else if unat mx < NUM then Panic ''virtio disk max queue too short''
      else virtio_queue_init c status s)))))))))"

section \<open>Descriptors\<close>

definition alloc_desc :: "'z virtio_st_scheme \<Rightarrow> int \<times> 'z virtio_st_scheme" where
  "alloc_desc s =
     (case first_index (\<lambda>f. f) (v_free s) of
        Some i \<Rightarrow> (int i, s\<lparr>v_free := (v_free s)[i := False]\<rparr>)
      | None \<Rightarrow> (-1, s))"

definition free_desc :: "nat \<Rightarrow> nat \<Rightarrow> 'z virtio_st_scheme \<Rightarrow> ('z virtio_st_scheme, unit) outcome" where
  "free_desc c i s =
     (if i \<ge> NUM then Panic ''free_desc 1''
      else if v_free s ! i then Panic ''free_desc 2''
      else wakeup c (Some ChVdiskFree) (s\<lparr>v_desc := (v_desc s)[i := null_desc], v_free := (v_free s)[i := True]\<rparr>))"

text \<open>A chain longer than the table revisits a descriptor, on which \<^verbatim>\<open>free_desc\<close> panics; so \<open>NUM + 1\<close> rounds are enough.\<close>

fun free_chain_loop :: "nat \<Rightarrow> nat \<Rightarrow> nat \<Rightarrow> 'z virtio_st_scheme \<Rightarrow> ('z virtio_st_scheme, unit) outcome" where
  "free_chain_loop c 0 i s = Diverge"
| "free_chain_loop c (Suc fuel) i s =
     (let flag = d_flags (v_desc s ! i); nxt = unat (d_next (v_desc s ! i)) in
      andthen (free_desc c i s) (\<lambda>_ s.
      if flag AND VRING_DESC_F_NEXT \<noteq> 0 then free_chain_loop c fuel nxt s else Ret () s))"

definition free_chain :: "nat \<Rightarrow> nat \<Rightarrow> 'z virtio_st_scheme \<Rightarrow> ('z virtio_st_scheme, unit) outcome" where
  "free_chain c i s = free_chain_loop c (Suc NUM) i s"

text \<open>\<open>idx\<close> is what has been allocated so far, \<open>n\<close> how many are still missing.\<close>

fun alloc_descs ::
    "nat \<Rightarrow> nat \<Rightarrow> nat list \<Rightarrow> 'z virtio_st_scheme \<Rightarrow> ('z virtio_st_scheme, nat list option) outcome" where
  "alloc_descs c 0 idx s = Ret (Some idx) s"
| "alloc_descs c (Suc n) idx s =
     (let (i, s) = alloc_desc s in
      if i < 0 then andthen (for_each (free_desc c) idx s) (\<lambda>_ s. Ret None s)
      else alloc_descs c n (idx @ [nat i]) s)"

definition alloc3_desc :: "nat \<Rightarrow> 'z virtio_st_scheme \<Rightarrow> ('z virtio_st_scheme, nat list option) outcome" where
  "alloc3_desc c s = alloc_descs c 3 [] s"

section \<open>Requests\<close>

text \<open>The three descriptors of a request for buffer \<open>b\<close>, the entry in the available ring and the notification.\<close>

definition virtio_submit :: "nat \<Rightarrow> bool \<Rightarrow> nat \<Rightarrow> nat \<Rightarrow> nat \<Rightarrow> 'z virtio_st_scheme \<Rightarrow> 'z virtio_st_scheme" where
  "virtio_submit b write i0 i1 i2 s =
     (let sector = ucast (b_blockno (bufs s ! b) * of_nat (BSIZE div 512));
          s = s\<lparr>v_ops := (v_ops s)[i0 := \<lparr>rq_type = (if write then VIRTIO_BLK_T_OUT else VIRTIO_BLK_T_IN),
                                          rq_reserved = 0, rq_sector = sector\<rparr>]\<rparr>;
          s = s\<lparr>v_desc := (v_desc s)[i0 := \<lparr>d_addr = DOps i0, d_len = 16, d_flags = VRING_DESC_F_NEXT, d_next = of_nat i1\<rparr>]\<rparr>;
          s = s\<lparr>v_desc := (v_desc s)[i1 := \<lparr>d_addr = DData b, d_len = of_nat BSIZE,
                  d_flags = (if write then 0 else VRING_DESC_F_WRITE) OR VRING_DESC_F_NEXT, d_next = of_nat i2\<rparr>]\<rparr>;
          s = s\<lparr>v_info_status := (v_info_status s)[i0 := 0xff]\<rparr>;
          s = s\<lparr>v_desc := (v_desc s)[i2 := \<lparr>d_addr = DStatus i0, d_len = 1, d_flags = VRING_DESC_F_WRITE, d_next = 0\<rparr>]\<rparr>;
          s = upd_buf b (\<lambda>x. x\<lparr>b_disk := True\<rparr>) s;
          s = s\<lparr>v_info_b := (v_info_b s)[i0 := Some b]\<rparr>;
          s = s\<lparr>v_avail_ring := (v_avail_ring s)[unat (v_avail_idx s) mod NUM := of_nat i0]\<rparr>;
          s = s\<lparr>v_avail_idx := v_avail_idx s + 1\<rparr>
      in mwrite (vreg VIRTIO_MMIO_QUEUE_NOTIFY) 0 s)"

definition virtio_wait :: "nat \<Rightarrow> nat \<Rightarrow> nat \<Rightarrow> 'z virtio_st_scheme \<Rightarrow> ('z virtio_st_scheme, unit) outcome" where
  "virtio_wait c b i0 s =
     (if b_disk (bufs s ! b) then sleep c (Some (ChBuf b)) LVdisk s
      else
        andthen (free_chain c i0 (s\<lparr>v_info_b := (v_info_b s)[i0 := None]\<rparr>)) (\<lambda>_ s.
        k_release c LVdisk s))"

definition virtio_rw_loop :: "nat \<Rightarrow> nat \<Rightarrow> bool \<Rightarrow> 'z virtio_st_scheme \<Rightarrow> ('z virtio_st_scheme, unit) outcome" where
  "virtio_rw_loop c b write s =
     andthen (alloc3_desc c s) (\<lambda>r s.
     case r of None \<Rightarrow> sleep c (Some ChVdiskFree) LVdisk s
     | Some idx \<Rightarrow> virtio_wait c b (idx ! 0) (virtio_submit b write (idx ! 0) (idx ! 1) (idx ! 2) s))"

definition virtio_disk_rw :: "nat \<Rightarrow> nat \<Rightarrow> bool \<Rightarrow> 'z virtio_st_scheme \<Rightarrow> ('z virtio_st_scheme, unit) outcome" where
  "virtio_disk_rw c b write s = andthen (k_acquire c LVdisk s) (\<lambda>_ s. virtio_rw_loop c b write s)"

text \<open>What the call does after its sleep for descriptors, and after its sleep for the device.\<close>

definition virtio_disk_rw_retry ::
    "nat \<Rightarrow> nat \<Rightarrow> bool \<Rightarrow> nat \<Rightarrow> bool \<Rightarrow> 'z virtio_st_scheme \<Rightarrow> ('z virtio_st_scheme, unit) outcome" where
  "virtio_disk_rw_retry c p old_intena b write s =
     andthen (sleep_resume c p LVdisk old_intena s) (\<lambda>_ s. virtio_rw_loop c b write s)"

definition virtio_disk_rw_resume ::
    "nat \<Rightarrow> nat \<Rightarrow> bool \<Rightarrow> nat \<Rightarrow> nat \<Rightarrow> 'z virtio_st_scheme \<Rightarrow> ('z virtio_st_scheme, unit) outcome" where
  "virtio_disk_rw_resume c p old_intena b i0 s =
     andthen (sleep_resume c p LVdisk old_intena s) (\<lambda>_ s. virtio_wait c b i0 s)"

text \<open>The completion loop visits the entries between the two indices, whose distance bounds the rounds.\<close>

fun virtio_intr_loop :: "nat \<Rightarrow> nat \<Rightarrow> 'z virtio_st_scheme \<Rightarrow> ('z virtio_st_scheme, unit) outcome" where
  "virtio_intr_loop c 0 s = Diverge"
| "virtio_intr_loop c (Suc fuel) s =
     (if v_seen s \<noteq> v_used_idx s then
        let id = unat (v_used_ring s ! (unat (v_seen s) mod NUM)) in
        if id \<ge> NUM then Diverge
        else if v_info_status s ! id \<noteq> 0 then Panic ''virtio_disk_intr status''
        else
          case v_info_b s ! id of None \<Rightarrow> Panic ''kerneltrap''
          | Some b \<Rightarrow>
              andthen (wakeup c (Some (ChBuf b)) (upd_buf b (\<lambda>x. x\<lparr>b_disk := False\<rparr>) s)) (\<lambda>_ s.
              virtio_intr_loop c fuel (s\<lparr>v_seen := v_seen s + 1\<rparr>))
      else Ret () s)"

definition virtio_disk_intr :: "nat \<Rightarrow> 'z virtio_st_scheme \<Rightarrow> ('z virtio_st_scheme, unit) outcome" where
  "virtio_disk_intr c s =
     andthen (k_acquire c LVdisk s) (\<lambda>_ s.
     andthen (mread (vreg VIRTIO_MMIO_INTERRUPT_STATUS) s) (\<lambda>v s.
     let s = mwrite (vreg VIRTIO_MMIO_INTERRUPT_ACK) (v AND 3) s in
     andthen (virtio_intr_loop c (Suc (unat (v_used_idx s - v_seen s))) s) (\<lambda>_ s.
     k_release c LVdisk s)))"

end
