(* ===== verification/Syscall.thy ===== *)
theory Syscall
  imports Sysfile Virtio
begin

text \<open>
  The dispatcher of \<^verbatim>\<open>kernel/syscall.c\<close>.  \<open>pad\<close> stands for the padding bytes of the \<^verbatim>\<open>struct stat\<close> on the kernel stack.
\<close>

definition SYS_fork :: int where "SYS_fork = 1"
definition SYS_exit :: int where "SYS_exit = 2"
definition SYS_wait :: int where "SYS_wait = 3"
definition SYS_pipe :: int where "SYS_pipe = 4"
definition SYS_read :: int where "SYS_read = 5"
definition SYS_kill :: int where "SYS_kill = 6"
definition SYS_exec :: int where "SYS_exec = 7"
definition SYS_fstat :: int where "SYS_fstat = 8"
definition SYS_chdir :: int where "SYS_chdir = 9"
definition SYS_dup :: int where "SYS_dup = 10"
definition SYS_getpid :: int where "SYS_getpid = 11"
definition SYS_sbrk :: int where "SYS_sbrk = 12"
definition SYS_sleep :: int where "SYS_sleep = 13"
definition SYS_uptime :: int where "SYS_uptime = 14"
definition SYS_open :: int where "SYS_open = 15"
definition SYS_write :: int where "SYS_write = 16"
definition SYS_mknod :: int where "SYS_mknod = 17"
definition SYS_unlink :: int where "SYS_unlink = 18"
definition SYS_link :: int where "SYS_link = 19"
definition SYS_mkdir :: int where "SYS_mkdir = 20"
definition SYS_close :: int where "SYS_close = 21"

datatype sysfn = Fork | Exit | Wait | Pipe | Read | Kill | Exec | Fstat | Chdir | Dup | Getpid | Sbrk | Sleep | Uptime
  | Open | Write | Mknod | Unlink | Link | Mkdir | Close

definition syscalls :: "(int \<times> sysfn) list" where
  "syscalls =
    [(SYS_fork, Fork), (SYS_exit, Exit), (SYS_wait, Wait), (SYS_pipe, Pipe), (SYS_read, Read), (SYS_kill, Kill),
     (SYS_exec, Exec), (SYS_fstat, Fstat), (SYS_chdir, Chdir), (SYS_dup, Dup), (SYS_getpid, Getpid), (SYS_sbrk, Sbrk),
     (SYS_sleep, Sleep), (SYS_uptime, Uptime), (SYS_open, Open), (SYS_write, Write), (SYS_mknod, Mknod),
     (SYS_unlink, Unlink), (SYS_link, Link), (SYS_mkdir, Mkdir), (SYS_close, Close)]"

definition call_sys ::
    "link \<Rightarrow> u8 list \<Rightarrow> nat \<Rightarrow> sysfn \<Rightarrow> 'z virtio_st_scheme \<Rightarrow> ('z virtio_st_scheme, u64) outcome" where
  "call_sys lk pad c fn s =
     (case fn of
        Fork \<Rightarrow> sys_fork lk c s | Exit \<Rightarrow> sys_exit lk c s | Wait \<Rightarrow> sys_wait lk c s | Pipe \<Rightarrow> sys_pipe lk c s
      | Read \<Rightarrow> sys_read c s | Kill \<Rightarrow> sys_kill c s | Exec \<Rightarrow> sys_exec lk c s | Fstat \<Rightarrow> sys_fstat pad c s
      | Chdir \<Rightarrow> sys_chdir c s | Dup \<Rightarrow> sys_dup c s | Getpid \<Rightarrow> sys_getpid c s | Sbrk \<Rightarrow> sys_sbrk lk c s
      | Sleep \<Rightarrow> sys_sleep c s | Uptime \<Rightarrow> sys_uptime c s | Open \<Rightarrow> sys_open lk c s | Write \<Rightarrow> sys_write c s
      | Mknod \<Rightarrow> sys_mknod c s | Unlink \<Rightarrow> sys_unlink c s | Link \<Rightarrow> sys_link c s | Mkdir \<Rightarrow> sys_mkdir c s
      | Close \<Rightarrow> sys_close lk c s)"

definition set_a0 :: "nat \<Rightarrow> u64 \<Rightarrow> 'z proc_st_scheme \<Rightarrow> 'z proc_st_scheme" where
  "set_a0 p v s = tf_set (p_trapframe (procs s ! p)) TF_a0 v s"

definition syscall :: "link \<Rightarrow> u8 list \<Rightarrow> nat \<Rightarrow> 'z virtio_st_scheme \<Rightarrow> ('z virtio_st_scheme, unit) outcome" where
  "syscall lk pad c s =
     andthen (curproc c s) (\<lambda>p s.
     let num = sint (ucast (tf_get (p_trapframe (procs s ! p)) TF_a7 s) :: u32) in
     case map_of syscalls num of
       Some fn \<Rightarrow> andthen (call_sys lk pad c fn s) (\<lambda>r s. Ret () (set_a0 p r s))
     | None \<Rightarrow>
         andthen (printf c (''%d %s: unknown sys call %d'' @ [CHR 0x0A])
           [AInt (word_of_int (p_pid (procs s ! p))), AStr (Some (upto_nul (p_name (procs s ! p)))), AInt (word_of_int num)] s)
           (\<lambda>_ s. Ret () (set_a0 p (-1) s)))"

end
