(* ===== verification/Trap.thy ===== *)
theory Trap
  imports Syscall
begin

text \<open>
  \<^verbatim>\<open>kernel/trap.c\<close>, \<^verbatim>\<open>forkret\<close> of \<^verbatim>\<open>kernel/proc.c\<close>, \<^verbatim>\<open>kernel/main.c\<close> and \<^verbatim>\<open>kernel/start.c\<close>.  \<open>scsr\<close> holds the supervisor registers
  of a hart that these functions use, except the interrupt-enable bit, which is with the spin locks.  The
  result of \<open>usertrapret\<close> is the argument of the jump to \<^verbatim>\<open>userret\<close>.
\<close>

unbundle bit_operations_syntax

section \<open>Registers\<close>

record scsr =
  c_stvec :: u64
  c_sepc :: u64
  c_scause :: u64
  c_stval :: u64
  c_spp :: bool
  c_spie :: bool
  c_stimecmp :: u64
  c_time :: u64

record trap_st = virtio_st +
  csrs :: "nat \<Rightarrow> scsr"
  started :: bool

definition upd_csr :: "nat \<Rightarrow> (scsr \<Rightarrow> scsr) \<Rightarrow> 'z trap_st_scheme \<Rightarrow> 'z trap_st_scheme" where
  "upd_csr c f s = s\<lparr>csrs := (csrs s)(c := f (csrs s c))\<rparr>"

definition k_intr_on :: "nat \<Rightarrow> 'z kst_scheme \<Rightarrow> 'z kst_scheme" where
  "k_intr_on c s = s\<lparr>kmach := intr_on c (kmach s)\<rparr>"

definition k_intr_off :: "nat \<Rightarrow> 'z kst_scheme \<Rightarrow> 'z kst_scheme" where
  "k_intr_off c s = s\<lparr>kmach := intr_off c (kmach s)\<rparr>"

section \<open>Interrupts\<close>

definition trapinit :: "'z kst_scheme \<Rightarrow> 'z kst_scheme" where
  "trapinit s = s\<lparr>kmach := initlock LTicks ''time'' (kmach s)\<rparr>"

definition trapinithart :: "link \<Rightarrow> nat \<Rightarrow> 'z trap_st_scheme \<Rightarrow> 'z trap_st_scheme" where
  "trapinithart lk c s = upd_csr c (\<lambda>r. r\<lparr>c_stvec := l_kernelvec lk\<rparr>) s"

definition clockintr :: "nat \<Rightarrow> 'z trap_st_scheme \<Rightarrow> ('z trap_st_scheme, unit) outcome" where
  "clockintr c s =
     andthen (if c = 0 then
                andthen (k_acquire c LTicks s) (\<lambda>_ s.
                andthen (wakeup c (Some ChTicks) (s\<lparr>ticks := ticks s + 1\<rparr>)) (\<lambda>_ s.
                k_release c LTicks s))
              else Ret () s) (\<lambda>_ s.
     Ret () (upd_csr c (\<lambda>r. r\<lparr>c_stimecmp := c_time r + 1000000\<rparr>) s))"

definition devintr :: "nat \<Rightarrow> 'z trap_st_scheme \<Rightarrow> ('z trap_st_scheme, int) outcome" where
  "devintr c s =
     (let scause = c_scause (csrs s c) in
      if scause = 0x8000000000000009 then
        andthen (plic_claim c s) (\<lambda>irq s.
        andthen (if irq = UART0_IRQ then uartintr c s
                 else if irq = VIRTIO0_IRQ then virtio_disk_intr c s
                 else if irq \<noteq> 0 then
                   andthen (printf c (''unexpected interrupt irq=%d'' @ newline) [AInt irq] s) (\<lambda>_ s. Ret () s)
                 else Ret () s) (\<lambda>_ s.
        Ret 1 (if irq \<noteq> 0 then plic_complete c irq s else s)))
      else if scause = 0x8000000000000005 then andthen (clockintr c s) (\<lambda>_ s. Ret 2 s)
      else Ret 0 s)"

section \<open>Traps from user space\<close>

definition usertrapret :: "link \<Rightarrow> nat \<Rightarrow> 'z trap_st_scheme \<Rightarrow> ('z trap_st_scheme, u64) outcome" where
  "usertrapret lk c s =
     andthen (curproc c s) (\<lambda>p s.
     let s = k_intr_off c s;
         s = upd_csr c (\<lambda>r. r\<lparr>c_stvec := TRAMPOLINE + (l_uservec lk - l_trampoline lk)\<rparr>) s;
         tf = p_trapframe (procs s ! p);
         s = tf_set tf TF_kernel_satp (satp s c) s;
         s = tf_set tf TF_kernel_sp (p_kstack (procs s ! p) + PGSIZE) s;
         s = tf_set tf TF_kernel_trap (l_usertrap lk) s;
         s = tf_set tf TF_kernel_hartid (of_nat c) s;
         s = upd_csr c (\<lambda>r. r\<lparr>c_spp := False, c_spie := True\<rparr>) s;
         s = upd_csr c (\<lambda>r. r\<lparr>c_sepc := tf_get tf TF_epc s\<rparr>) s
     in Ret (MAKE_SATP (p_pagetable (procs s ! p))) s)"

text \<open>What \<^verbatim>\<open>usertrap\<close> does after the trap is handled, also when the handling slept.\<close>

definition usertrap_tail :: "link \<Rightarrow> nat \<Rightarrow> nat \<Rightarrow> int \<Rightarrow> 'z trap_st_scheme \<Rightarrow> ('z trap_st_scheme, u64) outcome" where
  "usertrap_tail lk c p which_dev s =
     andthen (killed c p s) (\<lambda>k s.
     if k \<noteq> 0 then exit lk c (-1) s
     else if which_dev = 2 then yield c s
     else usertrapret lk c s)"

definition usertrap_resume :: "link \<Rightarrow> nat \<Rightarrow> nat \<Rightarrow> bool \<Rightarrow> 'z trap_st_scheme \<Rightarrow> ('z trap_st_scheme, u64) outcome" where
  "usertrap_resume lk c p old_intena s = andthen (yield_resume c p old_intena s) (\<lambda>_ s. usertrapret lk c s)"

definition usertrap :: "link \<Rightarrow> u8 list \<Rightarrow> nat \<Rightarrow> 'z trap_st_scheme \<Rightarrow> ('z trap_st_scheme, u64) outcome" where
  "usertrap lk pad c s =
     (if c_spp (csrs s c) then Panic ''usertrap: not from user mode''
      else
        let s = upd_csr c (\<lambda>r. r\<lparr>c_stvec := l_kernelvec lk\<rparr>) s in
        andthen (curproc c s) (\<lambda>p s.
        let tf = p_trapframe (procs s ! p);
            s = tf_set tf TF_epc (c_sepc (csrs s c)) s
        in if c_scause (csrs s c) = 8 then
             andthen (killed c p s) (\<lambda>k s.
             if k \<noteq> 0 then exit lk c (-1) s
             else
               let s = k_intr_on c (tf_set tf TF_epc (tf_get tf TF_epc s + 4) s)
               in andthen (syscall lk pad c s) (\<lambda>_ s. usertrap_tail lk c p 0 s))
           else
             andthen (devintr c s) (\<lambda>which_dev s.
             if which_dev \<noteq> 0 then usertrap_tail lk c p which_dev s
             else
               andthen (printf c (''usertrap(): unexpected scause 0x%lx pid=%d'' @ newline)
                 [AU64 (c_scause (csrs s c)), AInt (word_of_int (p_pid (procs s ! p)))] s) (\<lambda>_ s.
               andthen (printf c (''            sepc=0x%lx stval=0x%lx'' @ newline)
                 [AU64 (c_sepc (csrs s c)), AU64 (c_stval (csrs s c))] s) (\<lambda>_ s.
               andthen (setkilled c p s) (\<lambda>_ s.
               usertrap_tail lk c p 0 s))))))"

definition forkret :: "link \<Rightarrow> nat \<Rightarrow> 'z trap_st_scheme \<Rightarrow> ('z trap_st_scheme, u64) outcome" where
  "forkret lk c s =
     andthen (curproc c s) (\<lambda>p s.
     andthen (k_release c (LProc p) s) (\<lambda>_ s.
     andthen (if forkret_first s then andthen (fsinit c ROOTDEV s) (\<lambda>_ s. Ret () (s\<lparr>forkret_first := False\<rparr>))
              else Ret () s) (\<lambda>_ s.
     usertrapret lk c s)))"

section \<open>Traps from the kernel\<close>

text \<open>The last two statements, which put back the registers that an interleaved trap may have changed.\<close>

definition kerneltrap_restore :: "nat \<Rightarrow> scsr \<Rightarrow> 'z trap_st_scheme \<Rightarrow> 'z trap_st_scheme" where
  "kerneltrap_restore c saved s =
     k_intr_off c (upd_csr c (\<lambda>r. r\<lparr>c_sepc := c_sepc saved, c_spp := c_spp saved, c_spie := c_spie saved\<rparr>) s)"

definition kerneltrap :: "nat \<Rightarrow> 'z trap_st_scheme \<Rightarrow> ('z trap_st_scheme, unit) outcome" where
  "kerneltrap c s =
     (let saved = csrs s c in
      if \<not> c_spp saved then Panic ''kerneltrap: not from supervisor mode''
      else if intr_get c (kmach s) then Panic ''kerneltrap: interrupts enabled''
      else
        andthen (devintr c s) (\<lambda>which_dev s.
        if which_dev = 0 then
          andthen (printf c (''scause=0x%lx sepc=0x%lx stval=0x%lx'' @ newline)
            [AU64 (c_scause saved), AU64 (c_sepc (csrs s c)), AU64 (c_stval (csrs s c))] s) (\<lambda>_ s. Panic ''kerneltrap'')
        else if which_dev = 2 then
          andthen (myproc c s) (\<lambda>p s.
          if p \<noteq> None then yield c s else Ret () (kerneltrap_restore c saved s))
        else Ret () (kerneltrap_restore c saved s)))"

definition kerneltrap_resume ::
    "nat \<Rightarrow> nat \<Rightarrow> bool \<Rightarrow> scsr \<Rightarrow> 'z trap_st_scheme \<Rightarrow> ('z trap_st_scheme, unit) outcome" where
  "kerneltrap_resume c p old_intena saved s =
     andthen (yield_resume c p old_intena s) (\<lambda>_ s. Ret () (kerneltrap_restore c saved s))"

section \<open>Boot\<close>

text \<open>Machine-mode registers set by \<^verbatim>\<open>start\<close>; \<open>m_main\<close> is the address of \<^verbatim>\<open>main\<close>.\<close>

record mregs =
  mr_mstatus :: u64
  mr_mepc :: u64
  mr_satp :: u64
  mr_medeleg :: u64
  mr_mideleg :: u64
  mr_sie :: u64
  mr_pmpaddr0 :: u64
  mr_pmpcfg0 :: u64
  mr_mie :: u64
  mr_menvcfg :: u64
  mr_mcounteren :: u64
  mr_stimecmp :: u64
  mr_time :: u64
  mr_mhartid :: u64
  mr_tp :: u64

definition MSTATUS_MPP_MASK :: u64 where "MSTATUS_MPP_MASK = push_bit 11 3"
definition MSTATUS_MPP_S :: u64 where "MSTATUS_MPP_S = push_bit 11 1"
definition SIE_SEIE :: u64 where "SIE_SEIE = push_bit 9 1"
definition SIE_STIE :: u64 where "SIE_STIE = push_bit 5 1"
definition SIE_SSIE :: u64 where "SIE_SSIE = push_bit 1 1"
definition MIE_STIE :: u64 where "MIE_STIE = push_bit 5 1"

definition timerinit :: "mregs \<Rightarrow> mregs" where
  "timerinit r =
     (let r = r\<lparr>mr_mie := mr_mie r OR MIE_STIE\<rparr>;
          r = r\<lparr>mr_menvcfg := mr_menvcfg r OR push_bit 63 1\<rparr>;
          r = r\<lparr>mr_mcounteren := mr_mcounteren r OR 2\<rparr>
      in r\<lparr>mr_stimecmp := mr_time r + 1000000\<rparr>)"

definition start :: "u64 \<Rightarrow> mregs \<Rightarrow> mregs" where
  "start m_main r =
     (let x = mr_mstatus r;
          x = x AND NOT MSTATUS_MPP_MASK;
          x = x OR MSTATUS_MPP_S;
          r = r\<lparr>mr_mstatus := x\<rparr>;
          r = r\<lparr>mr_mepc := m_main\<rparr>;
          r = r\<lparr>mr_satp := 0\<rparr>;
          r = r\<lparr>mr_medeleg := 0xffff\<rparr>;
          r = r\<lparr>mr_mideleg := 0xffff\<rparr>;
          r = r\<lparr>mr_sie := mr_sie r OR SIE_SEIE OR SIE_STIE OR SIE_SSIE\<rparr>;
          r = r\<lparr>mr_pmpaddr0 := 0x3fffffffffffff\<rparr>;
          r = r\<lparr>mr_pmpcfg0 := 0xf\<rparr>;
          r = timerinit r
      in r\<lparr>mr_tp := scast (ucast (mr_mhartid r) :: u32)\<rparr>)"

definition main_boot :: "link \<Rightarrow> u64 \<Rightarrow> nat \<Rightarrow> 'z trap_st_scheme \<Rightarrow> ('z trap_st_scheme, unit) outcome" where
  "main_boot lk etext c s =
     (let s = printfinit (consoleinit s) in
      andthen (printf c newline [] s) (\<lambda>_ s.
      andthen (printf c (''xv6 kernel is booting'' @ newline) [] s) (\<lambda>_ s.
      andthen (printf c newline [] s) (\<lambda>_ s.
      andthen (kinit (l_end lk) c s) (\<lambda>_ s.
      andthen (kvminit etext (l_trampoline lk) c s) (\<lambda>_ s.
      let s = kvminithart c s;
          s = procinit s;
          s = trapinit s;
          s = trapinithart lk c s;
          s = plicinit s;
          s = plicinithart c s;
          s = binit s;
          s = iinit s;
          s = fileinit s
      in
      andthen (virtio_disk_init c s) (\<lambda>_ s.
      andthen (userinit lk c s) (\<lambda>_ s.
      Ret () (s\<lparr>started := True\<rparr>)))))))))"

definition main :: "link \<Rightarrow> u64 \<Rightarrow> nat \<Rightarrow> 'z trap_st_scheme \<Rightarrow> ('z trap_st_scheme, unit) outcome" where
  "main lk etext c s =
     andthen (if c = 0 then main_boot lk etext c s
              else if \<not> started s then Blocked s
              else
                andthen (printf c (''hart %d starting'' @ newline) [AInt (of_nat c)] s) (\<lambda>_ s.
                Ret () (plicinithart c (trapinithart lk c (kvminithart c s))))) (\<lambda>_ s.
     Ret () (scheduler_start c s))"

end
