(* ===== verification/Asm.thy ===== *)
theory Asm
  imports UserCopy Proc
begin

text \<open>
  The assembly files of the kernel: \<^verbatim>\<open>trampoline.S\<close>, \<^verbatim>\<open>swtch.S\<close>, \<^verbatim>\<open>kernelvec.S\<close> and \<^verbatim>\<open>entry.S\<close>.  A routine is
  the list of its instructions; \<open>exec\<close> runs it on the registers of one hart and the physical memory, translating
  addresses through the page table named by \<^verbatim>\<open>satp\<close>.  The lemmas on \<open>saves\<close> and \<open>restores\<close> turn a block of stores or loads
  through one base register into an update of memory or registers; the theorems say that the register file survives a
  trap and a context switch.
\<close>

section \<open>Harts and instructions\<close>

datatype reg = RA | SP | GP | TP | T0 | T1 | T2 | T3 | T4 | T5 | T6 |
  S0 | S1 | S2 | S3 | S4 | S5 | S6 | S7 | S8 | S9 | S10 | S11 | A0 | A1 | A2 | A3 | A4 | A5 | A6 | A7

datatype csr = SSCRATCH | SATP | MHARTID

datatype instr =
    Sd reg u64 reg          \<comment> \<open>\<^verbatim>\<open>sd rs, off(base)\<close>\<close>
  | Ld reg u64 reg          \<comment> \<open>\<^verbatim>\<open>ld rd, off(base)\<close>\<close>
  | Li reg u64
  | Addi reg reg u64
  | Add reg reg reg
  | Mul reg reg reg
  | Csrr reg csr
  | Csrw csr reg
  | Sfence_vma
  | Call u64 u64            \<comment> \<open>target and return address\<close>
  | Jr reg
  | Sret

record hart =
  regs :: "reg \<Rightarrow> u64"
  hcsr :: "csr \<Rightarrow> u64"
  hmem :: mem

datatype leave = Fell | Goto u64 | Srets

text \<open>
  Address translation in supervisor mode: without a page table addresses are physical; with one, the leaf entry must be
  valid, allow the access and not be a user page.
\<close>

definition satp_root :: "u64 \<Rightarrow> u64" where
  "satp_root v = push_bit 12 (take_bit 44 v)"

definition translate :: "mem \<Rightarrow> u64 \<Rightarrow> u64 \<Rightarrow> u64 \<Rightarrow> u64 option" where
  "translate m v perm va =
     (if v = 0 then Some va
      else let pte = pte_of m (satp_root v) va in
        if va < MAXVA \<and> pte AND PTE_V \<noteq> 0 \<and> pte AND perm \<noteq> 0 \<and> pte AND PTE_U = 0
        then Some (PTE2PA pte + (va - PGROUNDDOWN va)) else None)"

definition set_reg :: "reg \<Rightarrow> u64 \<Rightarrow> hart \<Rightarrow> hart" where
  "set_reg r v h = h\<lparr>regs := (regs h)(r := v)\<rparr>"

text \<open>One instruction that does not jump; \<open>None\<close> is a fault.\<close>

fun step :: "instr \<Rightarrow> hart \<Rightarrow> hart option" where
  "step (Sd r off b) h = (case translate (hmem h) (hcsr h SATP) PTE_W (regs h b + off) of
     None \<Rightarrow> None | Some a \<Rightarrow> Some (h\<lparr>hmem := store64 a (regs h r) (hmem h)\<rparr>))"
| "step (Ld r off b) h = (case translate (hmem h) (hcsr h SATP) PTE_R (regs h b + off) of
     None \<Rightarrow> None | Some a \<Rightarrow> Some (set_reg r (load64 (hmem h) a) h))"
| "step (Li r v) h = Some (set_reg r v h)"
| "step (Addi r q v) h = Some (set_reg r (regs h q + v) h)"
| "step (Add r q p) h = Some (set_reg r (regs h q + regs h p) h)"
| "step (Mul r q p) h = Some (set_reg r (regs h q * regs h p) h)"
| "step (Csrr r k) h = Some (set_reg r (hcsr h k) h)"
| "step (Csrw k r) h = Some (h\<lparr>hcsr := (hcsr h)(k := regs h r)\<rparr>)"
| "step Sfence_vma h = Some h"
| "step (Call _ _) h = None"
| "step (Jr _) h = None"
| "step Sret h = None"

text \<open>A routine up to the instruction that leaves it.\<close>

fun exec :: "instr list \<Rightarrow> hart \<Rightarrow> (leave \<times> hart) option" where
  "exec [] h = Some (Fell, h)"
| "exec (Call f k # is) h = Some (Goto f, set_reg RA k h)"
| "exec (Jr r # is) h = Some (Goto (regs h r), h)"
| "exec (Sret # is) h = Some (Srets, h)"
| "exec (i # is) h = (case step i h of None \<Rightarrow> None | Some h \<Rightarrow> exec is h)"

section \<open>trampoline.S\<close>

definition uservec :: "instr list" where
  "uservec =
    [Csrw SSCRATCH A0,
     Li A0 TRAPFRAME,
     Sd RA 40 A0, Sd SP 48 A0, Sd GP 56 A0, Sd TP 64 A0, Sd T0 72 A0, Sd T1 80 A0, Sd T2 88 A0,
     Sd S0 96 A0, Sd S1 104 A0, Sd A1 120 A0, Sd A2 128 A0, Sd A3 136 A0, Sd A4 144 A0, Sd A5 152 A0,
     Sd A6 160 A0, Sd A7 168 A0, Sd S2 176 A0, Sd S3 184 A0, Sd S4 192 A0, Sd S5 200 A0, Sd S6 208 A0,
     Sd S7 216 A0, Sd S8 224 A0, Sd S9 232 A0, Sd S10 240 A0, Sd S11 248 A0, Sd T3 256 A0, Sd T4 264 A0,
     Sd T5 272 A0, Sd T6 280 A0,
     Csrr T0 SSCRATCH,
     Sd T0 112 A0,
     Ld SP 8 A0,
     Ld TP 32 A0,
     Ld T0 16 A0,
     Ld T1 0 A0,
     Sfence_vma,
     Csrw SATP T1,
     Sfence_vma,
     Jr T0]"

definition userret :: "instr list" where
  "userret =
    [Sfence_vma,
     Csrw SATP A0,
     Sfence_vma,
     Li A0 TRAPFRAME,
     Ld RA 40 A0, Ld SP 48 A0, Ld GP 56 A0, Ld TP 64 A0, Ld T0 72 A0, Ld T1 80 A0, Ld T2 88 A0,
     Ld S0 96 A0, Ld S1 104 A0, Ld A1 120 A0, Ld A2 128 A0, Ld A3 136 A0, Ld A4 144 A0, Ld A5 152 A0,
     Ld A6 160 A0, Ld A7 168 A0, Ld S2 176 A0, Ld S3 184 A0, Ld S4 192 A0, Ld S5 200 A0, Ld S6 208 A0,
     Ld S7 216 A0, Ld S8 224 A0, Ld S9 232 A0, Ld S10 240 A0, Ld S11 248 A0, Ld T3 256 A0, Ld T4 264 A0,
     Ld T5 272 A0, Ld T6 280 A0,
     Ld A0 112 A0,
     Sret]"

text \<open>Where \<^verbatim>\<open>struct trapframe\<close> keeps each register.\<close>

fun tf_slot :: "reg \<Rightarrow> u64" where
  "tf_slot RA = 40" | "tf_slot SP = 48" | "tf_slot GP = 56" | "tf_slot TP = 64"
| "tf_slot T0 = 72" | "tf_slot T1 = 80" | "tf_slot T2 = 88" | "tf_slot S0 = 96" | "tf_slot S1 = 104"
| "tf_slot A0 = 112" | "tf_slot A1 = 120" | "tf_slot A2 = 128" | "tf_slot A3 = 136" | "tf_slot A4 = 144"
| "tf_slot A5 = 152" | "tf_slot A6 = 160" | "tf_slot A7 = 168" | "tf_slot S2 = 176" | "tf_slot S3 = 184"
| "tf_slot S4 = 192" | "tf_slot S5 = 200" | "tf_slot S6 = 208" | "tf_slot S7 = 216" | "tf_slot S8 = 224"
| "tf_slot S9 = 232" | "tf_slot S10 = 240" | "tf_slot S11 = 248" | "tf_slot T3 = 256" | "tf_slot T4 = 264"
| "tf_slot T5 = 272" | "tf_slot T6 = 280"

section \<open>swtch.S\<close>

definition swtch :: "instr list" where
  "swtch =
    [Sd RA 0 A0, Sd SP 8 A0, Sd S0 16 A0, Sd S1 24 A0, Sd S2 32 A0, Sd S3 40 A0, Sd S4 48 A0, Sd S5 56 A0,
     Sd S6 64 A0, Sd S7 72 A0, Sd S8 80 A0, Sd S9 88 A0, Sd S10 96 A0, Sd S11 104 A0,
     Ld RA 0 A1, Ld SP 8 A1, Ld S0 16 A1, Ld S1 24 A1, Ld S2 32 A1, Ld S3 40 A1, Ld S4 48 A1, Ld S5 56 A1,
     Ld S6 64 A1, Ld S7 72 A1, Ld S8 80 A1, Ld S9 88 A1, Ld S10 96 A1, Ld S11 104 A1,
     Jr RA]"

section \<open>kernelvec.S\<close>

text \<open>The routine up to its call of \<^verbatim>\<open>kerneltrap\<close>, and from the return of that call.\<close>

definition kernelvec :: "u64 \<Rightarrow> u64 \<Rightarrow> instr list" where
  "kernelvec kerneltrap k =
    [Addi SP SP (- 256),
     Sd RA 0 SP, Sd SP 8 SP, Sd GP 16 SP, Sd TP 24 SP, Sd T0 32 SP, Sd T1 40 SP, Sd T2 48 SP,
     Sd A0 72 SP, Sd A1 80 SP, Sd A2 88 SP, Sd A3 96 SP, Sd A4 104 SP, Sd A5 112 SP, Sd A6 120 SP, Sd A7 128 SP,
     Sd T3 216 SP, Sd T4 224 SP, Sd T5 232 SP, Sd T6 240 SP,
     Call kerneltrap k]"

definition kernelvec_return :: "instr list" where
  "kernelvec_return =
    [Ld RA 0 SP, Ld SP 8 SP, Ld GP 16 SP, Ld T0 32 SP, Ld T1 40 SP, Ld T2 48 SP,
     Ld A0 72 SP, Ld A1 80 SP, Ld A2 88 SP, Ld A3 96 SP, Ld A4 104 SP, Ld A5 112 SP, Ld A6 120 SP, Ld A7 128 SP,
     Ld T3 216 SP, Ld T4 224 SP, Ld T5 232 SP, Ld T6 240 SP,
     Addi SP SP 256,
     Sret]"

section \<open>entry.S\<close>

definition entry_S :: "u64 \<Rightarrow> u64 \<Rightarrow> u64 \<Rightarrow> instr list" where
  "entry_S stack0 start k =
    [Li SP stack0,
     Li A0 (1024 * 4),
     Csrr A1 MHARTID,
     Addi A1 A1 1,
     Mul A0 A0 A1,
     Add SP SP A0,
     Call start k]"

section \<open>Blocks of stores and loads\<close>

text \<open>
  \<open>framed m v va pa offs\<close>: under page table \<open>v\<close> the words at \<open>va\<close> with the offsets of \<open>offs\<close> are memory at \<open>pa\<close> that is not
  part of the page table.
\<close>

definition framed :: "mem \<Rightarrow> u64 \<Rightarrow> u64 \<Rightarrow> u64 \<Rightarrow> u64 set \<Rightarrow> bool" where
  "framed m v va pa offs \<longleftrightarrow> pt_tree m 2 (satp_root v) \<and>
     (\<forall>off \<in> offs. translate m v PTE_R (va + off) = Some (pa + off) \<and> translate m v PTE_W (va + off) = Some (pa + off) \<and>
        aligned 8 (pa + off) \<and> PGROUNDDOWN (pa + off) \<notin> tables m 2 (satp_root v))"

definition words :: "nat \<Rightarrow> u64 set" where
  "words n = {off. unat off < 8 * n \<and> 8 dvd unat off}"

lemma framed_agree:
  assumes "framed m v va pa offs" and "agree (\<lambda>q. q \<in> tables m 2 (satp_root v)) m m'"
  shows "framed m' v va pa offs"
proof -
  have t: "pt_tree m 2 (satp_root v)" using assms(1) by (simp add: framed_def)
  note f = pt_frame [OF t assms(2)]
  have "translate m' v p a = translate m v p a" for p a
    using f(4) by (simp add: translate_def pte_of_def)
  then show ?thesis using assms(1) f(1,2) by (simp add: framed_def)
qed

lemma agree_store_frame:
  assumes "framed m v va pa offs" and "off \<in> offs"
  shows "agree (\<lambda>q. q \<in> tables m 2 (satp_root v)) m (store64 (pa + off) x m)"
  by (rule agree_mono [OF agree_store]) (use assms in \<open>auto simp: framed_def\<close>)

lemma framed_store:
  assumes "framed m v va pa offs" and "off \<in> offs" and "framed m v va' pa' offs'"
  shows "framed (store64 (pa + off) x m) v va' pa' offs'"
  by (rule framed_agree [OF assms(3) agree_store_frame [OF assms(1,2)]])

definition saves :: "u64 \<Rightarrow> (reg \<Rightarrow> u64) \<Rightarrow> (reg \<times> u64) list \<Rightarrow> mem \<Rightarrow> mem" where
  "saves pa g = fold (\<lambda>(r, off). store64 (pa + off) (g r))"

definition restores :: "u64 \<Rightarrow> mem \<Rightarrow> (reg \<times> u64) list \<Rightarrow> (reg \<Rightarrow> u64) \<Rightarrow> reg \<Rightarrow> u64" where
  "restores pa m = fold (\<lambda>(r, off) g. g(r := load64 m (pa + off)))"

lemma framed_saves:
  assumes "framed m v va pa offs" and "snd ` set ps \<subseteq> offs" and "framed m v va' pa' offs'"
  shows "framed (saves pa g ps m) v va' pa' offs' \<and> framed (saves pa g ps m) v va pa offs \<and>
    tables (saves pa g ps m) 2 (satp_root v) = tables m 2 (satp_root v)"
  using assms
proof (induction ps arbitrary: m)
  case (Cons p ps)
  obtain r off where p: "p = (r, off)" by (cases p)
  let ?m = "store64 (pa + off) (g r) m"
  have off: "off \<in> offs" using Cons.prems(2) p by simp
  have t: "tables ?m 2 (satp_root v) = tables m 2 (satp_root v)"
    by (rule pt_frame(1)) (use Cons.prems(1) agree_store_frame [OF Cons.prems(1) off] in \<open>simp_all add: framed_def\<close>)
  have "framed ?m v va pa offs" "framed ?m v va' pa' offs'"
    using framed_store [OF Cons.prems(1) off] Cons.prems(1,3) by blast+
  then show ?case using Cons.IH [of ?m] Cons.prems(2) t by (simp add: p saves_def)
qed (simp add: saves_def)

lemma exec_saves:
  assumes "framed (hmem h) (hcsr h SATP) va pa offs" and "regs h b = va" and "snd ` set ps \<subseteq> offs"
  shows "exec (map (\<lambda>(r, off). Sd r off b) ps @ is) h = exec is (h\<lparr>hmem := saves pa (regs h) ps (hmem h)\<rparr>)"
  using assms
proof (induction ps arbitrary: h)
  case (Cons p ps)
  obtain r off where p: "p = (r, off)" by (cases p)
  have off: "off \<in> offs" using Cons.prems(3) p by simp
  let ?h = "h\<lparr>hmem := store64 (pa + off) (regs h r) (hmem h)\<rparr>"
  have "step (Sd r off b) h = Some ?h" using Cons.prems(1,2) off by (simp add: framed_def)
  moreover have "framed (hmem ?h) (hcsr ?h SATP) va pa offs"
    using framed_store [OF Cons.prems(1) off Cons.prems(1)] by simp
  ultimately show ?case using Cons.IH [of ?h] Cons.prems(2,3) by (simp add: p saves_def del: step.simps)
qed (simp add: saves_def)

lemma exec_restores:
  assumes "framed (hmem h) (hcsr h SATP) va pa offs" and "regs h b = va" and "snd ` set ps \<subseteq> offs"
    and "\<And>off. (b, off) \<in> set ps \<Longrightarrow> load64 (hmem h) (pa + off) = va"
  shows "exec (map (\<lambda>(r, off). Ld r off b) ps @ is) h = exec is (h\<lparr>regs := restores pa (hmem h) ps (regs h)\<rparr>)"
  using assms
proof (induction ps arbitrary: h)
  case (Cons p ps)
  obtain r off where p: "p = (r, off)" by (cases p)
  have off: "off \<in> offs" using Cons.prems(3) p by simp
  let ?h = "set_reg r (load64 (hmem h) (pa + off)) h"
  have st: "step (Ld r off b) h = Some ?h" using Cons.prems(1,2) off by (simp add: framed_def)
  have "regs ?h b = va" using Cons.prems(2,4) p by (auto simp: set_reg_def)
  then have "exec (map (\<lambda>(r, off). Ld r off b) ps @ is) ?h = exec is (?h\<lparr>regs := restores pa (hmem ?h) ps (regs ?h)\<rparr>)"
    using Cons.prems by (intro Cons.IH) (auto simp: set_reg_def)
  then show ?case using st by (simp add: p restores_def set_reg_def del: step.simps)
qed (simp add: restores_def)

lemma load_saves_out:
  assumes "\<And>off. off \<in> offs \<Longrightarrow> aligned 8 (pa + off)" and "snd ` set ps \<subseteq> offs" and "off \<in> offs"
    and "off \<notin> snd ` set ps"
  shows "load64 (saves pa g ps m) (pa + off) = load64 m (pa + off)"
  using assms by (induction ps arbitrary: m) (auto simp: saves_def load_store_aligned)

lemma load_saves:
  assumes "\<And>off. off \<in> offs \<Longrightarrow> aligned 8 (pa + off)" and "snd ` set ps \<subseteq> offs" and "(r, off) \<in> set ps"
    and "distinct (map snd ps)"
  shows "load64 (saves pa g ps m) (pa + off) = g r"
  using assms
proof (induction ps arbitrary: m)
  case (Cons p ps)
  show ?case
  proof (cases "p = (r, off)")
    case True
    then have "off \<notin> snd ` set ps" using Cons.prems(4) by simp
    then have "load64 (saves pa g ps (store64 (pa + off) (g r) m)) (pa + off) = load64 (store64 (pa + off) (g r) m) (pa + off)"
      using Cons.prems True by (intro load_saves_out [of offs]) auto
    then show ?thesis using True by (simp add: saves_def load_store_same)
  next
    case False
    then show ?thesis using Cons by (auto simp: saves_def)
  qed
qed simp

lemma saves_outside:
  assumes "\<And>off. off \<in> snd ` set ps \<Longrightarrow> \<not> in_range (pa + off) 8 a"
  shows "saves pa g ps m a = m a"
  using assms by (induction ps arbitrary: m) (auto simp: saves_def store64_out)

lemma restores_at:
  assumes "distinct (map fst ps)"
  shows "restores pa m ps g r = (case map_of ps r of None \<Rightarrow> g r | Some off \<Rightarrow> load64 m (pa + off))"
  using assms
proof (induction ps arbitrary: g)
  case (Cons p ps)
  then show ?case by (cases p) (auto simp: restores_def map_of_eq_None_iff image_iff split: option.split)
qed (simp add: restores_def)

section \<open>Mappings\<close>

lemma satp_root_MAKE_SATP:
  assumes "aligned 4096 pt" and "unat pt < 2 ^ 56"
  shows "satp_root (MAKE_SATP pt) = pt" and "MAKE_SATP pt \<noteq> 0"
proof -
  have "unat pt mod 2 ^ 12 = 0" using assms(1) by (simp add: aligned_def)
  then have "take_bit 12 (unat pt) = 0" by (simp add: take_bit_eq_mod)
  then have "take_bit 12 pt = 0" by (metis unsigned_take_bit_eq unsigned_0 word_unat_eq_iff)
  then have lo: "\<not> bit pt k" if "k < 12" for k
    using that by (metis bit_take_bit_iff bit_0_eq bot_apply bot_bool_def)
  have "take_bit 56 (unat pt) = unat pt" using assms(2) by (simp add: take_bit_nat_eq_self)
  then have "take_bit 56 pt = pt" by (metis unsigned_take_bit_eq word_unat_eq_iff)
  then have hi: "\<not> bit pt k" if "56 \<le> k" for k using that by (metis bit_take_bit_iff not_less)
  show "satp_root (MAKE_SATP pt) = pt"
  proof (rule bit_word_eqI)
    fix n :: nat assume n: "n < LENGTH(64)"
    show "bit (satp_root (MAKE_SATP pt)) n = bit pt n"
    proof (cases "n < 12")
      case True
      then show ?thesis using lo by (simp add: satp_root_def bit_simps)
    next
      case False
      have "\<not> bit (8 :: u64) (n - 72)" using n by simp
      moreover have "n - 12 < 44" if "bit pt n" using hi [of n] that False by (cases "56 \<le> n") auto
      ultimately show ?thesis using False n by (auto simp: satp_root_def MAKE_SATP_def bit_simps)
    qed
  qed
  have "bit (MAKE_SATP pt) 63" by (simp add: MAKE_SATP_def bit_simps)
  then show "MAKE_SATP pt \<noteq> 0" by auto
qed

lemma PA2PTE_flags:
  assumes "g = take_bit 10 (g :: u64)"
  shows "(PA2PTE p OR f) AND g = f AND g"
proof (rule bit_word_eqI)
  fix n :: nat assume n: "n < LENGTH(64)"
  have g: "bit g n \<Longrightarrow> n < 10" by (subst (asm) assms) (simp add: bit_simps)
  show "bit ((PA2PTE p OR f) AND g) n = bit (f AND g) n"
    using g by (auto simp: PA2PTE_def bit_simps)
qed

lemma framed_page:
  assumes "pt_tree m 2 pt" and "unat pt < 2 ^ 56" and "aligned 4096 va" and "va < MAXVA" and "aligned 4096 pa"
    and "pte_of m pt va = PA2PTE pa OR (PTE_R OR PTE_W) OR PTE_V" and "pa \<notin> tables m 2 pt"
  shows "framed m (MAKE_SATP pt) va pa (words 512)"
proof -
  have al: "aligned 4096 pt" using assms(1) by (rule pt_tree_aligned)
  note r = satp_root_MAKE_SATP [OF al assms(2)]
  have w: "off = of_nat (unat off) \<and> unat off < 4096 \<and> 8 dvd unat off" if "off \<in> words 512" for off
    using that by (simp add: words_def)
  have t: "translate m (MAKE_SATP pt) p (va + off) = Some (pa + off) \<and> aligned 8 (pa + off) \<and> PGROUNDDOWN (pa + off) = pa"
    if "off \<in> words 512" and p: "p = PTE_R \<or> p = PTE_W" for off p
  proof -
    note o = w [OF that(1)]
    have pg: "PGROUNDDOWN (va + off) = va" "PGROUNDDOWN (pa + off) = pa"
      using PGROUNDDOWN_offset [OF assms(3), of "unat off"] PGROUNDDOWN_offset [OF assms(5), of "unat off"] o by simp_all
    have b: "va + off < MAXVA" using PGROUNDDOWN_below [of "va + off"] pg assms(4) by simp
    have pte: "pte_of m pt (va + off) = PA2PTE pa OR (PTE_R OR PTE_W OR PTE_V)"
      using pte_of_PGROUNDDOWN [OF b, of m pt] pg assms(6) by (simp add: or.assoc)
    have "PTE2PA (PA2PTE pa OR (PTE_R OR PTE_W OR PTE_V)) = pa"
      by (rule PTE2PA_PA2PTE [OF assms(5)]) (simp add: PTE_R_def PTE_W_def PTE_V_def)
    then have e: "PTE2PA (pte_of m pt (va + off)) = pa" "pte_of m pt (va + off) AND PTE_V = 1"
      "pte_of m pt (va + off) AND PTE_R = 2" "pte_of m pt (va + off) AND PTE_W = 4" "pte_of m pt (va + off) AND PTE_U = 0"
      unfolding pte by (simp, (subst PA2PTE_flags, simp_all add: PTE_R_def PTE_W_def PTE_V_def PTE_U_def)+)
    have "pte_of m pt (va + off) AND p \<noteq> 0" using p e(3,4) by auto
    then have "translate m (MAKE_SATP pt) p (va + off) = Some (pa + off)" using b pg r e by (simp add: translate_def)
    moreover have "unat (pa + off) = unat pa + unat off"
      using unat_plus_offset [of pa 4096 "unat off"] page_nowrap [OF assms(5)] o by simp
    then have "aligned 8 (pa + off)" using aligned_8_page [OF assms(5)] o by (simp add: aligned_def)
    ultimately show ?thesis using pg by simp
  qed
  then show ?thesis using assms(1,7) r t [of _ PTE_R] t [of _ PTE_W] by (simp add: framed_def)
qed

lemma framed_mono: "framed m v va pa offs \<Longrightarrow> offs' \<subseteq> offs \<Longrightarrow> framed m v va pa offs'"
  by (auto simp: framed_def)

lemma framed_aligned: "framed m v va pa offs \<Longrightarrow> off \<in> offs \<Longrightarrow> aligned 8 (pa + off)"
  by (simp add: framed_def)

section \<open>Traps from user space\<close>

definition user_regs :: "reg list" where
  "user_regs = [RA, SP, GP, TP, T0, T1, T2, S0, S1, A1, A2, A3, A4, A5, A6, A7, S2, S3, S4, S5, S6, S7, S8, S9, S10, S11,
     T3, T4, T5, T6]"

abbreviation user_slots :: "(reg \<times> u64) list" where
  "user_slots \<equiv> map (\<lambda>r. (r, tf_slot r)) user_regs"

lemma reg_in_user_regs: "r = A0 \<or> r \<in> set user_regs"
  by (cases r) (simp_all add: user_regs_def)

lemma user_regs_distinct: "distinct user_regs" "distinct (map tf_slot (A0 # user_regs))" "A0 \<notin> set user_regs"
  by (simp_all add: user_regs_def)

lemma tf_slot_words: "tf_slot r \<in> words 36"
  by (cases r) (simp_all add: words_def)

lemma uservec_blocks:
  "uservec = Csrw SSCRATCH A0 # Li A0 TRAPFRAME # map (\<lambda>(r, off). Sd r off A0) user_slots @
     Csrr T0 SSCRATCH # map (\<lambda>(r, off). Sd r off A0) [(T0, tf_slot A0)] @
     map (\<lambda>(r, off). Ld r off A0) [(SP, 8), (TP, 32), (T0, 16), (T1, 0)] @ [Sfence_vma, Csrw SATP T1, Sfence_vma, Jr T0]"
  by (simp add: uservec_def user_regs_def)

lemma userret_blocks:
  "userret = Sfence_vma # Csrw SATP A0 # Sfence_vma # Li A0 TRAPFRAME # map (\<lambda>(r, off). Ld r off A0) user_slots @
     [Ld A0 (tf_slot A0) A0, Sret]"
  by (simp add: userret_def user_regs_def)

abbreviation all_slots :: "(reg \<times> u64) list" where
  "all_slots \<equiv> map (\<lambda>r. (r, tf_slot r)) (user_regs @ [A0])"

lemma all_slots_distinct: "distinct (map snd all_slots)"
  using user_regs_distinct(2) by (simp add: comp_def)

lemma all_slots_in: "(r, tf_slot r) \<in> set all_slots"
  using reg_in_user_regs [of r] by auto

lemma slots_subset: "snd ` set all_slots \<subseteq> words 512" "snd ` set user_slots \<subseteq> words 512" "tf_slot r \<in> words 512"
proof -
  have "tf_slot r \<in> words 512" for r using tf_slot_words [of r] by (simp add: words_def)
  then show "snd ` set all_slots \<subseteq> words 512" "snd ` set user_slots \<subseteq> words 512" "tf_slot r \<in> words 512" by (auto simp del: tf_slot.simps)
qed

lemma header_slots: "off \<in> {0, 8, 16, 24, 32} \<Longrightarrow> off \<notin> snd ` set all_slots" "{0, 8, 16, 24, 32} \<subseteq> words 512"
  by (auto simp: user_regs_def words_def)

lemma saves_cong: "(\<And>r. r \<in> fst ` set ps \<Longrightarrow> g r = g' r) \<Longrightarrow> saves pa g ps m = saves pa g' ps m"
  by (induction ps arbitrary: m) (auto simp: saves_def)

lemma saves_append: "saves pa g (ps @ qs) m = saves pa g qs (saves pa g ps m)"
  by (simp add: saves_def)

lemma uservec_run:
  assumes f: "framed (hmem h) (hcsr h SATP) TRAPFRAME tf (words 512)"
  defines "m \<equiv> saves tf (regs h) all_slots (hmem h)"
  obtains h' where "exec uservec h = Some (Goto (load64 (hmem h) (tf + 16)), h')" and "hmem h' = m"
    and "regs h' SP = load64 (hmem h) (tf + 8)" and "regs h' TP = load64 (hmem h) (tf + 32)"
    and "hcsr h' SATP = load64 (hmem h) tf"
proof -
  let ?h1 = "set_reg A0 TRAPFRAME (h\<lparr>hcsr := (hcsr h)(SSCRATCH := regs h A0)\<rparr>)"
  let ?m1 = "saves tf (regs ?h1) user_slots (hmem h)"
  let ?h2 = "set_reg T0 (regs h A0) (?h1\<lparr>hmem := ?m1\<rparr>)"
  let ?m2 = "saves tf (regs ?h2) [(T0, tf_slot A0)] ?m1"
  let ?h3 = "?h2\<lparr>hmem := ?m2\<rparr>"
  let ?ls = "[(SP, 8), (TP, 32), (T0, 16), (T1, 0)] :: (reg \<times> u64) list"
    and ?fin = "[Sfence_vma, Csrw SATP T1, Sfence_vma, Jr T0]"
  have f2: "framed ?m1 (hcsr h SATP) TRAPFRAME tf (words 512)"
    using framed_saves [OF f slots_subset(2) f] by blast
  have "snd ` set [(T0, tf_slot A0)] \<subseteq> words 512" by (simp add: words_def)
  note s2 = this framed_saves [OF f2 this f2, of "regs ?h2", THEN conjunct1]
  have m2: "?m2 = m"
  proof -
    have "?m1 = saves tf (regs h) user_slots (hmem h)"
      using user_regs_distinct(3) by (intro saves_cong) (auto simp: set_reg_def)
    then show ?thesis by (simp add: m_def saves_append) (simp add: saves_def set_reg_def)
  qed
  have ld: "load64 m (tf + off) = load64 (hmem h) (tf + off)" if "off \<in> {0, 8, 16, 24, 32}" for off
    unfolding m_def using that header_slots(2)
    by (intro load_saves_out [OF framed_aligned [OF f] slots_subset(1) _ header_slots(1)]) blast+
  have "exec uservec h = exec (map (\<lambda>(r, off). Sd r off A0) user_slots @ Csrr T0 SSCRATCH #
      map (\<lambda>(r, off). Sd r off A0) [(T0, tf_slot A0)] @ map (\<lambda>(r, off). Ld r off A0) ?ls @ ?fin) ?h1"
    unfolding uservec_blocks by (simp add: set_reg_def del: list.map map_map)
  also have "\<dots> = exec (Csrr T0 SSCRATCH # map (\<lambda>(r, off). Sd r off A0) [(T0, tf_slot A0)] @
      map (\<lambda>(r, off). Ld r off A0) ?ls @ ?fin) (?h1\<lparr>hmem := ?m1\<rparr>)"
    by (rule exec_saves [OF _ _ slots_subset(2), THEN trans]) (simp_all add: f set_reg_def)
  also have "\<dots> = exec (map (\<lambda>(r, off). Sd r off A0) [(T0, tf_slot A0)] @ map (\<lambda>(r, off). Ld r off A0) ?ls @ ?fin) ?h2"
    by (simp add: set_reg_def del: list.map)
  also have "\<dots> = exec (map (\<lambda>(r, off). Ld r off A0) ?ls @ ?fin) ?h3"
    by (rule exec_saves [OF _ _ s2(1), THEN trans]) (use f2 in \<open>simp_all add: set_reg_def\<close>)
  also have "\<dots> = exec ?fin (?h3\<lparr>regs := restores tf m ?ls (regs ?h3)\<rparr>)"
    by (rule exec_restores [of _ TRAPFRAME tf "words 512", THEN trans])
       (use s2(2) m2 header_slots(2) in \<open>auto simp: set_reg_def\<close>)
  also have "\<dots> = Some (Goto (load64 (hmem h) (tf + 16)), ?h3\<lparr>regs := restores tf m ?ls (regs ?h3),
      hcsr := (hcsr ?h3)(SATP := load64 m tf)\<rparr>)"
    using ld [of 16] by (simp add: restores_def set_reg_def)
  finally show thesis
    by (rule that) (use m2 ld [of 8] ld [of 32] ld [of 0] in \<open>simp_all add: restores_def set_reg_def\<close>)
qed

lemma userret_run:
  assumes f: "framed (hmem h) (regs h A0) TRAPFRAME tf (words 512)"
  obtains h' where "exec userret h = Some (Srets, h')" and "\<And>r. regs h' r = load64 (hmem h) (tf + tf_slot r)"
    and "hmem h' = hmem h" and "hcsr h' SATP = regs h A0"
proof -
  let ?h1 = "set_reg A0 TRAPFRAME (h\<lparr>hcsr := (hcsr h)(SATP := regs h A0)\<rparr>)"
  let ?g = "restores tf (hmem h) user_slots (regs ?h1)"
  let ?h2 = "?h1\<lparr>regs := ?g\<rparr>"
  have g: "?g r = load64 (hmem h) (tf + tf_slot r)" if "r \<noteq> A0" for r
  proof -
    have d: "distinct (map fst user_slots)" using user_regs_distinct(1) by (simp add: comp_def)
    have "(r, tf_slot r) \<in> set user_slots" using that reg_in_user_regs [of r] by auto
    then have "map_of user_slots r = Some (tf_slot r)" by (rule map_of_is_SomeI [OF d])
    then show ?thesis unfolding restores_at [OF d] by simp
  qed
  have a: "?g A0 = TRAPFRAME"
    using user_regs_distinct(1,3) by (subst restores_at) (auto simp: comp_def map_of_eq_None_iff set_reg_def split: option.split)
  have "exec userret h = exec (map (\<lambda>(r, off). Ld r off A0) user_slots @ [Ld A0 (tf_slot A0) A0, Sret]) ?h1"
    unfolding userret_blocks by (simp add: set_reg_def del: map_map)
  also have "\<dots> = exec [Ld A0 (tf_slot A0) A0, Sret] ?h2"
    by (rule exec_restores [OF _ _ slots_subset(2), THEN trans]) (use f user_regs_distinct(3) in \<open>auto simp: set_reg_def\<close>)
  also have "\<dots> = Some (Srets, set_reg A0 (load64 (hmem h) (tf + tf_slot A0)) ?h2)"
  proof -
    have "translate (hmem h) (regs h A0) PTE_R (TRAPFRAME + tf_slot A0) = Some (tf + tf_slot A0)"
      using f slots_subset(3) [of A0] by (simp add: framed_def)
    then show ?thesis using a by (simp add: set_reg_def)
  qed
  finally show thesis
    by (rule that) (use g in \<open>auto simp: set_reg_def\<close>)
qed

lemma agree_saves:
  assumes "\<And>off. off \<in> offs \<Longrightarrow> aligned 8 (pa + off) \<and> \<not> P (PGROUNDDOWN (pa + off))" and "snd ` set ps \<subseteq> offs"
  shows "agree P m (saves pa g ps m)"
  using assms(2)
proof (induction ps arbitrary: m)
  case (Cons p ps)
  obtain r off where p: "p = (r, off)" by (cases p)
  have "agree P m (store64 (pa + off) (g r) m)"
    by (rule agree_mono [OF agree_store]) (use assms(1) [of off] Cons.prems p in auto)
  then show ?case using Cons.IH [of "store64 (pa + off) (g r) m"] Cons.prems
    by (auto simp: p saves_def intro: agree_trans)
qed (simp add: saves_def)

text \<open>\<open>tf_mapped m pt tf\<close>: the page table at \<open>pt\<close> maps \<^verbatim>\<open>TRAPFRAME\<close> to the page \<open>tf\<close> the way \<^verbatim>\<open>proc_pagetable\<close> does.\<close>

definition tf_mapped :: "mem \<Rightarrow> u64 \<Rightarrow> u64 \<Rightarrow> bool" where
  "tf_mapped m pt tf \<longleftrightarrow> pt_tree m 2 pt \<and> unat pt < 2 ^ 56 \<and> aligned 4096 tf \<and> tf \<notin> tables m 2 pt \<and>
     pte_of m pt TRAPFRAME = PA2PTE tf OR (PTE_R OR PTE_W) OR PTE_V"

lemma TRAPFRAME_page: "aligned 4096 TRAPFRAME" "TRAPFRAME < MAXVA"
  by (simp_all add: TRAPFRAME_def TRAMPOLINE_def PGSIZE_def MAXVA_def aligned_def)

lemma tf_mapped_framed: "tf_mapped m pt tf \<Longrightarrow> framed m (MAKE_SATP pt) TRAPFRAME tf (words 512)"
  unfolding tf_mapped_def
  by (rule framed_page) (simp_all add: TRAPFRAME_page)

lemma words_page: "aligned 4096 pa \<Longrightarrow> off \<in> words 512 \<Longrightarrow> aligned 8 (pa + off) \<and> PGROUNDDOWN (pa + off) = pa"
proof -
  assume a: "aligned 4096 pa" and ow: "off \<in> words 512"
  have u: "unat off < 4096" "8 dvd unat off" using ow by (simp_all add: words_def)
  have "unat (pa + off) = unat pa + unat off"
    using unat_plus_offset [of pa 4096 "unat off"] page_nowrap [OF a] u by simp
  then show ?thesis using aligned_8_page [OF a] u PGROUNDDOWN_offset [OF a, of "unat off"] by (simp add: aligned_def)
qed

lemma tf_mapped_saves:
  assumes "tf_mapped m pt tf" and "snd ` set ps \<subseteq> words 512"
  shows "tf_mapped (saves tf g ps m) pt tf" and "agree (\<lambda>q. q \<noteq> tf) m (saves tf g ps m)"
proof -
  have t: "pt_tree m 2 pt" "tf \<notin> tables m 2 pt" "aligned 4096 tf" using assms(1) by (simp_all add: tf_mapped_def)
  show ag: "agree (\<lambda>q. q \<noteq> tf) m (saves tf g ps m)" by (rule agree_saves [OF _ assms(2)]) (simp add: words_page [OF t(3)])
  then have "agree (\<lambda>q. q \<in> tables m 2 pt) m (saves tf g ps m)" by (rule agree_mono) (use t(2) in auto)
  from pt_frame [OF t(1) this] show "tf_mapped (saves tf g ps m) pt tf"
    using assms(1) by (simp add: tf_mapped_def pte_of_def)
qed

text \<open>
  C23. A trap from user space and the return to it preserve the registers.  On a trap \<^verbatim>\<open>uservec\<close>, run in the user's page table,
  writes all 31 registers to their places in the process's trap frame and nothing else to memory, and enters \<^verbatim>\<open>usertrap\<close> on the
  kernel stack, page table and hart number the trap frame names.  When the kernel later runs \<^verbatim>\<open>userret\<close> for that page table
  with the saved registers unchanged, every register has its value from before the trap.
\<close>

theorem trap_roundtrip:
  assumes "tf_mapped (hmem h) pt tf" and "hcsr h SATP = MAKE_SATP pt"
  shows "\<exists>k. exec uservec h = Some (Goto (load64 (hmem h) (tf + TF_kernel_trap)), k) \<and>
      regs k SP = load64 (hmem h) (tf + TF_kernel_sp) \<and> regs k TP = load64 (hmem h) (tf + TF_kernel_hartid) \<and>
      hcsr k SATP = load64 (hmem h) (tf + TF_kernel_satp) \<and> tf_mapped (hmem k) pt tf \<and>
      (\<forall>r. load64 (hmem k) (tf + tf_slot r) = regs h r) \<and> agree (\<lambda>q. q \<noteq> tf) (hmem h) (hmem k) \<and>
      (\<forall>h'. tf_mapped (hmem h') pt tf \<and> regs h' A0 = MAKE_SATP pt \<and>
          (\<forall>r. load64 (hmem h') (tf + tf_slot r) = load64 (hmem k) (tf + tf_slot r)) \<longrightarrow>
        (\<exists>u. exec userret h' = Some (Srets, u) \<and> regs u = regs h \<and> hcsr u SATP = hcsr h SATP \<and> hmem u = hmem h'))"
proof -
  have f: "framed (hmem h) (hcsr h SATP) TRAPFRAME tf (words 512)" using tf_mapped_framed [OF assms(1)] assms(2) by simp
  obtain k where k: "exec uservec h = Some (Goto (load64 (hmem h) (tf + 16)), k)" "hmem k = saves tf (regs h) all_slots (hmem h)"
    "regs k SP = load64 (hmem h) (tf + 8)" "regs k TP = load64 (hmem h) (tf + 32)" "hcsr k SATP = load64 (hmem h) tf"
    by (rule uservec_run [OF f])
  have sl: "load64 (hmem k) (tf + tf_slot r) = regs h r" for r
    unfolding k(2) by (rule load_saves [OF framed_aligned [OF f] slots_subset(1) all_slots_in all_slots_distinct])
  have rt: "\<exists>u. exec userret h' = Some (Srets, u) \<and> regs u = regs h \<and> hcsr u SATP = hcsr h SATP \<and> hmem u = hmem h'"
    if h': "tf_mapped (hmem h') pt tf" "regs h' A0 = MAKE_SATP pt"
      "\<And>r. load64 (hmem h') (tf + tf_slot r) = load64 (hmem k) (tf + tf_slot r)" for h'
  proof -
    have "framed (hmem h') (regs h' A0) TRAPFRAME tf (words 512)" using tf_mapped_framed [OF h'(1)] h'(2) by simp
    then obtain u where "exec userret h' = Some (Srets, u)" "\<And>r. regs u r = load64 (hmem h') (tf + tf_slot r)"
      "hmem u = hmem h'" "hcsr u SATP = regs h' A0" by (rule userret_run) blast
    then show ?thesis using h'(2,3) sl assms(2) by (auto simp: fun_eq_iff)
  qed
  show ?thesis
    using k tf_mapped_saves [OF assms(1) slots_subset(1), of "regs h"] sl rt
    by (intro exI [of _ k]) (auto simp: TF_kernel_trap_def TF_kernel_sp_def TF_kernel_hartid_def TF_kernel_satp_def)
qed

text \<open>The empty table of the two-page state with \<^verbatim>\<open>TRAPFRAME\<close> mapped.\<close>

lemma one_trapframe:
  obtains t :: kmem_st where "tf_mapped (mem t) 0x80200000 0x80300000"
proof -
  let ?p = "0x80200000 :: u64" and ?f = "0x80300000 :: u64" and ?perm = "PTE_R OR PTE_W"
  note z = zero_page_table [OF two_page_ok(1)]
  have a: "pt_tree (mem two_page_state) 2 ?p"
    and b: "set [0x80100000, 0x80101000] \<inter> tables (mem two_page_state) 2 ?p = {}"
    and nv: "\<forall>i < 1. \<not> valid (pte_of (mem two_page_state) ?p (TRAPFRAME + of_nat i * PGSIZE))"
    and tb: "tables (mem two_page_state) 2 ?p = {?p}"
    using z by (simp_all add: two_page_state_def pte_of_def)
  have d: "aligned 4096 TRAPFRAME" "0 < (1 :: nat)" "unat TRAPFRAME + 1 * 4096 \<le> 2 ^ 38"
    by (rule TRAPFRAME_page) (simp_all add: TRAPFRAME_def TRAMPOLINE_def PGSIZE_def MAXVA_def)
  obtain r t qs k where ex: "extended 0x80021000 two_page_state t ?p [0x80100000, 0x80101000] qs"
    and rk: "r = 0 \<and> k = 1 \<or> r = -1 \<and> qs = [] \<and> k < 1 \<and> length [0x80100000, 0x80101000 :: u64] < 2 * 1"
    and pt: "\<forall>va < MAXVA. pte_of (mem t) ?p va = mapped TRAPFRAME k ?f ?perm (pte_of (mem two_page_state) ?p) va"
    using mappages_ok [OF a two_page_ok(2,3) b d nv, of 0 ?f ?perm] by blast
  have "pte_of (mem t) ?p TRAPFRAME = PA2PTE ?f OR ?perm OR PTE_V"
    using pt rk TRAPFRAME_page in_range_page [OF d(1), of TRAPFRAME] by (auto simp: mapped_def)
  then have "tf_mapped (mem t) ?p ?f"
    using ex tb two_page_aligned by (auto simp: extended_def tf_mapped_def Cons_eq_append_conv)
  then show thesis by (rule that)
qed

theorem trap_roundtrip_witness:
  "\<exists>h k. exec uservec h = Some (Goto (load64 (hmem h) 0x80300010), k) \<and> load64 (hmem k) (0x80300000 + tf_slot S7) = 77"
proof -
  obtain t :: kmem_st where t: "tf_mapped (mem t) 0x80200000 0x80300000" by (rule one_trapframe)
  let ?h = "\<lparr>regs = (\<lambda>_. 77), hcsr = (\<lambda>_. MAKE_SATP 0x80200000), hmem = mem t\<rparr>"
  have "tf_mapped (hmem ?h) 0x80200000 0x80300000" "hcsr ?h SATP = MAKE_SATP 0x80200000" using t by simp_all
  from trap_roundtrip [OF this] obtain k where "exec uservec ?h = Some (Goto (load64 (hmem ?h) (0x80300000 + TF_kernel_trap)), k)"
    "\<forall>r. load64 (hmem k) (0x80300000 + tf_slot r) = regs ?h r" by blast
  then have "exec uservec ?h = Some (Goto (load64 (hmem ?h) 0x80300010), k) \<and> load64 (hmem k) (0x80300000 + tf_slot S7) = 77"
    by (simp add: TF_kernel_trap_def del: tf_slot.simps)
  then show ?thesis by blast
qed

section \<open>Context switches\<close>

text \<open>Where \<^verbatim>\<open>struct context\<close> keeps the registers that survive a function call.\<close>

definition ctx_regs :: "reg list" where
  "ctx_regs = [RA, SP, S0, S1, S2, S3, S4, S5, S6, S7, S8, S9, S10, S11]"

fun ctx_slot :: "reg \<Rightarrow> u64" where
  "ctx_slot RA = 0" | "ctx_slot SP = 8" | "ctx_slot S0 = 16" | "ctx_slot S1 = 24" | "ctx_slot S2 = 32"
| "ctx_slot S3 = 40" | "ctx_slot S4 = 48" | "ctx_slot S5 = 56" | "ctx_slot S6 = 64" | "ctx_slot S7 = 72"
| "ctx_slot S8 = 80" | "ctx_slot S9 = 88" | "ctx_slot S10 = 96" | "ctx_slot S11 = 104" | "ctx_slot _ = 0"

abbreviation ctx_slots :: "(reg \<times> u64) list" where
  "ctx_slots \<equiv> map (\<lambda>r. (r, ctx_slot r)) ctx_regs"

lemma swtch_blocks:
  "swtch = map (\<lambda>(r, off). Sd r off A0) ctx_slots @ map (\<lambda>(r, off). Ld r off A1) ctx_slots @ [Jr RA]"
  by (simp add: swtch_def ctx_regs_def)

lemma ctx_slots_props:
  "snd ` set ctx_slots \<subseteq> words 14" "distinct (map snd ctx_slots)" "distinct (map fst ctx_slots)"
  "RA \<in> set ctx_regs" "A0 \<notin> set ctx_regs" "A1 \<notin> set ctx_regs"
  by (simp_all add: ctx_regs_def words_def)

lemma ctx_slots_in: "r \<in> set ctx_regs \<Longrightarrow> (r, ctx_slot r) \<in> set ctx_slots"
  by auto

lemma load_saves_other:
  assumes "\<And>off. off \<in> snd ` set ps \<Longrightarrow> aligned 8 (pa + off) \<and> pa + off \<noteq> a" and "aligned 8 a"
  shows "load64 (saves pa g ps m) a = load64 m a"
  using assms by (induction ps arbitrary: m) (auto simp: saves_def load_store_aligned)

lemma swtch_run:
  assumes f: "framed (hmem h) (hcsr h SATP) (regs h A0) old (words 14)" "framed (hmem h) (hcsr h SATP) (regs h A1) new (words 14)"
    "\<forall>a \<in> words 14. \<forall>b \<in> words 14. old + a \<noteq> new + b"
  shows "\<exists>k. exec swtch h = Some (Goto (load64 (hmem h) (new + ctx_slot RA)), k) \<and>
      (\<forall>r. regs k r = (if r \<in> set ctx_regs then load64 (hmem h) (new + ctx_slot r) else regs h r)) \<and>
      (\<forall>r \<in> set ctx_regs. load64 (hmem k) (old + ctx_slot r) = regs h r)"
proof -
  let ?m = "saves old (regs h) ctx_slots (hmem h)"
  let ?k = "h\<lparr>hmem := ?m, regs := restores new ?m ctx_slots (regs h)\<rparr>"
  have f2: "framed ?m (hcsr h SATP) (regs h A1) new (words 14)"
    using framed_saves [OF f(1) ctx_slots_props(1) f(2)] by blast
  have w: "ctx_slot r \<in> words 14" if "r \<in> set ctx_regs" for r using subsetD [OF ctx_slots_props(1), of "ctx_slot r"] that by (auto simp: image_image)
  have ld: "load64 ?m (new + ctx_slot r) = load64 (hmem h) (new + ctx_slot r)" if "r \<in> set ctx_regs" for r
  proof (rule load_saves_other)
    fix off assume "off \<in> snd ` set ctx_slots"
    then have "off \<in> words 14" using ctx_slots_props(1) by blast
    then show "aligned 8 (old + off) \<and> old + off \<noteq> new + ctx_slot r" using framed_aligned [OF f(1)] f(3) w [OF that] by blast
  qed (rule framed_aligned [OF f(2) w [OF that]])
  have rg: "restores new ?m ctx_slots (regs h) r = (if r \<in> set ctx_regs then load64 (hmem h) (new + ctx_slot r) else regs h r)" for r
    unfolding restores_at [OF ctx_slots_props(3)] map_of_map_restrict using ld [of r]
    by (auto simp: restrict_map_def)
  have "exec swtch h = exec (map (\<lambda>(r, off). Ld r off A1) ctx_slots @ [Jr RA]) (h\<lparr>hmem := ?m\<rparr>)"
    unfolding swtch_blocks by (rule exec_saves [OF f(1) refl ctx_slots_props(1)])
  also have "\<dots> = exec [Jr RA] ?k"
    by (rule exec_restores [of _ "regs h A1" new "words 14", THEN trans]) (use f2 ctx_slots_props in auto)
  finally have "exec swtch h = Some (Goto (load64 (hmem h) (new + ctx_slot RA)), ?k)" using rg [of RA] ctx_slots_props(4) by simp
  moreover have "load64 ?m (old + ctx_slot r) = regs h r" if "r \<in> set ctx_regs" for r
    by (rule load_saves [OF framed_aligned [OF f(1)] ctx_slots_props(1) ctx_slots_in [OF that] ctx_slots_props(2)])
  ultimately show ?thesis using rg by (intro exI [of _ ?k]) simp
qed

text \<open>
  C24. \<^verbatim>\<open>swtch(old, new)\<close> saves the stack pointer, the return address and the twelve callee-saved registers in \<^verbatim>\<open>old\<close>, loads those
  of \<^verbatim>\<open>new\<close> and returns to the address saved there; no other register changes.  A thread that was switched away from
  resumes after its own call of \<^verbatim>\<open>swtch\<close>, with all these registers as they were, once another \<^verbatim>\<open>swtch\<close> loads its context.
\<close>

theorem swtch_switches:
  assumes "framed (hmem h) (hcsr h SATP) (regs h A0) old (words 14)" and "framed (hmem h) (hcsr h SATP) (regs h A1) new (words 14)"
    and "\<forall>a \<in> words 14. \<forall>b \<in> words 14. old + a \<noteq> new + b"
  shows "\<exists>k. exec swtch h = Some (Goto (load64 (hmem h) (new + ctx_slot RA)), k) \<and>
      (\<forall>r. regs k r = (if r \<in> set ctx_regs then load64 (hmem h) (new + ctx_slot r) else regs h r)) \<and>
      (\<forall>h' old'. framed (hmem h') (hcsr h' SATP) (regs h' A0) old' (words 14) \<and> framed (hmem h') (hcsr h' SATP) (regs h' A1) old (words 14) \<and>
          (\<forall>a \<in> words 14. \<forall>b \<in> words 14. old' + a \<noteq> old + b) \<and>
          (\<forall>r \<in> set ctx_regs. load64 (hmem h') (old + ctx_slot r) = load64 (hmem k) (old + ctx_slot r)) \<longrightarrow>
        (\<exists>u. exec swtch h' = Some (Goto (regs h RA), u) \<and> (\<forall>r \<in> set ctx_regs. regs u r = regs h r)))"
proof -
  obtain k where "exec swtch h = Some (Goto (load64 (hmem h) (new + ctx_slot RA)), k)"
    "\<forall>r. regs k r = (if r \<in> set ctx_regs then load64 (hmem h) (new + ctx_slot r) else regs h r)"
    and k: "\<forall>r \<in> set ctx_regs. load64 (hmem k) (old + ctx_slot r) = regs h r"
    using swtch_run [OF assms] by blast
  moreover have "\<exists>u. exec swtch h' = Some (Goto (regs h RA), u) \<and> (\<forall>r \<in> set ctx_regs. regs u r = regs h r)"
    if "framed (hmem h') (hcsr h' SATP) (regs h' A0) old' (words 14)" "framed (hmem h') (hcsr h' SATP) (regs h' A1) old (words 14)"
      "\<forall>a \<in> words 14. \<forall>b \<in> words 14. old' + a \<noteq> old + b"
      "\<forall>r \<in> set ctx_regs. load64 (hmem h') (old + ctx_slot r) = load64 (hmem k) (old + ctx_slot r)" for h' old'
    using swtch_run [OF that(1-3)] that(4) k ctx_slots_props(4) by (metis (no_types, lifting))
  ultimately show ?thesis by blast
qed

lemma framed_shift:
  assumes "framed m v va pa offs" and "\<And>off. off \<in> offs' \<Longrightarrow> d + off \<in> offs"
  shows "framed m v (va + d) (pa + d) offs'"
  using assms by (simp add: framed_def add.assoc)

theorem swtch_switches_witness:
  "\<exists>h k. exec swtch h = Some (Goto (load64 (hmem h) 0x80300200), k) \<and> regs k A3 = 5"
proof -
  obtain t :: kmem_st where t: "tf_mapped (mem t) 0x80200000 0x80300000" by (rule one_trapframe)
  let ?h = "\<lparr>regs = (\<lambda>r. if r = A0 then TRAPFRAME else if r = A1 then TRAPFRAME + 512 else 5),
    hcsr = (\<lambda>_. MAKE_SATP 0x80200000), hmem = mem t\<rparr>"
  note f = tf_mapped_framed [OF t]
  have far: "512 + off \<in> words 512 \<and> unat (512 + off) = 512 + unat off" if "off \<in> words 14" for off
  proof -
    have "unat (512 + off) = 512 + unat off" using that unat_plus_offset [of 512 112 "unat off"] by (simp add: words_def)
    then show ?thesis using that by (simp add: words_def)
  qed
  have "words 14 \<subseteq> words 512" by (auto simp: words_def)
  then have "framed (hmem ?h) (hcsr ?h SATP) (regs ?h A0) 0x80300000 (words 14)" using framed_mono [OF f] by simp
  moreover have "framed (hmem ?h) (hcsr ?h SATP) (regs ?h A1) (0x80300000 + 512) (words 14)"
    using framed_shift [OF f, of "words 14" 512] far by simp
  moreover have "\<forall>a \<in> words 14. \<forall>b \<in> words 14. (0x80300000 :: u64) + a \<noteq> 0x80300000 + 512 + b"
  proof (intro ballI notI)
    fix a b assume "a \<in> words 14" "b \<in> words 14" "(0x80300000 :: u64) + a = 0x80300000 + 512 + b"
    then have "a = 512 + b" "unat a < 112" by (simp_all only: add.assoc add_left_cancel) (simp add: words_def)
    then show False using far [OF \<open>b \<in> words 14\<close>] by simp
  qed
  ultimately have "\<exists>k. exec swtch ?h = Some (Goto (load64 (hmem ?h) (0x80300000 + 512 + ctx_slot RA)), k) \<and>
      (\<forall>r. regs k r = (if r \<in> set ctx_regs then load64 (hmem ?h) (0x80300000 + 512 + ctx_slot r) else regs ?h r))"
    using swtch_switches [of ?h "0x80300000" "0x80300000 + 512"] by blast
  then obtain k where "exec swtch ?h = Some (Goto (load64 (hmem ?h) 0x80300200), k)" "regs k A3 = 5"
    by (auto simp: ctx_regs_def)
  then show ?thesis by blast
qed

section \<open>Traps from the kernel\<close>

text \<open>Where \<^verbatim>\<open>kernelvec\<close> keeps the registers on the stack.\<close>

definition kv_slots :: "(reg \<times> u64) list" where
  "kv_slots = [(RA, 0), (SP, 8), (GP, 16), (T0, 32), (T1, 40), (T2, 48), (A0, 72), (A1, 80), (A2, 88), (A3, 96), (A4, 104),
     (A5, 112), (A6, 120), (A7, 128), (T3, 216), (T4, 224), (T5, 232), (T6, 240)]"

abbreviation kv_saved :: "(reg \<times> u64) list" where
  "kv_saved \<equiv> take 3 kv_slots @ (TP, 24) # drop 3 kv_slots"

abbreviation kv_callee_saved :: "reg set" where
  "kv_callee_saved \<equiv> {S0, S1, S2, S3, S4, S5, S6, S7, S8, S9, S10, S11}"

lemma kernelvec_blocks:
  "kernelvec f k = Addi SP SP (- 256) # map (\<lambda>(r, off). Sd r off SP) kv_saved @ [Call f k]"
  "kernelvec_return = map (\<lambda>(r, off). Ld r off SP) kv_slots @ [Addi SP SP 256, Sret]"
  by (simp_all add: kernelvec_def kernelvec_return_def kv_slots_def)

lemma kv_slots_props:
  "snd ` set kv_saved \<subseteq> words 32" "snd ` set kv_slots \<subseteq> words 32" "distinct (map snd kv_saved)" "distinct (map fst kv_slots)"
  "set kv_slots \<subseteq> set kv_saved" "(SP, 8) \<in> set kv_slots" "(SP, off) \<in> set kv_slots \<Longrightarrow> off = 8"
  by (auto simp: kv_slots_def words_def)

lemma kv_slots_dom: "map_of kv_slots r = None \<longleftrightarrow> r = TP \<or> r \<in> kv_callee_saved"
  by (cases r) (simp_all add: kv_slots_def)

text \<open>
  C25. An interrupt in the kernel is invisible to the code it interrupts.  \<^verbatim>\<open>kernelvec\<close> pushes a frame and calls \<^verbatim>\<open>kerneltrap\<close>.
  If that function follows the calling convention, that is, comes back with the stack pointer, the callee-saved registers
  and the frame as they were, then the code after the call restores every register except \<^verbatim>\<open>tp\<close>, which keeps the number of the
  hart the thread now runs on.
\<close>

theorem kernelvec_transparent:
  assumes "framed (hmem h) (hcsr h SATP) (regs h SP - 256) pa (words 32)"
  shows "\<exists>k. exec (kernelvec f ret) h = Some (Goto f, k) \<and> regs k RA = ret \<and> regs k SP = regs h SP - 256 \<and>
      (\<forall>r. r \<noteq> RA \<and> r \<noteq> SP \<longrightarrow> regs k r = regs h r) \<and>
      (\<forall>h'. framed (hmem h') (hcsr h' SATP) (regs k SP) pa (words 32) \<and> regs h' SP = regs k SP \<and>
          (\<forall>r \<in> kv_callee_saved. regs h' r = regs k r) \<and>
          (\<forall>off \<in> words 32. load64 (hmem h') (pa + off) = load64 (hmem k) (pa + off)) \<longrightarrow>
        (\<exists>u. exec kernelvec_return h' = Some (Srets, u) \<and> regs u TP = regs h' TP \<and> (\<forall>r. r \<noteq> TP \<longrightarrow> regs u r = regs h r)))"
proof -
  let ?h = "set_reg SP (regs h SP - 256) h"
  let ?m = "saves pa (regs ?h) kv_saved (hmem h)"
  let ?k = "set_reg RA ret (?h\<lparr>hmem := ?m\<rparr>)"
  have run: "exec (kernelvec f ret) h = Some (Goto f, ?k)"
  proof -
    have "exec (kernelvec f ret) h = exec (map (\<lambda>(r, off). Sd r off SP) kv_saved @ [Call f ret]) ?h"
      unfolding kernelvec_blocks by (simp add: set_reg_def del: list.map map_append)
    also have "\<dots> = exec [Call f ret] (?h\<lparr>hmem := ?m\<rparr>)"
      by (rule exec_saves [OF _ _ kv_slots_props(1), THEN trans]) (use assms in \<open>simp_all add: set_reg_def\<close>)
    finally show ?thesis by simp
  qed
  have sl: "load64 ?m (pa + off) = regs ?h r" if "(r, off) \<in> set kv_slots" for r off
    by (rule load_saves [OF framed_aligned [OF assms] kv_slots_props(1) subsetD [OF kv_slots_props(5) that] kv_slots_props(3)])
  have rt: "\<exists>u. exec kernelvec_return h' = Some (Srets, u) \<and> regs u TP = regs h' TP \<and> (\<forall>r. r \<noteq> TP \<longrightarrow> regs u r = regs h r)"
    if h': "framed (hmem h') (hcsr h' SATP) (regs ?k SP) pa (words 32)" "regs h' SP = regs ?k SP"
      "\<forall>r \<in> kv_callee_saved. regs h' r = regs ?k r" "\<forall>off \<in> words 32. load64 (hmem h') (pa + off) = load64 (hmem ?k) (pa + off)" for h'
  proof -
    have l: "load64 (hmem h') (pa + off) = regs ?h r" if "(r, off) \<in> set kv_slots" for r off
      using sl [OF that] h'(4) kv_slots_props(2) that by (force simp: set_reg_def)
    let ?g = "restores pa (hmem h') kv_slots (regs h')"
    have g: "?g r = (if r = TP \<or> r \<in> kv_callee_saved then regs h' r else regs ?h r)" for r
    proof (cases "map_of kv_slots r")
      case None
      then have "r = TP \<or> r \<in> kv_callee_saved" by (rule kv_slots_dom [THEN iffD1])
      then show ?thesis unfolding restores_at [OF kv_slots_props(4)] None by (simp only: if_True option.case)
    next
      case (Some off)
      then have "\<not> (r = TP \<or> r \<in> kv_callee_saved)" using kv_slots_dom [of r] by (metis option.distinct(1))
      then show ?thesis unfolding restores_at [OF kv_slots_props(4)] Some using l [OF map_of_SomeD [OF Some]]
        by (simp only: if_False option.case)
    qed
    have "exec kernelvec_return h' = exec [Addi SP SP 256, Sret] (h'\<lparr>regs := ?g\<rparr>)"
      unfolding kernelvec_blocks
      by (rule exec_restores [OF h'(1,2) kv_slots_props(2)]) (use l kv_slots_props in \<open>auto simp: set_reg_def\<close>)
    also have "\<dots> = Some (Srets, set_reg SP (regs h SP) (h'\<lparr>regs := ?g\<rparr>))" using g [of SP] by (simp add: set_reg_def)
    finally show ?thesis using g h'(3) by (auto simp: set_reg_def)
  qed
  show ?thesis
  proof (rule exI [of _ ?k], intro conjI allI impI)
    fix h' :: hart
    assume "framed (hmem h') (hcsr h' SATP) (regs ?k SP) pa (words 32) \<and> regs h' SP = regs ?k SP \<and>
      (\<forall>r \<in> kv_callee_saved. regs h' r = regs ?k r) \<and> (\<forall>off \<in> words 32. load64 (hmem h') (pa + off) = load64 (hmem ?k) (pa + off))"
    then show "\<exists>u. exec kernelvec_return h' = Some (Srets, u) \<and> regs u TP = regs h' TP \<and> (\<forall>r. r \<noteq> TP \<longrightarrow> regs u r = regs h r)"
      by (elim conjE) (rule rt)
  qed (rule run, simp_all add: set_reg_def)
qed

theorem kernelvec_transparent_witness:
  "\<exists>h k. exec (kernelvec 0x80002000 0x80001000) h = Some (Goto 0x80002000, k) \<and> regs k SP = TRAPFRAME + 256"
proof -
  obtain t :: kmem_st where t: "tf_mapped (mem t) 0x80200000 0x80300000" by (rule one_trapframe)
  let ?h = "\<lparr>regs = (\<lambda>_. TRAPFRAME + 512), hcsr = (\<lambda>_. MAKE_SATP 0x80200000), hmem = mem t\<rparr>"
  have "256 + off \<in> words 512" if "off \<in> words 32" for off
  proof -
    have "unat (256 + off) = 256 + unat off" using that unat_plus_offset [of 256 256 "unat off"] by (simp add: words_def)
    then show ?thesis using that by (simp add: words_def)
  qed
  then have "framed (hmem ?h) (hcsr ?h SATP) (regs ?h SP - 256) (0x80300000 + 256) (words 32)"
    using framed_shift [OF tf_mapped_framed [OF t], of "words 32" 256] by (simp add: add.commute)
  from kernelvec_transparent [OF this] obtain k where
    "exec (kernelvec 0x80002000 0x80001000) ?h = Some (Goto 0x80002000, k)" "regs k SP = regs ?h SP - 256" by blast
  then have "exec (kernelvec 0x80002000 0x80001000) ?h = Some (Goto 0x80002000, k) \<and> regs k SP = TRAPFRAME + 256" by simp
  then show ?thesis by blast
qed

section \<open>The first instructions\<close>

definition NCPU :: nat where "NCPU = 8"

text \<open>
  C26. Each hart starts on a stack of its own: for a hart number below \<^verbatim>\<open>NCPU\<close> the stack pointer is the end of the page with that
  number in \<^verbatim>\<open>stack0\<close>, inside the array, and two harts never share a page.
\<close>

theorem entry_stacks:
  assumes "unat stack0 + NCPU * 4096 \<le> 2 ^ 63" and "unat (hcsr h MHARTID) < NCPU"
  shows "\<exists>k. exec (entry_S stack0 start ret) h = Some (Goto start, k) \<and>
      unat (regs k SP) = unat stack0 + (unat (hcsr h MHARTID) + 1) * 4096 \<and> unat (regs k SP) \<le> unat stack0 + NCPU * 4096 \<and>
      (\<forall>h' k'. hcsr h' MHARTID \<noteq> hcsr h MHARTID \<and> unat (hcsr h' MHARTID) < NCPU \<and>
          exec (entry_S stack0 start ret) h' = Some (Goto start, k') \<longrightarrow> apart (regs k SP - 4096) 4096 (regs k' SP - 4096) 4096)"
proof -
  have run: "exec (entry_S stack0 start ret) h = Some (Goto start, set_reg RA ret (set_reg SP (stack0 + 4096 * (hcsr h MHARTID + 1))
      (set_reg A0 (4096 * (hcsr h MHARTID + 1)) (set_reg A1 (hcsr h MHARTID + 1) h))))" for h
    by (simp add: entry_S_def set_reg_def)
  have sp: "stack0 + 4096 * (i + 1) - 4096 = stack0 + of_nat (unat i * 4096)" for i :: u64
    by (simp add: algebra_simps)
  have u: "unat (stack0 + of_nat (unat i * 4096)) = unat stack0 + unat i * 4096"
    "unat (stack0 + of_nat ((unat i + 1) * 4096)) = unat stack0 + (unat i + 1) * 4096" if "unat i < NCPU" for i :: u64
    by (rule unat_plus_offset [of _ "NCPU * 4096 + 4096"]; use assms(1) that in \<open>simp add: NCPU_def\<close>)+
  have e: "stack0 + 4096 * (i + 1) = stack0 + of_nat ((unat i + 1) * 4096)" for i :: u64 by (simp add: algebra_simps)
  have ap: "apart (stack0 + 4096 * (i + 1) - 4096) 4096 (stack0 + 4096 * (j + 1) - 4096) 4096"
    if "i \<noteq> j" "unat i < NCPU" "unat j < NCPU" for i j :: u64
  proof -
    have "unat i \<noteq> unat j" using that(1) by (simp add: word_unat_eq_iff)
    then show ?thesis unfolding sp apart_def u(1) [OF that(2)] u(1) [OF that(3)] using that(2,3) assms(1) by (auto simp: NCPU_def)
  qed
  show ?thesis unfolding run
    using u(2) [OF assms(2)] assms(2) ap [of "hcsr h MHARTID"] unfolding e [symmetric]
    by (auto simp: set_reg_def NCPU_def)
qed

theorem entry_stacks_witness:
  "\<exists>k. exec (entry_S 0x80008000 0x80000100 0x8000001A) \<lparr>regs = (\<lambda>_. 0), hcsr = (\<lambda>_. 3), hmem = (\<lambda>_. 0)\<rparr> = Some (Goto 0x80000100, k) \<and>
     unat (regs k SP) = 0x80008000 + 4 * 4096"
  using entry_stacks [of "0x80008000" "\<lparr>regs = (\<lambda>_. 0), hcsr = (\<lambda>_. 3), hmem = (\<lambda>_. 0)\<rparr>" "0x80000100" "0x8000001A"]
  by (auto simp: NCPU_def)

end
