(* ===== verification/User.thy ===== *)
theory User
  imports Sysfile
begin

text \<open>
  What a user program sees of the kernel.  A program is a function of the answers to its system calls: \<open>u_left\<close> holds the
  answers still to come and \<open>u_calls\<close> the calls made so far.  \<open>Blocked\<close> is a program that waits for the answer to
  its last call, \<open>Slept\<close> one whose last call was \<^verbatim>\<open>exit\<close>.  The library function \<^verbatim>\<open>printf\<close> is not among the sources; a use of it is a call
  that is answered like the others.
\<close>

datatype ucall =
    CFork | CExit int | CWait | CPipe | CRead int int | CWrite int "u8 list" | CClose int | CKill int
  | CExec "u8 list" "u8 list list" | COpen "u8 list" int | CMknod "u8 list" int int | CUnlink "u8 list" | CFstat int
  | CLink "u8 list" "u8 list" | CMkdir "u8 list" | CChdir "u8 list" | CDup int | CGetpid | CSbrk int | CSleep int | CUptime
  | CPrintf int string "parg list"
and parg = PInt int | PStr "u8 list"

text \<open>An answer: the result, the bytes stored in the caller's buffer, and the descriptors stored by \<^verbatim>\<open>pipe\<close>.\<close>

record uans =
  a_ret :: int
  a_data :: "u8 list"
  a_fds :: "int \<times> int"

record ust =
  u_left :: "uans list"
  u_calls :: "ucall list"

type_synonym 'a uout = "(ust, 'a) outcome"

definition made :: "ucall \<Rightarrow> ust \<Rightarrow> ust" where
  "made call u = u\<lparr>u_calls := u_calls u @ [call]\<rparr>"

definition sys :: "ucall \<Rightarrow> ust \<Rightarrow> uans uout" where
  "sys call u = (case u_left u of [] \<Rightarrow> Blocked (made call u) | a # ws \<Rightarrow> Ret a (made call (u\<lparr>u_left := ws\<rparr>)))"

definition uexit :: "int \<Rightarrow> ust \<Rightarrow> 'a uout" where
  "uexit status u = Slept (made (CExit status) u)"

definition uprintf :: "int \<Rightarrow> string \<Rightarrow> parg list \<Rightarrow> ust \<Rightarrow> unit uout" where
  "uprintf fd fmt args u = andthen (sys (CPrintf fd fmt args) u) (\<lambda>_ u. Ret () u)"

lemma sys_Ret_less: "sys call u = Ret a t \<Longrightarrow> length (u_left t) < length (u_left u)"
  by (auto simp: sys_def made_def split: list.splits)

lemma sys_simps [simp]:
  "u_left u = [] \<Longrightarrow> sys call u = Blocked (made call u)"
  "u_left u = a # ws \<Longrightarrow> sys call u = Ret a (made call (u\<lparr>u_left := ws\<rparr>))"
  by (simp_all add: sys_def)

lemma made_simps [simp]:
  "u_left (made call u) = u_left u" "u_calls (made call u) = u_calls u @ [call]"
  by (simp_all add: made_def)

lemma uprintf_Ret_less: "uprintf fd fmt args u = Ret a t \<Longrightarrow> length (u_left t) < length (u_left u)"
  by (auto simp: uprintf_def dest: sys_Ret_less)

text \<open>A program on a list of answers, from the start.\<close>

definition ustart :: "uans list \<Rightarrow> ust" where
  "ustart ws = \<lparr>u_left = ws, u_calls = []\<rparr>"

text \<open>The content of a buffer after \<open>bs\<close> was stored at its start.\<close>

definition overlay :: "u8 list \<Rightarrow> u8 list \<Rightarrow> u8 list" where
  "overlay bs buf = bs @ drop (length bs) buf"

definition nl :: string where "nl = [CHR 0x0A]"

end
