(* ===== verification/Ulib.thy ===== *)
theory Ulib
  imports User Exec
begin

text \<open>
  \<^verbatim>\<open>user/ulib.c\<close>.  The string routines run on byte memory, like those of the kernel; a loop that looks for a terminator
  may not end, which is the value \<open>None\<close>.  The lemmas give their results on strings, compare \<^verbatim>\<open>memmove\<close> with the
  kernel's, and say what number \<^verbatim>\<open>atoi\<close> reads.
\<close>

definition start_u :: "(ust \<Rightarrow> unit uout) \<Rightarrow> ust \<Rightarrow> unit uout" where
  "start_u main u = andthen (main u) (\<lambda>_ u. uexit 0 u)"

partial_function (option) strcpy_u :: "u64 \<Rightarrow> u64 \<Rightarrow> mem \<Rightarrow> mem option" where
  "strcpy_u s t m = (let m' = m(s := m t) in if m' s \<noteq> 0 then strcpy_u (s + 1) (t + 1) m' else Some m')"

partial_function (option) strcmp_u :: "mem \<Rightarrow> u64 \<Rightarrow> u64 \<Rightarrow> int option" where
  "strcmp_u m p q = (if m p \<noteq> 0 \<and> m p = m q then strcmp_u m (p + 1) (q + 1) else Some (uint (m p) - uint (m q)))"

partial_function (option) strlen_u_from :: "mem \<Rightarrow> u64 \<Rightarrow> int \<Rightarrow> int option" where
  "strlen_u_from m s n = (if m (s + of_int n) = 0 then Some n else strlen_u_from m s (n + 1))"

definition strlen_u :: "mem \<Rightarrow> u64 \<Rightarrow> int option" where
  "strlen_u m s = strlen_u_from m s 0"

definition memset_u :: "u64 \<Rightarrow> u32 \<Rightarrow> u32 \<Rightarrow> mem \<Rightarrow> mem" where
  "memset_u dst c n m = memset_loop dst (ucast c) (unat n) 0 m"

text \<open>The result 0 is the null pointer.\<close>

partial_function (option) strchr_u :: "mem \<Rightarrow> u64 \<Rightarrow> u8 \<Rightarrow> u64 option" where
  "strchr_u m s c = (if m s = 0 then Some 0 else if m s = c then Some s else strchr_u m (s + 1) c)"

text \<open>\<^verbatim>\<open>gets\<close>: the bytes it has put in the buffer, without the terminator.\<close>

function gets_loop :: "int \<Rightarrow> u8 list \<Rightarrow> ust \<Rightarrow> u8 list uout" where
  "gets_loop mx buf u =
     (if int (length buf) + 1 < mx then
        andthen (sys (CRead 0 1) u) (\<lambda>a u.
        if a_ret a < 1 then Ret buf u
        else let ch = hd (a_data a @ [0]); buf = buf @ [ch] in
          if ch = 10 \<or> ch = 13 then Ret buf u else gets_loop mx buf u)
      else Ret buf u)"
  by pat_completeness auto
termination
  by (relation "measure (\<lambda>(_, _, u). length (u_left u))") (auto dest: sys_Ret_less)

declare gets_loop.simps [simp del]

definition gets :: "int \<Rightarrow> ust \<Rightarrow> u8 list uout" where
  "gets mx u = gets_loop mx [] u"

definition stat_u :: "u8 list \<Rightarrow> ust \<Rightarrow> (int \<times> u8 list) uout" where
  "stat_u n u =
     andthen (sys (COpen n O_RDONLY) u) (\<lambda>fd u.
     if a_ret fd < 0 then Ret (-1, []) u
     else andthen (sys (CFstat (a_ret fd)) u) (\<lambda>r u.
          andthen (sys (CClose (a_ret fd)) u) (\<lambda>_ u. Ret (a_ret r, a_data r) u)))"

partial_function (option) atoi_from :: "mem \<Rightarrow> u64 \<Rightarrow> u32 \<Rightarrow> u32 option" where
  "atoi_from m s n = (if 48 \<le> m s \<and> m s \<le> 57 then atoi_from m (s + 1) (n * 10 + ucast (m s) - 48) else Some n)"

definition atoi :: "mem \<Rightarrow> u64 \<Rightarrow> int option" where
  "atoi m s = map_option sint (atoi_from m s 0)"

text \<open>The count of \<^verbatim>\<open>memmove\<close> is an \<^verbatim>\<open>int\<close>: 32 bits, read in two's complement.\<close>

definition memmove_u :: "u64 \<Rightarrow> u64 \<Rightarrow> u32 \<Rightarrow> mem \<Rightarrow> mem" where
  "memmove_u vdst vsrc n m =
     (if vsrc > vdst then move_up vdst vsrc (nat (sint n)) m
      else move_down (vdst + scast n) (vsrc + scast n) (nat (sint n)) m)"

definition memcmp_u :: "mem \<Rightarrow> u64 \<Rightarrow> u64 \<Rightarrow> u32 \<Rightarrow> int" where
  "memcmp_u m s1 s2 n = memcmp_loop m s1 s2 (unat n)"

definition memcpy_u :: "u64 \<Rightarrow> u64 \<Rightarrow> u32 \<Rightarrow> mem \<Rightarrow> mem" where
  "memcpy_u dst src n m = memmove_u dst src n m"

section \<open>Results on strings\<close>

lemma cstr_Nil: "cstr m p [] \<longleftrightarrow> m p = 0"
  by (simp add: cstr_def mem_read_Suc)

lemma cstr_Cons: "cstr m p (b # bs) \<longleftrightarrow> m p = b \<and> b \<noteq> 0 \<and> cstr m (p + 1) bs"
  by (auto simp: cstr_def mem_read_Suc)

text \<open>\<^verbatim>\<open>atoi\<close> on the bytes of an argument.\<close>

fun atoi_str :: "u8 list \<Rightarrow> u32 \<Rightarrow> u32" where
  "atoi_str [] n = n"
| "atoi_str (b # bs) n = (if 48 \<le> b \<and> b \<le> 57 then atoi_str bs (n * 10 + ucast b - 48) else n)"

lemma atoi_cstr: "cstr m p bs \<Longrightarrow> atoi_from m p n = Some (atoi_str bs n)"
proof (induction bs arbitrary: p n)
  case Nil
  then show ?case by (subst atoi_from.simps) (simp add: cstr_Nil)
next
  case (Cons b bs)
  then show ?case by (subst atoi_from.simps) (auto simp: cstr_Cons)
qed

lemma digit_cast:
  fixes b :: u8
  assumes "48 \<le> b" and "b \<le> 57"
  shows "(ucast b :: u32) - 48 = of_nat (digit_val b)"
proof -
  have "48 \<le> unat b" using assms(1) by (simp add: word_le_nat_alt)
  then have "(ucast b :: u32) - 48 = of_nat (unat b - 48)" by (simp add: of_nat_diff)
  then show ?thesis using assms(2) by (simp add: digit_val_def)
qed

lemma atoi_digits:
  "\<forall>b \<in> set bs. 48 \<le> b \<and> b \<le> 57 \<Longrightarrow> atoi_str bs (of_nat k) = of_nat (foldl (\<lambda>n d. n * 10 + digit_val d) k bs)"
proof (induction bs arbitrary: k)
  case (Cons b bs)
  have "of_nat k * 10 + ucast b - 48 = (of_nat (k * 10 + digit_val b) :: u32)"
    using digit_cast [of b] Cons.prems by (simp add: algebra_simps)
  then show ?case using Cons.IH [of "k * 10 + digit_val b"] Cons.prems by (simp del: of_nat_add of_nat_mult)
qed simp

lemma atoi_str_append:
  "\<forall>b \<in> set bs. 48 \<le> b \<and> b \<le> 57 \<Longrightarrow> atoi_str (bs @ cs) n = atoi_str cs (atoi_str bs n)"
  by (induction bs arbitrary: n) auto

lemma strcmp_cstr:
  assumes "cstr m p bs" and "cstr m q cs"
  shows "strcmp_u m p q = Some (let i = length (takeWhile (\<lambda>(b, c). b = c) (zip bs cs)) in
     uint ((bs @ [0]) ! i) - uint ((cs @ [0]) ! i))"
  using assms
proof (induction bs arbitrary: p q cs)
  case Nil
  then show ?case by (subst strcmp_u.simps) (cases cs; simp add: cstr_Nil cstr_Cons)
next
  case (Cons b bs)
  then show ?case by (subst strcmp_u.simps) (cases cs; auto simp: cstr_Nil cstr_Cons Let_def)
qed

section \<open>Block moves\<close>

lemma sint_small:
  fixes w :: u32
  assumes "unat w < 2 ^ 31"
  shows "sint w = int (unat w)"
proof -
  have "sint w = to_int32 (int (unat w))" by (simp add: to_int32_def)
  moreover have "int (unat w) < 2 ^ 31" using assms of_nat_less_iff [of "unat w" "2 ^ 31", where ?'a = int] by (simp del: of_nat_less_iff)
  then have "to_int32 (int (unat w)) = int (unat w)" by (intro to_int32_small) simp_all
  ultimately show ?thesis by (rule trans)
qed

lemma memmove_u_eq:
  assumes "unat src + n < 2 ^ 64" and "unat dst + n \<le> 2 ^ 64" and "n < 2 ^ 31"
  shows "memmove_u dst src (of_nat n) m = mem_copy dst src n m"
proof -
  have "unat (of_nat n :: u32) = n" using assms(3) by (simp add: unat_of_nat)
  then have s: "sint (of_nat n :: u32) = int n" using sint_small [of "of_nat n"] assms(3) by simp
  have "(scast (of_nat n :: u32) :: u64) = of_int (sint (of_nat n :: u32))" by simp
  then have n: "nat (sint (of_nat n :: u32)) = n" "(scast (of_nat n :: u32) :: u64) = of_nat n" unfolding s by simp_all
  show ?thesis
  proof (cases "src > dst")
    case True
    have "move_up dst src n m = mem_copy dst src n m"
    proof (rule move_up_eq)
      fix i j assume ij: "i < j" "j < n"
      then have "unat (dst + of_nat i) = unat dst + i" "unat (src + of_nat j) = unat src + j"
        using assms by (auto intro!: unat_plus_offset [of _ n])
      moreover have "unat dst < unat src" using True by (simp add: word_less_nat_alt)
      ultimately have "unat (dst + of_nat i) \<noteq> unat (src + of_nat j)" using ij by linarith
      then show "dst + of_nat i \<noteq> src + of_nat j" by metis
    qed (use assms(1) in simp)
    then show ?thesis using True n by (simp add: memmove_u_def)
  next
    case False
    have "move_down (dst + of_nat n) (src + of_nat n) n m = mem_copy (dst + of_nat n - of_nat n) (src + of_nat n - of_nat n) n m"
    proof (rule move_down_eq)
      fix i j assume ij: "i < j" "j < n"
      have "dst + of_nat n - 1 - of_nat i = dst + of_nat (n - 1 - i)" "src + of_nat n - 1 - of_nat j = src + of_nat (n - 1 - j)"
        using ij by (simp_all add: of_nat_diff algebra_simps)
      moreover have "unat (dst + of_nat (n - 1 - i)) = unat dst + (n - 1 - i)" "unat (src + of_nat (n - 1 - j)) = unat src + (n - 1 - j)"
        by (rule unat_plus_offset [of _ n]; use assms ij in linarith)+
      moreover have "unat src \<le> unat dst" using False by (simp add: word_less_nat_alt)
      moreover have "n - 1 - j < n - 1 - i" using ij by linarith
      ultimately show "dst + of_nat n - 1 - of_nat i \<noteq> src + of_nat n - 1 - of_nat j"
        by (metis add_le_less_mono nat_neq_iff)
    qed (use assms(1) in simp)
    then show ?thesis using False n by (simp add: memmove_u_def)
  qed
qed

text \<open>
  C30. The \<^verbatim>\<open>memmove\<close> of the user library and the \<^verbatim>\<open>memmove\<close> of the kernel, which pick the direction of the copy by different tests, are the
  same function on ranges that do not wrap and counts below \<open>2 ^ 31\<close>: both leave in the destination the bytes the source had before,
  overlapping or not, and change nothing else.  From \<open>2 ^ 31\<close> on the count is negative for the user library, which then copies nothing.
\<close>

theorem memmove_user_kernel:
  assumes "unat src + unat n < 2 ^ 64" and "unat dst + unat n \<le> 2 ^ 64"
  shows "if unat n < 2 ^ 31
    then memmove_u dst src n m = memmove dst src n m \<and>
      mem_read (memmove_u dst src n m) dst (unat n) = mem_read m src (unat n) \<and>
      (\<forall>x. \<not> in_range dst (unat n) x \<longrightarrow> memmove_u dst src n m x = m x)
    else memmove_u dst src n m = m"
proof (cases "unat n < 2 ^ 31")
  case True
  have e: "memmove_u dst src n m = mem_copy dst src (unat n) m" using memmove_u_eq [OF assms True] by simp
  have n: "unat n \<le> 2 ^ 64" using unat_u32_bound [of n] by simp
  show ?thesis unfolding if_P [OF True] e memmove_eq [OF assms] unfolding mem_copy_eq_write [OF n]
    using mem_write_same [of "mem_read m src (unat n)" dst m] n mem_write_out [of dst "mem_read m src (unat n)"] by simp
next
  case False
  have "sint n < 0"
  proof (rule ccontr)
    assume "\<not> sint n < 0"
    moreover have "sint n < 2 ^ 31" using sint_lt [of n] by simp
    ultimately have "uint n = sint n" by (subst uint_sint) (simp add: take_bit_int_eq_self)
    then show False using False \<open>sint n < 2 ^ 31\<close> by (simp add: unat_eq_nat_uint)
  qed
  then show ?thesis using False by (simp add: memmove_u_def)
qed

theorem memmove_user_kernel_witness:
  "mem_read (memmove_u 101 100 3 (\<lambda>x. ucast x)) 101 3 = [100, 101, 102] \<and> memmove_u 101 100 0xFFFFFFFF (\<lambda>x. ucast x) = (\<lambda>x. ucast x)"
proof -
  have a: "unat (100 :: u64) + unat (3 :: u32) < 2 ^ 64" "unat (101 :: u64) + unat (3 :: u32) \<le> 2 ^ 64"
    and c: "unat (3 :: u32) < 2 ^ 31" by simp_all
  have "mem_read (memmove_u 101 100 3 (\<lambda>x. ucast x)) 101 (unat (3 :: u32)) = mem_read (\<lambda>x. ucast x) 100 (unat (3 :: u32))"
    using memmove_user_kernel [OF a, of "\<lambda>x. ucast x", unfolded if_P [OF c]] by (rule conjunct2 [THEN conjunct1])
  moreover have "unat (100 :: u64) + unat (0xFFFFFFFF :: u32) < 2 ^ 64" "unat (101 :: u64) + unat (0xFFFFFFFF :: u32) \<le> 2 ^ 64" by simp_all
  from memmove_user_kernel [OF this, of "\<lambda>x. ucast x"] have "memmove_u 101 100 0xFFFFFFFF (\<lambda>x. ucast x) = (\<lambda>x. ucast x)" by simp
  ultimately show ?thesis by (simp add: mem_read_def upt_rec)
qed

end
