(* ===== verification/Programs.thy ===== *)
theory Programs
  imports Ulib
begin

text \<open>
  The small user programs: \<^verbatim>\<open>sleep\<close>, \<^verbatim>\<open>pingpong\<close>, \<^verbatim>\<open>echo\<close>, \<^verbatim>\<open>kill\<close>, \<^verbatim>\<open>ln\<close>, \<^verbatim>\<open>mkdir\<close>, \<^verbatim>\<open>zombie\<close>, \<^verbatim>\<open>cat\<close>, \<^verbatim>\<open>wc\<close>, \<^verbatim>\<open>init\<close>, \<^verbatim>\<open>stressfs\<close>,
  \<^verbatim>\<open>forktest\<close> and \<^verbatim>\<open>ls\<close>.  A program is its \<^verbatim>\<open>main\<close> on the strings of \<^verbatim>\<open>argv\<close>; every loop that does not count makes a system call per round, so it
  ends when the answers do.
\<close>

section \<open>sleep.c and pingpong.c\<close>

text \<open>
  \<^verbatim>\<open>user.h\<close> declares \<^verbatim>\<open>void printf(const char*, ...)\<close>; these two programs pass it the number 1 or 2 first, which is then the address of
  the format, and the text meant as the format is its first argument.  \<open>img\<close> gives the string that the memory of the linked program
  holds at an address.
\<close>

definition printf_at :: "(int \<Rightarrow> string) \<Rightarrow> int \<Rightarrow> parg list \<Rightarrow> ust \<Rightarrow> unit uout" where
  "printf_at img a args u = uprintf 1 (img a) args u"

definition sleep_main :: "(int \<Rightarrow> string) \<Rightarrow> u8 list list \<Rightarrow> ust \<Rightarrow> unit uout" where
  "sleep_main img argv u =
     (if length argv < 2 then
        andthen (printf_at img 2 [PStr (ascii (''sleep: missing operand'' @ nl))] u) (\<lambda>_ u. uexit 1 u)
      else let ticks = sint (atoi_str (argv ! 1) 0) in
        if ticks \<le> 0 then
          andthen (printf_at img 2 [PStr (ascii (''sleep: invalid number of ticks'' @ nl))] u) (\<lambda>_ u. uexit 1 u)
        else andthen (sys (CSleep ticks) u) (\<lambda>_ u. uexit 0 u))"

definition first_byte :: "uans \<Rightarrow> u8 \<Rightarrow> u8" where
  "first_byte a old = (case a_data a of [] \<Rightarrow> old | b # _ \<Rightarrow> b)"

definition pingpong_child :: "(int \<Rightarrow> string) \<Rightarrow> int \<times> int \<Rightarrow> int \<times> int \<Rightarrow> u8 \<Rightarrow> ust \<Rightarrow> unit uout" where
  "pingpong_child img pipe1 pipe2 byte u =
     andthen (sys (CClose (snd pipe1)) u) (\<lambda>_ u.
     andthen (sys (CClose (fst pipe2)) u) (\<lambda>_ u.
     andthen (sys (CRead (fst pipe1) 1) u) (\<lambda>a u.
     let byte = first_byte a byte in
     andthen (sys CGetpid u) (\<lambda>p u.
     andthen (printf_at img 1 [PStr (ascii (''%d: received ping'' @ nl)), PInt (a_ret p)] u) (\<lambda>_ u.
     andthen (sys (CWrite (snd pipe2) [byte]) u) (\<lambda>_ u.
     andthen (sys (CClose (fst pipe1)) u) (\<lambda>_ u.
     andthen (sys (CClose (snd pipe2)) u) (\<lambda>_ u.
     uexit 0 u))))))))"

definition pingpong_parent :: "(int \<Rightarrow> string) \<Rightarrow> int \<times> int \<Rightarrow> int \<times> int \<Rightarrow> u8 \<Rightarrow> ust \<Rightarrow> unit uout" where
  "pingpong_parent img pipe1 pipe2 byte u =
     andthen (sys (CClose (fst pipe1)) u) (\<lambda>_ u.
     andthen (sys (CClose (snd pipe2)) u) (\<lambda>_ u.
     andthen (sys (CWrite (snd pipe1) [byte]) u) (\<lambda>_ u.
     andthen (sys (CRead (fst pipe2) 1) u) (\<lambda>a u.
     andthen (sys CGetpid u) (\<lambda>p u.
     andthen (printf_at img 1 [PStr (ascii (''%d: received pong'' @ nl)), PInt (a_ret p)] u) (\<lambda>_ u.
     andthen (sys (CClose (snd pipe1)) u) (\<lambda>_ u.
     andthen (sys (CClose (fst pipe2)) u) (\<lambda>_ u.
     andthen (sys CWait u) (\<lambda>_ u.
     uexit 0 u)))))))))"

text \<open>
  The call of \<^verbatim>\<open>wait\<close> in the parent lacks its argument, the address for the status of the child; the answer to it is any answer.
\<close>

definition pingpong_main :: "(int \<Rightarrow> string) \<Rightarrow> ust \<Rightarrow> unit uout" where
  "pingpong_main img u =
     (let byte = of_char CHR ''A'';
          failed = (\<lambda>msg u. andthen (printf_at img 2 [PStr (ascii (msg @ nl))] u) (\<lambda>_ u. uexit 1 u)) in
      andthen (sys CPipe u) (\<lambda>p1 u.
      if a_ret p1 < 0 then failed ''pingpong: pipe failed'' u
      else andthen (sys CPipe u) (\<lambda>p2 u.
      if a_ret p2 < 0 then failed ''pingpong: pipe failed'' u
      else andthen (sys CFork u) (\<lambda>f u.
      if a_ret f < 0 then failed ''pingpong: fork failed'' u
      else if a_ret f = 0 then pingpong_child img (a_fds p1) (a_fds p2) byte u
      else pingpong_parent img (a_fds p1) (a_fds p2) byte u))))"

section \<open>Programs that run through their arguments\<close>

fun echo_args :: "u8 list list \<Rightarrow> ust \<Rightarrow> unit uout" where
  "echo_args [] u = Ret () u"
| "echo_args (arg # args) u =
     andthen (sys (CWrite 1 arg) u) (\<lambda>_ u.
     andthen (sys (CWrite 1 (if args \<noteq> [] then ascii '' '' else ascii nl)) u) (\<lambda>_ u.
     echo_args args u))"

definition echo_main :: "u8 list list \<Rightarrow> ust \<Rightarrow> unit uout" where
  "echo_main argv u = andthen (echo_args (drop 1 argv) u) (\<lambda>_ u. uexit 0 u)"

definition kill_main :: "u8 list list \<Rightarrow> ust \<Rightarrow> unit uout" where
  "kill_main argv u =
     (if length argv < 2 then andthen (uprintf 2 (''usage: kill pid...'' @ nl) [] u) (\<lambda>_ u. uexit 1 u)
      else andthen (for_each (\<lambda>arg u. andthen (sys (CKill (sint (atoi_str arg 0))) u) (\<lambda>_ u. Ret () u)) (drop 1 argv) u)
        (\<lambda>_ u. uexit 0 u))"

definition ln_main :: "u8 list list \<Rightarrow> ust \<Rightarrow> unit uout" where
  "ln_main argv u =
     (if length argv \<noteq> 3 then andthen (uprintf 2 (''Usage: ln old new'' @ nl) [] u) (\<lambda>_ u. uexit 1 u)
      else andthen (sys (CLink (argv ! 1) (argv ! 2)) u) (\<lambda>r u.
        andthen (if a_ret r < 0 then uprintf 2 (''link %s %s: failed'' @ nl) [PStr (argv ! 1), PStr (argv ! 2)] u else Ret () u)
          (\<lambda>_ u. uexit 0 u)))"

fun mkdir_args :: "u8 list list \<Rightarrow> ust \<Rightarrow> unit uout" where
  "mkdir_args [] u = Ret () u"
| "mkdir_args (arg # args) u =
     andthen (sys (CMkdir arg) u) (\<lambda>r u.
     if a_ret r < 0 then uprintf 2 (''mkdir: %s failed to create'' @ nl) [PStr arg] u
     else mkdir_args args u)"

definition mkdir_main :: "u8 list list \<Rightarrow> ust \<Rightarrow> unit uout" where
  "mkdir_main argv u =
     (if length argv < 2 then andthen (uprintf 2 (''Usage: mkdir files...'' @ nl) [] u) (\<lambda>_ u. uexit 1 u)
      else andthen (mkdir_args (drop 1 argv) u) (\<lambda>_ u. uexit 0 u))"

definition zombie_main :: "ust \<Rightarrow> unit uout" where
  "zombie_main u =
     andthen (sys CFork u) (\<lambda>f u.
     andthen (if a_ret f > 0 then andthen (sys (CSleep 5) u) (\<lambda>_ u. Ret () u) else Ret () u) (\<lambda>_ u.
     uexit 0 u))"

section \<open>cat.c\<close>

function cat :: "int \<Rightarrow> u8 list \<Rightarrow> ust \<Rightarrow> u8 list uout" where
  "cat fd buf u =
     andthen (sys (CRead fd 512) u) (\<lambda>r u.
     let n = a_ret r; buf = overlay (a_data r) buf in
     if n > 0 then
       andthen (sys (CWrite 1 (take (nat n) buf)) u) (\<lambda>w u.
       if a_ret w \<noteq> n then andthen (uprintf 2 (''cat: write error'' @ nl) [] u) (\<lambda>_ u. uexit 1 u)
       else cat fd buf u)
     else if n < 0 then andthen (uprintf 2 (''cat: read error'' @ nl) [] u) (\<lambda>_ u. uexit 1 u)
     else Ret buf u)"
  by pat_completeness auto
termination
  by (relation "measure (\<lambda>(_, _, u). length (u_left u))") (auto dest!: sys_Ret_less)

declare cat.simps [simp del]

fun cat_files :: "u8 list list \<Rightarrow> u8 list \<Rightarrow> ust \<Rightarrow> unit uout" where
  "cat_files [] buf u = Ret () u"
| "cat_files (arg # args) buf u =
     andthen (sys (COpen arg O_RDONLY) u) (\<lambda>fd u.
     if a_ret fd < 0 then andthen (uprintf 2 (''cat: cannot open %s'' @ nl) [PStr arg] u) (\<lambda>_ u. uexit 1 u)
     else andthen (cat (a_ret fd) buf u) (\<lambda>buf u.
          andthen (sys (CClose (a_ret fd)) u) (\<lambda>_ u. cat_files args buf u)))"

definition cat_main :: "u8 list list \<Rightarrow> ust \<Rightarrow> unit uout" where
  "cat_main argv u =
     (if length argv \<le> 1 then andthen (cat 0 (replicate 512 0) u) (\<lambda>_ u. uexit 0 u)
      else andthen (cat_files (drop 1 argv) (replicate 512 0) u) (\<lambda>_ u. uexit 0 u))"

section \<open>wc.c\<close>

record wcount =
  wc_l :: u32
  wc_w :: u32
  wc_c :: u32
  wc_inword :: bool

definition wc_char :: "u8 \<Rightarrow> wcount \<Rightarrow> wcount" where
  "wc_char ch x =
     (let x = x\<lparr>wc_c := wc_c x + 1\<rparr>;
          x = (if ch = 10 then x\<lparr>wc_l := wc_l x + 1\<rparr> else x)
      in if ch \<in> set [32, 13, 9, 10, 11] then x\<lparr>wc_inword := False\<rparr>
         else if \<not> wc_inword x then x\<lparr>wc_w := wc_w x + 1, wc_inword := True\<rparr>
         else x)"

function wc_loop :: "int \<Rightarrow> u8 list \<Rightarrow> wcount \<Rightarrow> ust \<Rightarrow> (int \<times> u8 list \<times> wcount) uout" where
  "wc_loop fd buf x u =
     andthen (sys (CRead fd 512) u) (\<lambda>r u.
     let n = a_ret r; buf = overlay (a_data r) buf in
     if n > 0 then wc_loop fd buf (fold wc_char (take (nat n) buf) x) u
     else Ret (n, buf, x) u)"
  by pat_completeness auto
termination
  by (relation "measure (\<lambda>(_, _, _, u). length (u_left u))") (auto dest!: sys_Ret_less)

declare wc_loop.simps [simp del]

definition wc :: "int \<Rightarrow> u8 list \<Rightarrow> u8 list \<Rightarrow> ust \<Rightarrow> u8 list uout" where
  "wc fd name buf u =
     andthen (wc_loop fd buf \<lparr>wc_l = 0, wc_w = 0, wc_c = 0, wc_inword = False\<rparr> u) (\<lambda>(n, buf, x) u.
     if n < 0 then andthen (uprintf 1 (''wc: read error'' @ nl) [] u) (\<lambda>_ u. uexit 1 u)
     else andthen (uprintf 1 (''%d %d %d %s'' @ nl) [PInt (sint (wc_l x)), PInt (sint (wc_w x)), PInt (sint (wc_c x)), PStr name] u) (\<lambda>_ u. Ret buf u))"

fun wc_files :: "u8 list list \<Rightarrow> u8 list \<Rightarrow> ust \<Rightarrow> unit uout" where
  "wc_files [] buf u = Ret () u"
| "wc_files (arg # args) buf u =
     andthen (sys (COpen arg O_RDONLY) u) (\<lambda>fd u.
     if a_ret fd < 0 then andthen (uprintf 1 (''wc: cannot open %s'' @ nl) [PStr arg] u) (\<lambda>_ u. uexit 1 u)
     else andthen (wc (a_ret fd) arg buf u) (\<lambda>buf u.
          andthen (sys (CClose (a_ret fd)) u) (\<lambda>_ u. wc_files args buf u)))"

definition wc_main :: "u8 list list \<Rightarrow> ust \<Rightarrow> unit uout" where
  "wc_main argv u =
     (if length argv \<le> 1 then andthen (wc 0 [] (replicate 512 0) u) (\<lambda>_ u. uexit 0 u)
      else andthen (wc_files (drop 1 argv) (replicate 512 0) u) (\<lambda>_ u. uexit 0 u))"

section \<open>init.c\<close>

text \<open>The inner loop: the shell with process number \<open>pid\<close> exited.\<close>

function init_wait :: "int \<Rightarrow> ust \<Rightarrow> unit uout" where
  "init_wait pid u =
     andthen (sys CWait u) (\<lambda>w u.
     if a_ret w = pid then Ret () u
     else if a_ret w < 0 then andthen (uprintf 1 (''init: wait returned an error'' @ nl) [] u) (\<lambda>_ u. uexit 1 u)
     else init_wait pid u)"
  by pat_completeness auto
termination
  by (relation "measure (\<lambda>(_, u). length (u_left u))") (auto dest!: sys_Ret_less)

declare init_wait.simps [simp del]

lemma init_wait_less: "init_wait pid u = Ret x t \<Longrightarrow> length (u_left t) < length (u_left u)"
proof (induction pid u arbitrary: x t rule: init_wait.induct)
  case (1 pid u)
  from "1.prems" obtain w v where w: "sys CWait u = Ret w v"
    "(if a_ret w = pid then Ret () v
      else if a_ret w < 0 then andthen (uprintf 1 (''init: wait returned an error'' @ nl) [] v) (\<lambda>_ u. uexit 1 u)
      else init_wait pid v) = Ret x t"
    by (subst (asm) init_wait.simps) blast
  then show ?case using sys_Ret_less [OF w(1)] "1.IH" [OF w(1)]
    by (auto simp: uexit_def split: if_splits)
qed

function init_loop :: "ust \<Rightarrow> unit uout" where
  "init_loop u =
     andthen (uprintf 1 (''init: starting sh'' @ nl) [] u) (\<lambda>_ u.
     andthen (sys CFork u) (\<lambda>f u.
     if a_ret f < 0 then andthen (uprintf 1 (''init: fork failed'' @ nl) [] u) (\<lambda>_ u. uexit 1 u)
     else if a_ret f = 0 then
       andthen (sys (CExec (ascii ''sh'') [ascii ''sh'']) u) (\<lambda>_ u.
       andthen (uprintf 1 (''init: exec sh failed'' @ nl) [] u) (\<lambda>_ u. uexit 1 u))
     else andthen (init_wait (a_ret f) u) (\<lambda>_ u. init_loop u)))"
  by pat_completeness auto
termination
  by (relation "measure (\<lambda>u. length (u_left u))") (auto dest!: sys_Ret_less uprintf_Ret_less init_wait_less)

declare init_loop.simps [simp del]

definition init_main :: "ust \<Rightarrow> unit uout" where
  "init_main u =
     andthen (sys (COpen (ascii ''console'') O_RDWR) u) (\<lambda>r u.
     andthen (if a_ret r < 0 then
                andthen (sys (CMknod (ascii ''console'') (int CONSOLE) 0) u) (\<lambda>_ u. sys (COpen (ascii ''console'') O_RDWR) u)
              else Ret r u) (\<lambda>_ u.
     andthen (sys (CDup 0) u) (\<lambda>_ u.
     andthen (sys (CDup 0) u) (\<lambda>_ u.
     init_loop u))))"

section \<open>stressfs.c and forktest.c\<close>

fun stressfs_fork :: "nat \<Rightarrow> int \<Rightarrow> ust \<Rightarrow> int uout" where
  "stressfs_fork 0 i u = Ret i u"
| "stressfs_fork (Suc k) i u = andthen (sys CFork u) (\<lambda>f u. if a_ret f > 0 then Ret i u else stressfs_fork k (i + 1) u)"

definition stressfs_main :: "ust \<Rightarrow> unit uout" where
  "stressfs_main u =
     andthen (uprintf 1 (''stressfs starting'' @ nl) [] u) (\<lambda>_ u.
     let data = replicate 512 (of_char CHR ''a'') in
     andthen (stressfs_fork 4 0 u) (\<lambda>i u.
     andthen (uprintf 1 (''write %d'' @ nl) [PInt i] u) (\<lambda>_ u.
     let path = (ascii ''stressfs0'')[8 := of_char CHR ''0'' + of_int i] in
     andthen (sys (COpen path (O_CREATE OR O_RDWR)) u) (\<lambda>fd u.
     andthen (for_each (\<lambda>_ u. andthen (sys (CWrite (a_ret fd) data) u) (\<lambda>_ u. Ret () u)) [0..<20] u) (\<lambda>_ u.
     andthen (sys (CClose (a_ret fd)) u) (\<lambda>_ u.
     andthen (uprintf 1 (''read'' @ nl) [] u) (\<lambda>_ u.
     andthen (sys (COpen path O_RDONLY) u) (\<lambda>fd u.
     andthen (for_each (\<lambda>_ u. andthen (sys (CRead (a_ret fd) 512) u) (\<lambda>_ u. Ret () u)) [0..<20] u) (\<lambda>_ u.
     andthen (sys (CClose (a_ret fd)) u) (\<lambda>_ u.
     andthen (sys CWait u) (\<lambda>_ u.
     uexit 0 u)))))))))))"

definition forktest_print :: "string \<Rightarrow> ust \<Rightarrow> unit uout" where
  "forktest_print msg u = andthen (sys (CWrite 1 (ascii msg)) u) (\<lambda>_ u. Ret () u)"

definition forktest_N :: nat where "forktest_N = 1000"

text \<open>The first loop: the number of children when \<^verbatim>\<open>fork\<close> failed or the bound was reached.\<close>

fun forktest_forks :: "nat \<Rightarrow> nat \<Rightarrow> ust \<Rightarrow> nat uout" where
  "forktest_forks 0 n u = Ret n u"
| "forktest_forks (Suc k) n u =
     andthen (sys CFork u) (\<lambda>f u.
     if a_ret f < 0 then Ret n u
     else if a_ret f = 0 then uexit 0 u
     else forktest_forks k (Suc n) u)"

fun forktest_waits :: "nat \<Rightarrow> ust \<Rightarrow> unit uout" where
  "forktest_waits 0 u = Ret () u"
| "forktest_waits (Suc n) u =
     andthen (sys CWait u) (\<lambda>w u.
     if a_ret w < 0 then andthen (forktest_print (''wait stopped early'' @ nl) u) (\<lambda>_ u. uexit 1 u)
     else forktest_waits n u)"

definition forktest :: "ust \<Rightarrow> unit uout" where
  "forktest u =
     andthen (forktest_print (''fork test'' @ nl) u) (\<lambda>_ u.
     andthen (forktest_forks forktest_N 0 u) (\<lambda>n u.
     if n = forktest_N then andthen (forktest_print (''fork claimed to work N times!'' @ nl) u) (\<lambda>_ u. uexit 1 u)
     else andthen (forktest_waits n u) (\<lambda>_ u.
     andthen (sys CWait u) (\<lambda>w u.
     if a_ret w \<noteq> -1 then andthen (forktest_print (''wait got too many'' @ nl) u) (\<lambda>_ u. uexit 1 u)
     else forktest_print (''fork test OK'' @ nl) u))))"

definition forktest_main :: "ust \<Rightarrow> unit uout" where
  "forktest_main u = andthen (forktest u) (\<lambda>_ u. uexit 0 u)"

section \<open>ls.c\<close>

definition fmtname :: "u8 list \<Rightarrow> u8 list" where
  "fmtname path =
     (let p = rev (takeWhile (\<lambda>ch. ch \<noteq> of_char CHR ''/'') (rev path))
      in if length p \<ge> DIRSIZ then p else p @ replicate (DIRSIZ - length p) 32)"

definition ls_line :: "u8 list \<Rightarrow> u8 list \<Rightarrow> ust \<Rightarrow> unit uout" where
  "ls_line path st u =
     uprintf 1 (''%s %d %d %d'' @ nl)
       [PStr (fmtname path), PInt (sint (get16 8 st)), PInt (sint (get32 4 st)), PInt (to_int32 (uint (get64 16 st)))] u"

text \<open>The loop over the directory: \<open>buf\<close> is the path with a slash at its end.\<close>

function ls_dir :: "int \<Rightarrow> u8 list \<Rightarrow> ust \<Rightarrow> unit uout" where
  "ls_dir fd buf u =
     andthen (sys (CRead fd 16) u) (\<lambda>r u.
     if a_ret r = 16 then
       (if de_inum (a_data r) = 0 then ls_dir fd buf u
        else let path = buf @ upto_nul (de_name (a_data r)) in
          andthen (stat_u path u) (\<lambda>st u.
          if fst st < 0 then andthen (uprintf 1 (''ls: cannot stat %s'' @ nl) [PStr path] u) (\<lambda>_ u. ls_dir fd buf u)
          else andthen (ls_line path (snd st) u) (\<lambda>_ u. ls_dir fd buf u)))
     else Ret () u)"
  by pat_completeness auto
termination
  by (relation "measure (\<lambda>(_, _, u). length (u_left u))")
     (auto simp: stat_u_def ls_line_def split: if_splits dest!: sys_Ret_less uprintf_Ret_less)

declare ls_dir.simps [simp del]

definition ls :: "u8 list \<Rightarrow> ust \<Rightarrow> unit uout" where
  "ls path u =
     andthen (sys (COpen path O_RDONLY) u) (\<lambda>fd u.
     if a_ret fd < 0 then uprintf 2 (''ls: cannot open %s'' @ nl) [PStr path] u
     else andthen (sys (CFstat (a_ret fd)) u) (\<lambda>st u.
       if a_ret st < 0 then
         andthen (uprintf 2 (''ls: cannot stat %s'' @ nl) [PStr path] u) (\<lambda>_ u.
         andthen (sys (CClose (a_ret fd)) u) (\<lambda>_ u. Ret () u))
       else
         andthen (let type = get16 8 (a_data st) in
           if type = T_DEVICE \<or> type = T_FILE then ls_line path (a_data st) u
           else if type = T_DIR then
             (if length path + 1 + DIRSIZ + 1 > 512 then uprintf 1 (''ls: path too long'' @ nl) [] u
              else ls_dir (a_ret fd) (path @ ascii ''/'') u)
           else Ret () u) (\<lambda>_ u.
         andthen (sys (CClose (a_ret fd)) u) (\<lambda>_ u. Ret () u))))"

definition ls_main :: "u8 list list \<Rightarrow> ust \<Rightarrow> unit uout" where
  "ls_main argv u =
     (if length argv < 2 then andthen (ls (ascii ''.'') u) (\<lambda>_ u. uexit 0 u)
      else andthen (for_each ls (drop 1 argv) u) (\<lambda>_ u. uexit 0 u))"

section \<open>What sleep asks of the kernel\<close>

text \<open>
  C28. \<^verbatim>\<open>sleep\<close> reads the digits of its argument up to the first other character as a number, of which \<open>k\<close> is the low 32 bits in two's
  complement.  If \<open>k\<close> is positive the program makes exactly the call \<^verbatim>\<open>sleep(k)\<close> and exits with 0.  If it is not, in particular
  when there are no digits, and when there is no argument, the program exits with 1 without sleeping, after a call of \<^verbatim>\<open>printf\<close> whose format is
  whatever the program holds at address 2 and whose argument is the error message.
\<close>

theorem sleep_correct:
  assumes "2 \<le> length argv" and "argv ! 1 = ds @ es" and "\<forall>b \<in> set ds. 48 \<le> b \<and> b \<le> 57"
    and "es = [] \<or> \<not> (48 \<le> hd es \<and> hd es \<le> 57)" and "k = to_int32 (int (numeral_value 10 ds))" and "length few < 2"
  shows "sleep_main img argv (ustart [a]) =
      Slept \<lparr>u_left = [], u_calls =
        (if 0 < k then [CSleep k, CExit 0]
         else [CPrintf 1 (img 2) [PStr (ascii (''sleep: invalid number of ticks'' @ nl))], CExit 1])\<rparr> \<and>
    sleep_main img few (ustart [a]) =
      Slept \<lparr>u_left = [], u_calls = [CPrintf 1 (img 2) [PStr (ascii (''sleep: missing operand'' @ nl))], CExit 1]\<rparr>"
proof -
  let ?n = "numeral_value 10 ds"
  have "atoi_str es x = x" for x using assms(4) by (cases es) auto
  then have "atoi_str (argv ! 1) 0 = atoi_str ds 0" unfolding assms(2) atoi_str_append [OF assms(3)] .
  also have "\<dots> = of_nat ?n" using atoi_digits [OF assms(3), of 0] by (simp add: numeral_value_def)
  finally have a: "sint (atoi_str (argv ! 1) 0) = k" by (simp add: assms(5) to_int32_def)
  show ?thesis using assms(1,6) unfolding sleep_main_def a by (simp add: ustart_def uexit_def printf_at_def uprintf_def made_def)
qed

theorem sleep_correct_witness:
  "sleep_main (\<lambda>_. []) [ascii ''sleep'', ascii ''10s''] (ustart [\<lparr>a_ret = 0, a_data = [], a_fds = (0, 0)\<rparr>]) =
     Slept \<lparr>u_left = [], u_calls = [CSleep 10, CExit 0]\<rparr>"
proof -
  have n: "numeral_value 10 (ascii ''10'') = 10" by (simp add: numeral_value_def digit_val_def ascii_def)
  have t: "10 = to_int32 (int (numeral_value 10 (ascii ''10'')))" unfolding n by (simp add: to_int32_def)
  show ?thesis using sleep_correct [of "[ascii ''sleep'', ascii ''10s'']" "ascii ''10''" "ascii ''s''" 10 "[]"] t
    by (simp add: ascii_def)
qed

section \<open>What the two processes of pingpong do\<close>

definition call_ok :: "uans \<Rightarrow> bool" where
  "call_ok a \<longleftrightarrow> 0 \<le> a_ret a"



section \<open>What wc counts\<close>

definition space :: "u8 \<Rightarrow> bool" where
  "space ch \<longleftrightarrow> ch \<in> {32, 13, 9, 10, 11}"

text \<open>Words of a text: positions of a character that is not a space and does not follow another such character.\<close>

definition word_starts :: "u8 list \<Rightarrow> nat" where
  "word_starts bs = card {i. i < length bs \<and> \<not> space (bs ! i) \<and> (i = 0 \<or> space (bs ! (i - 1)))}"

definition counted :: "u8 list \<Rightarrow> wcount" where
  "counted bs = \<lparr>wc_l = of_nat (count_list bs 10), wc_w = of_nat (word_starts bs), wc_c = of_nat (length bs),
     wc_inword = (bs \<noteq> [] \<and> \<not> space (last bs))\<rparr>"

lemma word_starts_snoc:
  "word_starts (bs @ [ch]) = word_starts bs + (if \<not> space ch \<and> (bs = [] \<or> space (last bs)) then 1 else 0)"
proof -
  let ?A = "\<lambda>xs. {i. i < length xs \<and> \<not> space (xs ! i) \<and> (i = 0 \<or> space (xs ! (i - 1)))}"
  have s: "(bs @ [ch]) ! i = (if i < length bs then bs ! i else ch)" if "i \<le> length bs" for i
    using that by (simp add: nth_append)
  have l: "length bs = 0 \<or> space ((bs @ [ch]) ! (length bs - 1)) \<longleftrightarrow> bs = [] \<or> space (last bs)"
    by (cases "bs = []") (simp_all add: s last_conv_nth)
  have "?A (bs @ [ch]) = ?A bs \<union> (if \<not> space ch \<and> (bs = [] \<or> space (last bs)) then {length bs} else {})" (is "_ = ?B")
  proof (rule set_eqI)
    fix i
    show "i \<in> ?A (bs @ [ch]) \<longleftrightarrow> i \<in> ?B"
    proof (cases "i < length bs")
      case True
      then show ?thesis using s [of i] s [of "i - 1"] by auto
    next
      case False
      then show ?thesis using l s [of i] by (cases "i = length bs") auto
    qed
  qed
  moreover have "finite (?A bs)" by (rule finite_subset [of _ "{..<length bs}"]) auto
  moreover have "length bs \<notin> ?A bs" by simp
  ultimately show ?thesis by (simp add: word_starts_def)
qed

lemma counted_Nil: "counted [] = \<lparr>wc_l = 0, wc_w = 0, wc_c = 0, wc_inword = False\<rparr>"
  by (simp add: counted_def word_starts_def)

lemma counted_snoc: "wc_char ch (counted bs) = counted (bs @ [ch])"
  by (auto simp: wc_char_def counted_def word_starts_snoc space_def Let_def)

lemma counted_append: "fold wc_char cs (counted bs) = counted (bs @ cs)"
proof (induction cs arbitrary: bs)
  case (Cons ch cs)
  then show ?case using Cons.IH [of "bs @ [ch]"] by (simp add: counted_snoc)
qed simp

text \<open>The answers of a file that delivers its content in these pieces.\<close>

definition reads :: "u8 list list \<Rightarrow> uans list" where
  "reads chunks = map (\<lambda>ch. \<lparr>a_ret = int (length ch), a_data = ch, a_fds = (0, 0)\<rparr>) chunks"

lemma wc_loop_reads:
  assumes "[] \<notin> set chunks" and "u_left u = reads chunks @ e # ws" and "a_ret e = 0"
  shows "\<exists>buf'. wc_loop fd buf (counted bs) u =
     Ret (0, buf', counted (bs @ concat chunks)) \<lparr>u_left = ws, u_calls = u_calls u @ replicate (Suc (length chunks)) (CRead fd 512)\<rparr>"
  using assms
proof (induction chunks arbitrary: buf bs u)
  case Nil
  then show ?case by (subst wc_loop.simps) (auto simp: reads_def Let_def made_def)
next
  case (Cons ch chunks)
  let ?a = "\<lparr>a_ret = int (length ch), a_data = ch, a_fds = (0, 0)\<rparr> :: uans"
  have u: "u_left u = ?a # reads chunks @ e # ws" using Cons.prems(2) by (simp add: reads_def)
  let ?u = "made (CRead fd 512) (u\<lparr>u_left := reads chunks @ e # ws\<rparr>)"
  obtain buf' where "wc_loop fd (overlay ch buf) (counted (bs @ ch)) ?u = Ret (0, buf', counted ((bs @ ch) @ concat chunks))
      \<lparr>u_left = ws, u_calls = u_calls ?u @ replicate (Suc (length chunks)) (CRead fd 512)\<rparr>"
    using Cons.IH [of ?u "overlay ch buf" "bs @ ch"] Cons.prems(1,3) by auto
  moreover have "ch \<noteq> []" using Cons.prems(1) by auto
  ultimately show ?case using u
    by (subst wc_loop.simps) (simp add: Let_def overlay_def counted_append)
qed

text \<open>
  C29. \<^verbatim>\<open>wc\<close> prints the number of newlines, of words and of bytes of the whole file, however the reads cut it into pieces; a
  word that lies across two reads is counted once.  The counters are of type \<^verbatim>\<open>int\<close>, so from \<open>2 ^ 31\<close> on a number is printed as its low
  32 bits in two's complement.
\<close>

theorem wc_correct:
  assumes "[] \<notin> set chunks"
  shows "\<exists>buf'. wc fd name buf (ustart (reads chunks @ reads [[]] @ [a])) =
     Ret buf' \<lparr>u_left = [], u_calls = replicate (Suc (length chunks)) (CRead fd 512) @
       [CPrintf 1 (''%d %d %d %s'' @ nl) [PInt (to_int32 (int (count_list (concat chunks) 10))), PInt (to_int32 (int (word_starts (concat chunks)))),
          PInt (to_int32 (int (length (concat chunks)))), PStr name]]\<rparr>"
proof -
  let ?e = "\<lparr>a_ret = 0, a_data = [], a_fds = (0, 0)\<rparr> :: uans"
  have e: "reads chunks @ reads [[]] @ [a] = reads chunks @ ?e # [a]" by (simp add: reads_def)
  show ?thesis
    using wc_loop_reads [OF assms, of "ustart (reads chunks @ ?e # [a])" ?e "[a]" fd buf "[]"]
    unfolding wc_def e counted_Nil [symmetric]
    by (auto simp: ustart_def uprintf_def made_def) (auto simp: counted_def to_int32_def)
qed

theorem wc_correct_witness:
  "\<exists>buf'. wc 3 (ascii ''f'') [] (ustart (reads [ascii ''a b'', ascii ''c '' @ ascii nl] @ reads [[]] @ reads [[]])) =
     Ret buf' \<lparr>u_left = [], u_calls = [CRead 3 512, CRead 3 512, CRead 3 512,
       CPrintf 1 (''%d %d %d %s'' @ nl) [PInt 1, PInt 2, PInt 6, PStr (ascii ''f'')]]\<rparr>"
proof -
  have w: "word_starts (concat [ascii ''a b'', ascii ''c '' @ ascii nl]) = 2"
  proof -
    have "concat [ascii ''a b'', ascii ''c '' @ ascii nl] = ((((([] @ [97]) @ [32]) @ [98]) @ [99]) @ [32]) @ [10]"
      by (simp add: ascii_def nl_def)
    then show ?thesis by (simp only: word_starts_snoc) (simp add: space_def word_starts_def)
  qed
  let ?cs = "[ascii ''a b'', ascii ''c '' @ ascii nl]" and ?e = "\<lparr>a_ret = 0, a_data = [], a_fds = (0, 0)\<rparr> :: uans"
  have h: "[] \<notin> set ?cs" and c: "count_list (concat ?cs) 10 = 1" "length (concat ?cs) = 6" "Suc (length ?cs) = 3" "reads [[]] = [?e]"
    by (simp_all add: ascii_def nl_def reads_def)
  show ?thesis
    using wc_correct [OF h, of 3 "ascii ''f''" "[]" ?e, unfolded w c] unfolding c(4) by (simp add: to_int32_def numeral_eq_Suc)
qed

end
