(* ===== verification/Grep.thy ===== *)
theory Grep
  imports Ulib
begin

text \<open>
  \<^verbatim>\<open>user/grep.c\<close>.  The matcher is the code's recursion on the pattern and the text, strings being the bytes before the
  terminator; it is shown to decide the language the pattern denotes.  The loop that cuts the input into lines is shown to
  write exactly the matching lines, whatever the sizes of the reads.
\<close>

section \<open>The matcher\<close>

definition star :: u8 where "star = of_char CHR ''*''"
definition dot :: u8 where "dot = of_char CHR ''.''"
definition dollar :: u8 where "dollar = of_char CHR ''$''"
definition caret :: u8 where "caret = of_char CHR ''^''"

function matchhere :: "u8 list \<Rightarrow> u8 list \<Rightarrow> bool" and matchstar :: "u8 \<Rightarrow> u8 list \<Rightarrow> u8 list \<Rightarrow> bool" where
  "matchhere re text =
     (if re = [] then True
      else if tl re \<noteq> [] \<and> hd (tl re) = star then matchstar (hd re) (tl (tl re)) text
      else if hd re = dollar \<and> tl re = [] then text = []
      else if text \<noteq> [] \<and> (hd re = dot \<or> hd re = hd text) then matchhere (tl re) (tl text)
      else False)"
| "matchstar c re text =
     (if matchhere re text then True
      else if text \<noteq> [] \<and> (hd text = c \<or> c = dot) then matchstar c re (tl text)
      else False)"
  by pat_completeness auto
termination
proof (relation "measure (\<lambda>x. case x of Inl (re, text) \<Rightarrow> 2 * (length re + length text) | Inr (_, re, text) \<Rightarrow> 2 * (length re + length text) + 1)",
    goal_cases)
  case (2 re tx)
  then show ?case by (cases re; cases "tl re") auto
next
  case (3 re tx)
  then show ?case by (cases re; cases tx) auto
next
  case (5 c re tx)
  then show ?case by (cases tx) auto
qed auto

declare matchhere.simps [simp del] matchstar.simps [simp del]

fun match_from :: "u8 list \<Rightarrow> u8 list \<Rightarrow> bool" where
  "match_from re text = (if matchhere re text then True else case text of [] \<Rightarrow> False | _ # t \<Rightarrow> match_from re t)"

declare match_from.simps [simp del]

definition match_re :: "u8 list \<Rightarrow> u8 list \<Rightarrow> bool" where
  "match_re re text = (if re \<noteq> [] \<and> hd re = caret then matchhere (tl re) text else match_from re text)"

section \<open>The loop over the input\<close>

text \<open>
  One buffer of text: the lines that are written, in order, and the text after the last newline.  \<^verbatim>\<open>strchr\<close> stops at the
  terminator, so a zero byte hides the newlines after it.
\<close>

function grep_lines :: "u8 list \<Rightarrow> u8 list \<Rightarrow> u8 list list \<times> u8 list" where
  "grep_lines pat p =
     (if 10 \<in> set (upto_nul p) then
        let line = takeWhile (\<lambda>b. b \<noteq> 10) p;
            (ls, left) = grep_lines pat (drop (length line + 1) p)
        in (if match_re pat line then (line @ [10]) # ls else ls, left)
      else ([], p))"
  by pat_completeness auto
termination
proof (relation "measure (\<lambda>(_, p). length p)", goal_cases)
  case (2 pat p x)
  then have "p \<noteq> []" by auto
  then show ?case using 2 by simp
qed simp

declare grep_lines.simps [simp del]

definition grep_write :: "u8 list list \<Rightarrow> ust \<Rightarrow> unit uout" where
  "grep_write ls u = for_each (\<lambda>l u. andthen (sys (CWrite 1 l) u) (\<lambda>_ u. Ret () u)) ls u"

lemma grep_write_less: "grep_write ls u = Ret x t \<Longrightarrow> length (u_left t) \<le> length (u_left u)"
proof (induction ls arbitrary: u)
  case (Cons l ls)
  then obtain a v where "sys (CWrite 1 l) u = Ret a v" "grep_write ls v = Ret x t" by (auto simp: grep_write_def)
  then show ?case using Cons.IH [of v] sys_Ret_less [of "CWrite 1 l" u a v] by simp
qed (simp add: grep_write_def)

function grep :: "u8 list \<Rightarrow> int \<Rightarrow> u8 list \<Rightarrow> ust \<Rightarrow> unit uout" where
  "grep pattern fd kept u =
     andthen (sys (CRead fd (1024 - int (length kept) - 1)) u) (\<lambda>r u.
     if a_ret r > 0 then
       let out = grep_lines pattern (kept @ take (nat (a_ret r)) (a_data r)) in
       andthen (grep_write (fst out) u) (\<lambda>_ u. grep pattern fd (snd out) u)
     else Ret () u)"
  by pat_completeness auto
termination
  by (relation "measure (\<lambda>(_, _, _, u). length (u_left u))") (auto dest!: sys_Ret_less grep_write_less)

declare grep.simps [simp del]

fun grep_files :: "u8 list \<Rightarrow> u8 list list \<Rightarrow> ust \<Rightarrow> unit uout" where
  "grep_files pattern [] u = Ret () u"
| "grep_files pattern (arg # args) u =
     andthen (sys (COpen arg O_RDONLY) u) (\<lambda>fd u.
     if a_ret fd < 0 then andthen (uprintf 1 (''grep: cannot open %s'' @ nl) [PStr arg] u) (\<lambda>_ u. uexit 1 u)
     else andthen (grep pattern (a_ret fd) [] u) (\<lambda>_ u.
          andthen (sys (CClose (a_ret fd)) u) (\<lambda>_ u. grep_files pattern args u)))"

definition grep_main :: "u8 list list \<Rightarrow> ust \<Rightarrow> unit uout" where
  "grep_main argv u =
     (if length argv \<le> 1 then andthen (uprintf 2 (''usage: grep pattern [file ...]'' @ nl) [] u) (\<lambda>_ u. uexit 1 u)
      else let pattern = argv ! 1 in
        if length argv \<le> 2 then andthen (grep pattern 0 [] u) (\<lambda>_ u. uexit 0 u)
        else andthen (grep_files pattern (drop 2 argv) u) (\<lambda>_ u. uexit 0 u))"

section \<open>The language of a pattern\<close>

text \<open>A pattern is a list of items: a character, a repeated character, or the end of the text.  A dot stands for any character.\<close>

datatype item = Char u8 | Rep u8 | End

fun items :: "u8 list \<Rightarrow> item list" where
  "items [] = []"
| "items [c] = (if c = dollar then [End] else [Char c])"
| "items (c # d # re) = (if d = star then Rep c # items re else Char c # items (d # re))"

definition fits_char :: "u8 \<Rightarrow> u8 \<Rightarrow> bool" where
  "fits_char c x \<longleftrightarrow> c = dot \<or> x = c"

text \<open>\<open>reads_as is w\<close>: the items describe the text \<open>w\<close>; \<open>End\<close> describes the empty text.\<close>

inductive reads_as :: "item list \<Rightarrow> u8 list \<Rightarrow> bool" where
  nil: "reads_as [] []"
| end_item: "reads_as is w \<Longrightarrow> reads_as (End # is) w"
| char_item: "fits_char c x \<Longrightarrow> reads_as is w \<Longrightarrow> reads_as (Char c # is) (x # w)"
| rep_item: "\<forall>x \<in> set v. fits_char c x \<Longrightarrow> reads_as is w \<Longrightarrow> reads_as (Rep c # is) (v @ w)"

inductive_simps reads_as_Nil [simp]: "reads_as [] w"
inductive_simps reads_as_End: "reads_as (End # is) w"
inductive_simps reads_as_Char: "reads_as (Char c # is) w"
inductive_simps reads_as_Rep: "reads_as (Rep c # is) w"

definition ends_text :: "item list \<Rightarrow> bool" where
  "ends_text is \<longleftrightarrow> is \<noteq> [] \<and> last is = End"

text \<open>\<open>prefix_hit is text\<close>: some beginning of the text, all of it when the items end the text, is described by the items.\<close>

definition prefix_hit :: "item list \<Rightarrow> u8 list \<Rightarrow> bool" where
  "prefix_hit is text \<longleftrightarrow> (\<exists>w post. text = w @ post \<and> reads_as is w \<and> (ends_text is \<longrightarrow> post = []))"

lemma items_step:
  "re \<noteq> [] \<Longrightarrow> items re =
    (if tl re \<noteq> [] \<and> hd (tl re) = star then Rep (hd re) # items (tl (tl re))
     else if hd re = dollar \<and> tl re = [] then [End] else Char (hd re) # items (tl re))"
  by (cases re rule: items.cases) auto

lemma ends_text_simps [simp]:
  "\<not> ends_text []" "ends_text [End]" "ends_text (Char c # is) = ends_text is" "ends_text (Rep c # is) = ends_text is"
  by (auto simp: ends_text_def)

lemma prefix_hitI: "reads_as is w \<Longrightarrow> (ends_text is \<Longrightarrow> post = []) \<Longrightarrow> t = w @ post \<Longrightarrow> prefix_hit is t"
  by (auto simp: prefix_hit_def)

lemma prefix_hitE:
  assumes "prefix_hit is t"
  obtains w post where "t = w @ post" and "reads_as is w" and "ends_text is \<Longrightarrow> post = []"
  using assms by (auto simp: prefix_hit_def)

lemma prefix_hit_Nil [simp]: "prefix_hit [] t"
  by (rule prefix_hitI [of _ "[]"]) simp_all

lemma prefix_hit_End [simp]: "prefix_hit [End] t \<longleftrightarrow> t = []"
  by (auto simp: prefix_hit_def reads_as_End)

lemma prefix_hit_Char: "prefix_hit (Char c # is) t \<longleftrightarrow> t \<noteq> [] \<and> fits_char c (hd t) \<and> prefix_hit is (tl t)"
proof
  assume "prefix_hit (Char c # is) t"
  then obtain x w post where "t = (x # w) @ post" "fits_char c x" "reads_as is w" "ends_text is \<Longrightarrow> post = []"
    by (elim prefix_hitE) (auto simp: reads_as_Char)
  then show "t \<noteq> [] \<and> fits_char c (hd t) \<and> prefix_hit is (tl t)" by (auto intro: prefix_hitI)
next
  assume h: "t \<noteq> [] \<and> fits_char c (hd t) \<and> prefix_hit is (tl t)"
  then obtain w post where "tl t = w @ post" "reads_as is w" "ends_text is \<Longrightarrow> post = []"
    by (elim conjE prefix_hitE) blast
  then show "prefix_hit (Char c # is) t"
    using h by (intro prefix_hitI [of _ "hd t # w" post]) (auto intro: char_item simp: neq_Nil_conv)
qed

lemma prefix_hit_Rep:
  "prefix_hit (Rep c # is) t \<longleftrightarrow> prefix_hit is t \<or> t \<noteq> [] \<and> fits_char c (hd t) \<and> prefix_hit (Rep c # is) (tl t)"
proof
  assume "prefix_hit (Rep c # is) t"
  then obtain v w post where h: "t = (v @ w) @ post" "\<forall>x \<in> set v. fits_char c x" "reads_as is w" "ends_text is \<Longrightarrow> post = []"
    by (elim prefix_hitE) (auto simp: reads_as_Rep)
  show "prefix_hit is t \<or> t \<noteq> [] \<and> fits_char c (hd t) \<and> prefix_hit (Rep c # is) (tl t)"
  proof (cases v)
    case Nil
    then show ?thesis using h by (auto intro: prefix_hitI)
  next
    case (Cons x v')
    then have "prefix_hit (Rep c # is) (v' @ w @ post)" using h by (intro prefix_hitI [of _ "v' @ w" post]) (auto intro: rep_item)
    then show ?thesis using h Cons by simp
  qed
next
  assume "prefix_hit is t \<or> t \<noteq> [] \<and> fits_char c (hd t) \<and> prefix_hit (Rep c # is) (tl t)"
  then show "prefix_hit (Rep c # is) t"
  proof
    assume "prefix_hit is t"
    then obtain w post where w: "t = w @ post" "reads_as is w" "ends_text is \<Longrightarrow> post = []" by (elim prefix_hitE) blast
    then show ?thesis using rep_item [of "[]" c "is" w] by (intro prefix_hitI [of _ w post]) simp_all
  next
    assume h: "t \<noteq> [] \<and> fits_char c (hd t) \<and> prefix_hit (Rep c # is) (tl t)"
    then obtain v w post where v: "tl t = (v @ w) @ post" "\<forall>x \<in> set v. fits_char c x" "reads_as is w" "ends_text is \<Longrightarrow> post = []"
      by (elim conjE prefix_hitE) (auto simp: reads_as_Rep)
    then have "reads_as (Rep c # is) ((hd t # v) @ w)" using h by (intro rep_item) auto
    then show ?thesis using h v by (intro prefix_hitI [of _ "(hd t # v) @ w" post]) (auto simp: neq_Nil_conv)
  qed
qed

lemma matchhere_hit:
  "matchhere re t \<longleftrightarrow> prefix_hit (items re) t" "matchstar c re t \<longleftrightarrow> prefix_hit (Rep c # items re) t"
proof (induction re t and c re t rule: matchhere_matchstar.induct)
  case (1 re t)
  show ?case
  proof (cases "re = []")
    case True
    then show ?thesis by (subst matchhere.simps) simp
  next
    case False
    let ?S = "tl re \<noteq> [] \<and> hd (tl re) = star" and ?D = "hd re = dollar \<and> tl re = []"
    consider ?S | "\<not> ?S" ?D | "\<not> ?S" "\<not> ?D" by blast
    then show ?thesis
    proof cases
      case 1
      then show ?thesis unfolding items_step [OF False] if_P [OF 1] matchhere.simps [of re] if_not_P [OF False]
        using "1.IH"(1) [OF False 1] by simp
    next
      case 2
      then show ?thesis unfolding items_step [OF False] matchhere.simps [of re] using False by auto
    next
      case 3
      then show ?thesis
        unfolding items_step [OF False] matchhere.simps [of re] if_not_P [OF False] if_not_P [OF 3(1)] if_not_P [OF 3(2)] prefix_hit_Char
        using "1.IH"(2) [OF False 3] by (auto simp: fits_char_def)
    qed
  qed
next
  case (2 c re t)
  then show ?case
    by (subst matchstar.simps, subst prefix_hit_Rep) (auto simp: fits_char_def)
qed

lemma match_from_hit: "match_from re t \<longleftrightarrow> (\<exists>pre mid. t = pre @ mid \<and> prefix_hit (items re) mid)"
proof (induction t)
  case Nil
  then show ?case by (subst match_from.simps) (simp add: matchhere_hit)
next
  case (Cons x t)
  then show ?case
    by (subst match_from.simps) (auto simp: matchhere_hit Cons_eq_append_conv)
qed

text \<open>
  C31. The matcher decides the language of the pattern.  After a leading caret is taken off, a pattern is a sequence of items: a
  character, a starred character, and at its very end a dollar; a dot fits any character.  \<^verbatim>\<open>match\<close> is true exactly when some part
  of the text is described by the items, where the part starts the text if the pattern began with a caret and ends it
  if the pattern ends with a dollar.
\<close>

theorem match_decides:
  "match_re re t \<longleftrightarrow>
     (let anchored = (re \<noteq> [] \<and> hd re = caret); is = items (if anchored then tl re else re) in
      \<exists>pre mid post. t = pre @ mid @ post \<and> reads_as is mid \<and>
        \<not> (anchored \<and> pre \<noteq> []) \<and> \<not> (ends_text is \<and> post \<noteq> []))"
proof (cases "re \<noteq> [] \<and> hd re = caret")
  case True
  then show ?thesis by (auto simp: match_re_def matchhere_hit prefix_hit_def Let_def)
next
  case False
  then show ?thesis by (auto simp: match_re_def match_from_hit prefix_hit_def Let_def)
qed

section \<open>Lines\<close>

text \<open>The complete lines of a text, without their newlines, and what follows the last of them.\<close>

fun lines_of :: "u8 list \<Rightarrow> u8 list list \<times> u8 list" where
  "lines_of [] = ([], [])"
| "lines_of (b # bs) =
     (let (ls, r) = lines_of bs in
      if b = 10 then ([] # ls, r) else case ls of [] \<Rightarrow> ([], b # r) | l # ls \<Rightarrow> ((b # l) # ls, r))"

lemma lines_of_no_newline: "10 \<notin> set bs \<Longrightarrow> lines_of bs = ([], bs)"
  by (induction bs) (auto simp: Let_def)

lemma lines_of_newline: "10 \<notin> set l \<Longrightarrow> lines_of (l @ 10 # bs) = (l # fst (lines_of bs), snd (lines_of bs))"
  by (induction l) (auto simp: Let_def split: prod.split)

lemma upto_nul_id: "0 \<notin> set p \<Longrightarrow> upto_nul p = p"
  by (auto simp: upto_nul_def takeWhile_eq_all_conv)

lemma grep_lines_matches:
  "0 \<notin> set p \<Longrightarrow> grep_lines pat p = (map (\<lambda>l. l @ [10]) (filter (match_re pat) (fst (lines_of p))), snd (lines_of p))"
proof (induction pat p rule: grep_lines.induct)
  case (1 pat p)
  show ?case
  proof (cases "10 \<in> set p")
    case True
    let ?l = "takeWhile (\<lambda>b. b \<noteq> 10) p" and ?p = "drop (length (takeWhile (\<lambda>b. b \<noteq> 10) p) + 1) p"
    have "dropWhile (\<lambda>b. b \<noteq> 10) p = 10 # ?p"
      using True by (metis (mono_tags, lifting) Suc_eq_plus1 dropWhile_eq_Nil_conv drop_Suc dropWhile_eq_drop hd_dropWhile list.collapse tl_drop)
    then have p: "p = ?l @ 10 # ?p" using takeWhile_dropWhile_id [of "\<lambda>b. b \<noteq> 10" p] by simp
    have nl: "10 \<notin> set ?l" by (auto dest: set_takeWhileD)
    have z: "0 \<notin> set ?p" using "1.prems" by (auto dest: in_set_dropD)
    have t: "10 \<in> set (upto_nul p)" using True "1.prems" by (simp add: upto_nul_id)
    have e: "grep_lines pat ?p = (map (\<lambda>l. l @ [10]) (filter (match_re pat) (fst (lines_of ?p))), snd (lines_of ?p))"
      by (rule "1.IH" [OF t refl z])
    have l: "lines_of p = (?l # fst (lines_of ?p), snd (lines_of ?p))" by (subst p) (rule lines_of_newline [OF nl])
    show ?thesis unfolding l by (subst grep_lines.simps) (simp add: t Let_def e del: One_nat_def)
  next
    case False
    then show ?thesis using "1.prems" by (subst grep_lines.simps) (simp add: upto_nul_id lines_of_no_newline)
  qed
qed

lemma lines_of_append:
  "lines_of (bs @ cs) = (fst (lines_of bs) @ fst (lines_of (snd (lines_of bs) @ cs)), snd (lines_of (snd (lines_of bs) @ cs)))"
proof (induction "length bs" arbitrary: bs rule: less_induct)
  case less
  show ?case
  proof (cases "10 \<in> set bs")
    case True
    then obtain l bs' where b: "bs = l @ 10 # bs'" "10 \<notin> set l" using split_list_first [of 10 bs] by blast
    show ?thesis using less [of bs'] b by (simp add: lines_of_newline)
  next
    case False
    then show ?thesis by (simp add: lines_of_no_newline)
  qed
qed

lemma lines_of_tail: "set (snd (lines_of bs)) \<subseteq> set bs \<and> 10 \<notin> set (snd (lines_of bs))"
proof (induction "length bs" arbitrary: bs rule: less_induct)
  case less
  show ?case
  proof (cases "10 \<in> set bs")
    case True
    then obtain l bs' where b: "bs = l @ 10 # bs'" "10 \<notin> set l" using split_list_first [of 10 bs] by blast
    show ?thesis using less [of bs'] b by (auto simp: lines_of_newline)
  next
    case False
    then show ?thesis by (simp add: lines_of_no_newline)
  qed
qed

text \<open>
  The answers of a file that delivers its content in these pieces: each read, then an answer for each line written before the next
  read.
\<close>

fun grep_answers :: "u8 list \<Rightarrow> u8 list \<Rightarrow> u8 list list \<Rightarrow> uans list" where
  "grep_answers pat kept [] = [\<lparr>a_ret = 0, a_data = [], a_fds = (0, 0)\<rparr>]"
| "grep_answers pat kept (ch # chunks) =
     \<lparr>a_ret = int (length ch), a_data = ch, a_fds = (0, 0)\<rparr> #
     map (\<lambda>l. \<lparr>a_ret = int (length l), a_data = [], a_fds = (0, 0)\<rparr>) (fst (grep_lines pat (kept @ ch))) @
     grep_answers pat (snd (grep_lines pat (kept @ ch))) chunks"

text \<open>No answer is longer than its request: the buffer holds 1023 bytes and the unfinished line stays in it.\<close>

fun reads_fit :: "u8 list \<Rightarrow> u8 list list \<Rightarrow> bool" where
  "reads_fit kept [] \<longleftrightarrow> True"
| "reads_fit kept (ch # chunks) \<longleftrightarrow> length kept + length ch \<le> 1023 \<and> reads_fit (snd (lines_of (kept @ ch))) chunks"

fun is_write :: "ucall \<Rightarrow> bool" where
  "is_write (CWrite _ _) = True"
| "is_write _ = False"

lemma grep_write_answers:
  assumes "u_left u = map (\<lambda>l. \<lparr>a_ret = int (length l), a_data = [], a_fds = (0, 0)\<rparr>) ls @ ws"
  shows "grep_write ls u = Ret () \<lparr>u_left = ws, u_calls = u_calls u @ map (CWrite 1) ls\<rparr>"
  using assms
proof (induction ls arbitrary: u)
  case (Cons l ls)
  then show ?case by (simp add: grep_write_def)
qed (simp add: grep_write_def)

lemma grep_run:
  assumes "[] \<notin> set chunks" and "0 \<notin> set kept" and "10 \<notin> set kept" and "0 \<notin> set (concat chunks)"
    and "u_left u = grep_answers pat kept chunks"
  shows "\<exists>t. grep pat fd kept u = Ret () t \<and> u_left t = [] \<and>
    filter is_write (u_calls t) = filter is_write (u_calls u) @
      map (\<lambda>l. CWrite 1 (l @ [10])) (filter (match_re pat) (fst (lines_of (kept @ concat chunks))))"
  using assms
proof (induction chunks arbitrary: kept u)
  case Nil
  then show ?case by (subst grep.simps) (simp add: lines_of_no_newline)
next
  case (Cons ch chunks)
  let ?a = "\<lparr>a_ret = int (length ch), a_data = ch, a_fds = (0, 0)\<rparr> :: uans" and ?out = "grep_lines pat (kept @ ch)"
  let ?ls = "lines_of (kept @ ch)" and ?r = "CRead fd (1024 - int (length kept) - 1)"
  have out: "?out = (map (\<lambda>l. l @ [10]) (filter (match_re pat) (fst ?ls)), snd ?ls)"
    using Cons.prems(2,4) by (intro grep_lines_matches) auto
  let ?u = "made ?r (u\<lparr>u_left := map (\<lambda>l. \<lparr>a_ret = int (length l), a_data = [], a_fds = (0, 0)\<rparr>) (fst ?out) @
      grep_answers pat (snd ?out) chunks\<rparr>)"
  let ?v = "\<lparr>u_left = grep_answers pat (snd ?out) chunks, u_calls = u_calls ?u @ map (CWrite 1) (fst ?out)\<rparr>"
  have "grep_write (fst ?out) ?u = Ret () ?v" by (rule grep_write_answers) simp
  moreover have "sys ?r u = Ret ?a ?u" using Cons.prems(5) by simp
  moreover have "ch \<noteq> []" using Cons.prems(1) by auto
  ultimately have g: "grep pat fd kept u = grep pat fd (snd ?out) ?v" by (subst grep.simps) (simp add: Let_def del: sys_simps)
  have "0 \<notin> set (snd ?ls)" "10 \<notin> set (snd ?ls)" using lines_of_tail [of "kept @ ch"] Cons.prems(2,4) by auto
  then obtain t where "grep pat fd (snd ?out) ?v = Ret () t" "u_left t = []" "filter is_write (u_calls t) = filter is_write (u_calls ?v) @
      map (\<lambda>l. CWrite 1 (l @ [10])) (filter (match_re pat) (fst (lines_of (snd ?out @ concat chunks))))"
    using Cons.IH [of "snd ?out" ?v] Cons.prems(1,4) out by auto
  moreover have "filter is_write (u_calls ?v) = filter is_write (u_calls u) @ map (\<lambda>l. CWrite 1 (l @ [10])) (filter (match_re pat) (fst ?ls))"
    by (simp add: out filter_map comp_def)
  moreover have "lines_of (kept @ concat (ch # chunks)) = (fst ?ls @ fst (lines_of (snd ?ls @ concat chunks)), snd (lines_of (snd ?ls @ concat chunks)))"
    using lines_of_append [of "kept @ ch" "concat chunks"] by simp
  ultimately show ?case using g out by auto
qed

text \<open>
  C32. \<^verbatim>\<open>grep\<close> writes exactly the complete lines of its input that match, each with its newline, in order, however the reads cut the
  input; a last line without a newline is never written.  The input contains no zero bytes, and each read fits the space the buffer
  has left beside the unfinished line, so every line is shorter than the buffer.
\<close>

theorem grep_prints_matches:
  assumes "[] \<notin> set chunks" and "0 \<notin> set (concat chunks)" and "reads_fit [] chunks"
  shows "\<exists>t. grep pat fd [] (ustart (grep_answers pat [] chunks)) = Ret () t \<and>
    filter is_write (u_calls t) = map (\<lambda>l. CWrite 1 (l @ [10])) (filter (match_re pat) (fst (lines_of (concat chunks))))"
  using grep_run [OF assms(1) _ _ assms(2), of "[]" "ustart (grep_answers pat [] chunks)" pat fd] by (auto simp: ustart_def)

theorem grep_prints_matches_witness:
  "\<exists>t. grep (ascii ''^a.*c'') 3 [] (ustart (grep_answers (ascii ''^a.*c'') [] [ascii ''xab'', ascii ''c'' @ ascii nl @ ascii ''ab'', ascii ''bc'' @ ascii nl])) = Ret () t \<and>
     filter is_write (u_calls t) = [CWrite 1 (ascii ''abbc'' @ ascii nl)]"
proof -
  let ?p = "ascii ''^a.*c''" and ?cs = "[ascii ''xab'', ascii ''c'' @ ascii nl @ ascii ''ab'', ascii ''bc'' @ ascii nl]"
  have h: "[] \<notin> set ?cs" "0 \<notin> set (concat ?cs)" "reads_fit [] ?cs" by (simp_all add: ascii_def nl_def)
  have l: "fst (lines_of (concat ?cs)) = [ascii ''xabc'', ascii ''abbc'']" by (simp add: ascii_def nl_def)
  have "\<not> match_re ?p (ascii ''xabc'')" "match_re ?p (ascii ''abbc'')"
    by (simp_all add: match_re_def matchhere.simps matchstar.simps ascii_def caret_def star_def dot_def dollar_def)
  then show ?thesis using grep_prints_matches [OF h, of ?p 3] unfolding l by (simp add: ascii_def nl_def)
qed

end
