(* ===== verification/Umalloc.thy ===== *)
theory Umalloc
  imports Ulib
begin

text \<open>
  \<^verbatim>\<open>user/umalloc.c\<close>, the allocator of Kernighan and Ritchie.  Addresses are natural numbers below the program break; a
  \<^verbatim>\<open>Header\<close> occupies 16 bytes and is kept as a record at its address, since programs write only between headers.  The free list is
  circular and sorted by address; \<open>arena\<close> is its invariant together with the blocks in use.  \<^verbatim>\<open>grants\<close> says
  whether the kernel has the memory for a call of \<^verbatim>\<open>sbrk\<close>.  The loops follow pointers and may not end on a broken list, which is the
  value \<open>None\<close>; on an arena they end.
\<close>

record header =
  h_ptr :: nat
  h_size :: nat

record um_st =
  hdr :: "nat \<Rightarrow> header"
  freep :: nat
  brk :: nat

definition nxt :: "um_st \<Rightarrow> nat \<Rightarrow> nat" where
  "nxt s a = h_ptr (hdr s a)"

definition units :: "um_st \<Rightarrow> nat \<Rightarrow> nat" where
  "units s a = h_size (hdr s a)"

definition set_nxt :: "nat \<Rightarrow> nat \<Rightarrow> um_st \<Rightarrow> um_st" where
  "set_nxt a v s = s\<lparr>hdr := (hdr s)(a := (hdr s a)\<lparr>h_ptr := v\<rparr>)\<rparr>"

definition set_units :: "nat \<Rightarrow> nat \<Rightarrow> um_st \<Rightarrow> um_st" where
  "set_units a n s = s\<lparr>hdr := (hdr s)(a := (hdr s a)\<lparr>h_size := n mod 2 ^ 32\<rparr>)\<rparr>"

partial_function (option) free_find :: "(nat \<Rightarrow> header) \<Rightarrow> nat \<Rightarrow> nat \<Rightarrow> nat option" where
  "free_find h bp p =
     (if bp > p \<and> bp < h_ptr (h p) then Some p
      else if p \<ge> h_ptr (h p) \<and> (bp > p \<or> bp < h_ptr (h p)) then Some p
      else free_find h bp (h_ptr (h p)))"

definition ufree :: "nat \<Rightarrow> um_st \<Rightarrow> um_st option" where
  "ufree ap s =
     (let bp = ap - 16 in
      case free_find (hdr s) bp (freep s) of
        None \<Rightarrow> None
      | Some p \<Rightarrow>
        let s = (if bp + 16 * units s bp = nxt s p
                 then set_nxt bp (nxt s (nxt s p)) (set_units bp (units s bp + units s (nxt s p)) s)
                 else set_nxt bp (nxt s p) s);
            s = (if p + 16 * units s p = bp
                 then set_nxt p (nxt s bp) (set_units p (units s p + units s bp) s)
                 else set_nxt p bp s)
        in Some (s\<lparr>freep := p\<rparr>))"

definition sbrk_u :: "(um_st \<Rightarrow> int \<Rightarrow> bool) \<Rightarrow> int \<Rightarrow> um_st \<Rightarrow> int \<times> um_st" where
  "sbrk_u grants n s = (if grants s n then (int (brk s), s\<lparr>brk := nat (int (brk s) + n)\<rparr>) else (-1, s))"

definition morecore_units :: "nat \<Rightarrow> nat" where
  "morecore_units nu = (if nu < 4096 then 4096 else nu)"

definition morecore :: "(um_st \<Rightarrow> int \<Rightarrow> bool) \<Rightarrow> nat \<Rightarrow> um_st \<Rightarrow> (nat \<times> um_st) option" where
  "morecore grants nu s =
     (let nu = morecore_units nu;
          r = sbrk_u grants (to_int32 (int (nu * 16))) s
      in if fst r = -1 then Some (0, snd r)
         else let hp = nat (fst r);
                  s = set_units hp nu (snd r)
              in case ufree (hp + 16) s of None \<Rightarrow> None | Some s \<Rightarrow> Some (freep s, s))"

definition take_block :: "nat \<Rightarrow> nat \<Rightarrow> nat \<Rightarrow> um_st \<Rightarrow> nat \<times> um_st" where
  "take_block nunits prevp p s =
     (if units s p = nunits then (p + 16, (set_nxt prevp (nxt s p) s)\<lparr>freep := prevp\<rparr>)
      else let s = set_units p (units s p - nunits) s;
               p = p + 16 * units s p;
               s = set_units p nunits s
           in (p + 16, s\<lparr>freep := prevp\<rparr>))"

partial_function (option) malloc_loop ::
    "(um_st \<Rightarrow> int \<Rightarrow> bool) \<Rightarrow> nat \<Rightarrow> nat \<Rightarrow> nat \<Rightarrow> um_st \<Rightarrow> (nat \<times> um_st) option" where
  "malloc_loop grants nunits prevp p s =
     (if units s p \<ge> nunits then Some (take_block nunits prevp p s)
      else if p = freep s then
        Option.bind (morecore grants nunits s) (\<lambda>r.
        if fst r = 0 then Some r else malloc_loop grants nunits (fst r) (nxt (snd r) (fst r)) (snd r))
      else malloc_loop grants nunits p (nxt s p) s)"

definition nunits_of :: "nat \<Rightarrow> nat" where
  "nunits_of nbytes = ((nbytes + 16 - 1) div 16 + 1) mod 2 ^ 32"

definition malloc :: "(um_st \<Rightarrow> int \<Rightarrow> bool) \<Rightarrow> nat \<Rightarrow> nat \<Rightarrow> um_st \<Rightarrow> (nat \<times> um_st) option" where
  "malloc grants base nbytes s =
     (let s = (if freep s = 0 then set_units base 0 (set_nxt base base (s\<lparr>freep := base\<rparr>)) else s);
          prevp = freep s
      in malloc_loop grants (nunits_of nbytes) prevp (nxt s prevp) s)"

section \<open>Linked blocks\<close>

text \<open>\<open>linked h bs y\<close>: the headers of the blocks \<open>bs\<close> carry their sizes and each points to the next, the last to \<open>y\<close>.\<close>

type_synonym block = "nat \<times> nat"

fun linked :: "um_st \<Rightarrow> block list \<Rightarrow> nat \<Rightarrow> bool" where
  "linked s [] y \<longleftrightarrow> True"
| "linked s ((a, n) # bs) y \<longleftrightarrow> units s a = n \<and> nxt s a = (case bs of [] \<Rightarrow> y | (b, _) # _ \<Rightarrow> b) \<and> linked s bs y"

fun spaced :: "block list \<Rightarrow> bool" where
  "spaced [] \<longleftrightarrow> True"
| "spaced [b] \<longleftrightarrow> True"
| "spaced ((a, n) # (b, m) # bs) \<longleftrightarrow> a + 16 * n < b \<and> a < b \<and> spaced ((b, m) # bs)"

definition cover :: "block \<Rightarrow> nat set" where
  "cover b = {fst b ..< fst b + 16 * snd b}"

definition lies_in :: "nat \<Rightarrow> nat \<Rightarrow> block \<Rightarrow> bool" where
  "lies_in lo hi b \<longleftrightarrow> lo \<le> fst b \<and> fst b + 16 * snd b \<le> hi \<and> 0 < snd b"

definition arena :: "nat \<Rightarrow> um_st \<Rightarrow> block list \<Rightarrow> block set \<Rightarrow> bool" where
  "arena base s fs us \<longleftrightarrow>
     linked s ((base, 0) # fs) base \<and> spaced ((base, 0) # fs) \<and> freep s \<in> set (map fst ((base, 0) # fs)) \<and>
     (\<forall>f \<in> set fs. lies_in (base + 16) (brk s) f) \<and> (\<forall>u \<in> us. lies_in (base + 16) (brk s) u \<and> units s (fst u) = snd u) \<and>
     (\<forall>f \<in> set fs. \<forall>u \<in> us. cover f \<inter> cover u = {}) \<and> (\<forall>u \<in> us. \<forall>v \<in> us. u \<noteq> v \<longrightarrow> cover u \<inter> cover v = {}) \<and>
     0 < base \<and> base + 16 \<le> brk s \<and> brk s < 2 ^ 32"

lemma upd_simps [simp]:
  "nxt (set_nxt a v s) b = (if b = a then v else nxt s b)" "units (set_nxt a v s) b = units s b"
  "nxt (set_units a n s) b = nxt s b" "units (set_units a n s) b = (if b = a then n mod 2 ^ 32 else units s b)"
  "brk (set_nxt a v s) = brk s" "brk (set_units a n s) = brk s" "freep (set_nxt a v s) = freep s" "freep (set_units a n s) = freep s"
  "nxt (s\<lparr>freep := p\<rparr>) b = nxt s b" "units (s\<lparr>freep := p\<rparr>) b = units s b"
  "nxt (s\<lparr>brk := k\<rparr>) b = nxt s b" "units (s\<lparr>brk := k\<rparr>) b = units s b"
  by (auto simp: nxt_def units_def set_nxt_def set_units_def)

lemma linked_append:
  "linked s (as @ bs) y \<longleftrightarrow> linked s as (case bs of [] \<Rightarrow> y | (b, _) # _ \<Rightarrow> b) \<and> linked s bs y"
proof (induction as)
  case (Cons x as)
  then show ?case by (cases x; cases as) (auto split: list.split)
qed simp

lemma linked_cong:
  "(\<And>a. a \<in> fst ` set bs \<Longrightarrow> nxt t a = nxt s a \<and> units t a = units s a) \<Longrightarrow> linked t bs y = linked s bs y"
proof (induction bs)
  case (Cons x bs)
  then show ?case by (cases x) auto
qed simp

lemma spaced_Cons: "spaced ((a, n) # bs) \<Longrightarrow> (b, m) \<in> set bs \<Longrightarrow> a + 16 * n < b \<and> a < b"
proof (induction bs arbitrary: a n)
  case (Cons x bs)
  then show ?case by (cases x) (auto dest: Cons.IH)
qed simp

lemma spaced_tl: "spaced (x # bs) \<Longrightarrow> spaced bs"
  by (cases bs; cases x) auto

lemma spaced_append: "spaced (as @ x # bs) \<Longrightarrow> spaced (x # bs) \<and> (\<forall>a \<in> set as. fst a + 16 * snd a < fst x \<and> fst a < fst x)"
proof (induction as)
  case (Cons a as)
  have "spaced (as @ x # bs)" using Cons.prems spaced_tl by fastforce
  moreover have "fst a + 16 * snd a < fst x \<and> fst a < fst x"
    using Cons.prems spaced_Cons [of "fst a" "snd a" "as @ x # bs" "fst x" "snd x"] by simp
  ultimately show ?case using Cons.IH by simp
qed simp

lemma spaced_distinct: "spaced bs \<Longrightarrow> distinct (map fst bs)"
proof (induction bs)
  case (Cons x bs)
  then show ?case using spaced_Cons [of "fst x" "snd x" bs] spaced_tl [of x bs] by force
qed simp

section \<open>The place of a block in the list\<close>

lemma find_up:
  assumes "linked s ((p, pn) # M @ (q, qn) # R) y" and "spaced ((p, pn) # M @ (q, qn) # R)" and "q < bp"
  shows "free_find (hdr s) bp p = free_find (hdr s) bp q"
  using assms
proof (induction M arbitrary: p pn)
  case Nil
  then have "h_ptr (hdr s p) = q" "p < q" by (auto simp: nxt_def)
  then show ?case using \<open>q < bp\<close> by (subst free_find.simps) auto
next
  case (Cons m M)
  obtain m1 m2 where m: "m = (m1, m2)" by (cases m)
  have lk: "linked s ((m1, m2) # M @ (q, qn) # R) y" and sp: "spaced ((m1, m2) # M @ (q, qn) # R)"
    using Cons.prems m spaced_tl by auto
  have "h_ptr (hdr s p) = m1" "p < m1" using Cons.prems m by (auto simp: nxt_def)
  moreover have "m1 < bp" using spaced_Cons [OF sp, of q qn] Cons.prems(3) by simp
  ultimately have "free_find (hdr s) bp p = free_find (hdr s) bp m1" by (subst free_find.simps) auto
  then show ?case using Cons.IH [OF lk sp Cons.prems(3)] by simp
qed

lemma find_down:
  assumes "linked s ((p, pn) # M) base" and "spaced ((p, pn) # M)" and "bp < p" and "base < bp"
  shows "free_find (hdr s) bp p = free_find (hdr s) bp base"
  using assms
proof (induction M arbitrary: p pn)
  case Nil
  then have "h_ptr (hdr s p) = base" by (auto simp: nxt_def)
  then show ?case using Nil by (subst free_find.simps) auto
next
  case (Cons m M)
  obtain m1 m2 where m: "m = (m1, m2)" by (cases m)
  have lk: "linked s ((m1, m2) # M) base" and sp: "spaced ((m1, m2) # M)" using Cons.prems m spaced_tl by auto
  have h: "h_ptr (hdr s p) = m1" "p < m1" using Cons.prems m by (auto simp: nxt_def)
  then have "free_find (hdr s) bp p = free_find (hdr s) bp m1" using Cons.prems(3) by (subst free_find.simps) auto
  then show ?case using Cons.IH [OF lk sp] Cons.prems(3,4) h by simp
qed

lemma find_stop:
  assumes "linked s ((q, qn) # R) base" and "q < bp" and "R = [] \<or> bp < fst (hd R)" and "base \<le> q"
  shows "free_find (hdr s) bp q = Some q"
proof (cases R)
  case Nil
  then show ?thesis using assms by (subst free_find.simps) (auto simp: nxt_def)
next
  case (Cons r R')
  then show ?thesis using assms by (cases r) (subst free_find.simps, auto simp: nxt_def)
qed

lemma find_pred:
  assumes l: "linked s (A @ (q, qn) # R) base" and sp: "spaced (A @ (q, qn) # R)" and hd: "fst (hd (A @ [(q, qn)])) = base"
    and bp: "q < bp" "R = [] \<or> bp < fst (hd R)" and f: "p \<in> fst ` set (A @ (q, qn) # R)"
  shows "free_find (hdr s) bp p = Some q"
proof -
  have bq: "base \<le> q" using hd spaced_append [OF sp] by (cases A) auto
  have lq: "linked s ((q, qn) # R) base" using l by (simp add: linked_append)
  have stop: "free_find (hdr s) bp q = Some q" by (rule find_stop [OF lq bp bq])
  have up: "free_find (hdr s) bp x = Some q" if "x \<in> fst ` set A" for x
  proof -
    obtain n where "(x, n) \<in> set A" using \<open>x \<in> fst ` set A\<close> by auto
    then obtain L M where A: "A = L @ (x, n) # M" using split_list by fastforce
    have "linked s ((x, n) # M @ (q, qn) # R) base" using l by (simp add: A linked_append)
    moreover have "spaced ((x, n) # M @ (q, qn) # R)" using sp spaced_append [of L "(x, n)" "M @ (q, qn) # R"] by (simp add: A)
    ultimately show ?thesis using find_up bp(1) stop by metis
  qed
  have base: "free_find (hdr s) bp base = Some q"
  proof (cases A)
    case Nil
    then show ?thesis using hd stop by simp
  next
    case (Cons x A')
    then show ?thesis using hd up [of base] by force
  qed
  consider "p \<in> fst ` set A" | "p = q" | "p \<in> fst ` set R" using f by auto
  then show ?thesis
  proof cases
    case 1
    then show ?thesis by (rule up)
  next
    case 2
    then show ?thesis using stop by simp
  next
    case 3
    then obtain n where "(p, n) \<in> set R" by auto
    then obtain L M where R: "R = L @ (p, n) # M" using split_list by fastforce
    have sr: "spaced R" using sp spaced_append [OF sp] spaced_tl by blast
    have "linked s ((p, n) # M) base" using lq by (cases L) (auto simp: R linked_append)
    moreover have "spaced ((p, n) # M)" using sr spaced_append by (simp add: R)
    moreover have "bp < p"
    proof (cases L)
      case Nil
      then show ?thesis using bp(2) R by simp
    next
      case (Cons x L')
      then show ?thesis using bp(2) R spaced_append [of L "(p, n)" M] sr by auto
    qed
    moreover have "base < bp" using bq bp(1) by simp
    ultimately show ?thesis using find_down base by metis
  qed
qed

text \<open>Every address above \<open>base\<close> has a block of the list just below it.\<close>

lemma split_at:
  assumes "spaced ((base, 0) # fs)" and "base < bp" and "bp \<notin> fst ` set fs"
  obtains A q qn R where "(base, 0) # fs = A @ (q, qn) # R" and "q < bp" and "R = [] \<or> bp < fst (hd R)"
proof -
  let ?xs = "(base, 0) # fs" and ?P = "\<lambda>x :: block. fst x < bp"
  let ?T = "takeWhile ?P ?xs" and ?R = "dropWhile ?P ?xs"
  have "?T \<noteq> []" using assms(2) by simp
  then obtain A x where A: "?T = A @ [x]" by (metis rev_exhaust)
  obtain q qn where x: "x = (q, qn)" by (cases x)
  have "x \<in> set ?T" using A by simp
  then have "q < bp" using x set_takeWhileD [of x ?P ?xs] by auto
  moreover have "?R = [] \<or> bp < fst (hd ?R)"
  proof (cases "?R = []")
    case False
    then have h: "\<not> ?P (hd ?R)" by (rule hd_dropWhile)
    moreover have "hd ?R \<in> set ?xs" using False set_dropWhileD [of "hd ?R" ?P ?xs] by simp
    ultimately have "hd ?R \<in> set fs" using assms(2) by auto
    then have "fst (hd ?R) \<noteq> bp" using assms(3) by force
    then show ?thesis using h by auto
  qed simp
  moreover have "?xs = A @ (q, qn) # ?R" using takeWhile_dropWhile_id [of ?P ?xs] A x by simp
  ultimately show thesis by (intro that)
qed

section \<open>Freeing a block\<close>

lemma cover_join: "a + 16 * n = b \<Longrightarrow> cover (a, n + m) = cover (a, n) \<union> cover (b, m)"
  by (auto simp: cover_def)

lemma cover_below: "cover (a, n) \<inter> cover (b, m) = {} \<Longrightarrow> a < b \<Longrightarrow> 0 < m \<Longrightarrow> a + 16 * n \<le> b"
  by (force simp: cover_def)

lemma cover_start: "0 < snd x \<Longrightarrow> fst x \<in> cover x"
  by (simp add: cover_def)

lemma cover_apart: "cover x \<inter> cover y = {} \<Longrightarrow> 0 < snd x \<Longrightarrow> 0 < snd y \<Longrightarrow> fst x \<noteq> fst y"
  by (metis cover_start disjoint_iff)

definition covered :: "block list \<Rightarrow> nat set" where
  "covered fs = (\<Union>f \<in> set fs. cover f)"

lemma arenaD:
  assumes "arena base s fs us"
  shows "linked s ((base, 0) # fs) base" and "spaced ((base, 0) # fs)" and "freep s \<in> fst ` set ((base, 0) # fs)"
    and "\<And>f. f \<in> set fs \<Longrightarrow> lies_in (base + 16) (brk s) f"
    and "\<And>u. u \<in> us \<Longrightarrow> lies_in (base + 16) (brk s) u" and "\<And>u. u \<in> us \<Longrightarrow> units s (fst u) = snd u"
    and "\<And>f u. f \<in> set fs \<Longrightarrow> u \<in> us \<Longrightarrow> cover f \<inter> cover u = {}"
    and "\<And>u v. u \<in> us \<Longrightarrow> v \<in> us \<Longrightarrow> u \<noteq> v \<Longrightarrow> cover u \<inter> cover v = {}"
    and "0 < base" and "base + 16 \<le> brk s" and "brk s < 2 ^ 32"
  using assms by (auto simp: arena_def)

text \<open>The list with a block put in after \<open>q\<close>, joined to its neighbours where they touch.\<close>

definition put_up :: "block \<Rightarrow> block list \<Rightarrow> block list" where
  "put_up x R = (case R of (b, m) # R' \<Rightarrow> if fst x + 16 * snd x = b then (fst x, snd x + m) # R' else x # R | [] \<Rightarrow> [x])"

definition put_down :: "block \<Rightarrow> block list \<Rightarrow> block list" where
  "put_down q ys = (case ys of x # R \<Rightarrow> if fst q + 16 * snd q = fst x then (fst q, snd q + snd x) # R else q # ys | [] \<Rightarrow> [q])"

lemma put_up_hd: "\<exists>m R'. put_up (a, n) R = (a, n + m) # R' \<and> (m = 0 \<or> (\<exists>b. (b, m) \<in> set R))"
  by (cases R) (auto simp: put_up_def intro: exI [of _ 0])

lemma put_up_covered: "covered (put_up x R) = cover x \<union> covered R"
proof (cases R)
  case (Cons r R')
  then show ?thesis using cover_join [of "fst x" "snd x" "fst r" "snd r"]
    by (cases r; cases x) (auto simp: put_up_def covered_def)
qed (simp add: put_up_def covered_def)

lemma put_down_covered: "covered (put_down q ys) = cover q \<union> covered ys"
proof (cases ys)
  case (Cons r R')
  then show ?thesis using cover_join [of "fst q" "snd q" "fst r" "snd r"]
    by (cases r; cases q) (auto simp: put_down_def covered_def)
qed (simp add: put_down_def covered_def)

lemma put_up_spaced:
  assumes "spaced R" and "R = [] \<or> fst x < fst (hd R) \<and> fst x + 16 * snd x \<le> fst (hd R)"
  shows "spaced (put_up x R)"
proof (cases R)
  case (Cons r R')
  then show ?thesis using assms by (cases r; cases x; cases R') (auto simp: put_up_def)
qed (simp add: put_up_def)

lemma put_down_spaced:
  assumes "spaced ys" and "ys \<noteq> []" and "fst q < fst (hd ys)" and "fst q + 16 * snd q \<le> fst (hd ys)"
  shows "spaced (put_down q ys)"
proof (cases ys)
  case (Cons r R')
  then show ?thesis using assms by (cases r; cases q; cases R') (auto simp: put_down_def)
qed (use assms in simp)

lemma spaced_replace:
  assumes "spaced (A @ (q, qn) # R)" and "spaced ((q, qm) # ys)"
  shows "spaced (A @ (q, qm) # ys)"
  using assms
proof (induction A)
  case (Cons x A)
  then have "spaced (A @ (q, qm) # ys)" using spaced_tl by fastforce
  then show ?case using Cons.prems by (cases x; cases A) auto
qed simp

lemma put_down_hd: "\<exists>qm ys'. put_down (q, qn) ys = (q, qm) # ys'"
  by (cases ys) (auto simp: put_down_def)

abbreviation first_addr :: "block list \<Rightarrow> nat \<Rightarrow> nat" where
  "first_addr bs y \<equiv> (case bs of [] \<Rightarrow> y | (b, _) # _ \<Rightarrow> b)"

lemma link_up:
  assumes "linked s R y" and "units s a = n" and "a \<notin> fst ` set R" and "a + 16 * n \<noteq> y" and "\<And>b m. (b, m) \<in> set R \<Longrightarrow> n + m < 2 ^ 32"
  defines "s' \<equiv> (if a + 16 * units s a = first_addr R y
     then set_nxt a (nxt s (first_addr R y)) (set_units a (units s a + units s (first_addr R y)) s)
     else set_nxt a (first_addr R y) s)"
  shows "linked s' (put_up (a, n) R) y" and "\<And>b. b \<noteq> a \<Longrightarrow> nxt s' b = nxt s b \<and> units s' b = units s b" and "brk s' = brk s"
proof -
  show o: "\<And>b. b \<noteq> a \<Longrightarrow> nxt s' b = nxt s b \<and> units s' b = units s b" and "brk s' = brk s"
    by (simp_all add: s'_def)
  have l: "linked s' bs y = linked s bs y" if "set bs \<subseteq> set R" for bs
    using image_mono [OF that, of fst] assms(3) by (intro linked_cong o) blast
  show "linked s' (put_up (a, n) R) y"
  proof (cases R)
    case Nil
    then show ?thesis using assms(2,4) by (simp add: put_up_def s'_def)
  next
    case (Cons r R')
    obtain b m where r: "r = (b, m)" by (cases r)
    have "n + m < 2 ^ 32" "b \<noteq> a" "nxt s b = first_addr R' y" "units s b = m" using assms(1,3) assms(5) [of b m] Cons r by auto
    then show ?thesis using l [of R'] l [of R] assms(1,2) Cons r by (auto simp: put_up_def s'_def)
  qed
qed

lemma link_down:
  assumes "linked s ((a, n) # ys) y" and "units s q = qn" and "q \<notin> fst ` set ((a, n) # ys)" and "qn + n < 2 ^ 32"
  defines "s' \<equiv> (if q + 16 * units s q = a then set_nxt q (nxt s a) (set_units q (units s q + units s a) s) else set_nxt q a s)"
  shows "linked s' (put_down (q, qn) ((a, n) # ys)) y" and "\<And>b. b \<noteq> q \<Longrightarrow> nxt s' b = nxt s b \<and> units s' b = units s b" and "brk s' = brk s"
proof -
  show o: "\<And>b. b \<noteq> q \<Longrightarrow> nxt s' b = nxt s b \<and> units s' b = units s b" and "brk s' = brk s"
    by (simp_all add: s'_def)
  have l: "linked s' bs y = linked s bs y" if "set bs \<subseteq> set ((a, n) # ys)" for bs
    using image_mono [OF that, of fst] assms(3) by (intro linked_cong o) blast
  have h: "linked s ys y" "nxt s a = first_addr ys y" "units s a = n" "linked s' ys y" "linked s' ((a, n) # ys) y"
    using l [of ys] l [of "(a, n) # ys"] assms(1) by auto
  show "linked s' (put_down (q, qn) ((a, n) # ys)) y"
  proof (cases "q + 16 * qn = a")
    case True
    then have "nxt s' q = nxt s a" "units s' q = qn + n" using assms(2,4) h(3) by (simp_all add: s'_def)
    then show ?thesis using True h by (simp add: put_down_def)
  next
    case False
    then have "nxt s' q = a" "units s' q = qn" using assms(2) by (simp_all add: s'_def)
    then show ?thesis using False h by (simp add: put_down_def)
  qed
qed

lemma put_up_addrs: "fst ` set (put_up (a, n) R) \<subseteq> insert a (fst ` set R)"
  by (cases R) (auto simp: put_up_def)

lemma fits_32: "lies_in lo hi x \<Longrightarrow> hi < 2 ^ 32 \<Longrightarrow> snd x < 2 ^ 28"
  by (simp add: lies_in_def)

lemma put_up_pos: "0 < n \<Longrightarrow> \<forall>r \<in> set R. 0 < snd r \<Longrightarrow> f \<in> set (put_up (a, n) R) \<Longrightarrow> 0 < snd f"
  by (cases R) (auto simp: put_up_def split: if_splits)

lemma put_down_pos: "\<forall>y \<in> set ys. 0 < snd y \<Longrightarrow> f \<in> set (put_down q ys) \<Longrightarrow> f = q \<or> 0 < snd f"
  by (cases ys) (auto simp: put_down_def split: if_splits)

lemma put_up_has: "\<exists>f \<in> set (put_up (a, n) R). cover (a, n) \<subseteq> cover f"
proof -
  obtain m R' where "put_up (a, n) R = (a, n + m) # R'" using put_up_hd by blast
  moreover have "cover (a, n) \<subseteq> cover (a, n + m)" unfolding cover_def ivl_subset by simp
  ultimately show ?thesis by auto
qed

lemma put_down_has:
  assumes "x \<in> set ys"
  shows "\<exists>f \<in> set (put_down q ys). cover x \<subseteq> cover f"
proof (cases ys)
  case (Cons y R)
  have "cover y \<subseteq> cover (fst q, snd q + snd y)" if "fst q + 16 * snd q = fst y"
    using cover_join [OF that, of "snd y"] by simp
  then show ?thesis using assms Cons by (auto simp: put_down_def)
qed (use assms in simp)

lemma put_down_base: "base + 16 \<le> a \<Longrightarrow> put_down (base, 0) ((a, n) # ys) = (base, 0) # (a, n) # ys"
  by (simp add: put_down_def)

lemma lies_in_cover: "0 < snd f \<Longrightarrow> lies_in lo hi f \<longleftrightarrow> cover f \<subseteq> {lo..<hi}"
  unfolding lies_in_def cover_def ivl_subset by auto

lemma covered_append: "covered (xs @ ys) = covered xs \<union> covered ys"
  by (auto simp: covered_def)

lemma covered_Cons: "covered (x # xs) = cover x \<union> covered xs"
  by (auto simp: covered_def)

lemma cover_base [simp]: "cover (base, 0) = {}"
  by (simp add: cover_def)

lemma covered_memD: "f \<in> set fs \<Longrightarrow> cover f \<subseteq> covered fs"
  by (auto simp: covered_def)

text \<open>The list that results: the place of the block, and its parts.\<close>

lemma list_after_free:
  assumes ar: "arena base s fs (insert (a, n) us)" and xs: "(base, 0) # fs = A @ (q, qn) # R"
    and q: "q < a" "R = [] \<or> a < fst (hd R)"
  obtains fs' where "A @ put_down (q, qn) (put_up (a, n) R) = (base, 0) # fs'" and "spaced ((base, 0) # fs')"
    and "covered fs' = covered fs \<union> cover (a, n)" and "\<And>f. f \<in> set fs' \<Longrightarrow> 0 < snd f"
    and "\<exists>f \<in> set fs'. cover (a, n) \<subseteq> cover f"
proof -
  note D = arenaD [OF ar]
  have la: "lies_in (base + 16) (brk s) (a, n)" using D(5) by simp
  then have n: "0 < n" "base + 16 \<le> a" by (simp_all add: lies_in_def)
  have Rfs: "set R \<subseteq> set fs" and qfs: "A = [] \<and> q = base \<and> qn = 0 \<or> A \<noteq> [] \<and> (q, qn) \<in> set fs"
    using xs by (cases A; auto)+
  have pos: "\<And>f. f \<in> set fs \<Longrightarrow> 0 < snd f" using D(4) by (simp add: lies_in_def)
  have dis: "cover f \<inter> cover (a, n) = {}" if "f \<in> set fs" for f using D(7) [OF that] by simp
  let ?up = "put_up (a, n) R" and ?ys = "put_down (q, qn) (put_up (a, n) R)"
  obtain m R' where up: "?up = (a, n + m) # R'" using put_up_hd by blast
  obtain qm ys' where down: "?ys = (q, qm) # ys'" using put_down_hd by blast
  have sxs: "spaced (A @ (q, qn) # R)" using D(2) xs by simp
  have upper: "spaced ?up"
  proof (rule put_up_spaced)
    show "spaced R" using spaced_append [OF sxs] spaced_tl by blast
    have "a + 16 * n \<le> fst (hd R)" if "R \<noteq> []"
    proof -
      have h: "hd R \<in> set fs" using that Rfs by auto
      then show ?thesis using cover_below [of a n "fst (hd R)" "snd (hd R)"] dis [OF h] pos [OF h] q(2) that by (auto simp: Int_commute)
    qed
    then show "R = [] \<or> fst (a, n) < fst (hd R) \<and> fst (a, n) + 16 * snd (a, n) \<le> fst (hd R)" using q(2) by auto
  qed
  have "q + 16 * qn \<le> a" using qfs q(1) cover_below [of q qn a n] dis [of "(q, qn)"] n(1) by auto
  then have "spaced ?ys" using put_down_spaced [OF upper, of "(q, qn)"] q(1) up by simp
  then have sp: "spaced (A @ ?ys)" using spaced_replace [OF sxs] unfolding down by blast
  have cov: "covered (A @ ?ys) = covered fs \<union> cover (a, n)"
  proof -
    have "covered fs = covered (A @ (q, qn) # R)" unfolding xs [symmetric] by (simp add: covered_Cons)
    then show ?thesis by (auto simp: covered_append put_down_covered put_up_covered covered_Cons)
  qed
  have has: "\<exists>f \<in> set (A @ ?ys). cover (a, n) \<subseteq> cover f"
  proof -
    obtain f where f: "f \<in> set ?up" "cover (a, n) \<subseteq> cover f" using put_up_has by blast
    obtain g where g: "g \<in> set ?ys" "cover f \<subseteq> cover g" using put_down_has [OF f(1)] by blast
    have "cover (a, n) \<subseteq> cover g" using f(2) g(2) by blast
    then show ?thesis using g(1) by auto
  qed
  have upos: "\<forall>y \<in> set ?up. 0 < snd y" using put_up_pos [OF n(1)] pos Rfs by blast
  have hd: "A @ ?ys = (base, 0) # tl (A @ ?ys) \<and> (\<forall>f \<in> set (tl (A @ ?ys)). 0 < snd f)"
  proof (cases A)
    case Nil
    then have "?ys = (base, 0) # ?up" using qfs n up put_down_base by auto
    then show ?thesis using Nil upos by simp
  next
    case (Cons x A')
    then have "x = (base, 0)" "set A' \<subseteq> set fs" "(q, qn) \<in> set fs" using xs qfs by auto
    moreover have "0 < snd f" if "f \<in> set ?ys" for f using put_down_pos [OF upos that] pos [OF calculation(3)] by auto
    ultimately show ?thesis using Cons pos by (auto dest: subsetD)
  qed
  show thesis
  proof (rule that [of "tl (A @ ?ys)"])
    show e: "A @ ?ys = (base, 0) # tl (A @ ?ys)" using hd by blast
    show "spaced ((base, 0) # tl (A @ ?ys))" using sp e by simp
    have c: "covered (A @ ?ys) = covered (tl (A @ ?ys))" by (subst e) (simp add: covered_Cons)
    then show "covered (tl (A @ ?ys)) = covered fs \<union> cover (a, n)" using cov by simp
    show "0 < snd f" if "f \<in> set (tl (A @ ?ys))" for f using hd that by blast
    obtain f where "f \<in> set (A @ ?ys)" "cover (a, n) \<subseteq> cover f" using has by blast
    moreover have "f \<noteq> (base, 0)" using calculation cover_start [of "(a, n)"] n(1) by auto
    ultimately show "\<exists>f \<in> set (tl (A @ ?ys)). cover (a, n) \<subseteq> cover f" using e by (metis set_ConsD)
  qed
qed

lemma free_links:
  assumes lxs: "linked s (A @ (q, qn) # R) base" and sxs: "spaced (A @ (q, qn) # R)" and q: "q < a" and un: "units s a = n"
    and find: "free_find (hdr s) a (freep s) = Some q" and Ra: "a \<notin> fst ` set R" "a + 16 * n \<noteq> base"
    and small: "n < 2 ^ 28" "qn < 2 ^ 28" "\<And>r. r \<in> set R \<Longrightarrow> snd r < 2 ^ 28"
  obtains t where "ufree (a + 16) s = Some t" and "linked t (A @ put_down (q, qn) (put_up (a, n) R)) base" and "freep t = q"
    and "brk t = brk s" and "\<forall>b. b \<noteq> a \<longrightarrow> b \<noteq> q \<longrightarrow> units t b = units s b"
proof -
  have lA: "linked s A q" and nq: "nxt s q = first_addr R base" and uq: "units s q = qn" and lR: "linked s R base"
    using lxs by (simp_all add: linked_append)
  define s1 where "s1 = (if a + 16 * units s a = first_addr R base
     then set_nxt a (nxt s (first_addr R base)) (set_units a (units s a + units s (first_addr R base)) s)
     else set_nxt a (first_addr R base) s)"
  have Rn: "n + m < 2 ^ 32" if "(b, m) \<in> set R" for b m using small(3) [OF that] small(1) by simp
  note L1 = link_up [OF lR un Ra Rn, folded s1_def]
  obtain m R' where up: "put_up (a, n) R = (a, n + m) # R'" and m: "m = 0 \<or> (\<exists>b. (b, m) \<in> set R)" using put_up_hd by blast
  have qa: "q \<notin> fst ` set (put_up (a, n) R)"
    using put_up_addrs [of a n R] spaced_append [OF sxs] spaced_Cons [of q qn R] q by fastforce
  have qnm: "qn + (n + m) < 2 ^ 32" using m small by fastforce
  have us1: "units s1 q = qn" using L1(2) q uq by auto
  define s2 where "s2 = (if q + 16 * units s1 q = a then set_nxt q (nxt s1 a) (set_units q (units s1 q + units s1 a) s1) else set_nxt q a s1)"
  note L2 = link_down [OF L1(1) [unfolded up] us1 qa [unfolded up] qnm, folded s2_def up]
  let ?t = "s2\<lparr>freep := q\<rparr>"
  have fr: "ufree (a + 16) s = Some ?t"
    unfolding ufree_def Let_def diff_add_inverse2 find option.case nq s1_def [symmetric] s2_def [symmetric] ..
  have same: "nxt ?t b = nxt s b \<and> units ?t b = units s b" if "b \<noteq> a" "b \<noteq> q" for b using L1(2) L2(2) that by simp
  have "linked ?t A q" using lA spaced_append [OF sxs] q same by (subst linked_cong [of A ?t s]) force+
  moreover have "linked ?t (put_down (q, qn) (put_up (a, n) R)) base" using L2(1) by (subst linked_cong [of _ ?t s2]) simp_all
  moreover obtain qm ys where "put_down (q, qn) (put_up (a, n) R) = (q, qm) # ys" using put_down_hd by blast
  ultimately have lt: "linked ?t (A @ put_down (q, qn) (put_up (a, n) R)) base" by (simp add: linked_append)
  show thesis by (rule that [OF fr lt]) (use L1(3) L2(3) same in simp_all)
qed

lemma lies_covered:
  assumes "arena base s fs us"
  shows "covered fs \<subseteq> {base + 16..<brk s}"
proof -
  have "cover f \<subseteq> {base + 16..<brk s}" if "f \<in> set fs" for f
    using arenaD(4) [OF assms that] by (auto simp: lies_in_def cover_def)
  then show ?thesis unfolding covered_def by blast
qed

text \<open>A block in use becomes free memory.\<close>

lemma arena_given:
  assumes ar: "arena base s fs (insert (a, n) us)" and new: "(a, n) \<notin> us" and l: "linked t ((base, 0) # fs') base"
    and sp: "spaced ((base, 0) # fs')" and f: "freep t \<in> fst ` set ((base, 0) # fs')" and b: "brk t = brk s"
    and pos: "\<And>f. f \<in> set fs' \<Longrightarrow> 0 < snd f" and c: "covered fs' = covered fs \<union> cover (a, n)"
    and u: "\<And>u. u \<in> us \<Longrightarrow> units t (fst u) = units s (fst u)"
  shows "arena base t fs' us"
proof -
  note D = arenaD [OF ar]
  have "cover (a, n) \<subseteq> {base + 16..<brk s}" using D(5) [of "(a, n)"] lies_in_cover by (auto simp: lies_in_def cover_def)
  then have "covered fs' \<subseteq> {base + 16..<brk s}" unfolding c using lies_covered [OF ar] by blast
  then have lies: "lies_in (base + 16) (brk s) g" if "g \<in> set fs'" for g
    using pos [OF that] lies_in_cover covered_memD [OF that] by blast
  have "cover g \<inter> cover u = {}" if "g \<in> set fs'" "u \<in> us" for g u
  proof -
    have "covered fs \<inter> cover u = {}" using D(7) [OF _ insertI2 [OF that(2)]] unfolding covered_def by blast
    moreover have "cover (a, n) \<inter> cover u = {}" using D(8) [of "(a, n)" u] that(2) new by auto
    ultimately show ?thesis using covered_memD [OF that(1)] unfolding c by blast
  qed
  then show ?thesis unfolding arena_def b using l sp f lies D(5,6,8-11) u by (simp del: linked.simps spaced.simps)
qed

lemma free_ok:
  assumes ar: "arena base s fs (insert (a, n) us)" and new: "(a, n) \<notin> us"
  obtains t fs' where "ufree (a + 16) s = Some t" and "arena base t fs' us" and "brk t = brk s"
    and "covered fs' = covered fs \<union> cover (a, n)" and "\<exists>f \<in> set fs'. cover (a, n) \<subseteq> cover f"
proof -
  note D = arenaD [OF ar]
  have la: "lies_in (base + 16) (brk s) (a, n)" and un: "units s a = n" using D(5,6) by force+
  then have n: "0 < n" "base + 16 \<le> a" by (simp_all add: lies_in_def)
  have pos: "0 < snd f" and dis: "cover f \<inter> cover (a, n) = {}" if "f \<in> set fs" for f
    using D(4) [OF that] D(7) [OF that] by (simp_all add: lies_in_def)
  have nin: "a \<notin> fst ` set fs" using cover_apart dis pos n(1) by fastforce
  obtain A q qn R where xs: "(base, 0) # fs = A @ (q, qn) # R" and q: "q < a" "R = [] \<or> a < fst (hd R)"
    by (rule split_at [OF D(2) _ nin]) (use n(2) in simp)
  obtain fs' where fs': "A @ put_down (q, qn) (put_up (a, n) R) = (base, 0) # fs'" "spaced ((base, 0) # fs')"
    "covered fs' = covered fs \<union> cover (a, n)" "\<And>f. f \<in> set fs' \<Longrightarrow> 0 < snd f" "\<exists>f \<in> set fs'. cover (a, n) \<subseteq> cover f"
    by (rule list_after_free [OF ar xs q]) blast
  have lxs: "linked s (A @ (q, qn) # R) base" and sxs: "spaced (A @ (q, qn) # R)" using D(1,2) xs by simp_all
  have hd: "fst (hd (A @ [(q, qn)])) = base" and Rfs: "set R \<subseteq> set fs" and qfs: "(q, qn) = (base, 0) \<or> (q, qn) \<in> set fs"
    using xs by (cases A; auto)+
  have find: "free_find (hdr s) a (freep s) = Some q" by (rule find_pred [OF lxs sxs hd q]) (use D(3) xs in simp)
  have small: "snd f < 2 ^ 28" if "f \<in> set fs" for f using D(4) [OF that] D(11) by (rule fits_32)
  have Ra: "a \<notin> fst ` set R" "a + 16 * n \<noteq> base" using nin Rfs n(2) by auto
  have sm: "n < 2 ^ 28" "qn < 2 ^ 28" "\<And>r. r \<in> set R \<Longrightarrow> snd r < 2 ^ 28"
    using fits_32 [OF la D(11)] qfs small [of "(q, qn)"] small Rfs by auto
  obtain t where t: "ufree (a + 16) s = Some t" "linked t (A @ put_down (q, qn) (put_up (a, n) R)) base" "freep t = q" "brk t = brk s"
    "\<forall>b. b \<noteq> a \<longrightarrow> b \<noteq> q \<longrightarrow> units t b = units s b"
    by (rule free_links [OF lxs sxs q(1) un find Ra sm])
  note lt = t(2) [unfolded fs'(1)]
  have qin: "freep t \<in> fst ` set ((base, 0) # fs')"
    unfolding t(3) fs'(1) [symmetric] using put_down_hd [of q qn "put_up (a, n) R"] by force
  have same: "units t (fst u) = units s (fst u)" if u: "u \<in> us" for u
  proof (rule t(5) [rule_format])
    have up: "0 < snd u" "base < fst u" using D(5) [of u] u by (simp_all add: lies_in_def)
    have "cover u \<inter> cover (a, n) = {}" using D(8) [of u "(a, n)"] u new by auto
    from cover_apart [OF this] show "fst u \<noteq> a" using up n(1) by simp
    show "fst u \<noteq> q" using qfs up cover_apart [OF D(7) [of "(q, qn)" u]] u pos [of "(q, qn)"] by auto
  qed
  show thesis by (rule that [OF t(1) arena_given [OF ar new lt fs'(2) qin t(4) fs'(4,3) same] t(4) fs'(3,5)])
qed

section \<open>Taking a block\<close>

text \<open>A part of the free memory becomes a block in use.\<close>

lemma arena_taken:
  assumes ar: "arena base s fs us" and l: "linked t ((base, 0) # fs') base" and sp: "spaced ((base, 0) # fs')"
    and f: "freep t \<in> fst ` set ((base, 0) # fs')" and b: "brk t = brk s" and pos: "\<And>f. f \<in> set fs' \<Longrightarrow> 0 < snd f" and n: "0 < n"
    and c: "covered fs' \<union> cover (a, n) \<subseteq> covered fs" and d: "covered fs' \<inter> cover (a, n) = {}" and ua: "units t a = n"
    and u: "\<And>u. u \<in> us \<Longrightarrow> units t (fst u) = units s (fst u)"
  shows "arena base t fs' (insert (a, n) us) \<and> (a, n) \<notin> us"
proof -
  note D = arenaD [OF ar]
  have us: "covered fs \<inter> cover u = {}" if "u \<in> us" for u using D(7) that unfolding covered_def by blast
  have an: "cover (a, n) \<inter> cover u = {}" if "u \<in> us" for u using us [OF that] c by blast
  have an': "cover u \<inter> cover (a, n) = {}" if "u \<in> us" for u using an [OF that] by (simp add: Int_commute)
  have f': "cover g \<inter> cover u = {}" if "g \<in> set fs'" "u \<in> us" for g u using us [OF that(2)] c covered_memD [OF that(1)] by blast
  have fa: "cover g \<inter> cover (a, n) = {}" if "g \<in> set fs'" for g using d covered_memD [OF that] by blast
  have lies: "lies_in (base + 16) (brk s) g" if "cover g \<subseteq> covered fs" "0 < snd g" for g
    using that lies_covered [OF ar] lies_in_cover by blast
  have lf: "lies_in (base + 16) (brk s) g" if "g \<in> set fs'" for g
    using lies [of g] covered_memD [OF that] c pos [OF that] by blast
  have la: "lies_in (base + 16) (brk s) (a, n)" using lies [of "(a, n)"] c n by simp
  have "(a, n) \<notin> us" using an [of "(a, n)"] cover_start [of "(a, n)"] n by auto
  moreover have "arena base t fs' (insert (a, n) us)"
    unfolding arena_def b using l sp f lf la D(5,6,8-11) u ua f' fa an an' by (simp del: linked.simps spaced.simps)
  ultimately show ?thesis by simp
qed

lemma spaced_covered:
  assumes "spaced (A @ x # B)"
  shows "covered A \<inter> cover x = {}" and "covered B \<inter> cover x = {}"
proof -
  have "spaced (x # B)" and "\<forall>a \<in> set A. fst a + 16 * snd a < fst x" using spaced_append [OF assms] by auto
  then show "covered A \<inter> cover x = {}" and "covered B \<inter> cover x = {}"
    using spaced_Cons [of "fst x" "snd x" B] by (force simp: covered_def cover_def)+
qed

lemma take_exact:
  assumes ar: "arena base s fs us" and xs: "(base, 0) # fs = A @ (pp, pn) # (p, n) # B" and n: "0 < n"
  shows "\<exists>t fs'. take_block n pp p s = (p + 16, t) \<and> arena base t fs' (insert (p, n) us) \<and> (p, n) \<notin> us \<and> brk t = brk s"
proof -
  note D = arenaD [OF ar]
  let ?t = "(set_nxt pp (nxt s p) s)\<lparr>freep := pp\<rparr>" and ?ys = "A @ (pp, pn) # B"
  have lxs: "linked s (A @ (pp, pn) # (p, n) # B) base" and sxs: "spaced (A @ (pp, pn) # (p, n) # B)" using D(1,2) xs by simp_all
  have s2: "spaced ((pp, pn) # (p, n) # B)" and before: "\<forall>a \<in> set A. fst a < pp" using spaced_append [OF sxs] by auto
  have after: "pp + 16 * pn < fst b \<and> pp < fst b" if "b \<in> set B" for b
    using spaced_Cons [OF s2, of "fst b" "snd b"] that by auto
  obtain fs' where fs': "?ys = (base, 0) # fs'" and sub: "set fs' \<subseteq> set fs" using xs by (cases A) auto
  have "linked ?t A pp" "linked ?t B base"
    using lxs before after by (subst linked_cong [of _ ?t s]; force simp: linked_append)+
  then have "linked ?t ?ys base" using lxs by (simp add: linked_append)
  moreover have "spaced ?ys"
    by (rule spaced_replace [OF sxs]) (use s2 after in \<open>cases B; auto\<close>)
  moreover have "covered fs = covered (A @ (pp, pn) # (p, n) # B)" unfolding xs [symmetric] by (simp add: covered_Cons)
  then have "covered fs = covered ?ys \<union> cover (p, n)" by (auto simp: covered_append covered_Cons)
  moreover have "covered fs' = covered ?ys" unfolding fs' by (simp add: covered_Cons)
  moreover have "covered ?ys \<inter> cover (p, n) = {}"
    using spaced_covered [of "A @ [(pp, pn)]" "(p, n)" B] sxs by (auto simp: covered_append covered_Cons covered_def)
  moreover have "units s p = n" "take_block n pp p s = (p + 16, ?t)" using lxs by (simp_all add: linked_append take_block_def)
  moreover have "0 < snd f" if "f \<in> set fs'" for f using D(4) [of f] sub that by (auto simp: lies_in_def)
  moreover have "freep ?t \<in> fst ` set ?ys" by simp
  ultimately have "arena base ?t fs' (insert (p, n) us) \<and> (p, n) \<notin> us"
    using n by (intro arena_taken [OF ar]) (simp_all add: fs')
  then show ?thesis using \<open>take_block n pp p s = _\<close> by auto
qed

lemma take_part:
  assumes ar: "arena base s fs us" and xs: "(base, 0) # fs = A @ (pp, pn) # (p, m) # B" and n: "0 < n" "n < m"
  defines "a \<equiv> p + 16 * (m - n)"
  shows "\<exists>t fs'. take_block n pp p s = (a + 16, t) \<and> arena base t fs' (insert (a, n) us) \<and> (a, n) \<notin> us \<and> brk t = brk s"
proof -
  note D = arenaD [OF ar]
  let ?t = "(set_units a n (set_units p (m - n) s))\<lparr>freep := pp\<rparr>" and ?C = "A @ [(pp, pn)]"
  let ?ys = "?C @ (p, m - n) # B"
  have lxs: "linked s (?C @ (p, m) # B) base" and sxs: "spaced (?C @ (p, m) # B)" using D(1,2) xs by simp_all
  have pin: "(p, m) \<in> set fs" using xs by (cases A) auto
  have small: "m < 2 ^ 28" using fits_32 [OF D(4) [OF pin] D(11)] by simp
  have am: "a + 16 * n = p + 16 * m" "p < a" using n by (simp_all add: a_def)
  have s2: "spaced ((p, m) # B)" and before: "\<forall>c \<in> set ?C. fst c < p" using spaced_append [OF sxs] by auto
  have after: "p + 16 * m < fst b \<and> p < fst b" if "b \<in> set B" for b
    using spaced_Cons [OF s2, of "fst b" "snd b"] that by auto
  obtain fs' where fs': "?ys = (base, 0) # fs'" and sub: "set fs' \<subseteq> insert (p, m - n) (set fs)" using xs by (cases A) auto
  have "linked ?t ?C p" "linked ?t B base"
    using lxs before after am by (subst linked_cong [of _ ?t s]; force simp: linked_append)+
  then have "linked ?t ?ys base" using lxs small am by (simp add: linked_append)
  moreover have "spaced ?ys"
    by (rule spaced_replace [OF sxs]) (use s2 after n in \<open>cases B; auto\<close>)
  moreover have cm: "cover (p, m) = cover (p, m - n) \<union> cover (a, n)"
    using cover_join [of p "m - n" a n] n by (simp add: a_def)
  moreover have "covered fs = covered (A @ (pp, pn) # (p, m) # B)" unfolding xs [symmetric] by (simp add: covered_Cons)
  then have "covered fs = covered ?ys \<union> cover (a, n)" by (auto simp: covered_append covered_Cons cm)
  moreover have "covered fs' = covered ?ys" unfolding fs' by (simp add: covered_Cons)
  moreover have "covered ?ys \<inter> cover (a, n) = {}"
    using spaced_covered [OF sxs] cm by (auto simp: covered_append covered_Cons) (auto simp: cover_def a_def)
  moreover have "take_block n pp p s = (a + 16, ?t)"
    using lxs n small by (simp add: linked_append take_block_def Let_def a_def)
  moreover have "0 < snd f" if "f \<in> set fs'" for f using D(4) [of f] sub that n(2) by (auto simp: lies_in_def)
  moreover have "freep ?t \<in> fst ` set ?ys" by simp
  moreover have "units ?t (fst u) = units s (fst u)" if "u \<in> us" for u
  proof -
    have "fst u \<in> cover u" using D(5) [OF that] cover_start by (simp add: lies_in_def)
    then have "fst u \<notin> cover (p, m)" using D(7) [OF pin that] by blast
    moreover have "p \<in> cover (p, m)" "a \<in> cover (p, m)" using n am by (simp_all add: cover_def)
    ultimately have "fst u \<noteq> p" "fst u \<noteq> a" by auto
    then show ?thesis by simp
  qed
  ultimately have "arena base ?t fs' (insert (a, n) us) \<and> (a, n) \<notin> us"
    using n small by (intro arena_taken [OF ar]) (simp_all add: fs' [simplified] del: linked.simps spaced.simps)
  then show ?thesis using \<open>take_block n pp p s = _\<close> by auto
qed

section \<open>The search\<close>

text \<open>One round of the loop, entered behind the block \<open>x\<close>.\<close>

abbreviation search :: "(um_st \<Rightarrow> int \<Rightarrow> bool) \<Rightarrow> nat \<Rightarrow> um_st \<Rightarrow> nat \<Rightarrow> (nat \<times> um_st) option" where
  "search grants n s x \<equiv> malloc_loop grants n x (nxt s x) s"

lemma search_skip:
  "units s (nxt s x) < n \<Longrightarrow> nxt s x \<noteq> freep s \<Longrightarrow> search grants n s x = search grants n s (nxt s x)"
  by (subst malloc_loop.simps) simp

lemma search_hit: "n \<le> units s (nxt s x) \<Longrightarrow> search grants n s x = Some (take_block n x (nxt s x) s)"
  by (subst malloc_loop.simps) simp

lemma search_grow:
  "units s (nxt s x) < n \<Longrightarrow> nxt s x = freep s \<Longrightarrow> search grants n s x =
    Option.bind (morecore grants n s) (\<lambda>r. if fst r = 0 then Some r else search grants n (snd r) (fst r))"
  by (subst malloc_loop.simps) simp

lemma search_along:
  assumes "linked s ((x, xn) # Y) y" and "\<forall>b \<in> set Y. snd b < n \<and> fst b \<noteq> freep s"
  shows "search grants n s x = search grants n s (fst (last ((x, xn) # Y))) \<and> nxt s (fst (last ((x, xn) # Y))) = y"
  using assms
proof (induction Y arbitrary: x xn)
  case (Cons b Y)
  obtain c m where b: "b = (c, m)" by (cases b)
  have c: "nxt s x = c" "units s c = m" "m < n" "c \<noteq> freep s" using Cons.prems b by auto
  then have "search grants n s x = search grants n s c" using search_skip [of s x n grants] by simp
  then show ?case using Cons.IH [of c m] Cons.prems b by simp
qed simp

text \<open>The list from \<open>freep\<close> round to its predecessor.\<close>

lemma turned:
  assumes ar: "arena base s fs us"
  obtains fn Z where "linked s ((freep s, fn) # Z) (freep s)" and "set ((freep s, fn) # Z) = set ((base, 0) # fs)"
    and "\<forall>b \<in> set Z. fst b \<noteq> freep s"
proof -
  note D = arenaD [OF ar]
  obtain fn where "(freep s, fn) \<in> set ((base, 0) # fs)" using D(3) by (auto simp del: set_simps)
  then obtain C E where xs: "(base, 0) # fs = C @ (freep s, fn) # E" by (meson split_list)
  have l: "linked s (C @ (freep s, fn) # E) base" using D(1) unfolding xs .
  have d: "distinct (map fst (C @ (freep s, fn) # E))" using spaced_distinct [OF D(2)] unfolding xs .
  have "first_addr (E @ C) (freep s) = first_addr E base"
    using xs by (cases E; cases C) auto
  moreover have "linked s C (freep s)" "linked s E base" "units s (freep s) = fn" "nxt s (freep s) = first_addr E base"
    using l by (simp_all add: linked_append)
  moreover have "linked s (E @ C) (freep s)"
    using calculation xs by (cases C) (auto simp: linked_append)
  ultimately have "linked s ((freep s, fn) # E @ C) (freep s)" by simp
  moreover have "\<forall>b \<in> set (E @ C). fst b \<noteq> freep s" using d by force
  moreover have "set ((freep s, fn) # E @ C) = set ((base, 0) # fs)" unfolding xs by auto
  ultimately show thesis by (intro that)
qed

lemma search_finds:
  assumes ar: "arena base s fs us" and f: "\<exists>f \<in> set fs. n \<le> snd f" and n: "0 < n"
  shows "\<exists>A pp pn p m B. (base, 0) # fs = A @ (pp, pn) # (p, m) # B \<and> n \<le> m \<and>
    search grants n s (freep s) = Some (take_block n pp p s)"
proof -
  note D = arenaD [OF ar]
  obtain fn Z where l: "linked s ((freep s, fn) # Z) (freep s)" and st: "set ((freep s, fn) # Z) = set ((base, 0) # fs)"
    and z: "\<forall>b \<in> set Z. fst b \<noteq> freep s" by (rule turned [OF ar])
  have "\<exists>x xn. (x, xn) \<in> set ((base, 0) # fs) \<and> search grants n s (freep s) = search grants n s x \<and> n \<le> units s (nxt s x)"
  proof (cases "\<exists>b \<in> set Z. n \<le> snd b")
    case True
    then obtain Y b Y' where Z: "Z = Y @ b # Y'" and b: "n \<le> snd b" and Y: "\<forall>y \<in> set Y. \<not> n \<le> snd y"
      using split_list_first_prop [of Z "\<lambda>b. n \<le> snd b"] by blast
    have "linked s ((freep s, fn) # Y) (fst b)" "units s (fst b) = snd b"
      using l unfolding Z by (cases b, simp add: linked_append split: list.splits)+
    moreover have "\<forall>y \<in> set Y. snd y < n \<and> fst y \<noteq> freep s" using Y z Z by auto
    ultimately have "search grants n s (freep s) = search grants n s (fst (last ((freep s, fn) # Y)))"
      "nxt s (fst (last ((freep s, fn) # Y))) = fst b" using search_along by blast+
    moreover have "last ((freep s, fn) # Y) \<in> set ((base, 0) # fs)" unfolding st [symmetric] Z by auto
    ultimately show ?thesis using b \<open>units s (fst b) = snd b\<close>
      by (intro exI [of _ "fst (last ((freep s, fn) # Y))"] exI [of _ "snd (last ((freep s, fn) # Y))"]) simp
  next
    case False
    then have "\<forall>b \<in> set Z. snd b < n \<and> fst b \<noteq> freep s" using z by auto
    note along = search_along [OF l this, of grants]
    obtain g where g: "g \<in> set fs" "n \<le> snd g" using f by blast
    then have "g \<in> set ((freep s, fn) # Z)" unfolding st by simp
    then have "g = (freep s, fn)" using False g(2) by auto
    then have "n \<le> units s (freep s)" using l g(2) by simp
    moreover note along
    moreover have "last ((freep s, fn) # Z) \<in> set ((base, 0) # fs)" unfolding st [symmetric] by auto
    ultimately show ?thesis
      by (intro exI [of _ "fst (last ((freep s, fn) # Z))"] exI [of _ "snd (last ((freep s, fn) # Z))"]) simp
  qed
  then obtain x xn where x: "(x, xn) \<in> set ((base, 0) # fs)" "search grants n s (freep s) = search grants n s x" "n \<le> units s (nxt s x)"
    by blast
  then obtain A B' where xs: "(base, 0) # fs = A @ (x, xn) # B'" by (meson split_list)
  have l': "linked s (A @ (x, xn) # B') base" and u0: "units s base = 0" using D(1) unfolding xs [symmetric] by auto
  then have nx: "nxt s x = first_addr B' base" by (simp add: linked_append)
  then have "B' \<noteq> []" using x(3) u0 n by auto
  then obtain p m B where B: "B' = (p, m) # B" by (cases B') auto
  have "units s p = m" "nxt s x = p" using l' B by (simp_all add: linked_append)
  then have "(base, 0) # fs = A @ (x, xn) # (p, m) # B \<and> n \<le> m \<and> search grants n s (freep s) = Some (take_block n x p s)"
    using xs B x search_hit [OF x(3), of grants] by simp
  then show ?thesis by blast
qed

lemma search_none:
  assumes ar: "arena base s fs us" and f: "\<forall>f \<in> set fs. snd f < n" and n: "0 < n"
  shows "search grants n s (freep s) =
    Option.bind (morecore grants n s) (\<lambda>r. if fst r = 0 then Some r else search grants n (snd r) (fst r))"
proof -
  obtain fn Z where l: "linked s ((freep s, fn) # Z) (freep s)" and st: "set ((freep s, fn) # Z) = set ((base, 0) # fs)"
    and z: "\<forall>b \<in> set Z. fst b \<noteq> freep s" by (rule turned [OF ar])
  have small: "\<forall>b \<in> set ((freep s, fn) # Z). snd b < n" unfolding st using f n by simp
  then have "\<forall>b \<in> set Z. snd b < n \<and> fst b \<noteq> freep s" using z by simp
  note along = search_along [OF l this, of grants]
  have "units s (freep s) < n" using l small by simp
  then show ?thesis using along search_grow [of s "fst (last ((freep s, fn) # Z))" n grants] by simp
qed


section \<open>Growing the arena\<close>

lemma arena_freep:
  assumes "arena base s fs us"
  shows "freep s \<noteq> 0"
  using arenaD(3) [OF assms] arenaD(4) [OF assms] arenaD(9) [OF assms] by (force simp: lies_in_def)

abbreviation core_bytes :: "nat \<Rightarrow> int" where
  "core_bytes n \<equiv> int (16 * morecore_units n)"

lemma morecore_refused:
  assumes "\<not> grants s (core_bytes n)" and "core_bytes n < 2 ^ 31"
  shows "morecore grants n s = Some (0, s)"
  using assms to_int32_small [of "core_bytes n"] by (simp add: morecore_def sbrk_u_def Let_def mult.commute)

lemma arena_grow:
  assumes ar: "arena base s fs us" and n: "0 < n" and b: "brk s + 16 * n < 2 ^ 32"
  defines "t \<equiv> set_units (brk s) n (s\<lparr>brk := brk s + 16 * n\<rparr>)"
  shows "arena base t fs (insert (brk s, n) us)" and "(brk s, n) \<notin> us"
proof -
  note D = arenaD [OF ar]
  have n32: "n < 2 ^ 32" using b by simp
  have below: "fst x + 16 * snd x \<le> brk s" "fst x < brk s" if "x \<in> set fs \<or> x \<in> us" for x
    using D(4,5) [of x] that by (auto simp: lies_in_def)
  have apart: "cover x \<inter> cover (brk s, n) = {}" "cover (brk s, n) \<inter> cover x = {}" if "x \<in> set fs \<or> x \<in> us" for x
    using below(1) [OF that] by (auto simp: cover_def)
  show "(brk s, n) \<notin> us" using below(2) [of "(brk s, n)"] by auto
  have "x \<noteq> brk s" if "x \<in> fst ` set ((base, 0) # fs)" for x using that below(2) D(10) by fastforce
  then have "linked t ((base, 0) # fs) base"
    using D(1) by (subst linked_cong [of _ t s]) (simp_all add: t_def)
  moreover have "units t (fst u) = snd u" if "u \<in> us" for u using D(6) [OF that] below(2) [of u] that by (simp add: t_def)
  moreover have "lies_in (base + 16) (brk t) x" if "x \<in> set fs \<or> x \<in> us" for x
    using D(4,5) [of x] that by (auto simp: lies_in_def t_def)
  moreover have "lies_in (base + 16) (brk t) (brk s, n)" "units t (brk s) = n" "brk t < 2 ^ 32" "base + 16 \<le> brk t"
    using n n32 D(10) b by (simp_all add: lies_in_def t_def)
  moreover have "freep t = freep s" by (simp add: t_def)
  ultimately show "arena base t fs (insert (brk s, n) us)"
    unfolding arena_def using D(2,3,7-9) apart by (simp del: linked.simps spaced.simps)
qed

lemma morecore_granted:
  assumes ar: "arena base s fs us" and g: "grants s (core_bytes n)" and c: "core_bytes n < 2 ^ 31" and b: "int (brk s) + core_bytes n < 2 ^ 32"
  shows "\<exists>t fs'. morecore grants n s = Some (freep t, t) \<and> freep t \<noteq> 0 \<and> arena base t fs' us \<and> (\<exists>f \<in> set fs'. n \<le> snd f) \<and> brk s \<le> brk t"
proof -
  let ?m = "morecore_units n"
  have m: "0 < ?m" "n \<le> ?m" by (simp_all add: morecore_units_def)
  let ?s = "set_units (brk s) ?m (s\<lparr>brk := brk s + 16 * ?m\<rparr>)"
  have "brk s + 16 * ?m < 2 ^ 32" using b by simp
  note grown = arena_grow [OF ar m(1) this]
  obtain t fs' where t: "ufree (brk s + 16) ?s = Some t" "arena base t fs' us" "brk t = brk ?s"
    and f: "\<exists>f \<in> set fs'. cover (brk s, ?m) \<subseteq> cover f"
    by (rule free_ok [OF grown])
  obtain f where f: "f \<in> set fs'" "cover (brk s, ?m) \<subseteq> cover f" using f by blast
  then have "?m \<le> snd f" using m(1) unfolding cover_def by (simp add: ivl_subset)
  then have big: "\<exists>f \<in> set fs'. n \<le> snd f" using m(2) f(1) by (meson order_trans)
  have "morecore grants n s = Some (freep t, t)"
    using g c t(1) to_int32_small [of "core_bytes n"] by (simp add: morecore_def sbrk_u_def Let_def mult.commute nat_add_distrib nat_mult_distrib)
  then show ?thesis using t(2,3) big arena_freep [OF t(2)] by (intro exI [of _ t] exI [of _ fs']) simp
qed

lemma search_ok:
  assumes ar: "arena base s fs us" and f: "\<exists>f \<in> set fs. n \<le> snd f" and n: "0 < n"
  shows "\<exists>a t fs'. search grants n s (freep s) = Some (a + 16, t) \<and> arena base t fs' (insert (a, n) us) \<and> (a, n) \<notin> us \<and> brk t = brk s"
proof -
  obtain A pp pn p m B where x: "(base, 0) # fs = A @ (pp, pn) # (p, m) # B" "n \<le> m"
    and s: "search grants n s (freep s) = Some (take_block n pp p s)" using search_finds [OF ar f n] by blast
  show ?thesis
  proof (cases "m = n")
    case True
    then show ?thesis using take_exact [OF ar _ n] x s by fastforce
  next
    case False
    then show ?thesis using take_part [OF ar x(1) n] x(2) s by fastforce
  qed
qed

lemma malloc_arena:
  assumes ar: "arena base s fs us" and n: "0 < n" and c: "core_bytes n < 2 ^ 31" and b: "\<And>s k. grants s k \<Longrightarrow> int (brk s) + k < 2 ^ 32"
  shows "\<exists>r t. search grants n s (freep s) = Some (r, t) \<and>
    (if r = 0 then t = s \<and> \<not> grants s (core_bytes n) \<and> (\<forall>f \<in> set fs. snd f < n)
     else \<exists>a fs'. r = a + 16 \<and> arena base t fs' (insert (a, n) us) \<and> (a, n) \<notin> us \<and> brk s \<le> brk t)"
proof (cases "\<exists>f \<in> set fs. n \<le> snd f")
  case True
  then show ?thesis using search_ok [OF ar True n, of grants] by fastforce
next
  case False
  then have none: "\<forall>f \<in> set fs. snd f < n" by auto
  note s = search_none [OF ar none n, of grants]
  show ?thesis
  proof (cases "grants s (core_bytes n)")
    case g: True
    obtain t fs' where t: "morecore grants n s = Some (freep t, t)" "freep t \<noteq> 0" "arena base t fs' us" "\<exists>f \<in> set fs'. n \<le> snd f" "brk s \<le> brk t"
      using morecore_granted [where grants = grants and s = s and n = n, OF ar g c b [OF g]] by blast
    then have "search grants n s (freep s) = search grants n t (freep t)" using s by simp
    then show ?thesis using search_ok [OF t(3,4) n, of grants] t(5) by fastforce
  next
    case g: False
    then show ?thesis using s none morecore_refused [where grants = grants and s = s and n = n, OF g c] by simp
  qed
qed


section \<open>Histories of calls\<close>

text \<open>
  The states a program reaches from a fresh heap by calls of \<^verbatim>\<open>malloc\<close> and by calls of \<^verbatim>\<open>free\<close> on blocks it holds; the set is the
  blocks it holds, headers included.
\<close>

inductive heap_run :: "(um_st \<Rightarrow> int \<Rightarrow> bool) \<Rightarrow> nat \<Rightarrow> um_st \<Rightarrow> block set \<Rightarrow> bool" for grants base where
  start: "freep s = 0 \<Longrightarrow> 0 < base \<Longrightarrow> base + 16 \<le> brk s \<Longrightarrow> brk s < 2 ^ 32 \<Longrightarrow> heap_run grants base s {}"
| alloc: "heap_run grants base s us \<Longrightarrow> nbytes < 2 ^ 31 - 32 \<Longrightarrow> malloc grants base nbytes s = Some (r, t) \<Longrightarrow>
    heap_run grants base t (if r = 0 then us else insert (r - 16, nunits_of nbytes) us)"
| release: "heap_run grants base s us \<Longrightarrow> u \<in> us \<Longrightarrow> ufree (fst u + 16) s = Some t \<Longrightarrow> heap_run grants base t (us - {u})"

definition heap_ok :: "nat \<Rightarrow> um_st \<Rightarrow> block set \<Rightarrow> bool" where
  "heap_ok base s us \<longleftrightarrow>
     freep s = 0 \<and> us = {} \<and> 0 < base \<and> base + 16 \<le> brk s \<and> brk s < 2 ^ 32 \<or> freep s \<noteq> 0 \<and> (\<exists>fs. arena base s fs us)"

lemma nunits_bounds:
  assumes "nbytes < 2 ^ 31 - 32"
  shows "0 < nunits_of nbytes" and "nbytes + 16 \<le> 16 * nunits_of nbytes" and "core_bytes (nunits_of nbytes) < 2 ^ 31"
proof -
  let ?n = "(nbytes + 15) div 16 + 1"
  have q: "16 * ((nbytes + 15) div 16) \<le> nbytes + 15" "nbytes \<le> 16 * ((nbytes + 15) div 16)" by linarith+
  then have "?n < 2 ^ 32" using assms by simp
  then have n: "nunits_of nbytes = ?n" by (simp add: nunits_of_def)
  show "0 < nunits_of nbytes" "nbytes + 16 \<le> 16 * nunits_of nbytes" unfolding n distrib_left using q by simp_all
  show "core_bytes (nunits_of nbytes) < 2 ^ 31" unfolding n morecore_units_def using assms by (simp add: less_mult_imp_div_less)
qed

lemma arena_fresh:
  assumes "0 < base" and "base + 16 \<le> brk s" and "brk s < 2 ^ 32"
  shows "arena base (set_units base 0 (set_nxt base base (s\<lparr>freep := base\<rparr>))) [] {}"
  using assms by (simp add: arena_def)

lemma malloc_ok:
  assumes h: "heap_ok base s us" and nb: "nbytes < 2 ^ 31 - 32" and b: "\<And>s k. grants s k \<Longrightarrow> int (brk s) + k < 2 ^ 32"
  shows "\<exists>r t. malloc grants base nbytes s = Some (r, t) \<and>
    (if r = 0 then heap_ok base t us \<and> \<not> grants t (core_bytes (nunits_of nbytes))
     else \<exists>a fs. r = a + 16 \<and> arena base t fs (insert (a, nunits_of nbytes) us) \<and> (a, nunits_of nbytes) \<notin> us)"
proof -
  let ?s = "if freep s = 0 then set_units base 0 (set_nxt base base (s\<lparr>freep := base\<rparr>)) else s"
  obtain fs where ar: "arena base ?s fs us" using h arena_fresh [of base s] unfolding heap_ok_def by auto
  have m: "malloc grants base nbytes s = search grants (nunits_of nbytes) ?s (freep ?s)" unfolding malloc_def Let_def ..
  have ok: "heap_ok base ?s us" using ar arena_freep [OF ar] unfolding heap_ok_def by blast
  obtain r t where r: "search grants (nunits_of nbytes) ?s (freep ?s) = Some (r, t)"
    "if r = 0 then t = ?s \<and> \<not> grants ?s (core_bytes (nunits_of nbytes)) \<and> (\<forall>f \<in> set fs. snd f < nunits_of nbytes)
     else \<exists>a fs'. r = a + 16 \<and> arena base t fs' (insert (a, nunits_of nbytes) us) \<and> (a, nunits_of nbytes) \<notin> us \<and> brk ?s \<le> brk t"
    using malloc_arena [where grants = grants, OF ar nunits_bounds(1,3) [OF nb] b] by blast
  show ?thesis
  proof (intro exI conjI)
    show "malloc grants base nbytes s = Some (r, t)" using m r(1) by (rule trans)
    show "if r = 0 then heap_ok base t us \<and> \<not> grants t (core_bytes (nunits_of nbytes))
      else \<exists>a fs. r = a + 16 \<and> arena base t fs (insert (a, nunits_of nbytes) us) \<and> (a, nunits_of nbytes) \<notin> us"
    proof (cases "r = 0")
      case True
      then have "t = ?s" "\<not> grants ?s (core_bytes (nunits_of nbytes))" using r(2) by (simp_all only: if_True simp_thms)
      then show ?thesis using ok True by (simp only: if_True simp_thms)
    next
      case False
      then show ?thesis using r(2) by (simp only: if_False) blast
    qed
  qed
qed

lemma free_held:
  assumes "heap_ok base s us" and "u \<in> us"
  obtains t fs where "ufree (fst u + 16) s = Some t" and "arena base t fs (us - {u})"
proof -
  obtain fs where "arena base s fs us" using assms by (auto simp: heap_ok_def)
  then have "arena base s fs (insert (fst u, snd u) (us - {u}))" using assms(2) by (simp add: insert_absorb)
  then show thesis by (rule free_ok) (use that in auto)
qed

lemma heap_run_ok:
  assumes b: "\<And>s k. grants s k \<Longrightarrow> int (brk s) + k < 2 ^ 32"
  shows "heap_run grants base s us \<Longrightarrow> heap_ok base s us"
proof (induction rule: heap_run.induct)
  case (start s)
  then show ?case by (simp add: heap_ok_def)
next
  case (alloc s us nbytes r t)
  then show ?case using malloc_ok [where grants = grants, OF alloc.IH alloc.hyps(2) b] arena_freep
    by (auto simp: heap_ok_def split: if_splits)
next
  case (release s us u t)
  obtain t' fs where "ufree (fst u + 16) s = Some t'" "arena base t' fs (us - {u})" by (rule free_held [OF release.IH release.hyps(2)])
  then show ?case using release.hyps arena_freep by (auto simp: heap_ok_def)
qed

lemma malloc_fresh:
  assumes "heap_ok base s us" and nb: "nbytes < 2 ^ 31 - 32" and "\<And>s k. grants s k \<Longrightarrow> int (brk s) + k < 2 ^ 32"
  shows "\<exists>r t. malloc grants base nbytes s = Some (r, t) \<and>
    (if r = 0 then \<not> grants t (core_bytes (nunits_of nbytes))
     else {r - 16..<r + nbytes} \<subseteq> {base + 16..<brk t} \<and> (\<forall>u \<in> us. {r - 16..<r + nbytes} \<inter> cover u = {}))"
proof -
  let ?n = "nunits_of nbytes"
  obtain r t where m: "malloc grants base nbytes s = Some (r, t)"
    and r: "if r = 0 then heap_ok base t us \<and> \<not> grants t (core_bytes ?n)
      else \<exists>a fs. r = a + 16 \<and> arena base t fs (insert (a, ?n) us) \<and> (a, ?n) \<notin> us"
    using malloc_ok [where grants = grants, OF assms] by blast
  have new: "{a..<a + 16 + nbytes} \<subseteq> {base + 16..<brk t} \<and> (\<forall>u \<in> us. {a..<a + 16 + nbytes} \<inter> cover u = {})"
    if ar: "arena base t fs (insert (a, ?n) us)" and new: "(a, ?n) \<notin> us" for a fs
  proof -
    have sub: "{a..<a + 16 + nbytes} \<subseteq> cover (a, ?n)" using nunits_bounds(2) [OF nb] by (auto simp: cover_def)
    moreover have "cover (a, ?n) \<subseteq> {base + 16..<brk t}"
      using arenaD(5) [OF ar, of "(a, ?n)"] by (auto simp: lies_in_def cover_def)
    moreover have "cover (a, ?n) \<inter> cover u = {}" if "u \<in> us" for u
      using arenaD(8) [OF ar, of "(a, ?n)" u] that new by auto
    ultimately show ?thesis by blast
  qed
  show ?thesis
  proof (cases "r = 0")
    case True
    then show ?thesis using m r by auto
  next
    case False
    then obtain a fs where "r = a + 16" "arena base t fs (insert (a, ?n) us)" "(a, ?n) \<notin> us" using r by auto
    then show ?thesis using m new [of fs a] by (intro exI [of _ r] exI [of _ t]) simp
  qed
qed

text \<open>
  C33. In every history of calls of \<^verbatim>\<open>malloc\<close> with less than \<open>2 ^ 31 - 32\<close> bytes and of \<^verbatim>\<open>free\<close> with blocks held, in a program that
  does not call \<^verbatim>\<open>sbrk\<close> itself, the blocks a program holds never overlap, \<^verbatim>\<open>free\<close> of any of them returns,
  and \<^verbatim>\<open>malloc\<close> of less than \<open>2 ^ 31 - 32\<close> bytes returns: a null pointer only when the kernel refused to grow the heap, otherwise the address of
  that many bytes inside the heap that overlap no block held, nor its header.  The kernel's grants keep the break below \<open>2 ^ 32\<close>.
\<close>

theorem malloc_free_history:
  assumes "heap_run grants base s us" and "\<And>s k. grants s k \<Longrightarrow> int (brk s) + k < 2 ^ 32"
  shows "(\<forall>u \<in> us. \<exists>t. ufree (fst u + 16) s = Some t) \<and>
    (\<forall>u \<in> us. \<forall>v \<in> us. u \<noteq> v \<longrightarrow> cover u \<inter> cover v = {}) \<and>
    (\<forall>nbytes < 2 ^ 31 - 32. \<exists>r t. malloc grants base nbytes s = Some (r, t) \<and>
      (if r = 0 then \<not> grants t (core_bytes (nunits_of nbytes))
       else {r - 16..<r + nbytes} \<subseteq> {base + 16..<brk t} \<and> (\<forall>u \<in> us. {r - 16..<r + nbytes} \<inter> cover u = {})))"
proof -
  have ok: "heap_ok base s us" using heap_run_ok assms by blast
  then have "\<exists>t. ufree (fst u + 16) s = Some t" if "u \<in> us" for u using free_held [OF ok that] by blast
  moreover have "cover u \<inter> cover v = {}" if "u \<in> us" "v \<in> us" "u \<noteq> v" for u v
    using ok arenaD(8) that unfolding heap_ok_def by blast
  ultimately show ?thesis using malloc_fresh [OF ok _ assms(2)] by blast
qed

theorem malloc_free_history_witness:
  "let grants = \<lambda>s k. 0 \<le> k \<and> int (brk s) + k < 2 ^ 27;
       s = \<lparr>hdr = \<lambda>_. \<lparr>h_ptr = 0, h_size = 0\<rparr>, freep = 0, brk = 0x5000\<rparr>;
       u = (0x5000 + 16 * 4093, 3)
   in \<exists>t. malloc grants 0x4000 20 s = Some (fst u + 16, t) \<and> (\<exists>t'. ufree (fst u + 16) t = Some t') \<and>
      (\<exists>r t'. malloc grants 0x4000 1000 t = Some (r, t') \<and> (if r = 0 then \<not> grants t' 65536 else {r - 16..<r + 1000} \<inter> cover u = {}))"
proof -
  let ?g = "\<lambda>s k. 0 \<le> k \<and> int (brk s) + k < 2 ^ 27" and ?u = "(0x5000 + 16 * 4093, 3) :: block"
  let ?s = "\<lparr>hdr = \<lambda>_. \<lparr>h_ptr = 0, h_size = 0\<rparr>, freep = 0, brk = 0x5000\<rparr>"
  have b: "int (brk s) + k < 2 ^ 32" if "?g s k" for s k using that by simp
  have s: "heap_run ?g 0x4000 ?s {}" by (rule heap_run.start) simp_all
  have "\<exists>t. malloc ?g 0x4000 20 ?s = Some (fst ?u + 16, t)"
    by (simp add: malloc_def malloc_loop.simps nunits_of_def morecore_def morecore_units_def sbrk_u_def to_int32_small ufree_def
        free_find.simps take_block_def nxt_def units_def set_nxt_def set_units_def Let_def)
  then obtain t where t: "malloc ?g 0x4000 20 ?s = Some (fst ?u + 16, t)" by blast
  have n: "nunits_of 20 = 3" "core_bytes (nunits_of 1000) = 65536" by (simp_all add: nunits_of_def morecore_units_def)
  have "heap_run ?g 0x4000 t {?u}" using heap_run.alloc [OF s _ t] n by simp
  note H = malloc_free_history [where grants = ?g, OF this b]
  have "\<exists>t'. ufree (fst ?u + 16) t = Some t'" using H [THEN conjunct1] by blast
  moreover obtain r t' where "malloc ?g 0x4000 1000 t = Some (r, t')"
    "if r = 0 then \<not> ?g t' 65536 else {r - 16..<r + 1000} \<inter> cover ?u = {}"
    using H [THEN conjunct2, THEN conjunct2, rule_format, of 1000] unfolding n by (auto split: if_splits)
  ultimately show ?thesis using t unfolding Let_def by blast
qed

text \<open>A request near \<open>2 ^ 32\<close> bytes asks the kernel for 16: the size is truncated to the \<^verbatim>\<open>int\<close> that \<^verbatim>\<open>sbrk\<close> takes.\<close>

lemma morecore_truncates:
  "morecore grants (nunits_of (2 ^ 32 - 1)) s =
     (if grants s 16 then case ufree (brk s + 16) (set_units (brk s) (2 ^ 28 + 1) (s\<lparr>brk := brk s + 16\<rparr>)) of
        None \<Rightarrow> None | Some s \<Rightarrow> Some (freep s, s)
      else Some (0, s))"
proof -
  have "to_int32 (2 ^ 32 + 16) = 16" by (simp add: to_int32_def)
  then show ?thesis
    by (simp add: morecore_def nunits_of_def morecore_units_def sbrk_u_def Let_def nat_add_distrib)
qed

end
