(* ===== verification/Shell.thy ===== *)
theory Shell
  imports Ulib
begin

text \<open>
  \<^verbatim>\<open>user/sh.c\<close>.  The parser runs on the bytes of the input line by index, as the code does by pointer; a command holds the
  bounds of its words, and \<^verbatim>\<open>nulterminate\<close> stores the terminators in the line.  The memory of the command nodes comes from
  \<^verbatim>\<open>malloc\<close>, whose failure the code does not look at.  Where \<^verbatim>\<open>peek\<close> has moved the pointer over white space, the next call skips nothing.  The recursive descent has a bound on its depth that is shown to suffice for every line.
  The parser is shown to read back every command of the grammar from its text.
\<close>

section \<open>Commands\<close>

datatype 'w cmd =
    Execcmd "'w list"
  | Redircmd "'w cmd" 'w int int
  | Pipecmd "'w cmd" "'w cmd"
  | Listcmd "'w cmd" "'w cmd"
  | Backcmd "'w cmd"

type_synonym span = "nat \<times> nat"

definition MAXARGS :: nat where "MAXARGS = 10"

definition sh_panic :: "string \<Rightarrow> ust \<Rightarrow> 'a uout" where
  "sh_panic msg u = andthen (uprintf 2 (''%s'' @ nl) [PStr (ascii msg)] u) (\<lambda>_ u. uexit 1 u)"

lemma sh_panic_ends [simp]: "sh_panic msg u \<noteq> Ret x t"
  by (auto simp: sh_panic_def uexit_def)

definition fork1 :: "ust \<Rightarrow> int uout" where
  "fork1 u = andthen (sys CFork u) (\<lambda>a u. if a_ret a = -1 then sh_panic ''fork'' u else Ret (a_ret a) u)"

section \<open>Tokens\<close>

definition whitespace :: "u8 list" where
  "whitespace = ascii '' '' @ [9, 13, 10, 11]"

definition symbols :: "u8 list" where
  "symbols = ascii ''<|>&;()''"

definition byte_at :: "u8 list \<Rightarrow> nat \<Rightarrow> u8" where
  "byte_at s i = (if i < length s then s ! i else 0)"

function skip_ws :: "u8 list \<Rightarrow> nat \<Rightarrow> nat" where
  "skip_ws s i = (if i < length s \<and> s ! i \<in> set whitespace then skip_ws s (Suc i) else i)"
  by pat_completeness auto
termination
  by (relation "measure (\<lambda>(s, i). length s - i)") auto

function skip_word :: "u8 list \<Rightarrow> nat \<Rightarrow> nat" where
  "skip_word s i = (if i < length s \<and> s ! i \<notin> set whitespace \<and> s ! i \<notin> set symbols then skip_word s (Suc i) else i)"
  by pat_completeness auto
termination
  by (relation "measure (\<lambda>(s, i). length s - i)") auto

declare skip_ws.simps [simp del] skip_word.simps [simp del]

text \<open>The kind of the token, its bounds, and the index after it and the white space that follows.\<close>

definition gettoken :: "u8 list \<Rightarrow> nat \<Rightarrow> u8 \<times> span \<times> nat" where
  "gettoken s i =
     (let q = skip_ws s i;
          c = byte_at s q;
          r = (if c = 0 then (c, q)
               else if c \<in> set (ascii ''|();&<'') then (c, q + 1)
               else if c = of_char CHR ''>'' then
                 if byte_at s (q + 1) = of_char CHR ''>'' then (of_char CHR ''+'', q + 2) else (c, q + 1)
               else (of_char CHR ''a'', skip_word s q))
      in (fst r, (q, snd r), skip_ws s (snd r)))"

definition peek :: "u8 list \<Rightarrow> nat \<Rightarrow> string \<Rightarrow> bool" where
  "peek s i toks = (let c = byte_at s (skip_ws s i) in c \<noteq> 0 \<and> c \<in> set (ascii toks))"

section \<open>The parser\<close>

definition redircmd :: "u8 \<Rightarrow> 'w cmd \<Rightarrow> 'w \<Rightarrow> 'w cmd" where
  "redircmd tok c f =
     (if tok = of_char CHR ''<'' then Redircmd c f O_RDONLY 0
      else if tok = of_char CHR ''>'' then Redircmd c f (O_WRONLY OR O_CREATE OR O_TRUNC) 1
      else if tok = of_char CHR ''+'' then Redircmd c f (O_WRONLY OR O_CREATE) 1
      else c)"

lemma skip_ws_le: "i \<le> length s \<Longrightarrow> i \<le> skip_ws s i \<and> skip_ws s i \<le> length s"
  by (induction s i rule: skip_ws.induct) (subst (1 2) skip_ws.simps, auto)

lemma skip_ws_ge: "i \<le> skip_ws s i"
  by (induction s i rule: skip_ws.induct) (subst skip_ws.simps, auto)

lemma skip_word_ge: "i \<le> skip_word s i"
  by (induction s i rule: skip_word.induct) (subst skip_word.simps, auto)

lemma gettoken_ge: "i \<le> snd (snd (gettoken s i))"
proof -
  let ?q = "skip_ws s i"
  have "i \<le> ?q" "?q \<le> skip_word s ?q" by (rule skip_ws_ge, rule skip_word_ge)
  moreover have "?q \<le> skip_ws s ?q" "?q + 1 \<le> skip_ws s (?q + 1)" "?q + 2 \<le> skip_ws s (?q + 2)"
    "skip_word s ?q \<le> skip_ws s (skip_word s ?q)" by (rule skip_ws_ge)+
  ultimately show ?thesis unfolding gettoken_def Let_def by (simp split: if_split)
qed

lemma gettoken_peek:
  assumes "peek s i toks" and "set (ascii toks) \<subseteq> set symbols"
  shows "i < length s" and "i < snd (snd (gettoken s i))"
proof -
  let ?q = "skip_ws s i"
  have q: "i \<le> ?q" by (rule skip_ws_ge)
  have c: "byte_at s ?q \<noteq> 0" "byte_at s ?q \<in> set symbols" using assms by (auto simp: peek_def Let_def)
  then show "i < length s" using q by (auto simp: byte_at_def split: if_splits)
  have "?q + 1 \<le> skip_ws s (?q + 1)" "?q + 2 \<le> skip_ws s (?q + 2)" by (rule skip_ws_ge)+
  moreover have "set symbols \<subseteq> set (ascii ''|();&<'') \<union> {of_char CHR ''>''}" by (auto simp: symbols_def ascii_def)
  ultimately show "i < snd (snd (gettoken s i))" using q c by (auto simp: gettoken_def Let_def)
qed

lemma ascii_symbols [simp]:
  "set (ascii ''<>'') \<subseteq> set symbols" "set (ascii ''&'') \<subseteq> set symbols" "set (ascii '';'') \<subseteq> set symbols" "set (ascii ''|'') \<subseteq> set symbols"
  "set (ascii ''('') \<subseteq> set symbols" "set (ascii '')'') \<subseteq> set symbols"
  by (auto simp: symbols_def ascii_def)

function parseredirs :: "u8 list \<Rightarrow> span cmd \<Rightarrow> nat \<Rightarrow> ust \<Rightarrow> (span cmd \<times> nat) uout" where
  "parseredirs s c i u =
     (if peek s i ''<>'' then
        let t = gettoken s i;
            f = gettoken s (snd (snd t))
        in if fst f \<noteq> of_char CHR ''a'' then sh_panic ''missing file for redirection'' u
           else parseredirs s (redircmd (fst t) c (fst (snd f))) (snd (snd f)) u
      else Ret (c, skip_ws s i) u)"
  by pat_completeness auto
termination
proof (relation "measure (\<lambda>(s, _, i, _). length s - i)", goal_cases)
  case (2 s c i u t f)
  then have "i < length s" "i < snd (snd t)" using gettoken_peek [of s i "''<>''"] by auto
  then show ?case using gettoken_ge [of "snd (snd t)" s] 2 by auto
qed simp

declare parseredirs.simps [simp del]

function parseamps :: "u8 list \<Rightarrow> span cmd \<Rightarrow> nat \<Rightarrow> span cmd \<times> nat" where
  "parseamps s c i = (if peek s i ''&'' then parseamps s (Backcmd c) (snd (snd (gettoken s i))) else (c, skip_ws s i))"
  by pat_completeness auto
termination
proof (relation "measure (\<lambda>(s, _, i). length s - i)", goal_cases)
  case (2 s c i)
  then show ?case using gettoken_peek [of s i "''&''"] by auto
qed simp

declare parseamps.simps [simp del]

text \<open>
  The words of a simple command are stored in the node that \<^verbatim>\<open>execcmd\<close> made, which redirections have wrapped by then.
\<close>

primrec with_argv :: "'w list \<Rightarrow> 'w cmd \<Rightarrow> 'w cmd" where
  "with_argv argv (Execcmd _) = Execcmd argv"
| "with_argv argv (Redircmd c f mode fd) = Redircmd (with_argv argv c) f mode fd"
| "with_argv argv (Pipecmd l r) = Pipecmd l r"
| "with_argv argv (Listcmd l r) = Listcmd l r"
| "with_argv argv (Backcmd c) = Backcmd c"

function parseargs :: "u8 list \<Rightarrow> span cmd \<Rightarrow> span list \<Rightarrow> nat \<Rightarrow> ust \<Rightarrow> (span cmd \<times> nat) uout" where
  "parseargs s ret argv i u =
     (if peek s i ''|)&;'' then Ret (with_argv argv ret, skip_ws s i) u
      else let t = gettoken s i in
        if fst t = 0 then Ret (with_argv argv ret, snd (snd t)) u
        else if fst t \<noteq> of_char CHR ''a'' then sh_panic ''syntax'' u
        else let argv = argv @ [fst (snd t)] in
          if length argv \<ge> MAXARGS then sh_panic ''too many args'' u
          else andthen (parseredirs s ret (snd (snd t)) u) (\<lambda>r u. parseargs s (fst r) argv (snd r) u))"
  by pat_completeness auto
termination
  by (relation "measure (\<lambda>(_, _, argv, _). MAXARGS - length argv)") auto

declare parseargs.simps [simp del]

function parseline :: "nat \<Rightarrow> u8 list \<Rightarrow> nat \<Rightarrow> ust \<Rightarrow> (span cmd \<times> nat) uout"
  and parsepipe :: "nat \<Rightarrow> u8 list \<Rightarrow> nat \<Rightarrow> ust \<Rightarrow> (span cmd \<times> nat) uout"
  and parseblock :: "nat \<Rightarrow> u8 list \<Rightarrow> nat \<Rightarrow> ust \<Rightarrow> (span cmd \<times> nat) uout"
  and parseexec :: "nat \<Rightarrow> u8 list \<Rightarrow> nat \<Rightarrow> ust \<Rightarrow> (span cmd \<times> nat) uout" where
  "parseline n s i u =
     (if n = 0 then Diverge
      else andthen (parsepipe (n - 1) s i u) (\<lambda>r u.
      let a = parseamps s (fst r) (snd r) in
      if peek s (snd a) '';'' then
        andthen (parseline (n - 1) s (snd (snd (gettoken s (snd a)))) u) (\<lambda>r u. Ret (Listcmd (fst a) (fst r), snd r) u)
      else Ret (fst a, skip_ws s (snd a)) u))"
| "parsepipe n s i u =
     (if n = 0 then Diverge
      else andthen (parseexec (n - 1) s i u) (\<lambda>l u.
      if peek s (snd l) ''|'' then
        andthen (parsepipe (n - 1) s (snd (snd (gettoken s (snd l)))) u) (\<lambda>r u. Ret (Pipecmd (fst l) (fst r), snd r) u)
      else Ret (fst l, skip_ws s (snd l)) u))"
| "parseblock n s i u =
     (if n = 0 then Diverge
      else if \<not> peek s i ''('' then sh_panic ''parseblock'' u
      else andthen (parseline (n - 1) s (snd (snd (gettoken s i))) u) (\<lambda>r u.
        if \<not> peek s (snd r) '')'' then sh_panic ''syntax - missing )'' u
        else parseredirs s (fst r) (snd (snd (gettoken s (snd r)))) u))"
| "parseexec n s i u =
     (if n = 0 then Diverge
      else if peek s i ''('' then parseblock (n - 1) s (skip_ws s i) u
      else andthen (parseredirs s (Execcmd []) (skip_ws s i) u) (\<lambda>r u. parseargs s (fst r) [] (snd r) u))"
  by pat_completeness auto
termination
  by (relation "measure (\<lambda>x. case x of Inl (Inl (n, _)) \<Rightarrow> n | Inl (Inr (n, _)) \<Rightarrow> n | Inr (Inl (n, _)) \<Rightarrow> n | Inr (Inr (n, _)) \<Rightarrow> n)") auto

declare parseline.simps [simp del] parsepipe.simps [simp del] parseblock.simps [simp del] parseexec.simps [simp del]

primrec nulterminate :: "span cmd \<Rightarrow> u8 list \<Rightarrow> u8 list" where
  "nulterminate (Execcmd argv) buf = fold (\<lambda>w buf. buf[snd w := 0]) argv buf"
| "nulterminate (Redircmd c f mode fd) buf = (nulterminate c buf)[snd f := 0]"
| "nulterminate (Pipecmd l r) buf = nulterminate r (nulterminate l buf)"
| "nulterminate (Listcmd l r) buf = nulterminate r (nulterminate l buf)"
| "nulterminate (Backcmd c) buf = nulterminate c buf"

definition parse_depth :: "u8 list \<Rightarrow> nat" where
  "parse_depth s = 4 * length s + 4"

definition parsecmd :: "u8 list \<Rightarrow> ust \<Rightarrow> (span cmd \<times> u8 list) uout" where
  "parsecmd buf u =
     (let s = upto_nul buf in
      andthen (parseline (parse_depth s) s 0 u) (\<lambda>r u.
      let i = skip_ws s (snd r) in
      if i \<noteq> length s then
        andthen (uprintf 2 (''leftovers: %s'' @ nl) [PStr (drop i s)] u) (\<lambda>_ u. sh_panic ''syntax'' u)
      else Ret (fst r, nulterminate (fst r) buf) u))"

section \<open>Running commands\<close>

definition str_at :: "u8 list \<Rightarrow> span \<Rightarrow> u8 list" where
  "str_at buf w = upto_nul (drop (fst w) buf)"

text \<open>A call of \<^verbatim>\<open>exec\<close> or \<^verbatim>\<open>exit\<close> that succeeds does not return; a branch taken by a child process ends in one.\<close>

primrec runcmd :: "u8 list \<Rightarrow> span cmd \<Rightarrow> ust \<Rightarrow> unit uout" where
  "runcmd buf (Execcmd argv) u =
     (if argv = [] then uexit 1 u
      else andthen (sys (CExec (str_at buf (hd argv)) (map (str_at buf) argv)) u) (\<lambda>_ u.
           andthen (uprintf 2 (''exec %s failed'' @ nl) [PStr (str_at buf (hd argv))] u) (\<lambda>_ u. uexit 0 u)))"
| "runcmd buf (Redircmd c f mode fd) u =
     andthen (sys (CClose fd) u) (\<lambda>_ u.
     andthen (sys (COpen (str_at buf f) mode) u) (\<lambda>r u.
     if a_ret r < 0 then andthen (uprintf 2 (''open %s failed'' @ nl) [PStr (str_at buf f)] u) (\<lambda>_ u. uexit 1 u)
     else runcmd buf c u))"
| "runcmd buf (Listcmd l r) u =
     andthen (fork1 u) (\<lambda>pid u.
     if pid = 0 then runcmd buf l u
     else andthen (sys CWait u) (\<lambda>_ u. runcmd buf r u))"
| "runcmd buf (Pipecmd l r) u =
     andthen (sys CPipe u) (\<lambda>p u.
     if a_ret p < 0 then sh_panic ''pipe'' u
     else andthen (fork1 u) (\<lambda>pid u.
     if pid = 0 then
       andthen (sys (CClose 1) u) (\<lambda>_ u.
       andthen (sys (CDup (snd (a_fds p))) u) (\<lambda>_ u.
       andthen (sys (CClose (fst (a_fds p))) u) (\<lambda>_ u.
       andthen (sys (CClose (snd (a_fds p))) u) (\<lambda>_ u.
       runcmd buf l u))))
     else andthen (fork1 u) (\<lambda>pid u.
     if pid = 0 then
       andthen (sys (CClose 0) u) (\<lambda>_ u.
       andthen (sys (CDup (fst (a_fds p))) u) (\<lambda>_ u.
       andthen (sys (CClose (fst (a_fds p))) u) (\<lambda>_ u.
       andthen (sys (CClose (snd (a_fds p))) u) (\<lambda>_ u.
       runcmd buf r u))))
     else
       andthen (sys (CClose (fst (a_fds p))) u) (\<lambda>_ u.
       andthen (sys (CClose (snd (a_fds p))) u) (\<lambda>_ u.
       andthen (sys CWait u) (\<lambda>_ u.
       andthen (sys CWait u) (\<lambda>_ u.
       uexit 0 u)))))))"
| "runcmd buf (Backcmd c) u =
     andthen (fork1 u) (\<lambda>pid u. if pid = 0 then runcmd buf c u else uexit 0 u)"

text \<open>The line buffer after \<^verbatim>\<open>getcmd\<close>; an empty line is the end of the input.\<close>

definition getcmd :: "ust \<Rightarrow> u8 list option uout" where
  "getcmd u =
     andthen (sys (CWrite 2 (ascii ''$ '')) u) (\<lambda>_ u.
     andthen (gets 100 u) (\<lambda>line u.
     let buf = overlay line (replicate 100 0) in
     Ret (if hd buf = 0 then None else Some buf) u))"

function sh_open :: "ust \<Rightarrow> unit uout" where
  "sh_open u =
     andthen (sys (COpen (ascii ''console'') O_RDWR) u) (\<lambda>fd u.
     if a_ret fd \<ge> 0 then
       if a_ret fd \<ge> 3 then andthen (sys (CClose (a_ret fd)) u) (\<lambda>_ u. Ret () u) else sh_open u
     else Ret () u)"
  by pat_completeness auto
termination
  by (relation "measure (\<lambda>u. length (u_left u))") (auto dest: sys_Ret_less)

declare sh_open.simps [simp del]

lemma gets_loop_le: "gets_loop mx buf u = Ret x t \<Longrightarrow> length (u_left t) \<le> length (u_left u)"
proof (induction mx buf u arbitrary: x t rule: gets_loop.induct)
  case (1 mx buf u)
  show ?case
  proof (cases "int (length buf) + 1 < mx")
    case True
    then obtain a v where a: "sys (CRead 0 1) u = Ret a v" "(if a_ret a < 1 then Ret buf v
        else let ch = hd (a_data a @ [0]); buf = buf @ [ch] in
          if ch = 10 \<or> ch = 13 then Ret buf v else gets_loop mx buf v) = Ret x t"
      using "1.prems" by (subst (asm) gets_loop.simps) auto
    show ?thesis using sys_Ret_less [OF a(1)] a(2) "1.IH" [OF True a(1)] by (fastforce simp: Let_def split: if_splits)
  next
    case False
    then show ?thesis using "1.prems" by (subst (asm) gets_loop.simps) simp
  qed
qed

lemma getcmd_less: "getcmd u = Ret x t \<Longrightarrow> length (u_left t) < length (u_left u)"
  by (auto simp: getcmd_def gets_def Let_def dest!: sys_Ret_less gets_loop_le)

function sh_loop :: "ust \<Rightarrow> unit uout" where
  "sh_loop u =
     andthen (getcmd u) (\<lambda>r u.
     case r of None \<Rightarrow> uexit 0 u
     | Some buf \<Rightarrow>
       if take 3 buf = ascii ''cd '' then
         let dir = drop 3 (butlast (upto_nul buf)) in
         andthen (sys (CChdir dir) u) (\<lambda>a u.
         if a_ret a < 0 then andthen (uprintf 2 (''cannot cd %s'' @ nl) [PStr dir] u) (\<lambda>_ u. sh_loop u)
         else sh_loop u)
       else andthen (fork1 u) (\<lambda>pid u.
         if pid = 0 then andthen (parsecmd buf u) (\<lambda>c u. runcmd (snd c) (fst c) u)
         else andthen (sys CWait u) (\<lambda>_ u. sh_loop u)))"
  by pat_completeness auto
termination
  by (relation "measure (\<lambda>u. length (u_left u))") (auto dest!: sys_Ret_less getcmd_less uprintf_Ret_less simp: fork1_def split: if_splits)

declare sh_loop.simps [simp del]

definition sh_main :: "ust \<Rightarrow> unit uout" where
  "sh_main u = andthen (sh_open u) (\<lambda>_ u. sh_loop u)"

section \<open>The parser ends\<close>

definition word_char :: "u8 \<Rightarrow> bool" where
  "word_char b \<longleftrightarrow> b \<notin> set whitespace \<and> b \<notin> set symbols"

text \<open>The bounds of a word: it cannot be extended, and its end is no byte of a word.\<close>

definition good_span :: "u8 list \<Rightarrow> span \<Rightarrow> bool" where
  "good_span s w \<longleftrightarrow> fst w < snd w \<and> snd w \<le> length s \<and> (\<forall>k. fst w \<le> k \<and> k < snd w \<longrightarrow> word_char (s ! k)) \<and>
     (snd w < length s \<longrightarrow> \<not> word_char (s ! snd w))"

abbreviation good_cmd :: "u8 list \<Rightarrow> span cmd \<Rightarrow> bool" where
  "good_cmd s c \<equiv> \<forall>w \<in> set_cmd c. good_span s w"

lemma skip_word_span:
  assumes "i \<le> length s"
  shows "skip_word s i \<le> length s \<and> (\<forall>k. i \<le> k \<and> k < skip_word s i \<longrightarrow> word_char (s ! k)) \<and>
    (skip_word s i < length s \<longrightarrow> \<not> word_char (s ! skip_word s i))"
  using assms
proof (induction s i rule: skip_word.induct)
  case (1 s i)
  show ?case
  proof (cases "i < length s \<and> s ! i \<notin> set whitespace \<and> s ! i \<notin> set symbols")
    case True
    have "word_char (s ! k)" if "i \<le> k" "k < skip_word s (Suc i)" for k
      using 1 True that by (cases "k = i") (auto simp: word_char_def)
    moreover have "skip_word s i = skip_word s (Suc i)" using True by (subst skip_word.simps) simp
    ultimately show ?thesis using 1 True by auto
  next
    case False
    then have "skip_word s i = i" by (subst skip_word.simps) auto
    then show ?thesis using "1.prems" False by (auto simp: word_char_def)
  qed
qed

lemma gettoken_word:
  assumes "fst (gettoken s i) = of_char CHR ''a''"
  shows "good_span s (fst (snd (gettoken s i)))"
proof -
  let ?q = "skip_ws s i"
  have c: "byte_at s ?q \<noteq> 0" "byte_at s ?q \<notin> set (ascii ''|();&<'')" "byte_at s ?q \<noteq> of_char CHR ''>''"
    using assms by (auto simp: gettoken_def Let_def ascii_def split: if_splits)
  then have q: "?q < length s" and g: "fst (snd (gettoken s i)) = (?q, skip_word s ?q)"
    by (auto simp: byte_at_def gettoken_def Let_def split: if_splits)
  have "s ! ?q \<notin> set whitespace" using q by (induction s i rule: skip_ws.induct) (metis skip_ws.simps)
  moreover have "s ! ?q \<notin> set symbols" using c q by (auto simp: byte_at_def symbols_def ascii_def)
  ultimately have "?q < skip_word s ?q" using q skip_word_ge [of "Suc ?q" s] by (subst skip_word.simps) simp
  then show ?thesis unfolding g good_span_def using skip_word_span [of ?q s] q by simp
qed

text \<open>The outcome of a parsing function entered at \<open>i\<close>: an error, or a command and an index after \<open>i\<close>.\<close>

definition parses :: "u8 list \<Rightarrow> nat \<Rightarrow> ust \<Rightarrow> (span cmd \<times> nat) uout \<Rightarrow> bool" where
  "parses s i u r = (case r of Ret x t \<Rightarrow> t = u \<and> i \<le> snd x \<and> good_cmd s (fst x) | Slept t \<Rightarrow> last (u_calls t) = CExit 1
     | Blocked _ \<Rightarrow> True | _ \<Rightarrow> False)"

lemma parses_panic [simp]: "parses s i u (sh_panic msg u)"
  by (cases "u_left u") (simp_all add: parses_def sh_panic_def uprintf_def uexit_def)

lemma parses_Ret [simp]: "parses s i u (Ret x t) \<longleftrightarrow> t = u \<and> i \<le> snd x \<and> good_cmd s (fst x)"
  by (simp add: parses_def)

lemma parses_andthen:
  assumes "parses s i u r" and "\<And>c j. r = Ret (c, j) u \<Longrightarrow> i \<le> j \<Longrightarrow> good_cmd s c \<Longrightarrow> parses s j u (k (c, j) u)"
  shows "parses s i u (andthen r k)"
proof (cases r)
  case (Ret x t)
  obtain c j where x: "x = (c, j)" by (cases x)
  then have "parses s j u (k (c, j) u)" "t = u" "i \<le> j" using assms Ret by auto
  then show ?thesis using Ret x by (cases "k (c, j) u") (auto simp: parses_def)
qed (use assms in \<open>auto simp: parses_def\<close>)

lemma parses_mono: "parses s j u r \<Longrightarrow> i \<le> j \<Longrightarrow> parses s i u r"
  by (cases r) (auto simp: parses_def)

lemma set_redircmd: "set_cmd (redircmd tok c f) \<subseteq> insert f (set_cmd c)"
  by (auto simp: redircmd_def)

lemma set_with_argv: "set_cmd (with_argv argv c) \<subseteq> set argv \<union> set_cmd c"
  by (induction c) auto

lemma parseredirs_parses: "good_cmd s c \<Longrightarrow> parses s i u (parseredirs s c i u)"
proof (induction s c i u rule: parseredirs.induct)
  case (1 s c i u)
  let ?t = "gettoken s i" let ?f = "gettoken s (snd (snd ?t))"
  show ?case
  proof (cases "peek s i ''<>'' \<and> fst ?f = of_char CHR ''a''")
    case True
    have "good_cmd s (redircmd (fst ?t) c (fst (snd ?f)))"
      using "1.prems" gettoken_word [of s "snd (snd ?t)"] True set_redircmd [of "fst ?t" c "fst (snd ?f)"] by auto
    then have "parses s (snd (snd ?f)) u (parseredirs s (redircmd (fst ?t) c (fst (snd ?f))) (snd (snd ?f)) u)"
      using "1.IH" [OF _ refl refl] True by simp
    moreover have "i \<le> snd (snd ?f)" using gettoken_ge [of i s] gettoken_ge [of "snd (snd ?t)" s] by simp
    ultimately have "parses s i u (parseredirs s (redircmd (fst ?t) c (fst (snd ?f))) (snd (snd ?f)) u)" by (rule parses_mono)
    then show ?thesis using True by (subst parseredirs.simps) (simp add: Let_def)
  next
    case False
    then show ?thesis using "1.prems" skip_ws_ge by (subst parseredirs.simps) (auto simp: Let_def)
  qed
qed

lemma parseamps_parses: "good_cmd s c \<Longrightarrow> i \<le> snd (parseamps s c i) \<and> good_cmd s (fst (parseamps s c i))"
proof (induction s c i rule: parseamps.induct)
  case (1 s c i)
  then show ?case using skip_ws_ge [of i s] gettoken_ge [of i s]
    by (subst (1 2) parseamps.simps) (auto intro: order_trans)
qed

lemma parseargs_parses:
  assumes "good_cmd s ret" and "\<forall>w \<in> set argv. good_span s w"
  shows "parses s i u (parseargs s ret argv i u)"
  using assms
proof (induction s ret argv i u rule: parseargs.induct)
  case (1 s ret argv i u)
  let ?t = "gettoken s i"
  have fin: "good_cmd s (with_argv argv ret)" using "1.prems" set_with_argv [of argv ret] by blast
  consider "peek s i ''|)&;'' \<or> fst ?t = 0" | "\<not> (peek s i ''|)&;'' \<or> fst ?t = 0)" "fst ?t \<noteq> of_char CHR ''a'' \<or> length argv + 1 \<ge> MAXARGS"
    | "\<not> (peek s i ''|)&;'' \<or> fst ?t = 0)" "fst ?t = of_char CHR ''a''" "\<not> length argv + 1 \<ge> MAXARGS" by auto
  then show ?case
  proof cases
    case 3
    have "parses s (snd (snd ?t)) u (andthen (parseredirs s ret (snd (snd ?t)) u) (\<lambda>r u. parseargs s (fst r) (argv @ [fst (snd ?t)]) (snd r) u))"
    proof (rule parses_andthen [OF parseredirs_parses])
      show "good_cmd s ret" by (rule "1.prems")
      fix c j assume r: "parseredirs s ret (snd (snd ?t)) u = Ret (c, j) u" "good_cmd s c"
      have "\<forall>w \<in> set (argv @ [fst (snd ?t)]). good_span s w" using gettoken_word [OF 3(2)] "1.prems" by simp
      then show "parses s j u (parseargs s (fst (c, j)) (argv @ [fst (snd ?t)]) (snd (c, j)) u)"
        using "1.IH" [OF _ refl _ _ refl _ r(1)] 3 r(2) by simp
    qed
    then show ?thesis using 3 parses_mono [OF _ gettoken_ge] by (subst parseargs.simps) (simp add: Let_def)
  qed (use fin skip_ws_ge gettoken_ge in \<open>subst parseargs.simps; auto simp: Let_def\<close>)+
qed

lemma peek_next:
  assumes "peek s j toks" and "set (ascii toks) \<subseteq> set symbols" and "i \<le> j"
  shows "4 * (length s - snd (snd (gettoken s j))) + 4 \<le> 4 * (length s - i)" and "j \<le> snd (snd (gettoken s j))"
  using gettoken_peek [OF assms(1,2)] assms(3) by linarith+

lemma parseline_step:
  assumes IH: "\<And>i. 4 * (length s - i) + 4 \<le> n \<Longrightarrow> parses s i u (parseline n s i u)" "\<And>i. 4 * (length s - i) + 3 \<le> n \<Longrightarrow> parses s i u (parsepipe n s i u)"
    and n: "4 * (length s - i) + 4 \<le> Suc n"
  shows "parses s i u (parseline (Suc n) s i u)"
  unfolding parseline.simps [of "Suc n"] if_not_P [OF nat.distinct(2)] diff_Suc_1
proof (rule parses_andthen [OF IH(2)])
  show "4 * (length s - i) + 3 \<le> n" using n by simp
  fix c j assume j: "i \<le> j" "good_cmd s c"
  let ?a = "parseamps s c j"
  let ?k = "snd (snd (gettoken s (snd ?a)))"
  have a: "j \<le> snd ?a" "good_cmd s (fst ?a)" using parseamps_parses [OF j(2), of j] by auto
  have "parses s j u (andthen (parseline n s ?k u) (\<lambda>r u. Ret (Listcmd (fst ?a) (fst r), snd r) u))" if p: "peek s (snd ?a) '';''"
  proof (rule parses_mono [OF parses_andthen [OF IH(1)]])
    show "4 * (length s - ?k) + 4 \<le> n" "j \<le> ?k" using peek_next [OF p, of i] peek_next(2) [OF p, of j] n j(1) a(1) by simp_all
  qed (use a in auto)
  then show "parses s j u (let a = parseamps s (fst (c, j)) (snd (c, j)) in
    if peek s (snd a) '';'' then andthen (parseline n s (snd (snd (gettoken s (snd a)))) u) (\<lambda>r u. Ret (Listcmd (fst a) (fst r), snd r) u)
    else Ret (fst a, skip_ws s (snd a)) u)"
    using a skip_ws_ge [of "snd ?a" s] by (simp add: Let_def)
qed

lemma parsepipe_step:
  assumes IH: "\<And>i. 4 * (length s - i) + 3 \<le> n \<Longrightarrow> parses s i u (parsepipe n s i u)" "\<And>i. 4 * (length s - i) + 2 \<le> n \<Longrightarrow> parses s i u (parseexec n s i u)"
    and n: "4 * (length s - i) + 3 \<le> Suc n"
  shows "parses s i u (parsepipe (Suc n) s i u)"
  unfolding parsepipe.simps [of "Suc n"] if_not_P [OF nat.distinct(2)] diff_Suc_1
proof (rule parses_andthen [OF IH(2)])
  show "4 * (length s - i) + 2 \<le> n" using n by simp
  fix c j assume j: "i \<le> j" "good_cmd s c"
  let ?k = "snd (snd (gettoken s j))"
  have "parses s j u (andthen (parsepipe n s ?k u) (\<lambda>r u. Ret (Pipecmd c (fst r), snd r) u))" if p: "peek s j ''|''"
  proof (rule parses_mono [OF parses_andthen [OF IH(1)]])
    show "4 * (length s - ?k) + 3 \<le> n" "j \<le> ?k" using peek_next [OF p, of i] n j(1) by simp_all
  qed (use j in auto)
  then show "parses s j u (if peek s (snd (c, j)) ''|'' then
    andthen (parsepipe n s (snd (snd (gettoken s (snd (c, j))))) u) (\<lambda>r u. Ret (Pipecmd (fst (c, j)) (fst r), snd r) u)
    else Ret (fst (c, j), skip_ws s (snd (c, j))) u)"
    using j skip_ws_ge [of j s] by simp
qed

lemma parseblock_step:
  assumes IH: "\<And>i. 4 * (length s - i) + 4 \<le> n \<Longrightarrow> parses s i u (parseline n s i u)"
    and n: "4 * (length s - i) + 1 \<le> Suc n"
  shows "parses s i u (parseblock (Suc n) s i u)"
proof (cases "peek s i ''(''")
  case p: True
  let ?k = "snd (snd (gettoken s i))"
  have "parses s i u (andthen (parseline n s ?k u) (\<lambda>r u.
      if \<not> peek s (snd r) '')'' then sh_panic ''syntax - missing )'' u
      else parseredirs s (fst r) (snd (snd (gettoken s (snd r)))) u))"
  proof (rule parses_mono [OF parses_andthen [OF IH]])
    show "4 * (length s - ?k) + 4 \<le> n" "i \<le> ?k" using peek_next [OF p, of i] n by simp_all
    fix c j assume "good_cmd s c"
    then show "parses s j u (if \<not> peek s (snd (c, j)) '')'' then sh_panic ''syntax - missing )'' u
      else parseredirs s (fst (c, j)) (snd (snd (gettoken s (snd (c, j))))) u)"
      using parses_mono [OF parseredirs_parses gettoken_ge] by simp
  qed
  then show ?thesis using p by (simp add: parseblock.simps [of "Suc n"])
qed (simp add: parseblock.simps [of "Suc n"])

lemma parseexec_step:
  assumes IH: "\<And>i. 4 * (length s - i) + 1 \<le> n \<Longrightarrow> parses s i u (parseblock n s i u)"
    and n: "4 * (length s - i) + 2 \<le> Suc n"
  shows "parses s i u (parseexec (Suc n) s i u)"
proof (cases "peek s i ''(''")
  case True
  have "4 * (length s - skip_ws s i) + 1 \<le> n" using n skip_ws_ge [of i s] by linarith
  then have "parses s i u (parseblock n s (skip_ws s i) u)" using IH skip_ws_ge by (blast intro: parses_mono)
  then show ?thesis using True by (simp add: parseexec.simps [of "Suc n"])
next
  case False
  have "parses s (skip_ws s i) u (andthen (parseredirs s (Execcmd []) (skip_ws s i) u) (\<lambda>r u. parseargs s (fst r) [] (snd r) u))"
    by (rule parses_andthen [OF parseredirs_parses]) (simp_all add: parseargs_parses)
  then show ?thesis using False parses_mono [OF _ skip_ws_ge] by (simp add: parseexec.simps [of "Suc n"])
qed

lemma parser_parses:
  "(4 * (length s - i) + 4 \<le> n \<longrightarrow> parses s i u (parseline n s i u)) \<and>
   (4 * (length s - i) + 3 \<le> n \<longrightarrow> parses s i u (parsepipe n s i u)) \<and>
   (4 * (length s - i) + 1 \<le> n \<longrightarrow> parses s i u (parseblock n s i u)) \<and>
   (4 * (length s - i) + 2 \<le> n \<longrightarrow> parses s i u (parseexec n s i u))"
proof (induction n arbitrary: i)
  case (Suc n)
  then show ?case by (simp add: parseline_step parsepipe_step parseblock_step parseexec_step)
qed simp

section \<open>The words after termination\<close>

definition span_text :: "u8 list \<Rightarrow> span \<Rightarrow> u8 list" where
  "span_text s w = take (snd w - fst w) (drop (fst w) s)"

lemma nth_fold_zero:
  "length (fold (\<lambda>w buf. buf[snd w := 0]) ws buf) = length buf \<and>
   (k < length buf \<longrightarrow> fold (\<lambda>w buf. buf[snd w := 0]) ws buf ! k = (if k \<in> snd ` set ws then 0 else buf ! k))"
  for ws :: "span list" and buf :: "u8 list"
  by (induction ws arbitrary: buf) (auto simp: nth_list_update)

lemma nth_nulterminate:
  "length (nulterminate c buf) = length buf \<and>
   (k < length buf \<longrightarrow> nulterminate c buf ! k = (if k \<in> snd ` set_cmd c then 0 else buf ! k))"
proof (induction c arbitrary: buf)
  case (Execcmd argv)
  then show ?case using nth_fold_zero [of argv buf k] by simp
next
  case (Redircmd c f mode fd)
  then show ?case using Redircmd.IH [of buf] by (cases "k = snd f") (simp_all add: nth_list_update_neq)
qed auto

lemma upto_nul_span:
  assumes "q \<le> e" and "e < length b" and "b ! e = 0" and "e \<le> length s" and "\<And>k. q \<le> k \<Longrightarrow> k < e \<Longrightarrow> b ! k = s ! k \<and> s ! k \<noteq> 0"
  shows "upto_nul (drop q b) = span_text s (q, e)"
proof -
  have t: "take (e - q) (drop q b) = take (e - q) (drop q s)" using assms by (intro nth_equalityI) auto
  have "drop q b = take (e - q) (drop q b) @ drop e b"
    using assms(1) append_take_drop_id [of "e - q" "drop q b"] by simp
  then have d: "drop q b = take (e - q) (drop q s) @ 0 # drop (Suc e) b"
    using t Cons_nth_drop_Suc [OF assms(2)] assms(3) by simp
  have "\<forall>x \<in> set (take (e - q) (drop q s)). x \<noteq> 0" using assms(1,4,5) by (force simp: in_set_conv_nth)
  then show ?thesis unfolding upto_nul_def d span_text_def by (simp add: takeWhile_append2)
qed

lemma upto_nul_parts:
  assumes "0 \<in> set buf"
  shows "length (upto_nul buf) < length buf" and "k < length (upto_nul buf) \<Longrightarrow> upto_nul buf ! k = buf ! k \<and> buf ! k \<noteq> 0"
proof -
  show "length (upto_nul buf) < length buf" using assms by (induction buf) auto
  assume k: "k < length (upto_nul buf)"
  then show "upto_nul buf ! k = buf ! k \<and> buf ! k \<noteq> 0"
    unfolding upto_nul_def by (metis (mono_tags, lifting) nth_mem set_takeWhileD takeWhile_nth)
qed

lemma str_at_nulterminate:
  assumes "0 \<in> set buf" and good: "good_cmd (upto_nul buf) c" and w: "w \<in> set_cmd c"
  shows "str_at (nulterminate c buf) w = span_text (upto_nul buf) w"
proof -
  let ?s = "upto_nul buf" and ?b = "nulterminate c buf"
  obtain q e where we: "w = (q, e)" by (cases w)
  have g: "q < e" "e \<le> length ?s" "\<And>k. q \<le> k \<Longrightarrow> k < e \<Longrightarrow> word_char (?s ! k)"
    using good w we by (auto simp: good_span_def)
  have l: "length ?b = length buf" "length ?s < length buf" using nth_nulterminate upto_nul_parts(1) [OF assms(1)] by auto
  have "?b ! e = 0" using nth_nulterminate [of c buf e] g(2) l(2) w we by force
  moreover have "?b ! k = ?s ! k \<and> ?s ! k \<noteq> 0" if k: "q \<le> k" "k < e" for k
  proof -
    have "k \<notin> snd ` set_cmd c"
    proof
      assume "k \<in> snd ` set_cmd c"
      then obtain w' where "w' \<in> set_cmd c" "snd w' = k" by auto
      then have "\<not> word_char (?s ! k)" using good k g(2) by (auto simp: good_span_def)
      then show False using g(3) k by simp
    qed
    then show ?thesis using nth_nulterminate [of c buf k] upto_nul_parts [OF assms(1)] k g(2) l(2) by auto
  qed
  ultimately show ?thesis unfolding str_at_def we using upto_nul_span [of q e ?b ?s] g l by simp
qed



section \<open>Texts of commands\<close>

text \<open>Tokens, and a text as tokens with the white space after each.  Two tokens that would run together must be kept apart.\<close>

datatype token = TWord "u8 list" | TSym u8

fun tok_text :: "token \<Rightarrow> u8 list" where
  "tok_text (TWord w) = w"
| "tok_text (TSym c) = (if c = of_char CHR ''+'' then ascii ''>>'' else [c])"

fun tok_kind :: "token \<Rightarrow> u8" where
  "tok_kind (TWord w) = of_char CHR ''a''"
| "tok_kind (TSym c) = c"

fun proper_tok :: "token \<Rightarrow> bool" where
  "proper_tok (TWord w) \<longleftrightarrow> w \<noteq> [] \<and> (\<forall>b \<in> set w. word_char b \<and> b \<noteq> 0)"
| "proper_tok (TSym c) \<longleftrightarrow> c \<in> set (ascii ''|();&<>+'')"

fun glues :: "token \<Rightarrow> token \<Rightarrow> bool" where
  "glues (TWord _) (TWord _) = True"
| "glues (TSym c) (TSym d) = (c = of_char CHR ''>'' \<and> (d = of_char CHR ''>'' \<or> d = of_char CHR ''+''))"
| "glues _ _ = False"

fun spelt :: "(token \<times> u8 list) list \<Rightarrow> u8 list" where
  "spelt [] = []"
| "spelt ((t, w) # ts) = tok_text t @ w @ spelt ts"

fun proper :: "(token \<times> u8 list) list \<Rightarrow> bool" where
  "proper [] = True"
| "proper ((t, w) # ts) \<longleftrightarrow> proper_tok t \<and> set w \<subseteq> set whitespace \<and> (w = [] \<and> ts \<noteq> [] \<longrightarrow> \<not> glues t (fst (hd ts))) \<and> proper ts"

definition ahead :: "u8 list \<Rightarrow> nat \<Rightarrow> (token \<times> u8 list) list \<Rightarrow> bool" where
  "ahead s i ts \<longleftrightarrow> i \<le> length s \<and> proper ts \<and> (\<exists>w. set w \<subseteq> set whitespace \<and> drop i s = w @ spelt ts)"

lemma skip_ws_eq: "i \<le> length s \<Longrightarrow> skip_ws s i = i + length (takeWhile (\<lambda>b. b \<in> set whitespace) (drop i s))"
proof (induction s i rule: skip_ws.induct)
  case (1 s i)
  show ?case
  proof (cases "i < length s")
    case True
    then show ?thesis using 1 Cons_nth_drop_Suc [OF True, symmetric] by (subst skip_ws.simps) auto
  next
    case False
    then show ?thesis using 1 by (subst skip_ws.simps) simp
  qed
qed

lemma skip_word_eq: "i \<le> length s \<Longrightarrow> skip_word s i = i + length (takeWhile word_char (drop i s))"
proof (induction s i rule: skip_word.induct)
  case (1 s i)
  show ?case
  proof (cases "i < length s")
    case True
    then show ?thesis using 1 Cons_nth_drop_Suc [OF True, symmetric] by (subst skip_word.simps) (auto simp: word_char_def [abs_def])
  next
    case False
    then show ?thesis using 1 by (subst skip_word.simps) simp
  qed
qed

lemma byte_at_drop: "byte_at s k = (case drop k s of [] \<Rightarrow> 0 | b # _ \<Rightarrow> b)"
proof (cases "k < length s")
  case True
  then show ?thesis using Cons_nth_drop_Suc [OF True, symmetric] by (simp add: byte_at_def)
qed (simp add: byte_at_def)

lemma ascii_bytes:
  "set whitespace = {32, 9, 13, 10, 11}" "set symbols = {60, 124, 62, 38, 59, 40, 41}"
  "set (ascii ''|();&<>+'') = {124, 40, 41, 59, 38, 60, 62, 43}" "set (ascii ''|();&<'') = {124, 40, 41, 59, 38, 60}" "ascii ''>>'' = [62, 62]"
  by (auto simp: whitespace_def symbols_def ascii_def)

lemma tok_first:
  assumes "proper_tok t"
  obtains b bs where "tok_text t = b # bs" and "b \<noteq> 0" and "b \<notin> set whitespace" and "word_char b \<longleftrightarrow> (\<exists>w. t = TWord w)"
    and "b = 62 \<longleftrightarrow> t = TSym 62 \<or> t = TSym 43"
proof (cases t)
  case (TWord w)
  then obtain b bs where "w = b # bs" "word_char b" "b \<noteq> 0" using assms by (cases w) auto
  then show thesis using that [of b bs] TWord by (auto simp: word_char_def ascii_bytes)
next
  case (TSym c)
  then have "c \<in> {124, 40, 41, 59, 38, 60, 62, 43}" using assms unfolding ascii_bytes(3) [symmetric] by simp
  then show thesis using that TSym by (auto simp: word_char_def ascii_bytes)
qed

lemma spelt_first:
  assumes "proper ts"
  shows "takeWhile (\<lambda>b. b \<in> set whitespace) (spelt ts) = []"
proof (cases ts)
  case (Cons x ts')
  obtain t w where x: "x = (t, w)" by (cases x)
  then have "proper_tok t" using assms Cons by simp
  then show ?thesis using Cons x by (elim tok_first) simp
qed simp

lemma ahead_ws:
  assumes "ahead s i ts"
  shows "drop (skip_ws s i) s = spelt ts" and "skip_ws s i \<le> length s" and "ahead s (skip_ws s i) ts"
proof -
  obtain w where w: "i \<le> length s" "proper ts" "set w \<subseteq> set whitespace" "drop i s = w @ spelt ts" using assms by (auto simp: ahead_def)
  have "takeWhile (\<lambda>b. b \<in> set whitespace) (w @ spelt ts) = w" using w(3) spelt_first [OF w(2)] by (subst takeWhile_append2) auto
  then have q: "skip_ws s i = i + length w" using skip_ws_eq [OF w(1)] w(4) by simp
  have "drop (skip_ws s i) s = drop (length w) (drop i s)" unfolding q by (simp add: add.commute)
  then show d: "drop (skip_ws s i) s = spelt ts" unfolding w(4) by simp
  have "length w \<le> length (drop i s)" unfolding w(4) by simp
  then show l: "skip_ws s i \<le> length s" unfolding q using w(1) by simp
  show "ahead s (skip_ws s i) ts" unfolding ahead_def using d l w(2) by (intro conjI exI [of _ "[]"]) simp_all
qed

lemma ahead_peek:
  assumes "ahead s i ts"
  shows "peek s i toks \<longleftrightarrow> ts \<noteq> [] \<and> hd (tok_text (fst (hd ts))) \<in> set (ascii toks)"
proof (cases ts)
  case Nil
  then show ?thesis using ahead_ws(1) [OF assms] by (simp add: peek_def byte_at_drop)
next
  case (Cons x ts')
  obtain t w where x: "x = (t, w)" by (cases x)
  then have "proper_tok t" using assms Cons by (simp add: ahead_def)
  then show ?thesis using ahead_ws(1) [OF assms] Cons x by (elim tok_first) (simp add: peek_def byte_at_drop)
qed

lemma gettoken_nil:
  assumes "ahead s i []"
  shows "fst (gettoken s i) = 0" and "ahead s (snd (snd (gettoken s i))) []"
proof -
  have b: "byte_at s (skip_ws s i) = 0" using ahead_ws(1) [OF assms] by (simp add: byte_at_drop)
  then show "fst (gettoken s i) = 0" by (simp add: gettoken_def Let_def)
  show "ahead s (snd (snd (gettoken s i))) []" using b ahead_ws(3) [OF ahead_ws(3) [OF assms]] by (simp add: gettoken_def Let_def)
qed

text \<open>The first byte after a token, as far as the scanner looks at it.\<close>

lemma after_token:
  assumes "proper ((t, w) # ts)"
  shows "t = TWord v \<Longrightarrow> takeWhile word_char (w @ spelt ts) = []" and "t = TSym 62 \<Longrightarrow> (case w @ spelt ts of [] \<Rightarrow> 0 | b # _ \<Rightarrow> b) \<noteq> 62"
proof -
  have "(case w @ spelt ts of [] \<Rightarrow> True | b # _ \<Rightarrow> (t = TWord v \<longrightarrow> \<not> word_char b) \<and> (t = TSym 62 \<longrightarrow> b \<noteq> 62))"
  proof (cases w)
    case (Cons b w')
    then have "b \<in> set whitespace" using assms by simp
    then show ?thesis using Cons by (auto simp: word_char_def ascii_bytes)
  next
    case Nil
    show ?thesis
    proof (cases ts)
      case (Cons x ts')
      obtain t' w' where x: "x = (t', w')" by (cases x)
      then have p: "proper_tok t'" "\<not> glues t t'" using assms Cons \<open>w = []\<close> by simp_all
      from p(1) show ?thesis
      proof (rule tok_first)
        fix b bs assume b: "tok_text t' = b # bs" "word_char b \<longleftrightarrow> (\<exists>w. t' = TWord w)" "b = 62 \<longleftrightarrow> t' = TSym 62 \<or> t' = TSym 43"
        then show ?thesis using Cons x p(2) \<open>w = []\<close> by auto
      qed
    qed (simp add: Nil)
  qed
  then show "t = TWord v \<Longrightarrow> takeWhile word_char (w @ spelt ts) = []" and "t = TSym 62 \<Longrightarrow> (case w @ spelt ts of [] \<Rightarrow> 0 | b # _ \<Rightarrow> b) \<noteq> 62"
    by (cases "w @ spelt ts"; simp)+
qed

lemma gettoken_token:
  assumes "ahead s i ((t, w) # ts)"
  shows "fst (gettoken s i) = tok_kind t" and "span_text s (fst (snd (gettoken s i))) = tok_text t" and "ahead s (snd (snd (gettoken s i))) ts"
proof -
  let ?q = "skip_ws s i"
  let ?e = "?q + length (tok_text t)"
  have d: "drop ?q s = tok_text t @ w @ spelt ts" and ql: "?q \<le> length s" using ahead_ws [OF assms] by simp_all
  have p: "proper ((t, w) # ts)" using assms by (simp add: ahead_def)
  have de: "drop ?e s = w @ spelt ts"
  proof -
    have "drop ?e s = drop (length (tok_text t)) (drop ?q s)" by (simp add: add.commute)
    then show ?thesis unfolding d by simp
  qed
  have "length (tok_text t) \<le> length (drop ?q s)" unfolding d by simp
  then have el: "?e \<le> length s" using ql by simp
  have g: "gettoken s i = (tok_kind t, (?q, ?e), skip_ws s ?e)"
  proof (cases t)
    case (TWord v)
    then obtain b bs where v: "v = b # bs" "word_char b" "b \<noteq> 0" using p by (cases v) auto
    have "takeWhile word_char (v @ w @ spelt ts) = v"
      using p after_token(1) [OF p TWord] TWord by (subst takeWhile_append2) auto
    then have "skip_word s ?q = ?e" using skip_word_eq [OF ql] d TWord by simp
    moreover have "b \<notin> {124, 40, 41, 59, 38, 60}" "b \<noteq> 62" using v(2) by (auto simp: word_char_def ascii_bytes)
    ultimately show ?thesis using d v TWord by (simp add: gettoken_def byte_at_drop Let_def ascii_bytes)
  next
    case (TSym c)
    then have c: "c \<in> {124, 40, 41, 59, 38, 60, 62, 43}" using p unfolding ascii_bytes(3) [symmetric] by simp
    have n: "drop (Suc ?q) s = tl (tok_text t @ w @ spelt ts)" unfolding d [symmetric] by (simp add: drop_Suc tl_drop)
    show ?thesis using c d n after_token(2) [OF p] TSym
      by (auto simp: gettoken_def byte_at_drop Let_def ascii_bytes)
  qed
  show "fst (gettoken s i) = tok_kind t" using g by simp
  show "span_text s (fst (snd (gettoken s i))) = tok_text t" using g d by (simp add: span_text_def)
  have "ahead s ?e ts" unfolding ahead_def using de el p by auto
  then show "ahead s (snd (snd (gettoken s i))) ts" using g ahead_ws(3) by simp
qed

text \<open>The grammar of command lines, the tokens of a line and the command it stands for.\<close>

datatype redir_op = RIn | ROut | RApp

datatype redir = Redir redir_op "u8 list"

datatype line = Lone pipeline nat | Seq pipeline nat line
  and pipeline = Stage simple | Piped simple pipeline
  and simple = Words "redir list" "(u8 list \<times> redir list) list" | Block line "redir list"

primrec op_byte :: "redir_op \<Rightarrow> u8" where
  "op_byte RIn = of_char CHR ''<''"
| "op_byte ROut = of_char CHR ''>''"
| "op_byte RApp = of_char CHR ''+''"

primrec redir_toks :: "redir \<Rightarrow> token list" where
  "redir_toks (Redir r f) = [TSym (op_byte r), TWord f]"

abbreviation redirs_toks :: "redir list \<Rightarrow> token list" where
  "redirs_toks rs \<equiv> concat (map redir_toks rs)"

abbreviation args_toks :: "(u8 list \<times> redir list) list \<Rightarrow> token list" where
  "args_toks ws \<equiv> concat (map (\<lambda>(w, rs). TWord w # redirs_toks rs) ws)"

primrec line_toks :: "line \<Rightarrow> token list"
  and pipeline_toks :: "pipeline \<Rightarrow> token list"
  and simple_toks :: "simple \<Rightarrow> token list" where
  "line_toks (Lone p k) = pipeline_toks p @ replicate k (TSym (of_char CHR ''&''))"
| "line_toks (Seq p k l) = pipeline_toks p @ replicate k (TSym (of_char CHR ''&'')) @ TSym (of_char CHR '';'') # line_toks l"
| "pipeline_toks (Stage x) = simple_toks x"
| "pipeline_toks (Piped x p) = simple_toks x @ TSym (of_char CHR ''|'') # pipeline_toks p"
| "simple_toks (Words rs ws) = redirs_toks rs @ args_toks ws"
| "simple_toks (Block l rs) = TSym (of_char CHR ''('') # line_toks l @ TSym (of_char CHR '')'') # redirs_toks rs"

primrec redir_cmd :: "redir \<Rightarrow> u8 list cmd \<Rightarrow> u8 list cmd" where
  "redir_cmd (Redir r f) c =
     (case r of RIn \<Rightarrow> Redircmd c f O_RDONLY 0
      | ROut \<Rightarrow> Redircmd c f (O_WRONLY OR O_CREATE OR O_TRUNC) 1
      | RApp \<Rightarrow> Redircmd c f (O_WRONLY OR O_CREATE) 1)"

primrec line_cmd :: "line \<Rightarrow> u8 list cmd"
  and pipeline_cmd :: "pipeline \<Rightarrow> u8 list cmd"
  and simple_cmd :: "simple \<Rightarrow> u8 list cmd" where
  "line_cmd (Lone p k) = (Backcmd ^^ k) (pipeline_cmd p)"
| "line_cmd (Seq p k l) = Listcmd ((Backcmd ^^ k) (pipeline_cmd p)) (line_cmd l)"
| "pipeline_cmd (Stage x) = simple_cmd x"
| "pipeline_cmd (Piped x p) = Pipecmd (simple_cmd x) (pipeline_cmd p)"
| "simple_cmd (Words rs ws) = fold redir_cmd (rs @ concat (map snd ws)) (Execcmd (map fst ws))"
| "simple_cmd (Block l rs) = fold redir_cmd rs (line_cmd l)"

primrec few_args :: "line \<Rightarrow> bool"
  and few_args_p :: "pipeline \<Rightarrow> bool"
  and few_args_s :: "simple \<Rightarrow> bool" where
  "few_args (Lone p k) = few_args_p p"
| "few_args (Seq p k l) = (few_args_p p \<and> few_args l)"
| "few_args_p (Stage x) = few_args_s x"
| "few_args_p (Piped x p) = (few_args_s x \<and> few_args_p p)"
| "few_args_s (Words rs ws) = (length ws < MAXARGS)"
| "few_args_s (Block l rs) = few_args l"

text \<open>A parsing step has read what stands for \<open>d\<close> and stopped before the tokens \<open>rest\<close>.\<close>

definition gives :: "u8 list \<Rightarrow> ust \<Rightarrow> (span cmd \<times> nat) uout \<Rightarrow> u8 list cmd \<Rightarrow> token list \<Rightarrow> bool" where
  "gives s u r d fol \<longleftrightarrow> (\<exists>c j ts. r = Ret (c, j) u \<and> map_cmd (span_text s) c = d \<and> ahead s j ts \<and> map fst ts = fol)"

lemma map_redircmd: "map_cmd f (redircmd tok c w) = redircmd tok (map_cmd f c) (f w)"
  by (simp add: redircmd_def)

lemma redircmd_op: "redircmd (op_byte r) c f = redir_cmd (Redir r f) c"
  by (cases r) (simp_all add: redircmd_def)

definition starts :: "token list \<Rightarrow> u8 list \<Rightarrow> bool" where
  "starts ts bs \<longleftrightarrow> ts \<noteq> [] \<and> hd (tok_text (hd ts)) \<in> set bs"

lemma starts_simps [simp]:
  "starts [] bs = False" "starts (t # ts) bs \<longleftrightarrow> hd (tok_text t) \<in> set bs"
  by (simp_all add: starts_def)

lemma peek_starts: "ahead s i ts \<Longrightarrow> peek s i toks \<longleftrightarrow> starts (map fst ts) (ascii toks)"
  by (cases ts) (simp_all add: ahead_peek)

lemma parseredirs_gives:
  assumes "ahead s i ts" and "map fst ts = redirs_toks rs @ fol" and "\<not> starts fol (ascii ''<>'')"
  shows "gives s u (parseredirs s c i u) (fold redir_cmd rs (map_cmd (span_text s) c)) fol"
  using assms
proof (induction rs arbitrary: c i ts)
  case Nil
  then have "\<not> peek s i ''<>''" by (simp add: peek_starts)
  then show ?case using Nil ahead_ws(3) by (subst parseredirs.simps) (auto simp: gives_def)
next
  case (Cons r rs)
  obtain oper f where r: "r = Redir oper f" by (cases r)
  then obtain w w' ts' where ts: "ts = (TSym (op_byte oper), w) # (TWord f, w') # ts'" "map fst ts' = redirs_toks rs @ fol"
    using Cons.prems(2) by (auto simp: map_eq_Cons_conv)
  let ?t = "gettoken s i" let ?f = "gettoken s (snd (snd ?t))"
  have t: "fst ?t = op_byte oper" "ahead s (snd (snd ?t)) ((TWord f, w') # ts')"
    using gettoken_token [OF Cons.prems(1) [unfolded ts(1)]] by simp_all
  have f: "fst ?f = of_char CHR ''a''" "span_text s (fst (snd ?f)) = f" "ahead s (snd (snd ?f)) ts'"
    using gettoken_token [OF t(2)] by simp_all
  have p: "peek s i ''<>''" unfolding peek_starts [OF Cons.prems(1)] ts(1) by (cases oper) (simp_all add: ascii_def)
  have "parseredirs s c i u = parseredirs s (redircmd (op_byte oper) c (fst (snd ?f))) (snd (snd ?f)) u"
    using p f(1) t(1) by (subst parseredirs.simps) (simp add: Let_def)
  then show ?case using Cons.IH [OF f(3) ts(2) Cons.prems(3), of "redircmd (op_byte oper) c (fst (snd ?f))"] r f(2)
    by (simp add: map_redircmd redircmd_op)
qed

lemma parseamps_gives:
  assumes "ahead s i ts" and "map fst ts = replicate k (TSym (of_char CHR ''&'')) @ fol" and "\<not> starts fol (ascii ''&'')"
  shows "\<exists>ts'. map_cmd (span_text s) (fst (parseamps s c i)) = (Backcmd ^^ k) (map_cmd (span_text s) c) \<and>
    ahead s (snd (parseamps s c i)) ts' \<and> map fst ts' = fol"
  using assms
proof (induction k arbitrary: c i ts)
  case 0
  then have "\<not> peek s i ''&''" by (simp add: peek_starts)
  then have "parseamps s c i = (c, skip_ws s i)" by (subst parseamps.simps) simp
  then show ?case using 0 ahead_ws(3) by auto
next
  case (Suc k)
  then obtain w ts' where ts: "ts = (TSym (of_char CHR ''&''), w) # ts'" "map fst ts' = replicate k (TSym (of_char CHR ''&'')) @ fol"
    by (auto simp: map_eq_Cons_conv)
  have "peek s i ''&''" unfolding peek_starts [OF Suc.prems(1)] ts(1) by (simp add: ascii_def)
  then have "parseamps s c i = parseamps s (Backcmd c) (snd (snd (gettoken s i)))" by (subst parseamps.simps) simp
  moreover have "ahead s (snd (snd (gettoken s i))) ts'" using gettoken_token(3) [OF Suc.prems(1) [unfolded ts(1)]] .
  ultimately show ?case using Suc.IH [OF _ ts(2) Suc.prems(3), of "snd (snd (gettoken s i))" "Backcmd c"] by (simp add: funpow_swap1)
qed

lemma gives_andthen:
  assumes "andthen r k \<noteq> Diverge" and "r \<noteq> Diverge \<Longrightarrow> gives s u r d fol"
    and "\<And>c j ts. map_cmd (span_text s) c = d \<Longrightarrow> ahead s j ts \<Longrightarrow> map fst ts = fol \<Longrightarrow> k (c, j) u \<noteq> Diverge \<Longrightarrow> gives s u (k (c, j) u) d' fol'"
  shows "gives s u (andthen r k) d' fol'"
proof -
  have "r \<noteq> Diverge" using assms(1) by auto
  then obtain c j ts where r: "r = Ret (c, j) u" "map_cmd (span_text s) c = d" "ahead s j ts" "map fst ts = fol"
    using assms(2) by (auto simp: gives_def)
  then show ?thesis using assms(1) assms(3) [OF r(2-4)] by simp
qed

definition follow :: "string \<Rightarrow> token list \<Rightarrow> bool" where
  "follow bs fol \<longleftrightarrow> fol = [] \<or> (\<exists>b \<in> set (ascii bs). hd fol = TSym b)"

lemma follow_starts:
  assumes "follow bs fol" and "set (ascii bs) \<subseteq> set symbols"
  shows "starts fol (ascii cs) \<longleftrightarrow> fol \<noteq> [] \<and> (\<exists>b \<in> set (ascii bs) \<inter> set (ascii cs). hd fol = TSym b)"
proof (cases fol)
  case (Cons t ts)
  then obtain b where "b \<in> set (ascii bs)" "t = TSym b" using assms(1) by (auto simp: follow_def)
  moreover from this have "b \<noteq> 43" using assms(2) by (auto simp: ascii_bytes)
  ultimately show ?thesis using Cons by auto
qed simp

lemma proper_all: "proper ts \<Longrightarrow> t \<in> set (map fst ts) \<Longrightarrow> proper_tok t"
  by (induction ts rule: proper.induct) auto

lemma word_starts:
  assumes "proper_tok (TWord w)" and "set bs \<subseteq> set symbols"
  shows "\<not> starts (TWord w # ts) bs"
  using assms by (cases w) (auto simp: word_char_def)

lemma follow_ex [simp]: "set (ascii ''|)&;'') \<subseteq> set symbols" "set (ascii '')&;'') \<subseteq> set symbols"
  by (auto simp: symbols_def ascii_def)

lemma follow_mono: "follow bs fol \<Longrightarrow> set (ascii bs) \<subseteq> set (ascii cs) \<Longrightarrow> follow cs fol"
  by (auto simp: follow_def)

lemma follow_not [simp]:
  "follow ''|)&;'' fol \<Longrightarrow> \<not> starts fol (ascii ''<>'')"
  "follow '')&;'' fol \<Longrightarrow> \<not> starts fol (ascii ''|'')"
  "follow '')'' fol \<Longrightarrow> \<not> starts fol (ascii '';'')"
  "follow '')'' fol \<Longrightarrow> \<not> starts fol (ascii ''&'')"
  by (simp_all add: follow_starts) (simp_all add: ascii_def)

lemma with_argv_redirs: "with_argv argv (fold redir_cmd rs c) = fold redir_cmd rs (with_argv argv c)"
proof (induction rs arbitrary: c)
  case (Cons r rs)
  have "with_argv argv (redir_cmd r c) = redir_cmd r (with_argv argv c)"
    by (cases r) (simp split: redir_op.split)
  then show ?case using Cons by simp
qed simp

lemma map_with_argv: "map_cmd f (with_argv argv c) = with_argv (map f argv) (map_cmd f c)"
  by (induction c) simp_all

lemma args_starts:
  assumes "\<And>t. t \<in> set (args_toks ws) \<Longrightarrow> proper_tok t" and "set bs \<subseteq> set symbols" and "\<not> starts fol bs"
  shows "\<not> starts (args_toks ws @ fol) bs"
proof (cases ws)
  case (Cons y ws')
  obtain w rs where y: "y = (w, rs)" by (cases y)
  have "proper_tok (TWord w)" by (rule assms(1)) (simp add: Cons y)
  then show ?thesis using word_starts [of w bs] assms(2) Cons y by simp
qed (use assms(3) in simp)

lemma parseargs_gives:
  assumes "ahead s i ts" and "map fst ts = args_toks ws @ fol" and "follow ''|)&;'' fol" and "length argv + length ws < MAXARGS"
  shows "gives s u (parseargs s ret argv i u)
    (with_argv (map (span_text s) argv @ map fst ws) (fold redir_cmd (concat (map snd ws)) (map_cmd (span_text s) ret))) fol"
  using assms
proof (induction ws arbitrary: ret argv i ts)
  case Nil
  show ?case
  proof (cases fol)
    case fol: Nil
    then have a: "ahead s i []" "\<not> peek s i ''|)&;''" using Nil by (auto simp: ahead_peek)
    then have "parseargs s ret argv i u = Ret (with_argv argv ret, snd (snd (gettoken s i))) u"
      using gettoken_nil(1) by (subst parseargs.simps) (simp add: Let_def)
    then show ?thesis using gettoken_nil(2) [OF a(1)] fol by (auto simp: gives_def map_with_argv)
  next
    case (Cons t fol')
    then have "starts fol (ascii ''|)&;'')"
      using follow_starts [OF Nil.prems(3) follow_ex(1), of "''|)&;''"] Nil.prems(3) unfolding follow_def by blast
    then have "peek s i ''|)&;''" using Nil.prems(2) peek_starts [OF Nil.prems(1)] by simp
    then show ?thesis using Nil.prems ahead_ws(3) by (subst parseargs.simps) (auto simp: gives_def map_with_argv)
  qed
next
  case (Cons x ws)
  obtain w rs where x: "x = (w, rs)" by (cases x)
  then obtain v ts' where ts: "ts = (TWord w, v) # ts'" "map fst ts' = redirs_toks rs @ args_toks ws @ fol"
    using Cons.prems(2) by (auto simp: map_eq_Cons_conv)
  have p: "proper ts" using Cons.prems(1) by (simp add: ahead_def)
  let ?t = "gettoken s i"
  have t: "fst ?t = of_char CHR ''a''" "span_text s (fst (snd ?t)) = w" "ahead s (snd (snd ?t)) ts'"
    using gettoken_token [OF Cons.prems(1) [unfolded ts(1)]] by simp_all
  have np: "\<not> peek s i ''|)&;''" unfolding peek_starts [OF Cons.prems(1)] using word_starts [of w "ascii ''|)&;''"] p ts(1) by auto
  have nf: "\<not> starts (args_toks ws @ fol) (ascii ''<>'')"
    by (rule args_starts) (use proper_all [OF p] ts Cons.prems(3) in auto)
  have e: "parseargs s ret argv i u =
      andthen (parseredirs s ret (snd (snd ?t)) u) (\<lambda>r u. parseargs s (fst r) (argv @ [fst (snd ?t)]) (snd r) u)"
    using np t(1) Cons.prems(4) by (subst parseargs.simps) (simp add: Let_def)
  obtain c j ts2 where r: "parseredirs s ret (snd (snd ?t)) u = Ret (c, j) u"
      "map_cmd (span_text s) c = fold redir_cmd rs (map_cmd (span_text s) ret)" "ahead s j ts2" "map fst ts2 = args_toks ws @ fol"
    using parseredirs_gives [OF t(3) ts(2) nf, of u ret] by (auto simp: gives_def)
  show ?case using Cons.IH [OF r(3,4) Cons.prems(3), of "argv @ [fst (snd ?t)]" c] Cons.prems(4) e r(1,2) t(2) x by simp
qed

lemma parseexec_gives:
  assumes IH: "\<And>i ts l rs fol. ahead s i ts \<Longrightarrow> map fst ts = simple_toks (Block l rs) @ fol \<Longrightarrow> few_args l \<Longrightarrow> follow ''|)&;'' fol \<Longrightarrow>
      parseblock n s i u \<noteq> Diverge \<Longrightarrow> gives s u (parseblock n s i u) (simple_cmd (Block l rs)) fol"
    and a: "ahead s i ts" "map fst ts = simple_toks x @ fol" "few_args_s x" "follow ''|)&;'' fol" "parseexec (Suc n) s i u \<noteq> Diverge"
  shows "gives s u (parseexec (Suc n) s i u) (simple_cmd x) fol"
proof (cases x)
  case (Block l rs)
  have p: "peek s i ''(''" unfolding peek_starts [OF a(1)] a(2) by (simp add: Block ascii_def)
  then have "parseexec (Suc n) s i u = parseblock n s (skip_ws s i) u" by (simp add: parseexec.simps)
  then show ?thesis using IH [OF ahead_ws(3) [OF a(1)], of l rs fol] a Block by simp
next
  case (Words rs ws)
  have p: "proper ts" using a(1) by (simp add: ahead_def)
  have nf: "\<not> starts (args_toks ws @ fol) bs" if "set bs \<subseteq> set symbols" "\<not> starts fol bs" for bs
    by (rule args_starts) (use proper_all [OF p] a(2) Words that in auto)
  have "\<not> starts fol (ascii ''('')" using a(4) by (simp add: follow_starts) (simp add: ascii_def)
  then have "\<not> starts (simple_toks x @ fol) (ascii ''('')" using nf [of "ascii ''(''"] Words
  proof (cases rs)
    case (Cons r rs')
    then show ?thesis using Words by (cases r; cases "case r of Redir r _ \<Rightarrow> r") (auto simp: ascii_def)
  qed simp
  then have "\<not> peek s i ''(''" unfolding peek_starts [OF a(1)] a(2) .
  then have e: "parseexec (Suc n) s i u =
      andthen (parseredirs s (Execcmd []) (skip_ws s i) u) (\<lambda>r u. parseargs s (fst r) [] (snd r) u)" by (simp add: parseexec.simps)
  have "gives s u (parseredirs s (Execcmd []) (skip_ws s i) u) (fold redir_cmd rs (Execcmd [])) (args_toks ws @ fol)"
    using parseredirs_gives [OF ahead_ws(3) [OF a(1)], of rs "args_toks ws @ fol" u "Execcmd []"] nf [of "ascii ''<>''"] a(2,4) Words by simp
  then obtain c j ts2 where r: "parseredirs s (Execcmd []) (skip_ws s i) u = Ret (c, j) u"
      "map_cmd (span_text s) c = fold redir_cmd rs (Execcmd [])" "ahead s j ts2" "map fst ts2 = args_toks ws @ fol"
    by (auto simp: gives_def)
  show ?thesis using parseargs_gives [OF r(3,4) a(4), of "[]" u c] a(3) Words e r(1,2) by (simp add: with_argv_redirs)
qed

lemma parseblock_gives:
  assumes IH: "\<And>i ts l fol. ahead s i ts \<Longrightarrow> map fst ts = line_toks l @ fol \<Longrightarrow> few_args l \<Longrightarrow> follow '')'' fol \<Longrightarrow>
      parseline n s i u \<noteq> Diverge \<Longrightarrow> gives s u (parseline n s i u) (line_cmd l) fol"
    and a: "ahead s i ts" "map fst ts = simple_toks (Block l rs) @ fol" "few_args l" "follow ''|)&;'' fol" "parseblock (Suc n) s i u \<noteq> Diverge"
  shows "gives s u (parseblock (Suc n) s i u) (simple_cmd (Block l rs)) fol"
proof -
  let ?i = "snd (snd (gettoken s i))"
  let ?k = "\<lambda>r u. if \<not> peek s (snd r) '')'' then sh_panic ''syntax - missing )'' u
    else parseredirs s (fst r) (snd (snd (gettoken s (snd r)))) u"
  obtain w ts' where ts: "ts = (TSym (of_char CHR ''(''), w) # ts'" "map fst ts' = line_toks l @ TSym (of_char CHR '')'') # redirs_toks rs @ fol"
    using a(2) by (auto simp: map_eq_Cons_conv)
  have "peek s i ''(''" unfolding peek_starts [OF a(1)] a(2) by (simp add: ascii_def)
  then have e: "parseblock (Suc n) s i u = andthen (parseline n s ?i u) ?k" by (simp add: parseblock.simps)
  have f: "follow '')'' (TSym (of_char CHR '')'') # redirs_toks rs @ fol)" by (simp add: follow_def ascii_def)
  have "gives s u (andthen (parseline n s ?i u) ?k) (simple_cmd (Block l rs)) fol"
  proof (rule gives_andthen)
    show "andthen (parseline n s ?i u) ?k \<noteq> Diverge" using a(5) e by simp
    show "gives s u (parseline n s ?i u) (line_cmd l) (TSym (of_char CHR '')'') # redirs_toks rs @ fol)" if "parseline n s ?i u \<noteq> Diverge"
      using IH [OF gettoken_token(3) [OF a(1) [unfolded ts(1)]] ts(2) a(3) f that] .
    fix c j ts2 assume c: "map_cmd (span_text s) c = line_cmd l" "ahead s j ts2" "map fst ts2 = TSym (of_char CHR '')'') # redirs_toks rs @ fol"
    obtain w' ts3 where ts2: "ts2 = (TSym (of_char CHR '')''), w') # ts3" "map fst ts3 = redirs_toks rs @ fol"
      using c(3) by (auto simp: map_eq_Cons_conv)
    have "peek s j '')''" unfolding peek_starts [OF c(2)] c(3) by (simp add: ascii_def)
    then show "gives s u (?k (c, j) u) (simple_cmd (Block l rs)) fol"
      using parseredirs_gives [OF gettoken_token(3) [OF c(2) [unfolded ts2(1)]] ts2(2) follow_not(1) [OF a(4)], of u c] c(1) by simp
  qed
  then show ?thesis using e by simp
qed

lemma parsepipe_gives:
  assumes IH: "\<And>i ts p fol. ahead s i ts \<Longrightarrow> map fst ts = pipeline_toks p @ fol \<Longrightarrow> few_args_p p \<Longrightarrow> follow '')&;'' fol \<Longrightarrow>
      parsepipe n s i u \<noteq> Diverge \<Longrightarrow> gives s u (parsepipe n s i u) (pipeline_cmd p) fol"
      "\<And>i ts x fol. ahead s i ts \<Longrightarrow> map fst ts = simple_toks x @ fol \<Longrightarrow> few_args_s x \<Longrightarrow> follow ''|)&;'' fol \<Longrightarrow>
      parseexec n s i u \<noteq> Diverge \<Longrightarrow> gives s u (parseexec n s i u) (simple_cmd x) fol"
    and a: "ahead s i ts" "map fst ts = pipeline_toks p @ fol" "few_args_p p" "follow '')&;'' fol" "parsepipe (Suc n) s i u \<noteq> Diverge"
  shows "gives s u (parsepipe (Suc n) s i u) (pipeline_cmd p) fol"
proof -
  let ?k = "\<lambda>l u. if peek s (snd l) ''|'' then
      andthen (parsepipe n s (snd (snd (gettoken s (snd l)))) u) (\<lambda>r u. Ret (Pipecmd (fst l) (fst r), snd r) u)
    else Ret (fst l, skip_ws s (snd l)) u"
  have e: "parsepipe (Suc n) s i u = andthen (parseexec n s i u) ?k"
    unfolding parsepipe.simps [of "Suc n"] if_not_P [OF nat.distinct(2)] diff_Suc_1 ..
  obtain x fol' where x: "map fst ts = simple_toks x @ fol'" "few_args_s x"
      "p = Stage x \<and> fol' = fol \<or> (\<exists>q. p = Piped x q \<and> fol' = TSym (of_char CHR ''|'') # pipeline_toks q @ fol)"
    using a(2,3) by (cases p) auto
  have f: "follow ''|)&;'' fol'"
    using x(3) follow_mono [OF a(4), of "''|)&;''"] by (auto simp: follow_def ascii_def)
  have "gives s u (andthen (parseexec n s i u) ?k) (pipeline_cmd p) fol"
  proof (rule gives_andthen)
    show "andthen (parseexec n s i u) ?k \<noteq> Diverge" using a(5) e by simp
    show "gives s u (parseexec n s i u) (simple_cmd x) fol'" if "parseexec n s i u \<noteq> Diverge"
      using IH(2) [OF a(1) x(1,2) f that] .
    fix c j ts2 assume c: "map_cmd (span_text s) c = simple_cmd x" "ahead s j ts2" "map fst ts2 = fol'" "?k (c, j) u \<noteq> Diverge"
    from x(3) show "gives s u (?k (c, j) u) (pipeline_cmd p) fol"
    proof (elim disjE conjE exE)
      assume p: "p = Stage x" "fol' = fol"
      have "\<not> peek s j ''|''" using peek_starts [OF c(2)] c(3) p(2) follow_not(2) [OF a(4)] by simp
      then show ?thesis using c p ahead_ws(3) [OF c(2)] by (auto simp: gives_def)
    next
      fix q assume p: "p = Piped x q" "fol' = TSym (of_char CHR ''|'') # pipeline_toks q @ fol"
      obtain w ts3 where ts2: "ts2 = (TSym (of_char CHR ''|''), w) # ts3" "map fst ts3 = pipeline_toks q @ fol"
        using c(3) p(2) by (auto simp: map_eq_Cons_conv)
      have pk: "peek s j ''|''" unfolding peek_starts [OF c(2)] c(3) p(2) by (simp add: ascii_def)
      let ?j = "snd (snd (gettoken s j))"
      have "gives s u (andthen (parsepipe n s ?j u) (\<lambda>r u. Ret (Pipecmd c (fst r), snd r) u)) (pipeline_cmd p) fol"
      proof (rule gives_andthen)
        show "gives s u (parsepipe n s ?j u) (pipeline_cmd q) fol" if "parsepipe n s ?j u \<noteq> Diverge"
          using IH(1) [OF gettoken_token(3) [OF c(2) [unfolded ts2(1)]] ts2(2) _ a(4) that] a(3) p(1) by simp
      qed (use c pk p in \<open>auto simp: gives_def\<close>)
      then show ?thesis using pk by simp
    qed
  qed
  then show ?thesis using e by simp
qed

lemma parseline_gives:
  assumes IH: "\<And>i ts l fol. ahead s i ts \<Longrightarrow> map fst ts = line_toks l @ fol \<Longrightarrow> few_args l \<Longrightarrow> follow '')'' fol \<Longrightarrow>
      parseline n s i u \<noteq> Diverge \<Longrightarrow> gives s u (parseline n s i u) (line_cmd l) fol"
      "\<And>i ts p fol. ahead s i ts \<Longrightarrow> map fst ts = pipeline_toks p @ fol \<Longrightarrow> few_args_p p \<Longrightarrow> follow '')&;'' fol \<Longrightarrow>
      parsepipe n s i u \<noteq> Diverge \<Longrightarrow> gives s u (parsepipe n s i u) (pipeline_cmd p) fol"
    and a: "ahead s i ts" "map fst ts = line_toks l @ fol" "few_args l" "follow '')'' fol" "parseline (Suc n) s i u \<noteq> Diverge"
  shows "gives s u (parseline (Suc n) s i u) (line_cmd l) fol"
proof -
  let ?h = "\<lambda>a u. if peek s (snd a) '';'' then
      andthen (parseline n s (snd (snd (gettoken s (snd a)))) u) (\<lambda>r u. Ret (Listcmd (fst a) (fst r), snd r) u)
    else Ret (fst a, skip_ws s (snd a)) u"
  let ?k = "\<lambda>r u. ?h (parseamps s (fst r) (snd r)) u"
  have e: "parseline (Suc n) s i u = andthen (parsepipe n s i u) ?k"
    unfolding parseline.simps [of "Suc n"] if_not_P [OF nat.distinct(2)] diff_Suc_1 Let_def ..
  obtain p m fol' where x: "map fst ts = pipeline_toks p @ replicate m (TSym (of_char CHR ''&'')) @ fol'" "few_args_p p"
      "l = Lone p m \<and> fol' = fol \<or> (\<exists>q. l = Seq p m q \<and> fol' = TSym (of_char CHR '';'') # line_toks q @ fol)"
    using a(2,3) by (cases l) auto
  have f: "follow '')&;'' fol'" "\<not> starts fol' (ascii ''&'')"
    using x(3) follow_mono [OF a(4), of "'')&;''"] follow_not(4) [OF a(4)] by (auto simp: follow_def ascii_def)
  then have "follow '')&;'' (replicate m (TSym (of_char CHR ''&'')) @ fol')" by (cases m) (auto simp: follow_def ascii_def)
  note f' = this
  have "gives s u (andthen (parsepipe n s i u) ?k) (line_cmd l) fol"
  proof (rule gives_andthen)
    show "andthen (parsepipe n s i u) ?k \<noteq> Diverge" using a(5) e by simp
    show "gives s u (parsepipe n s i u) (pipeline_cmd p) (replicate m (TSym (of_char CHR ''&'')) @ fol')" if "parsepipe n s i u \<noteq> Diverge"
      using IH(2) [OF a(1) x(1,2) f' that] .
    fix c0 j0 ts0 assume c0: "map_cmd (span_text s) c0 = pipeline_cmd p" "ahead s j0 ts0" "map fst ts0 = replicate m (TSym (of_char CHR ''&'')) @ fol'"
      "?k (c0, j0) u \<noteq> Diverge"
    obtain c j ts2 where c: "parseamps s c0 j0 = (c, j)" "map_cmd (span_text s) c = (Backcmd ^^ m) (pipeline_cmd p)" "ahead s j ts2" "map fst ts2 = fol'"
      using parseamps_gives [OF c0(2,3) f(2), of c0] c0(1) by (metis prod.collapse)
    from x(3) have "gives s u (?h (c, j) u) (line_cmd l) fol"
    proof (elim disjE conjE exE)
      assume p: "l = Lone p m" "fol' = fol"
      have "\<not> peek s j '';''" using peek_starts [OF c(3)] c(4) p(2) follow_not(3) [OF a(4)] by simp
      then show ?thesis using c p ahead_ws(3) [OF c(3)] by (auto simp: gives_def)
    next
      fix q assume p: "l = Seq p m q" "fol' = TSym (of_char CHR '';'') # line_toks q @ fol"
      obtain w ts3 where ts2: "ts2 = (TSym (of_char CHR '';''), w) # ts3" "map fst ts3 = line_toks q @ fol"
        using c(4) p(2) by (auto simp: map_eq_Cons_conv)
      have pk: "peek s j '';''" unfolding peek_starts [OF c(3)] c(4) p(2) by (simp add: ascii_def)
      let ?j = "snd (snd (gettoken s j))"
      have "gives s u (andthen (parseline n s ?j u) (\<lambda>r u. Ret (Listcmd c (fst r), snd r) u)) (line_cmd l) fol"
      proof (rule gives_andthen)
        show "gives s u (parseline n s ?j u) (line_cmd q) fol" if "parseline n s ?j u \<noteq> Diverge"
          using IH(1) [OF gettoken_token(3) [OF c(3) [unfolded ts2(1)]] ts2(2) _ a(4) that] a(3) p(1) by simp
      qed (use c c0(4) pk p in \<open>auto simp: gives_def\<close>)
      then show ?thesis using pk by simp
    qed
    then show "gives s u (?k (c0, j0) u) (line_cmd l) fol" by (simp only: fst_conv snd_conv c(1))
  qed
  then show ?thesis using e by simp
qed

lemma parser_gives:
  "(ahead s i ts \<longrightarrow> map fst ts = line_toks l @ fol \<longrightarrow> few_args l \<longrightarrow> follow '')'' fol \<longrightarrow>
     parseline n s i u \<noteq> Diverge \<longrightarrow> gives s u (parseline n s i u) (line_cmd l) fol) \<and>
   (ahead s i ts \<longrightarrow> map fst ts = pipeline_toks p @ fol \<longrightarrow> few_args_p p \<longrightarrow> follow '')&;'' fol \<longrightarrow>
     parsepipe n s i u \<noteq> Diverge \<longrightarrow> gives s u (parsepipe n s i u) (pipeline_cmd p) fol) \<and>
   (ahead s i ts \<longrightarrow> map fst ts = simple_toks (Block l rs) @ fol \<longrightarrow> few_args l \<longrightarrow> follow ''|)&;'' fol \<longrightarrow>
     parseblock n s i u \<noteq> Diverge \<longrightarrow> gives s u (parseblock n s i u) (simple_cmd (Block l rs)) fol) \<and>
   (ahead s i ts \<longrightarrow> map fst ts = simple_toks x @ fol \<longrightarrow> few_args_s x \<longrightarrow> follow ''|)&;'' fol \<longrightarrow>
     parseexec n s i u \<noteq> Diverge \<longrightarrow> gives s u (parseexec n s i u) (simple_cmd x) fol)"
proof (induction n arbitrary: i ts l p x rs fol)
  case 0
  show ?case by (simp add: parseline.simps parsepipe.simps parseblock.simps parseexec.simps)
next
  case (Suc n)
  show ?case
    by (intro conjI impI; (rule parseline_gives parsepipe_gives parseblock_gives parseexec_gives; (assumption | use Suc in blast)))
qed

lemma spelt_nonzero: "proper ts \<Longrightarrow> b \<in> set (spelt ts) \<Longrightarrow> b \<noteq> 0"
proof (induction ts rule: spelt.induct)
  case (2 t w ts)
  have "0 \<notin> set (tok_text t)" using "2.prems"(1) by (cases t) (auto simp: ascii_bytes ascii_def)
  moreover have "0 \<notin> set w" using "2.prems"(1) by (auto simp: ascii_bytes)
  ultimately show ?case using 2 by auto
qed simp

text \<open>The line \<^verbatim>\<open>cat <f|wc>>o & ;(ls)\<close> with its newline.\<close>

definition sample_toks :: "(token \<times> u8 list) list" where
  "sample_toks =
     [(TWord (ascii ''cat''), ascii '' ''), (TSym 60, []), (TWord (ascii ''f''), []), (TSym 124, []), (TWord (ascii ''wc''), []),
      (TSym 43, []), (TWord (ascii ''o''), ascii '' ''), (TSym 38, ascii '' ''), (TSym 59, []), (TSym 40, []), (TWord (ascii ''ls''), []),
      (TSym 41, [10])]"

definition sample_line :: line where
  "sample_line =
     Seq (Piped (Words [] [(ascii ''cat'', [Redir RIn (ascii ''f'')])]) (Stage (Words [] [(ascii ''wc'', [Redir RApp (ascii ''o'')])]))) 1
       (Lone (Stage (Block (Lone (Stage (Words [] [(ascii ''ls'', [])])) 0) [])) 0)"

text \<open>
  C34. The parser reads back every command of the grammar.  Take any line built from pipelines, blocks, lists, background marks and
  redirections with fewer than ten words in each simple command, and any text of it: its tokens with arbitrary white space before,
  between and after them, as long as two tokens that would run together are kept apart.  Then \<^verbatim>\<open>parsecmd\<close> returns, having made no system
  call, and the command it returns, its words read up to the terminators that \<^verbatim>\<open>nulterminate\<close> has stored, is the one the line stands for.
\<close>

theorem parsecmd_reads:
  assumes "set lead \<subseteq> set whitespace" and "proper ts" and "map fst ts = line_toks l" and "few_args l"
  shows "\<exists>c b. parsecmd (lead @ spelt ts @ 0 # junk) u = Ret (c, b) u \<and> map_cmd (str_at b) c = line_cmd l"
proof -
  let ?buf = "lead @ spelt ts @ 0 # junk"
  let ?s = "lead @ spelt ts"
  let ?r = "parseline (parse_depth ?s) ?s 0 u"
  have "\<forall>b \<in> set ?s. b \<noteq> 0" using assms(1) spelt_nonzero [OF assms(2)] by (auto simp: ascii_bytes)
  then have s: "upto_nul ?buf = ?s" using takeWhile_append2 [of ?s "\<lambda>b. b \<noteq> 0" "0 # junk"] by (simp add: upto_nul_def)
  have p: "parses ?s 0 u ?r" using parser_parses [of ?s 0 "parse_depth ?s" u] by (simp add: parse_depth_def)
  then have "?r \<noteq> Diverge" by (auto simp: parses_def)
  moreover have "ahead ?s 0 ts" unfolding ahead_def using assms(1,2) by auto
  ultimately have "gives ?s u ?r (line_cmd l) []"
    using parser_gives [of ?s 0 ts l "[]" "parse_depth ?s" u] assms(3,4) by (simp add: follow_def)
  then obtain c j where r: "?r = Ret (c, j) u" "map_cmd (span_text ?s) c = line_cmd l" "ahead ?s j []" by (auto simp: gives_def)
  have "skip_ws ?s j = length ?s" using ahead_ws(1,2) [OF r(3)] by (metis drop_eq_Nil le_antisym spelt.simps(1))
  then have e: "parsecmd ?buf u = Ret (c, nulterminate c ?buf) u" using r(1) s by (simp add: parsecmd_def Let_def)
  have "good_cmd ?s c" using p r(1) by simp
  then have "map_cmd (str_at (nulterminate c ?buf)) c = map_cmd (span_text ?s) c"
    using str_at_nulterminate [of ?buf c] s by (intro cmd.map_cong) auto
  then show ?thesis using e r(2) by simp
qed

theorem parsecmd_reads_witness:
  "spelt sample_toks = ascii ''cat <f|wc>>o & ;(ls)'' @ [10] \<and>
   (\<exists>c b. parsecmd ([] @ spelt sample_toks @ 0 # [7]) (ustart []) = Ret (c, b) (ustart []) \<and>
      map_cmd (str_at b) c =
        Listcmd (Backcmd (Pipecmd (Redircmd (Execcmd [ascii ''cat'']) (ascii ''f'') O_RDONLY 0)
            (Redircmd (Execcmd [ascii ''wc'']) (ascii ''o'') (O_WRONLY OR O_CREATE) 1)))
          (Execcmd [ascii ''ls'']))"
proof -
  have p: "proper sample_toks" by (simp add: sample_toks_def ascii_def word_char_def whitespace_def symbols_def)
  have m: "map fst sample_toks = line_toks sample_line" by (simp add: sample_toks_def sample_line_def)
  have f: "few_args sample_line" by (simp add: sample_line_def MAXARGS_def)
  have "spelt sample_toks = ascii ''cat <f|wc>>o & ;(ls)'' @ [10]" by (simp add: sample_toks_def ascii_def)
  moreover have "line_cmd sample_line =
      Listcmd (Backcmd (Pipecmd (Redircmd (Execcmd [ascii ''cat'']) (ascii ''f'') O_RDONLY 0)
          (Redircmd (Execcmd [ascii ''wc'']) (ascii ''o'') (O_WRONLY OR O_CREATE) 1)))
        (Execcmd [ascii ''ls''])" by (simp add: sample_line_def)
  moreover have "set [] \<subseteq> set whitespace" by simp
  ultimately show ?thesis using parsecmd_reads [OF _ p m f, of "[]" "[7]" "ustart []"] by simp
qed

end
