(* ===== verification/Spec2Isabelle.thy ===== *)
theory Spec2Isabelle
  imports Spinlock KString Kalloc Vm PageTable UserCopy Proc Sched ProcTable Sleeplock Bio Cache Blocks Log Fs
    Uart Printf Console Pipe File ProcSys Sysproc Exec Sysfile Virtio Syscall Trap Asm Ulib Programs Grep Umalloc Shell
begin

text \<open>
  Verification development for the xv6 teaching kernel with the user programs \<^verbatim>\<open>sleep\<close> and \<^verbatim>\<open>pingpong\<close>.
\<close>

end
